(* ===== verification/Prelude.thy ===== *)
theory Prelude
  imports Main "HOL-Library.Word" "HOL-Library.Monad_Syntax"
begin

unbundle bit_operations_syntax

text \<open>
  Shared vocabulary of the development: bytes and Go integers, Go errors, slices with
  their bounds checks, and the byte streams (\<open>io.Reader\<close>, \<open>io.Writer\<close>) that the
  protocol components read and write.

  Conventions.
  \<^item> A Go function that may panic has a result of type \<open>'a option\<close>; \<open>None\<close> is the
    panic, and the \<open>do\<close> notation of the option monad sequences such functions.
  \<^item> A Go \<open>error\<close> result is a value: \<open>go_error option\<close> beside the other results, or
    \<open>go_error + 'a\<close> where the other result is meaningless when the error is set.
  \<^item> A Go string is its byte sequence.
  \<^item> Go's \<open>int\<close> is \<open>int\<close> where the code only adds and compares indices bounded by the
    length of a slice; a fixed-width integer that the code shifts, masks or lets wrap is a
    word of that width.
\<close>

section \<open>Bytes, integers, literals\<close>

type_synonym byte = "8 word"
type_synonym bytes = "8 word list"
type_synonym uint16 = "16 word"
type_synonym uint32 = "32 word"
type_synonym uint64 = "64 word"

definition lit :: "string \<Rightarrow> bytes" where
  "lit s = map of_char s"

lemma lit_simps [simp]:
  "lit [] = []" "lit (c # cs) = of_char c # lit cs"
  by (simp_all add: lit_def)

lemma length_lit [simp]: "length (lit s) = length s"
  by (simp add: lit_def)

named_theorems codec_intros \<open>introduction rules for decoders that consume exactly an encoding\<close>
named_theorems rd_simps \<open>evaluation of the stream operations\<close>
named_theorems put_intros \<open>introduction rules for writers that append exactly an encoding\<close>

section \<open>Errors\<close>

text \<open>
  \<open>E.New\<close> and \<open>E.Cause\<close> render their arguments with \<open>F.ToString\<close>; the model keeps the
  arguments themselves. \<open>Errno n\<close> is a system error number and \<open>OtherError n\<close> stands for an error of the environment (a broken
  connection, an error of the caller's reader).
\<close>

datatype msg_part = Txt string | Num int | Str bytes

datatype go_error =
    EOF
  | ErrUnexpectedEOF
  | ErrShortBuffer
  | ErrInvalid
  | ErrorNew "msg_part list"
  | CauseError "msg_part list" go_error
  | Errno nat
  | OtherError nat

text \<open>\<open>errors.Is\<close>: equality with the target anywhere along the \<open>Unwrap\<close> chain.\<close>

fun errors_Is :: "go_error \<Rightarrow> go_error \<Rightarrow> bool" where
  "errors_Is (CauseError m e) target = (CauseError m e = target \<or> errors_Is e target)"
| "errors_Is e target = (e = target)"

section \<open>Slices\<close>

text \<open>
  Indexing and slicing with Go's bounds checks. \<open>go_slice\<close> reads \<open>xs[i:j]\<close> of a slice
  whose backing array (up to its capacity) is \<open>xs\<close>.
\<close>

definition go_index :: "'a list \<Rightarrow> int \<Rightarrow> 'a option" where
  "go_index xs i = (if 0 \<le> i \<and> i < int (length xs) then Some (xs ! nat i) else None)"

definition go_slice :: "'a list \<Rightarrow> int \<Rightarrow> int \<Rightarrow> 'a list option" where
  "go_slice xs i j =
     (if 0 \<le> i \<and> i \<le> j \<and> j \<le> int (length xs)
      then Some (take (nat (j - i)) (drop (nat i) xs)) else None)"

text \<open>\<open>copy\<close> into \<open>xs\<close> at offset \<open>i\<close>: the bytes that follow the copied ones stay.\<close>

definition blit :: "'a list \<Rightarrow> nat \<Rightarrow> 'a list \<Rightarrow> 'a list" where
  "blit xs i ys = take i xs @ ys @ drop (i + length ys) xs"

lemma length_blit [simp]: "i + length ys \<le> length xs \<Longrightarrow> length (blit xs i ys) = length xs"
  by (simp add: blit_def)

lemma blit_Nil [simp]: "blit xs i [] = xs"
  by (simp add: blit_def)

lemma take_blit_before [simp]: "j \<le> i \<Longrightarrow> i \<le> length xs \<Longrightarrow> take j (blit xs i ys) = take j xs"
  by (simp add: blit_def min_absorb1)

lemma take_blit:
  "i + length ys \<le> length xs \<Longrightarrow> take (i + length ys) (blit xs i ys) = take i xs @ ys"
  by (simp add: blit_def)

lemma drop_blit:
  "i + length ys \<le> length xs \<Longrightarrow> drop (i + length ys) (blit xs i ys) = drop (i + length ys) xs"
  by (simp add: blit_def)

lemma blit_blit:
  assumes "i + length ys \<le> length xs"
  shows "blit (blit xs i ys) (i + length ys) zs = blit xs i (ys @ zs)"
proof -
  have "drop (i + length ys + length zs) (blit xs i ys) = drop (length zs) (drop (i + length ys) (blit xs i ys))"
    by (simp add: add.commute)
  then show ?thesis
    unfolding blit_def [of "blit xs i ys"] take_blit [OF assms]
    using drop_blit [OF assms] assms
    by (simp add: blit_def min_absorb2 min_absorb1) (simp add: ac_simps)
qed

lemma nth_blit:
  "i + length ys \<le> length xs \<Longrightarrow> k < length xs \<Longrightarrow>
   blit xs i ys ! k = (if k < i then xs ! k else if k < i + length ys then ys ! (k - i) else xs ! k)"
  by (auto simp: blit_def nth_append)

lemma list_update_blit: "i < length xs \<Longrightarrow> xs[i := x] = blit xs i [x]"
  by (simp add: blit_def upd_conv_take_nth_drop)

lemma go_index_Some [simp]: "0 \<le> i \<Longrightarrow> i < int (length xs) \<Longrightarrow> go_index xs i = Some (xs ! nat i)"
  by (simp add: go_index_def)

lemma go_index_int: "go_index xs (int n) = (if n < length xs then Some (xs ! n) else None)"
  by (simp add: go_index_def)

lemma go_slice_Some [simp]:
  "0 \<le> i \<Longrightarrow> i \<le> j \<Longrightarrow> j \<le> int (length xs) \<Longrightarrow>
   go_slice xs i j = Some (take (nat (j - i)) (drop (nat i) xs))"
  by (simp add: go_slice_def)

lemma go_slice_length: "go_slice xs i j = Some ys \<Longrightarrow> int (length ys) = j - i"
  by (auto simp: go_slice_def split: if_splits)

section \<open>Reading a byte stream\<close>

text \<open>
  A reader is the bytes still to come and the error it reports when they are used up
  (\<open>EOF\<close> for a stream that ends cleanly). A decoder threads the reader and stops at the
  first error. \<open>ReadByte\<close> is both \<open>io.ByteReader.ReadByte\<close> and the one-byte \<open>io.ReadFull\<close>
  of \<open>varbin.stubReader\<close>; \<open>ReadFull\<close> is \<open>io.ReadFull\<close> into a buffer of \<open>n\<close> bytes, which
  reports \<open>ErrUnexpectedEOF\<close> when the stream ends after some of them. \<open>binary.Read\<close> of
  a fixed-size value is \<open>ReadFull\<close> of its size.
\<close>

record reader =
  rdata :: bytes
  rerr :: go_error

type_synonym 'a rd = "reader \<Rightarrow> (go_error + 'a) \<times> reader"

definition rd_return :: "'a \<Rightarrow> 'a rd" where
  "rd_return x r = (Inr x, r)"

definition rd_fail :: "go_error \<Rightarrow> 'a rd" where
  "rd_fail e r = (Inl e, r)"

definition rd_bind :: "'a rd \<Rightarrow> ('a \<Rightarrow> 'b rd) \<Rightarrow> 'b rd" where
  "rd_bind p f r = (case p r of (Inl e, r') \<Rightarrow> (Inl e, r') | (Inr x, r') \<Rightarrow> f x r')"

text \<open>\<open>err = E.Cause(err, ...)\<close> around a read.\<close>

definition rd_cause :: "msg_part list \<Rightarrow> 'a rd \<Rightarrow> 'a rd" where
  "rd_cause m p r = (case p r of (Inl e, r') \<Rightarrow> (Inl (CauseError m e), r') | (Inr x, r') \<Rightarrow> (Inr x, r'))"

definition ReadByte :: "byte rd" where
  "ReadByte r = (case rdata r of [] \<Rightarrow> (Inl (rerr r), r) | b # bs \<Rightarrow> (Inr b, r\<lparr>rdata := bs\<rparr>))"

definition ReadFull :: "nat \<Rightarrow> bytes rd" where
  "ReadFull n r =
     (if n \<le> length (rdata r) then (Inr (take n (rdata r)), r\<lparr>rdata := drop n (rdata r)\<rparr>)
      else if rdata r = [] then (Inl (rerr r), r)
      else (Inl (if rerr r = EOF then ErrUnexpectedEOF else rerr r), r\<lparr>rdata := []\<rparr>))"

definition be16 :: "uint16 \<Rightarrow> bytes" where
  "be16 w = [ucast (drop_bit 8 w), ucast w]"

definition of_be16 :: "byte \<Rightarrow> byte \<Rightarrow> uint16" where
  "of_be16 h l = push_bit 8 (ucast h) OR ucast l"

definition ReadUint16 :: "uint16 rd" where
  "ReadUint16 = rd_bind (ReadFull 2) (\<lambda>bs. rd_return (of_be16 (bs ! 0) (bs ! 1)))"

lemma of_be16_be16 [simp]: "of_be16 (ucast (drop_bit 8 w)) (ucast w) = w"
  by (rule bit_word_eqI)
     (auto simp: of_be16_def bit_or_iff bit_push_bit_iff bit_ucast_iff bit_drop_bit_eq not_le)

lemma be16_of_be16 [simp]: "be16 (of_be16 h l) = [h, l]"
proof -
  have h: "bit h n \<Longrightarrow> n < 8" and l: "bit l n \<Longrightarrow> n < 8" for n
    using bit_imp_le_length [of h n] bit_imp_le_length [of l n] by simp_all
  show ?thesis
    unfolding be16_def of_be16_def
    by (auto intro!: bit_word_eqI
        simp: bit_or_iff bit_push_bit_iff bit_ucast_iff bit_drop_bit_eq dest: h l)
qed

lemma length_be16 [simp]: "length (be16 w) = 2"
  by (simp add: be16_def)

lemma rd_bind_return [rd_simps]: "rd_bind (rd_return x) f = f x"
  by (simp add: rd_bind_def rd_return_def fun_eq_iff)

lemma rd_bind_fail [rd_simps]: "rd_bind (rd_fail e) f = rd_fail e"
  by (simp add: rd_bind_def rd_fail_def fun_eq_iff)

lemma rd_bind_assoc [rd_simps]: "rd_bind (rd_bind p f) g = rd_bind p (\<lambda>x. rd_bind (f x) g)"
  by (auto simp: rd_bind_def fun_eq_iff split: sum.splits prod.splits)

section \<open>Writing in sequence\<close>

text \<open>
  \<open>w_then f g\<close> runs \<open>g\<close> unless \<open>f\<close> reports an error (\<open>if err != nil { return err }\<close>), and
  \<open>common_Error\<close> is \<open>common.Error\<close>, which keeps the error of a write and drops its count.
\<close>

type_synonym 'w write_op = "'w \<Rightarrow> (go_error option \<times> 'w) option"

definition w_then :: "'w write_op \<Rightarrow> 'w write_op \<Rightarrow> 'w write_op" where
  "w_then f g w = do { (err, w') \<leftarrow> f w; case err of Some e \<Rightarrow> Some (Some e, w') | None \<Rightarrow> g w' }"

definition common_Error :: "('w \<Rightarrow> ((nat \<times> go_error option) \<times> 'w) option) \<Rightarrow> 'w write_op" where
  "common_Error f w = do { ((_, err), w') \<leftarrow> f w; Some (err, w') }"

definition w_fail :: "go_error \<Rightarrow> 'w write_op" where
  "w_fail e w = Some (Some e, w)"

definition w_skip :: "'w write_op" where
  "w_skip w = Some (None, w)"

lemmas rd_defs = rd_return_def rd_fail_def rd_bind_def rd_cause_def ReadByte_def ReadFull_def
  ReadUint16_def

end
