(* ===== verification/Alloc.thy ===== *)
theory Alloc
  imports Prelude
begin

text \<open>
  The pooled allocator of \<open>common/buf/alloc.go\<close> and its entry points in
  \<open>common/buf/pool.go\<close>: twelve pools of fixed-size arrays (64 bytes to 64 KiB in powers of
  two, and one of 72 KiB). A pool is the list of arrays it holds; \<open>sync.Pool.Get\<close> takes
  one, or makes a zeroed array with the pool's \<open>New\<close> function when there is none (so a
  pool emptied by the garbage collector is the empty list).
\<close>

section \<open>Definitions\<close>

text \<open>A Go slice: its backing array up to the capacity, and its length.\<close>

record slice =
  arr :: bytes
  slen :: nat

definition slice_bytes :: "slice \<Rightarrow> bytes" where
  "slice_bytes s = take (slen s) (arr s)"

definition MaxPooledBufferSize :: int where
  "MaxPooledBufferSize = 2 ^ 16 + 2 ^ 13"

type_synonym pools = "nat \<Rightarrow> bytes list"

text \<open>The array sizes of \<open>newDefaultAllocator\<close>.\<close>

definition class_size :: "nat \<Rightarrow> nat" where
  "class_size i = (if i = 11 then nat MaxPooledBufferSize else 2 ^ (6 + i))"

definition newDefaultAllocator :: pools where
  "newDefaultAllocator = (\<lambda>_. [])"

definition pool_Get :: "nat \<Rightarrow> pools \<Rightarrow> bytes \<times> pools" where
  "pool_Get i p = (case p i of [] \<Rightarrow> (replicate (class_size i) 0, p) | a # as \<Rightarrow> (a, p(i := as)))"

definition pool_Put :: "nat \<Rightarrow> bytes \<Rightarrow> pools \<Rightarrow> pools" where
  "pool_Put i a p = p(i := a # p i)"

text \<open>\<open>bits.Len32\<close> and \<open>msb\<close>: for \<open>0\<close> the \<open>uint16\<close> wraps to 65535.\<close>

fun bits_Len :: "nat \<Rightarrow> nat" where
  "bits_Len n = (if n = 0 then 0 else Suc (bits_Len (n div 2)))"

declare bits_Len.simps [simp del]

definition msb :: "int \<Rightarrow> uint16" where
  "msb sz = of_int (int (bits_Len (unat (of_int sz :: uint32))) - 1)"

definition get_index :: "int \<Rightarrow> uint16" where
  "get_index sz =
     (if sz > 64 then
        (if sz > 2 ^ 16 then 11
         else (let index = msb sz;
                   index' = (if sz \<noteq> 2 ^ unat index then index + 1 else index)
               in index' - 6))
      else 0)"

text \<open>
  \<open>Get\<close>: the outer \<open>None\<close> is a panic (an unknown index, or slicing the array past its
  end), the inner \<open>None\<close> the nil slice.
\<close>

definition alloc_Get :: "int \<Rightarrow> pools \<Rightarrow> (slice option \<times> pools) option" where
  "alloc_Get sz p =
     (if sz \<le> 0 \<or> sz > MaxPooledBufferSize then Some (None, p)
      else let index = get_index sz; (buffer, p') = pool_Get (unat index) p
        in if index \<le> 11 \<and> sz \<le> int (length buffer)
           then Some (Some \<lparr>arr = buffer, slen = nat sz\<rparr>, p') else None)"

definition Put_error :: go_error where
  "Put_error = ErrorNew [Txt ''allocator Put() incorrect buffer size'']"

definition alloc_Put :: "slice \<Rightarrow> pools \<Rightarrow> (go_error option \<times> pools) option" where
  "alloc_Put buf p =
     (let cap = int (length (arr buf)); index = msb cap;
          store = (\<lambda>i. if i \<le> 11 \<and> length (arr buf) = class_size (unat i)
                        then Some (None, pool_Put (unat i) (arr buf) p) else None)
      in if cap = MaxPooledBufferSize then store 11
         else if cap < 64 \<or> cap > 65536 then Some (Some Put_error, p)
         else if cap \<noteq> 2 ^ unat index then Some (Some Put_error, p)
         else store (index - 6))"

text \<open>\<open>pool.go\<close>\<close>

definition buf_Get :: "int \<Rightarrow> pools \<Rightarrow> (slice option \<times> pools) option" where
  "buf_Get sz p = (if sz = 0 then Some (None, p) else alloc_Get sz p)"

definition buf_Put :: "slice \<Rightarrow> pools \<Rightarrow> (go_error option \<times> pools) option" where
  "buf_Put buf p = alloc_Put buf p"

text \<open>\<open>make([]byte, sz)\<close> panics for a negative size.\<close>

definition buf_Make :: "int \<Rightarrow> slice option" where
  "buf_Make sz = (if sz < 0 then None else Some \<lparr>arr = replicate (nat sz) 0, slen = nat sz\<rparr>)"

section \<open>Size classes\<close>

text \<open>The invariant of the pools: pool \<open>i\<close> holds arrays of its own size only.\<close>

definition wf_pools :: "pools \<Rightarrow> bool" where
  "wf_pools p \<longleftrightarrow> (\<forall>i. \<forall>a \<in> set (p i). length a = class_size i)"

lemma bits_Len_bounds: "0 < n \<Longrightarrow> 2 ^ (bits_Len n - 1) \<le> n \<and> n < 2 ^ bits_Len n"
proof (induction n rule: bits_Len.induct)
  case (1 n)
  show ?case
  proof (cases "n div 2 = 0")
    case True
    with "1.prems" have "n = 1" by simp
    then show ?thesis by (simp add: bits_Len.simps)
  next
    case False
    with "1.IH" "1.prems" have "2 ^ (bits_Len (n div 2) - 1) \<le> n div 2 \<and> n div 2 < 2 ^ bits_Len (n div 2)"
      by simp
    moreover from False obtain k where "bits_Len (n div 2) = Suc k"
      by (subst (asm) bits_Len.simps) (auto simp: bits_Len.simps [of "n div 2"])
    ultimately show ?thesis
      using "1.prems" by (auto simp: bits_Len.simps [of n])
  qed
qed

lemma bits_Len_unique: "2 ^ k \<le> n \<Longrightarrow> n < 2 ^ Suc k \<Longrightarrow> bits_Len n = Suc k"
proof -
  assume lo: "2 ^ k \<le> n" and hi: "n < 2 ^ Suc k"
  then have n: "0 < n" by (meson less_le_trans zero_less_power zero_less_numeral)
  from bits_Len_bounds [OF n] lo hi have "2 ^ k < (2::nat) ^ bits_Len n" "2 ^ (bits_Len n - 1) < (2::nat) ^ Suc k"
    by linarith+
  then have "k < bits_Len n" "bits_Len n - 1 < Suc k"
    by (simp_all only: power_strict_increasing_iff)
  then show ?thesis by simp
qed

lemma msb_eq:
  assumes "2 ^ k \<le> n" "n < 2 ^ Suc k" "k \<le> 16"
  shows "msb (int n) = of_nat k"
proof -
  have "n < 2 ^ Suc 16"
    using assms(2,3) by (meson Suc_le_mono less_le_trans one_le_numeral power_increasing)
  then have "unat (of_int (int n) :: uint32) = n"
    by (simp add: unsigned_of_nat take_bit_eq_mod)
  then show ?thesis
    using bits_Len_unique [OF assms(1,2)] by (simp add: msb_def)
qed

lemma pow2_range:
  fixes n :: nat
  assumes "64 \<le> n" "n \<le> 65536"
  obtains k where "6 \<le> k" "k \<le> 16" "2 ^ k \<le> n" "n < 2 ^ Suc k"
proof -
  let ?k = "bits_Len n - 1"
  have b: "2 ^ ?k \<le> n" "n < 2 ^ bits_Len n"
    using bits_Len_bounds [of n] assms by simp_all
  have pos: "bits_Len n = Suc ?k"
    using assms by (simp add: bits_Len.simps [of n])
  have "(2::nat) ^ 6 < 2 ^ Suc ?k" "(2::nat) ^ ?k < 2 ^ 17"
    using b assms pos by simp_all
  then have "6 < Suc ?k" "?k < 17"
    by (simp_all only: power_strict_increasing_iff)
  with b pos show ?thesis using that [of ?k] by simp
qed

text \<open>\<open>Get\<close> picks the smallest class that holds the size.\<close>

lemma get_index_class:
  assumes "0 < sz" "sz \<le> MaxPooledBufferSize"
  shows "get_index sz \<le> 11 \<and> sz \<le> int (class_size (unat (get_index sz))) \<and>
     (\<forall>j. j < unat (get_index sz) \<longrightarrow> int (class_size j) < sz)"
proof -
  consider "sz \<le> 64" | "64 < sz" "sz \<le> 65536" | "65536 < sz" by linarith
  then show ?thesis
  proof cases
    case 1
    then show ?thesis by (simp add: get_index_def class_size_def)
  next
    case 2
    define n where "n = nat sz"
    with 2 have n: "sz = int n" "64 \<le> n" "64 < n" "n \<le> 65536" by simp_all
    obtain k where k: "6 \<le> k" "k \<le> 16" "2 ^ k \<le> n" "n < 2 ^ Suc k"
      by (rule pow2_range [OF n(2,4)])
    have m: "msb sz = of_nat k" unfolding n(1) by (rule msb_eq [OF k(3,4,2)])
    define i where "i = (if n = 2 ^ k then k - 6 else k - 5)"
    have gt: "get_index sz = of_nat i"
      using 2 n m k by (auto simp: get_index_def i_def Let_def unsigned_of_nat take_bit_eq_mod)
    have i: "i \<le> 10"
    proof (cases "k = 16")
      case True
      with k n have "n = 2 ^ k" by simp
      with True show ?thesis by (simp add: i_def)
    next
      case False
      with k(1,2) show ?thesis unfolding i_def by auto
    qed
    have "n \<le> 2 ^ (6 + i)"
      using k by (auto simp: i_def)
    moreover have "2 ^ (6 + j) < n" if "j < i" for j
    proof -
      have "(2::nat) ^ (6 + j) \<le> 2 ^ (5 + i)" using that by (intro power_increasing) auto
      also have "\<dots> < n"
      proof (cases "n = 2 ^ k")
        case True
        with that have "5 + i < k" by (simp add: i_def)
        then show ?thesis unfolding True by (rule power_strict_increasing) simp
      next
        case False
        with k that show ?thesis by (simp add: i_def)
      qed
      finally show ?thesis .
    qed
    moreover have "unat (get_index sz) = i" "get_index sz \<le> 11"
      using i by (simp_all add: gt unsigned_of_nat take_bit_eq_mod word_le_nat_alt)
    ultimately show ?thesis
      using i by (simp add: n(1) class_size_def)
  next
    case 3
    have "(2::int) ^ (6 + j) < sz" if "j < 11" for j
    proof -
      have "(2::int) ^ (6 + j) \<le> 2 ^ 16" using that by (intro power_increasing) auto
      with 3 show ?thesis by simp
    qed
    with 3 assms show ?thesis by (simp add: get_index_def class_size_def)
  qed
qed

lemma pool_Get_length:
  "wf_pools p \<Longrightarrow> pool_Get i p = (a, p') \<Longrightarrow> length a = class_size i \<and> wf_pools p'"
  by (auto simp: pool_Get_def wf_pools_def split: list.splits if_splits)

lemma wf_newDefaultAllocator: "wf_pools newDefaultAllocator"
  by (simp add: wf_pools_def newDefaultAllocator_def)

lemma alloc_Get_wf:
  assumes "wf_pools p" "0 < sz" "sz \<le> MaxPooledBufferSize"
  obtains s p' where "alloc_Get sz p = Some (Some s, p')" "wf_pools p'" "slen s = nat sz"
    "length (arr s) = class_size (unat (get_index sz))" "slen s \<le> length (arr s)"
proof -
  let ?i = "get_index sz"
  obtain a p' where g: "pool_Get (unat ?i) p = (a, p')" by fastforce
  from pool_Get_length [OF assms(1) g] have a: "length a = class_size (unat ?i)" "wf_pools p'" by simp_all
  from get_index_class [OF assms(2,3)] have i: "?i \<le> 11" "sz \<le> int (class_size (unat ?i))" by simp_all
  have "alloc_Get sz p = Some (Some \<lparr>arr = a, slen = nat sz\<rparr>, p')"
    using assms i a by (simp add: alloc_Get_def g)
  with a i show ?thesis using that by simp
qed

lemma alloc_Get_nil: "sz \<le> 0 \<or> MaxPooledBufferSize < sz \<Longrightarrow> alloc_Get sz p = Some (None, p)"
  by (auto simp: alloc_Get_def)

text \<open>\<open>Put\<close> takes back exactly the arrays of a class.\<close>

lemma alloc_Put_class:
  assumes "i \<le> 11" "length (arr s) = class_size i"
  shows "alloc_Put s p = Some (None, pool_Put i (arr s) p)"
proof (cases "i = 11")
  case True
  with assms show ?thesis by (simp add: alloc_Put_def class_size_def MaxPooledBufferSize_def)
next
  case False
  with assms have i: "6 + i \<le> 16" and len: "length (arr s) = 2 ^ (6 + i)"
    by (simp_all add: class_size_def)
  have m: "msb (int (length (arr s))) = of_nat (6 + i)"
    unfolding len by (rule msb_eq) (use i in simp_all)
  have "(2::nat) ^ (6 + i) \<le> 2 ^ 16" "(2::nat) ^ 6 \<le> 2 ^ (6 + i)"
    using i by (intro power_increasing; simp)+
  then have c: "64 \<le> length (arr s)" "length (arr s) \<le> 65536" by (simp_all add: len)
  have u: "unat (of_nat (6 + i) :: uint16) = 6 + i" "(of_nat (6 + i) :: uint16) - 6 = of_nat i"
    "unat (of_nat i :: uint16) = i" "(of_nat i :: uint16) \<le> 11"
    using i by (simp_all add: unsigned_of_nat take_bit_eq_mod word_le_nat_alt del: of_nat_add) simp
  have l2: "int (length (arr s)) = 2 ^ (6 + i)" by (simp add: len)
  have n1: "int (length (arr s)) \<noteq> MaxPooledBufferSize"
    and n2: "\<not> (int (length (arr s)) < 64 \<or> 65536 < int (length (arr s)))"
    using c by (simp_all add: MaxPooledBufferSize_def)
  show ?thesis
    unfolding alloc_Put_def Let_def m u if_not_P [OF n1] if_not_P [OF n2]
    using u(4) assms(2) l2 by simp
qed

lemma alloc_Put_other:
  assumes "\<And>i. i \<le> 11 \<Longrightarrow> length (arr s) \<noteq> class_size i"
  shows "alloc_Put s p = Some (Some Put_error, p)"
proof -
  let ?n = "length (arr s)"
  have max: "int ?n \<noteq> MaxPooledBufferSize"
    using assms [of 11] by (auto simp: class_size_def)
  show ?thesis
  proof (cases "?n < 64 \<or> ?n > 65536")
    case True
    with max show ?thesis by (auto simp: alloc_Put_def Let_def)
  next
    case False
    then have n: "64 \<le> ?n" "?n \<le> 65536" by simp_all
    obtain k where k: "6 \<le> k" "k \<le> 16" "2 ^ k \<le> ?n" "?n < 2 ^ Suc k"
      by (rule pow2_range [OF n])
    from k(1) obtain j where j: "k = 6 + j" by (metis le_Suc_ex)
    with k have "?n \<noteq> 2 ^ k" using assms [of j] by (simp add: class_size_def)
    then have "int ?n \<noteq> 2 ^ k"
      by (metis of_nat_eq_iff of_nat_numeral of_nat_power)
    with k max False show ?thesis
      by (simp add: alloc_Put_def Let_def msb_eq [OF k(3,4,2)] unsigned_of_nat take_bit_eq_mod)
  qed
qed

end
