(* ===== verification/Codec.thy ===== *)
theory Codec
  imports Prelude
begin

text \<open>
  Wire formats. A decoder \<^emph>\<open>yields\<close> a value on a byte string when it consumes exactly
  those bytes whatever follows them, and it \<^emph>\<open>starves\<close> on the byte string when it reports
  an error on every proper prefix. The locale \<open>codec\<close> states the contract of an encoder
  and a decoder; its lemmas (messages decoded in sequence, encodings that are prefix-free,
  truncated streams rejected) are proved once and reach every wire format of the program
  through an interpretation.
\<close>

section \<open>Decoders that consume an encoding\<close>

definition yields :: "'a rd \<Rightarrow> bytes \<Rightarrow> 'a \<Rightarrow> bool" where
  "yields p bs v \<longleftrightarrow>
     (\<forall>rest e. p \<lparr>rdata = bs @ rest, rerr = e\<rparr> = (Inr v, \<lparr>rdata = rest, rerr = e\<rparr>))"

definition starves :: "'a rd \<Rightarrow> bytes \<Rightarrow> bool" where
  "starves p bs \<longleftrightarrow>
     (\<forall>k e. k < length bs \<longrightarrow> (\<exists>err r. p \<lparr>rdata = take k bs, rerr = e\<rparr> = (Inl err, r)))"

lemma yieldsD: "yields p bs v \<Longrightarrow> p \<lparr>rdata = bs @ rest, rerr = e\<rparr> = (Inr v, \<lparr>rdata = rest, rerr = e\<rparr>)"
  by (simp add: yields_def)

lemma starvesD:
  assumes "starves p bs" "k < length bs"
  obtains err r where "p \<lparr>rdata = take k bs, rerr = e\<rparr> = (Inl err, r)"
  using assms unfolding starves_def by metis

lemma yields_return [codec_intros]: "yields (rd_return v) [] v"
  by (simp add: yields_def rd_return_def)

lemma yields_result: "v = w \<Longrightarrow> yields (rd_return v) [] w"
  by (simp add: yields_return)

lemma yields_bind:
  assumes "yields p bs v" "yields (f v) cs w"
  shows "yields (rd_bind p f) (bs @ cs) w"
  using assms by (simp add: yields_def rd_bind_def)

lemma yields_bind_Nil [codec_intros]:
  assumes "yields p bs v" "yields (f v) [] w"
  shows "yields (rd_bind p f) bs w"
  using yields_bind [of p bs v f "[]" w] assms by simp

lemma yields_ReadByte [codec_intros]: "yields ReadByte [b] b"
  by (simp add: yields_def ReadByte_def)

lemma yields_ReadByte_bind [codec_intros]:
  "yields (f b) cs w \<Longrightarrow> yields (rd_bind ReadByte f) (b # cs) w"
  using yields_bind [of ReadByte "[b]" b f cs w] by (simp add: yields_ReadByte)

lemma yields_ReadFull [codec_intros]: "length bs = n \<Longrightarrow> yields (ReadFull n) bs bs"
  by (auto simp: yields_def ReadFull_def)

lemma yields_ReadUint16 [codec_intros]: "yields ReadUint16 (be16 w) w"
  by (simp add: yields_def ReadUint16_def ReadFull_def rd_bind_def rd_return_def be16_def)

lemma yields_cause [codec_intros]: "yields p bs v \<Longrightarrow> yields (rd_cause m p) bs v"
  by (simp add: yields_def rd_cause_def)

lemma starves_return [codec_intros]: "starves (rd_return v) []"
  by (simp add: starves_def)

lemma starves_Nil [simp]: "starves p []"
  by (simp add: starves_def)

lemma starves_bind:
  assumes y: "yields p bs v" and p: "starves p bs" and f: "starves (f v) cs"
  shows "starves (rd_bind p f) (bs @ cs)"
  unfolding starves_def
proof (intro allI impI)
  fix k e
  assume k: "k < length (bs @ cs)"
  show "\<exists>err r. rd_bind p f \<lparr>rdata = take k (bs @ cs), rerr = e\<rparr> = (Inl err, r)"
  proof (cases "k < length bs")
    case True
    obtain err r where "p \<lparr>rdata = take k bs, rerr = e\<rparr> = (Inl err, r)"
      by (rule starvesD [OF p True])
    with True show ?thesis by (simp add: rd_bind_def)
  next
    case False
    then have split: "take k (bs @ cs) = bs @ take (k - length bs) cs"
      by simp
    from False k have "k - length bs < length cs" by simp
    then obtain err r where "f v \<lparr>rdata = take (k - length bs) cs, rerr = e\<rparr> = (Inl err, r)"
      by (rule starvesD [OF f])
    then show ?thesis
      unfolding split rd_bind_def by (simp add: yieldsD [OF y])
  qed
qed

lemma starves_bind_Nil [codec_intros]:
  "yields p bs v \<Longrightarrow> starves p bs \<Longrightarrow> starves (rd_bind p f) bs"
  using starves_bind [of p bs v f "[]"] by simp

lemma starves_ReadByte [codec_intros]: "starves ReadByte [b]"
  by (simp add: starves_def ReadByte_def)

lemma starves_ReadByte_bind [codec_intros]:
  "starves (f b) cs \<Longrightarrow> starves (rd_bind ReadByte f) (b # cs)"
  using starves_bind [of ReadByte "[b]" b f cs] by (simp add: yields_ReadByte starves_ReadByte)

lemma starves_ReadFull [codec_intros]: "length bs = n \<Longrightarrow> starves (ReadFull n) bs"
  by (auto simp: starves_def ReadFull_def)

lemma starves_ReadUint16 [codec_intros]: "starves ReadUint16 (be16 w)"
  by (auto simp: starves_def ReadUint16_def ReadFull_def rd_bind_def be16_def)

lemma starves_cause [codec_intros]: "starves p bs \<Longrightarrow> starves (rd_cause m p) bs"
  unfolding starves_def rd_cause_def by (metis (mono_tags, lifting) old.prod.case old.sum.simps(5))

section \<open>The contract of a wire format\<close>

fun read_many :: "nat \<Rightarrow> 'a rd \<Rightarrow> 'a list rd" where
  "read_many 0 p = rd_return []"
| "read_many (Suc n) p = rd_bind p (\<lambda>x. rd_bind (read_many n p) (\<lambda>xs. rd_return (x # xs)))"

locale codec =
  fixes enc :: "'a \<Rightarrow> bytes"
    and dec :: "'a rd"
    and ok :: "'a \<Rightarrow> bool"
  assumes dec_enc: "ok x \<Longrightarrow> yields dec (enc x) x"
    and dec_starves: "ok x \<Longrightarrow> starves dec (enc x)"
begin

lemma roundtrip:
  "ok x \<Longrightarrow> dec \<lparr>rdata = enc x @ rest, rerr = e\<rparr> = (Inr x, \<lparr>rdata = rest, rerr = e\<rparr>)"
  by (rule yieldsD [OF dec_enc])

lemma read_many_stream: "\<forall>x \<in> set xs. ok x \<Longrightarrow> yields (read_many (length xs) dec) (concat (map enc xs)) xs"
proof (induction xs)
  case Nil
  show ?case by (simp add: yields_return)
next
  case (Cons x xs)
  let ?rest = "\<lambda>x. rd_bind (read_many (length xs) dec) (\<lambda>xs. rd_return (x # xs))"
  from Cons have "yields (?rest x) (concat (map enc xs)) (x # xs)"
    by (intro yields_bind_Nil [where v = xs]) (simp_all add: yields_return)
  moreover from Cons.prems have "yields dec (enc x) x"
    by (simp add: dec_enc)
  ultimately show ?case
    using yields_bind [of dec "enc x" x ?rest] by simp
qed

lemma prefix_free:
  assumes "ok x" "ok y" "enc x @ r = enc y @ s"
  shows "x = y \<and> r = s"
proof -
  have x: "dec \<lparr>rdata = enc y @ s, rerr = EOF\<rparr> = (Inr x, \<lparr>rdata = r, rerr = EOF\<rparr>)"
    using roundtrip [OF assms(1), of r EOF] unfolding assms(3) .
  show ?thesis
    using x unfolding roundtrip [OF assms(2)] by simp
qed

lemma truncated:
  "ok x \<Longrightarrow> k < length (enc x) \<Longrightarrow> \<exists>err r. dec \<lparr>rdata = take k (enc x), rerr = e\<rparr> = (Inl err, r)"
  by (rule starvesD [OF dec_starves]) auto

end

end
