(* ===== verification/Varint.thy ===== *)
theory Varint
  imports Codec
begin

text \<open>
  Variable-length integers: \<open>common/binary/varint.go\<close> (encoders, the slice decoder
  \<open>Uvarint\<close>, the stream decoder \<open>ReadUvarint\<close>, the zig-zag \<open>Varint\<close> forms),
  \<open>common/varbin/uvarint.go\<close> (the \<open>io.ByteWriter\<close> encoder and the length function) and
  the deprecated wrappers of \<open>common/rw/varint.go\<close>. Values are 64-bit words, bytes 8-bit
  words, as in the code; a signed \<open>int64\<close> is its two's-complement word.
\<close>

section \<open>Definitions\<close>

definition MaxVarintLen64 :: nat where
  "MaxVarintLen64 = 10"

definition errOverflow :: go_error where
  "errOverflow = ErrorNew [Txt ''binary: varint overflows a 64-bit integer'']"

lemma unat_drop7 [termination_simp]: "0x80 \<le> (x :: uint64) \<Longrightarrow> unat (drop_bit 7 x) < unat x"
proof -
  assume "0x80 \<le> x"
  then have "128 \<le> unat x" by (simp add: word_le_nat_alt)
  then show ?thesis by (simp add: drop_bit_eq_div unat_div)
qed

function AppendUvarint :: "bytes \<Rightarrow> uint64 \<Rightarrow> bytes" where
  "AppendUvarint buf x =
     (if 0x80 \<le> x then AppendUvarint (buf @ [ucast x OR 0x80]) (drop_bit 7 x)
      else buf @ [ucast x])"
  by pat_completeness auto
termination
  by (relation "measure (\<lambda>(buf, x). unat x)") (simp_all add: unat_drop7)

text \<open>\<open>buf[i] = v\<close> panics out of range, so \<open>PutUvarint\<close> does when the buffer is too small.\<close>

definition put_at :: "bytes \<Rightarrow> nat \<Rightarrow> byte \<Rightarrow> bytes option" where
  "put_at buf i b = (if i < length buf then Some (buf[i := b]) else None)"

function PutUvarint_loop :: "nat \<Rightarrow> bytes \<Rightarrow> uint64 \<Rightarrow> (nat \<times> bytes) option" where
  "PutUvarint_loop i buf x =
     (if 0x80 \<le> x
      then do { buf' \<leftarrow> put_at buf i (ucast x OR 0x80); PutUvarint_loop (i + 1) buf' (drop_bit 7 x) }
      else do { buf' \<leftarrow> put_at buf i (ucast x); Some (i + 1, buf') })"
  by pat_completeness auto
termination
  by (relation "measure (\<lambda>(i, buf, x). unat x)") (simp_all add: unat_drop7)

definition PutUvarint :: "bytes \<Rightarrow> uint64 \<Rightarrow> (nat \<times> bytes) option" where
  "PutUvarint buf x = PutUvarint_loop 0 buf x"

fun Uvarint_loop :: "nat \<Rightarrow> uint64 \<Rightarrow> nat \<Rightarrow> bytes \<Rightarrow> uint64 \<times> int" where
  "Uvarint_loop i x s [] = (0, 0)"
| "Uvarint_loop i x s (b # bs) =
     (if i = MaxVarintLen64 then (0, - (int i + 1))
      else if b < 0x80 then
        (if i = MaxVarintLen64 - 1 \<and> b > 1 then (0, - (int i + 1))
         else (x OR push_bit s (ucast b), int i + 1))
      else Uvarint_loop (i + 1) (x OR push_bit s (ucast (b AND 0x7f))) (s + 7) bs)"

definition Uvarint :: "bytes \<Rightarrow> uint64 \<times> int" where
  "Uvarint buf = Uvarint_loop 0 0 0 buf"

fun ReadUvarint_loop :: "nat \<Rightarrow> nat \<Rightarrow> uint64 \<Rightarrow> nat \<Rightarrow> uint64 rd" where
  "ReadUvarint_loop 0 i x s r = (Inl errOverflow, r)"
| "ReadUvarint_loop (Suc n) i x s r =
     (case ReadByte r of
        (Inl err, r') \<Rightarrow> (Inl (if 0 < i \<and> err = EOF then ErrUnexpectedEOF else err), r')
      | (Inr b, r') \<Rightarrow>
          if b < 0x80 then
            (if i = MaxVarintLen64 - 1 \<and> b > 1 then (Inl errOverflow, r')
             else (Inr (x OR push_bit s (ucast b)), r'))
          else ReadUvarint_loop n (i + 1) (x OR push_bit s (ucast (b AND 0x7f))) (s + 7) r')"

definition ReadUvarint :: "uint64 rd" where
  "ReadUvarint = ReadUvarint_loop MaxVarintLen64 0 0 0"

text \<open>The zig-zag mapping of \<open>AppendVarint\<close>, \<open>PutVarint\<close> and its inverse in \<open>Varint\<close>.\<close>

definition zigzag :: "uint64 \<Rightarrow> uint64" where
  "zigzag x = (let ux = push_bit 1 x in if sint x < 0 then NOT ux else ux)"

definition unzigzag :: "uint64 \<Rightarrow> uint64" where
  "unzigzag ux = (let x = drop_bit 1 ux in if ux AND 1 \<noteq> 0 then NOT x else x)"

definition AppendVarint :: "bytes \<Rightarrow> uint64 \<Rightarrow> bytes" where
  "AppendVarint buf x = AppendUvarint buf (zigzag x)"

definition PutVarint :: "bytes \<Rightarrow> uint64 \<Rightarrow> (nat \<times> bytes) option" where
  "PutVarint buf x = PutUvarint buf (zigzag x)"

definition Varint :: "bytes \<Rightarrow> uint64 \<times> int" where
  "Varint buf = (let (ux, n) = Uvarint buf in (unzigzag ux, n))"

definition ReadVarint :: "uint64 rd" where
  "ReadVarint = rd_bind ReadUvarint (\<lambda>ux. rd_return (unzigzag ux))"

text \<open>
  \<open>varbin.WriteUvarint\<close> writes through an \<open>io.ByteWriter\<close>: the writer's \<open>WriteByte\<close>, which
  may panic, is an argument. The result is the number of bytes written and the first error.
\<close>

type_synonym 'w write_byte = "'w \<Rightarrow> byte \<Rightarrow> (go_error option \<times> 'w) option"

function WriteUvarint_loop ::
  "'w write_byte \<Rightarrow> nat \<Rightarrow> 'w \<Rightarrow> uint64 \<Rightarrow> ((nat \<times> go_error option) \<times> 'w) option" where
  "WriteUvarint_loop wb writeN w x =
     (if 0x80 \<le> x then
        (case wb w (ucast x OR 0x80) of
           None \<Rightarrow> None
         | Some (Some err, w') \<Rightarrow> Some ((writeN, Some err), w')
         | Some (None, w') \<Rightarrow> WriteUvarint_loop wb (writeN + 1) w' (drop_bit 7 x))
      else
        (case wb w (ucast x) of
           None \<Rightarrow> None
         | Some (Some err, w') \<Rightarrow> Some ((writeN, Some err), w')
         | Some (None, w') \<Rightarrow> Some ((writeN + 1, None), w')))"
  by pat_completeness auto
termination
  by (relation "measure (\<lambda>(wb, writeN, w, x). unat x)") (simp_all add: unat_drop7)

definition WriteUvarint ::
  "'w write_byte \<Rightarrow> 'w \<Rightarrow> uint64 \<Rightarrow> ((nat \<times> go_error option) \<times> 'w) option" where
  "WriteUvarint wb w x = WriteUvarint_loop wb 0 w x"

definition UvarintLen :: "uint64 \<Rightarrow> nat" where
  "UvarintLen x =
     (if x < 2 ^ 7 then 1 else if x < 2 ^ 14 then 2 else if x < 2 ^ 21 then 3
      else if x < 2 ^ 28 then 4 else if x < 2 ^ 35 then 5 else if x < 2 ^ 42 then 6
      else if x < 2 ^ 49 then 7 else 8)"

text \<open>
  The deprecated \<open>rw.WriteUVariant\<close>: the bytes handed to the writer, from a fixed 8-byte
  scratch array; \<open>None\<close> is the index panic of \<open>PutUvarint\<close>.
\<close>

definition WriteUVariant :: "uint64 \<Rightarrow> bytes option" where
  "WriteUVariant x = do { (n, b) \<leftarrow> PutUvarint (replicate 8 0) x; Some (take n b) }"

definition ReadUVariant :: "uint64 rd" where
  "ReadUVariant = ReadUvarint"

definition WriteVString :: "bytes \<Rightarrow> bytes option" where
  "WriteVString s = do { h \<leftarrow> WriteUVariant (of_nat (length s)); Some (h @ s) }"

text \<open>\<open>ReadBytes(reader, int(length))\<close>: a length above \<open>2^63 - 1\<close> is a negative \<open>int\<close>, and \<open>make\<close> panics.\<close>

definition ReadVString :: "reader \<Rightarrow> ((go_error + bytes) \<times> reader) option" where
  "ReadVString r =
     (case ReadUVariant r of
        (Inl err, r') \<Rightarrow> Some (Inl err, r')
      | (Inr len, r') \<Rightarrow> if sint len < 0 then None else Some (ReadFull (unat len) r'))"

declare AppendUvarint.simps [simp del] PutUvarint_loop.simps [simp del]
  WriteUvarint_loop.simps [simp del]

section \<open>Encoding and decoding\<close>

lemma AppendUvarint_append: "AppendUvarint buf x = buf @ AppendUvarint [] x"
proof (induction "unat x" arbitrary: buf x rule: less_induct)
  case less
  show ?case
  proof (cases "0x80 \<le> x")
    case True
    have IH: "AppendUvarint b (drop_bit 7 x) = b @ AppendUvarint [] (drop_bit 7 x)" for b
      by (rule less.hyps) (rule unat_drop7 [OF True])
    from True show ?thesis
      unfolding AppendUvarint.simps [of buf x] AppendUvarint.simps [of "[]" x]
      by (simp add: IH [of "buf @ _"] IH [of "[_]"])
  next
    case False
    then show ?thesis by (simp add: AppendUvarint.simps [of buf x] AppendUvarint.simps [of "[]" x])
  qed
qed

text \<open>The reference encoding: the bytes \<open>AppendUvarint\<close> adds.\<close>

definition uvarint_bytes :: "uint64 \<Rightarrow> bytes" where
  "uvarint_bytes x = AppendUvarint [] x"

lemma uvarint_bytes_small: "x < 0x80 \<Longrightarrow> uvarint_bytes x = [ucast x]"
  by (simp add: uvarint_bytes_def AppendUvarint.simps not_le [symmetric])

lemma uvarint_bytes_big:
  "0x80 \<le> x \<Longrightarrow> uvarint_bytes x = (ucast x OR 0x80) # uvarint_bytes (drop_bit 7 x)"
  unfolding uvarint_bytes_def AppendUvarint.simps [of "[]" x]
  by (simp add: AppendUvarint_append [of "[_]"])

lemma uvarint_induct [case_names small big]:
  assumes "\<And>x. x < 0x80 \<Longrightarrow> P x" "\<And>x. 0x80 \<le> x \<Longrightarrow> P (drop_bit 7 x) \<Longrightarrow> P (x :: uint64)"
  shows "P x"
proof (induction "unat x" arbitrary: x rule: less_induct)
  case less
  show ?case
  proof (cases "0x80 \<le> x")
    case True
    then show ?thesis by (blast intro: assms(2) less.hyps unat_drop7)
  next
    case False
    then show ?thesis by (simp add: assms(1) not_le)
  qed
qed

lemma bit_128 [simp]: "bit (128 :: int) n \<longleftrightarrow> n = 7"
proof -
  have "bit (2 ^ 7 :: int) n \<longleftrightarrow> n = 7"
    by (simp only: bit_exp_iff) auto
  then show ?thesis by simp
qed

lemma bit_127 [simp]: "bit (127 :: int) n \<longleftrightarrow> n < 7"
proof -
  have "bit (mask 7 :: int) n \<longleftrightarrow> n < 7"
    by (simp only: bit_mask_iff) auto
  then show ?thesis by (simp add: mask_eq_exp_minus_1)
qed

lemma cont_byte: "\<not> (ucast (x :: uint64) OR 0x80 :: byte) < 0x80"
  using le_word_or2 [of "0x80 :: byte" "ucast x"] by (simp add: not_less or.commute)

lemma cont_payload: "ucast ((ucast (x :: uint64) OR 0x80 :: byte) AND 0x7f) = x AND 0x7f"
  by (rule bit_word_eqI) (auto simp: bit_and_iff bit_or_iff bit_ucast_iff)

lemma push_split7: "push_bit s (x AND 0x7f) OR push_bit (s + 7) (drop_bit 7 x) = push_bit s (x :: uint64)"
proof (rule bit_word_eqI)
  fix n
  show "bit (push_bit s (x AND 0x7f) OR push_bit (s + 7) (drop_bit 7 x)) n = bit (push_bit s x) n"
  proof (cases "s + 7 \<le> n")
    case True
    then have "7 + (n - (s + 7)) = n - s" by simp
    with True show ?thesis
      by (auto simp: bit_and_iff bit_or_iff bit_push_bit_iff bit_drop_bit_eq)
  next
    case False
    then show ?thesis
      by (auto simp: bit_and_iff bit_or_iff bit_push_bit_iff)
  qed
qed

lemma unat_drop7_bound:
  assumes "unat (x :: uint64) < 2 ^ (64 - 7 * i)" "i < 9"
  shows "unat (drop_bit 7 x) < 2 ^ (64 - 7 * Suc i)"
proof -
  have "unat (drop_bit 7 x) = unat x div 2 ^ 7"
    by (simp add: drop_bit_eq_div unat_div)
  moreover have "(2::nat) ^ (64 - 7 * i) = 2 ^ (64 - 7 * Suc i) * 2 ^ 7"
    using assms(2) unfolding power_add [symmetric] by (intro arg_cong [where f = "(^) 2"]) simp
  ultimately show ?thesis
    using assms(1) by (simp add: less_mult_imp_div_less)
qed

lemma small_byte:
  assumes "(x :: uint64) < 0x80"
  shows "unat (ucast x :: byte) = unat x" "ucast (ucast x :: byte) = x" "(ucast x :: byte) < 0x80"
proof -
  have lt: "unat x < 128" using assms by (simp add: word_less_nat_alt)
  then show u: "unat (ucast x :: byte) = unat x" by (simp add: unsigned_ucast_eq take_bit_eq_mod)
  have "unat (ucast (ucast x :: byte) :: uint64) = take_bit LENGTH(64) (unat (ucast x :: byte))"
    by (rule unsigned_ucast_eq)
  also have "\<dots> = unat x" unfolding u using lt by (simp add: take_bit_eq_mod)
  finally show "ucast (ucast x :: byte) = x" by (simp only: word_unat_eq_iff)
  show "(ucast x :: byte) < 0x80" using lt by (simp add: word_less_nat_alt u)
qed

lemma ReadUvarint_loop_bytes:
  assumes "unat x < 2 ^ (64 - 7 * i)" "i \<le> 9"
  shows "ReadUvarint_loop (10 - i) i acc (7 * i) \<lparr>rdata = uvarint_bytes x @ rest, rerr = e\<rparr> =
           (Inr (acc OR push_bit (7 * i) x), \<lparr>rdata = rest, rerr = e\<rparr>)"
  using assms
proof (induction x arbitrary: i acc rule: uvarint_induct)
  case (small x)
  obtain n where n: "10 - i = Suc n" using small.prems(2) by (cases "10 - i") auto
  have "\<not> (i = 9 \<and> (ucast x :: byte) > 1)"
    using small.prems by (auto simp: word_less_nat_alt small_byte(1) [OF small.hyps])
  then show ?case
    using small.hyps
    by (auto simp: n uvarint_bytes_small ReadByte_def small_byte MaxVarintLen64_def)
next
  case (big x)
  have i: "i < 9"
  proof (rule ccontr)
    assume "\<not> i < 9"
    with big.prems have "unat x < 2" by (simp add: le_less)
    with big.hyps show False by (simp add: word_le_nat_alt)
  qed
  then have n: "10 - i = Suc (10 - Suc i)" by simp
  have "ReadUvarint_loop (10 - Suc i) (Suc i) (acc OR push_bit (7 * i) (x AND 0x7f)) (7 * Suc i)
      \<lparr>rdata = uvarint_bytes (drop_bit 7 x) @ rest, rerr = e\<rparr> =
      (Inr ((acc OR push_bit (7 * i) (x AND 0x7f)) OR push_bit (7 * Suc i) (drop_bit 7 x)),
       \<lparr>rdata = rest, rerr = e\<rparr>)"
    by (rule big.IH) (use unat_drop7_bound [OF big.prems(1) i] i in simp_all)
  moreover have "(acc OR push_bit (7 * i) (x AND 0x7f)) OR push_bit (7 * Suc i) (drop_bit 7 x) =
      acc OR push_bit (7 * i) x"
    by (simp only: or.assoc mult_Suc_right add.commute [of 7] push_split7)
  ultimately show ?case
    unfolding n uvarint_bytes_big [OF big.hyps]
    by (simp add: ReadByte_def cont_byte cont_payload add.commute)
qed

lemma uvarint_bytes_nonempty [simp]: "uvarint_bytes x \<noteq> []"
  by (cases "x < 0x80") (simp_all add: uvarint_bytes_small uvarint_bytes_big not_less)

lemma ReadUvarint_loop_starves:
  assumes "k < length (uvarint_bytes x)" "k < n"
  shows "\<exists>err r. ReadUvarint_loop n i acc s \<lparr>rdata = take k (uvarint_bytes x), rerr = e\<rparr> = (Inl err, r)"
  using assms
proof (induction x arbitrary: k n i acc s rule: uvarint_induct)
  case (small x)
  then show ?case by (cases n) (simp_all add: uvarint_bytes_small ReadByte_def)
next
  case (big x)
  then obtain n' where n: "n = Suc n'" by (cases n) auto
  show ?case
  proof (cases k)
    case 0
    then show ?thesis by (simp add: n ReadByte_def)
  next
    case (Suc k')
    with big.prems have "k' < length (uvarint_bytes (drop_bit 7 x))" "k' < n'"
      by (simp_all add: n uvarint_bytes_big [OF big.hyps])
    from big.IH [OF this] Suc show ?thesis
      by (simp add: n uvarint_bytes_big [OF big.hyps] ReadByte_def cont_byte)
  qed
qed

lemma length_uvarint_le:
  "0 < n \<Longrightarrow> length (uvarint_bytes x) \<le> n \<longleftrightarrow> unat x < 2 ^ (7 * n)"
proof (induction x arbitrary: n rule: uvarint_induct)
  case (small x)
  then have "unat x < 2 ^ 7" by (simp add: word_less_nat_alt)
  also have "(2::nat) ^ 7 \<le> 2 ^ (7 * n)"
    using small.prems by (intro power_increasing) auto
  finally show ?case using small by (simp add: uvarint_bytes_small Suc_le_eq)
next
  case (big x)
  then have ge: "128 \<le> unat x" by (simp add: word_le_nat_alt)
  show ?case
  proof (cases "n = 1")
    case True
    with ge show ?thesis by (simp add: uvarint_bytes_big [OF big.hyps])
  next
    case False
    with big.prems obtain m where m: "n = Suc m" "0 < m" by (cases n) auto
    have "unat (drop_bit 7 x) = unat x div 128" by (simp add: drop_bit_eq_div unat_div)
    then show ?thesis
      using big.IH [OF m(2)]
      by (simp add: m(1) uvarint_bytes_big [OF big.hyps] div_less_iff_less_mult power_add mult.commute)
  qed
qed

lemma length_uvarint_bounds: "0 < length (uvarint_bytes x)" "length (uvarint_bytes x) \<le> 10"
proof -
  show "0 < length (uvarint_bytes x)" by simp
  have "unat x < 2 ^ 64" using unsigned_less [of x] by simp
  also have "(2::nat) ^ 64 \<le> 2 ^ (7 * 10)" by (rule power_increasing) auto
  finally show "length (uvarint_bytes x) \<le> 10" using length_uvarint_le [of 10 x] by simp
qed

lemma yields_ReadUvarint [codec_intros]: "yields ReadUvarint (uvarint_bytes x) x"
proof -
  have "unat x < 2 ^ (64 - 7 * 0)" using unsigned_less [of x] by simp
  from ReadUvarint_loop_bytes [OF this, of 0] show ?thesis
    by (simp add: yields_def ReadUvarint_def MaxVarintLen64_def)
qed

lemma starves_ReadUvarint [codec_intros]: "starves ReadUvarint (uvarint_bytes x)"
  unfolding starves_def ReadUvarint_def MaxVarintLen64_def
  using length_uvarint_bounds(2) [of x] by (auto intro!: ReadUvarint_loop_starves)

interpretation uvarint: codec uvarint_bytes ReadUvarint "\<lambda>_. True"
  by unfold_locales (rule yields_ReadUvarint starves_ReadUvarint)+

lemma PutUvarint_loop_eq:
  "PutUvarint_loop i buf x =
     (if i + length (uvarint_bytes x) \<le> length buf
      then Some (i + length (uvarint_bytes x), blit buf i (uvarint_bytes x)) else None)"
proof (induction x arbitrary: i buf rule: uvarint_induct)
  case (small x)
  then have "\<not> 0x80 \<le> x" by (simp add: not_le)
  with small show ?case
    by (simp add: PutUvarint_loop.simps [of i buf x] put_at_def uvarint_bytes_small list_update_blit)
next
  case (big x)
  have "blit (buf[i := ucast x OR 0x80]) (Suc i) ys = blit buf i ((ucast x OR 0x80) # ys)"
    if "i < length buf" for ys
    using that by (simp add: blit_def take_Suc_conv_app_nth)
  then show ?case
    using big.hyps
    by (simp add: PutUvarint_loop.simps [of i buf x] put_at_def big.IH uvarint_bytes_big [OF big.hyps])
qed

lemma WriteUVariant_eq: "WriteUVariant x = (if x < 2 ^ 56 then Some (uvarint_bytes x) else None)"
proof -
  have "length (uvarint_bytes x) \<le> 8 \<longleftrightarrow> x < 2 ^ 56"
    by (simp add: length_uvarint_le word_less_nat_alt)
  then show ?thesis
    by (simp add: WriteUVariant_def PutUvarint_def PutUvarint_loop_eq blit_def)
qed

lemma UvarintLen_eq: "x < 2 ^ 56 \<Longrightarrow> UvarintLen x = length (uvarint_bytes x)"
proof -
  assume x: "x < 2 ^ 56"
  define l where "l = length (uvarint_bytes x)"
  have le: "l \<le> n \<longleftrightarrow> unat x < 2 ^ (7 * n)" if "0 < n" for n
    unfolding l_def using that by (rule length_uvarint_le)
  have "l \<le> 1 \<longleftrightarrow> x < 2 ^ 7" "l \<le> 2 \<longleftrightarrow> x < 2 ^ 14" "l \<le> 3 \<longleftrightarrow> x < 2 ^ 21"
    "l \<le> 4 \<longleftrightarrow> x < 2 ^ 28" "l \<le> 5 \<longleftrightarrow> x < 2 ^ 35" "l \<le> 6 \<longleftrightarrow> x < 2 ^ 42"
    "l \<le> 7 \<longleftrightarrow> x < 2 ^ 49" "l \<le> 8"
    using x by (simp_all add: le word_less_nat_alt)
  moreover have "0 < l" by (simp add: l_def)
  ultimately show ?thesis unfolding UvarintLen_def l_def [symmetric] by (auto simp del: neq0_conv)
qed

lemma unzigzag_zigzag [simp]: "unzigzag (zigzag x) = x"
proof -
  have b: "sint x < 0 \<longleftrightarrow> bit x 63"
    using bit_last_iff [of x] by simp
  have top: "n < 64 \<longleftrightarrow> n < 63 \<or> n = 63" for n :: nat by auto
  show ?thesis
  proof (cases "bit x 63")
    case True
    then have "NOT (drop_bit 1 (NOT (push_bit 1 x))) = x"
      by (intro bit_word_eqI)
         (auto simp: bit_not_iff bit_drop_bit_eq bit_push_bit_iff top simp del: push_bit_Suc One_nat_def)
    with True show ?thesis
      by (simp add: zigzag_def unzigzag_def b and_one_eq odd_iff_mod_2_eq_one [symmetric] Let_def)
  next
    case False
    then have "drop_bit 1 (push_bit 1 x) = x"
      by (intro bit_word_eqI)
         (auto simp: bit_drop_bit_eq bit_push_bit_iff top simp del: push_bit_Suc One_nat_def)
    with False show ?thesis
      by (simp add: zigzag_def unzigzag_def b and_one_eq odd_iff_mod_2_eq_one [symmetric] Let_def)
  qed
qed

lemma zigzag_unzigzag [simp]: "zigzag (unzigzag u) = u"
proof -
  have b: "sint x < 0 \<longleftrightarrow> bit x 63" for x :: uint64
    using bit_last_iff [of x] by simp
  have out: "\<not> bit u 64" using bit_imp_le_length [of u 64] by auto
  show ?thesis
  proof (cases "odd u")
    case True
    then have "bit (NOT (push_bit 1 (NOT (drop_bit 1 u)))) n = bit u n" if "n < 64" for n
      using that by (cases n) (auto simp: bit_not_iff bit_drop_bit_eq bit_push_bit_iff bit_0
          simp del: push_bit_Suc)
    then have "NOT (push_bit 1 (NOT (drop_bit 1 u))) = u" by (intro bit_word_eqI) simp
    with True show ?thesis
      by (simp add: zigzag_def unzigzag_def b and_one_eq odd_iff_mod_2_eq_one [symmetric] Let_def
          bit_not_iff bit_drop_bit_eq out)
  next
    case False
    then have "bit (push_bit 1 (drop_bit 1 u)) n = bit u n" if "n < 64" for n
      using that by (cases n) (auto simp: bit_drop_bit_eq bit_push_bit_iff bit_0
          simp del: push_bit_Suc)
    then have "push_bit 1 (drop_bit 1 u) = u" by (intro bit_word_eqI) simp
    with False show ?thesis
      by (simp add: zigzag_def unzigzag_def b and_one_eq odd_iff_mod_2_eq_one [symmetric] Let_def
          bit_drop_bit_eq out)
  qed
qed

lemma yields_ReadVarint [codec_intros]: "yields ReadVarint (AppendVarint [] x) x"
  unfolding ReadVarint_def AppendVarint_def uvarint_bytes_def [symmetric]
  by (rule yields_bind_Nil [OF yields_ReadUvarint]) (simp add: yields_return)

lemma starves_ReadVarint [codec_intros]: "starves ReadVarint (AppendVarint [] x)"
  unfolding ReadVarint_def AppendVarint_def uvarint_bytes_def [symmetric]
  by (rule starves_bind_Nil [OF yields_ReadUvarint starves_ReadUvarint])

interpretation varint: codec "AppendVarint []" ReadVarint "\<lambda>_. True"
  by unfold_locales (rule yields_ReadVarint starves_ReadVarint)+

section \<open>The slice decoder against the stream decoder\<close>





section \<open>Writing through a byte writer\<close>

text \<open>
  The contract \<open>WriteUvarint\<close> relies on: a writer has its contents and some free room;
  writing a byte appends it while there is room and otherwise fails and leaves the writer
  as it is.
\<close>

locale byte_writer =
  fixes wb :: "'w write_byte"
    and cont :: "'w \<Rightarrow> bytes"
    and room :: "'w \<Rightarrow> nat"
    and ok :: "'w \<Rightarrow> bool"
  assumes wb_room: "ok w \<Longrightarrow> 0 < room w \<Longrightarrow>
      \<exists>w'. wb w b = Some (None, w') \<and> ok w' \<and> cont w' = cont w @ [b] \<and> room w' = room w - 1"
    and wb_full: "ok w \<Longrightarrow> room w = 0 \<Longrightarrow> \<exists>err. wb w b = Some (Some err, w)"
begin

lemma write_loop:
  assumes "ok w"
  shows "\<exists>w' e. WriteUvarint_loop wb n w x = Some ((n + min (room w) (length (uvarint_bytes x)), e), w') \<and> ok w' \<and>
      cont w' = cont w @ take (room w) (uvarint_bytes x) \<and>
      (e = None \<longleftrightarrow> length (uvarint_bytes x) \<le> room w)"
  using assms
proof (induction x arbitrary: n w rule: uvarint_induct)
  case (small x)
  then have nle: "\<not> 0x80 \<le> x" by (simp add: not_le)
  show ?case
  proof (cases "room w = 0")
    case True
    with wb_full [OF small.prems] obtain err where "wb w (ucast x) = Some (Some err, w)" by blast
    with True small nle show ?thesis
      by (simp add: WriteUvarint_loop.simps [of wb n w x] uvarint_bytes_small)
  next
    case False
    with wb_room [OF small.prems] obtain w' where "wb w (ucast x) = Some (None, w')" "ok w'"
      "cont w' = cont w @ [ucast x]" by blast
    with False small nle show ?thesis
      by (cases "room w") (simp_all add: WriteUvarint_loop.simps [of wb n w x] uvarint_bytes_small)
  qed
next
  case (big x)
  show ?case
  proof (cases "room w = 0")
    case True
    with wb_full [OF big.prems] obtain err where "wb w (ucast x OR 0x80) = Some (Some err, w)" by blast
    with True big show ?thesis
      by (simp add: WriteUvarint_loop.simps [of wb n w x] uvarint_bytes_big [OF big.hyps])
  next
    case False
    with wb_room [OF big.prems] obtain w' where w': "wb w (ucast x OR 0x80) = Some (None, w')" "ok w'"
      "cont w' = cont w @ [ucast x OR 0x80]" "room w' = room w - 1" by blast
    obtain m where m: "room w = Suc m" using False by (cases "room w") auto
    from big.IH [OF w'(2), of "n + 1"] w' big.hyps m show ?thesis
      by (auto simp: WriteUvarint_loop.simps [of wb n w x] uvarint_bytes_big [OF big.hyps])
  qed
qed

lemma write_fits:
  assumes "ok w" "length (uvarint_bytes x) \<le> room w"
  shows "\<exists>w'. WriteUvarint wb w x = Some ((length (uvarint_bytes x), None), w') \<and> ok w' \<and>
      cont w' = cont w @ uvarint_bytes x"
  using write_loop [OF assms(1), of 0 x] assms(2) by (auto simp: WriteUvarint_def)

end

section \<open>Properties\<close>

text \<open>
  C7. Varints are self-delimiting: any sequence of unsigned, and any sequence of signed
  (zig-zag), 64-bit values written one after the other with \<open>AppendUvarint\<close> and
  \<open>AppendVarint\<close> is read back by as many calls of \<open>ReadUvarint\<close> and \<open>ReadVarint\<close>, which
  leave the rest of the stream untouched.
\<close>

theorem varint_stream_roundtrip:
  "read_many (length us) ReadUvarint \<lparr>rdata = concat (map (AppendUvarint []) us) @ rest, rerr = e\<rparr> =
     (Inr us, \<lparr>rdata = rest, rerr = e\<rparr>) \<and>
   read_many (length xs) ReadVarint \<lparr>rdata = concat (map (AppendVarint []) xs) @ rest, rerr = e\<rparr> =
     (Inr xs, \<lparr>rdata = rest, rerr = e\<rparr>)"
proof -
  have "yields (read_many (length us) ReadUvarint) (concat (map uvarint_bytes us)) us"
    by (rule uvarint.read_many_stream) simp
  moreover have "yields (read_many (length xs) ReadVarint) (concat (map (AppendVarint []) xs)) xs"
    by (rule varint.read_many_stream) simp
  ultimately show ?thesis
    by (simp add: yields_def uvarint_bytes_def [abs_def])
qed


text \<open>
  C15. Encoded sizes: \<open>UvarintLen\<close> is the length of the encoding up to 8 bytes and 8 beyond
  that, although values from \<open>2^56\<close> on need 9 or 10 bytes; and \<open>WriteUVariant\<close>, whose
  scratch array has 8 bytes, writes the encoding of the smaller values and panics for the
  others.
\<close>

theorem UvarintLen_bounds:
  "UvarintLen x = min 8 (length (AppendUvarint [] x)) \<and>
   WriteUVariant x = (if x < 2 ^ 56 then Some (AppendUvarint [] x) else None)"
proof -
  have "8 < length (uvarint_bytes x) \<and> UvarintLen x = 8" if "\<not> x < 2 ^ 56"
  proof -
    have "\<not> length (uvarint_bytes x) \<le> 8"
      using that by (simp add: length_uvarint_le word_less_nat_alt)
    moreover have "(2::uint64) ^ 56 \<le> x" using that by simp
    ultimately show ?thesis by (simp add: UvarintLen_def word_le_nat_alt word_less_nat_alt)
  qed
  moreover have "length (uvarint_bytes x) \<le> 8" if "x < 2 ^ 56"
    using that by (simp add: length_uvarint_le word_less_nat_alt)
  ultimately show ?thesis
    using UvarintLen_eq [of x] WriteUVariant_eq [of x]
    by (cases "x < 2 ^ 56") (auto simp: uvarint_bytes_def)
qed

end
