(* ===== verification/Buffer.thy ===== *)
theory Buffer
  imports Alloc Varint
begin

text \<open>
  The byte buffer of \<open>common/buf/buffer.go\<close> and the multi-buffer helpers of
  \<open>common/buf/multi.go\<close>. A buffer is a slice \<open>data\<close> (its backing array and length), the
  window \<open>[start, end)\<close> of unread bytes, the soft limit \<open>capacity\<close>, and the ownership
  fields \<open>refs\<close> and \<open>managed\<close>. Every method that indexes or slices \<open>data\<close> does so with
  Go's bounds checks; \<open>None\<close> is the resulting panic.
\<close>

section \<open>Definitions\<close>

record buffer =
  data :: slice
  bstart :: int
  bend :: int
  capacity :: int
  refs :: int
  managed :: bool

definition nil_slice :: slice where
  "nil_slice = \<lparr>arr = [], slen = 0\<rparr>"

definition zero_buffer :: buffer where
  "zero_buffer = \<lparr>data = nil_slice, bstart = 0, bend = 0, capacity = 0, refs = 0, managed = False\<rparr>"

text \<open>The constants of \<open>buffer_standard.go\<close> and \<open>buffer_low_memory.go\<close>.\<close>

definition BufferSize :: "bool \<Rightarrow> int" where
  "BufferSize low_memory = (if low_memory then 16 * 1024 else 32 * 1024)"

definition UDPBufferSize :: "bool \<Rightarrow> int" where
  "UDPBufferSize low_memory = (if low_memory then 8 * 1024 else 16 * 1024)"

definition or_nil :: "slice option \<Rightarrow> slice" where
  "or_nil s = (case s of None \<Rightarrow> nil_slice | Some d \<Rightarrow> d)"

definition buf_New :: "bool \<Rightarrow> pools \<Rightarrow> (buffer \<times> pools) option" where
  "buf_New low p = do { (d, p') \<leftarrow> buf_Get (BufferSize low) p;
     Some (zero_buffer\<lparr>data := or_nil d, capacity := BufferSize low, managed := True\<rparr>, p') }"

definition NewPacket :: "bool \<Rightarrow> pools \<Rightarrow> (buffer \<times> pools) option" where
  "NewPacket low p = do { (d, p') \<leftarrow> buf_Get (UDPBufferSize low) p;
     Some (zero_buffer\<lparr>data := or_nil d, capacity := UDPBufferSize low, managed := True\<rparr>, p') }"

definition NewSize :: "int \<Rightarrow> pools \<Rightarrow> (buffer \<times> pools) option" where
  "NewSize sz p =
     (if sz = 0 then Some (zero_buffer, p)
      else do {
        (d, p') \<leftarrow> buf_Get sz p;
        case d of
          None \<Rightarrow> do { m \<leftarrow> buf_Make sz; Some (zero_buffer\<lparr>data := m, capacity := sz\<rparr>, p') }
        | Some d' \<Rightarrow> Some (zero_buffer\<lparr>data := d', capacity := sz, managed := True\<rparr>, p') })"

definition buf_As :: "slice \<Rightarrow> buffer" where
  "buf_As d = zero_buffer\<lparr>data := d, bend := int (slen d), capacity := int (slen d)\<rparr>"

definition buf_With :: "slice \<Rightarrow> buffer" where
  "buf_With d = zero_buffer\<lparr>data := d, capacity := int (slen d)\<rparr>"

text \<open>\<open>b.data[i:j]\<close> (bounded by the capacity of the slice), \<open>b.data[i]\<close> and \<open>b.data[i] = v\<close>
  (bounded by its length), and \<open>copy\<close> into \<open>b.data\<close> from offset \<open>i\<close>.\<close>

definition data_slice :: "buffer \<Rightarrow> int \<Rightarrow> int \<Rightarrow> bytes option" where
  "data_slice b i j = go_slice (arr (data b)) i j"

definition data_index :: "buffer \<Rightarrow> int \<Rightarrow> byte option" where
  "data_index b i = go_index (slice_bytes (data b)) i"

definition data_store :: "buffer \<Rightarrow> int \<Rightarrow> byte \<Rightarrow> buffer option" where
  "data_store b i v =
     (if 0 \<le> i \<and> i < int (length (slice_bytes (data b)))
      then Some (b\<lparr>data := (data b)\<lparr>arr := (arr (data b))[nat i := v]\<rparr>\<rparr>) else None)"

definition data_copy :: "buffer \<Rightarrow> int \<Rightarrow> bytes \<Rightarrow> buffer" where
  "data_copy b i bs = b\<lparr>data := (data b)\<lparr>arr := blit (arr (data b)) (nat i) bs\<rparr>\<rparr>"

definition Len :: "buffer \<Rightarrow> int" where "Len b = bend b - bstart b"
definition Cap :: "buffer \<Rightarrow> int" where "Cap b = capacity b"
definition RawCap :: "buffer \<Rightarrow> int" where "RawCap b = int (slen (data b))"
definition Start :: "buffer \<Rightarrow> int" where "Start b = bstart b"
definition FreeLen :: "buffer \<Rightarrow> int" where "FreeLen b = capacity b - bend b"
definition IsEmpty :: "buffer \<Rightarrow> bool" where "IsEmpty b \<longleftrightarrow> bend b - bstart b = 0"
definition IsFull :: "buffer \<Rightarrow> bool" where "IsFull b \<longleftrightarrow> bend b = capacity b"

definition Bytes :: "buffer \<Rightarrow> bytes option" where
  "Bytes b = data_slice b (bstart b) (bend b)"

definition From :: "buffer \<Rightarrow> int \<Rightarrow> bytes option" where
  "From b n = data_slice b (bstart b + n) (bend b)"

definition To :: "buffer \<Rightarrow> int \<Rightarrow> bytes option" where
  "To b n = data_slice b (bstart b) (bstart b + n)"

definition buf_Range :: "buffer \<Rightarrow> int \<Rightarrow> int \<Rightarrow> bytes option" where
  "buf_Range b s e = data_slice b (bstart b + s) (bstart b + e)"

definition buf_Index :: "buffer \<Rightarrow> int \<Rightarrow> bytes option" where
  "buf_Index b s = data_slice b (bstart b + s) (bstart b + s)"

definition FreeBytes :: "buffer \<Rightarrow> bytes option" where
  "FreeBytes b = data_slice b (bend b) (capacity b)"

definition buf_Byte :: "buffer \<Rightarrow> int \<Rightarrow> byte option" where
  "buf_Byte b i = data_index b (bstart b + i)"

definition SetByte :: "buffer \<Rightarrow> int \<Rightarrow> byte \<Rightarrow> buffer option" where
  "SetByte b i v = data_store b (bstart b + i) v"

text \<open>\<open>Extend\<close> and \<open>ExtendHeader\<close> return the bytes of the region the caller may then overwrite.\<close>

definition Extend :: "buffer \<Rightarrow> int \<Rightarrow> (bytes \<times> buffer) option" where
  "Extend b n =
     (let e = bend b + n in
      if e > capacity b then None
      else do { ext \<leftarrow> data_slice b (bend b) e; Some (ext, b\<lparr>bend := e\<rparr>) })"

definition Advance :: "buffer \<Rightarrow> int \<Rightarrow> buffer" where
  "Advance b from =
     (let b' = b\<lparr>bstart := bstart b + from\<rparr> in if bend b' < bstart b' then b'\<lparr>bend := bstart b'\<rparr> else b')"

definition Truncate :: "buffer \<Rightarrow> int \<Rightarrow> buffer" where
  "Truncate b to = b\<lparr>bend := bstart b + to\<rparr>"

definition Write :: "buffer \<Rightarrow> bytes \<Rightarrow> ((nat \<times> go_error option) \<times> buffer) option" where
  "Write b d =
     (if d = [] then Some ((0, None), b)
      else if IsFull b then Some ((0, Some ErrShortBuffer), b)
      else do {
        free \<leftarrow> data_slice b (bend b) (capacity b);
        let n = min (length free) (length d);
        Some ((n, None), (data_copy b (bend b) (take n d))\<lparr>bend := bend b + int n\<rparr>) })"

definition ExtendHeader :: "buffer \<Rightarrow> int \<Rightarrow> (bytes \<times> buffer) option" where
  "ExtendHeader b n =
     (if bstart b < n then None
      else let s = bstart b - n in do { h \<leftarrow> data_slice b s (s + n); Some (h, b\<lparr>bstart := s\<rparr>) })"

text \<open>\<open>WriteRandom\<close>: \<open>rnd\<close> are the bytes the random source delivers for a request of that length.\<close>

definition WriteRandom :: "(nat \<Rightarrow> bytes) \<Rightarrow> buffer \<Rightarrow> int \<Rightarrow> (bytes \<times> buffer) option" where
  "WriteRandom rnd b sz = do {
     (ext, b') \<leftarrow> Extend b sz;
     let r = take (length ext) (rnd (length ext));
     Some (r, data_copy b' (bend b) r) }"

definition WriteByte :: "buffer \<Rightarrow> byte \<Rightarrow> (go_error option \<times> buffer) option" where
  "WriteByte b d =
     (if IsFull b then Some (Some ErrShortBuffer, b)
      else do { b' \<leftarrow> data_store b (bend b) d; Some (None, b'\<lparr>bend := bend b + 1\<rparr>) })"

text \<open>
  \<open>io.Reader.Read\<close> of the caller's reader is an argument: given the room offered it returns
  the bytes it delivers, an error, and its next state; \<open>reads_at_most\<close> is the contract of
  the interface (at most as many bytes as there is room).
\<close>

type_synonym 's read_fn = "'s \<Rightarrow> nat \<Rightarrow> (bytes \<times> go_error option) \<times> 's"

definition reads_at_most :: "'s read_fn \<Rightarrow> bool" where
  "reads_at_most rf \<longleftrightarrow> (\<forall>s n. length (fst (fst (rf s n))) \<le> n)"

definition ReadOnceFrom :: "'s read_fn \<Rightarrow> buffer \<Rightarrow> 's \<Rightarrow> ((nat \<times> go_error option) \<times> buffer \<times> 's) option" where
  "ReadOnceFrom rf b s =
     (if IsFull b then Some ((0, Some ErrShortBuffer), b, s)
      else do {
        free \<leftarrow> FreeBytes b;
        let ((bs, err), s') = rf s (length free);
        Some ((length bs, err), (data_copy b (bend b) bs)\<lparr>bend := bend b + int (length bs)\<rparr>, s') })"

text \<open>\<open>ReadPacketFrom\<close> calls \<open>net.PacketConn.ReadFrom\<close>, which also returns the sender's address.\<close>

definition ReadPacketFrom ::
  "('s \<Rightarrow> nat \<Rightarrow> (bytes \<times> 'a option \<times> go_error option) \<times> 's) \<Rightarrow> buffer \<Rightarrow> 's \<Rightarrow>
   ((nat \<times> 'a option \<times> go_error option) \<times> buffer \<times> 's) option" where
  "ReadPacketFrom rf b s =
     (if IsFull b then Some ((0, None, Some ErrShortBuffer), b, s)
      else do {
        free \<leftarrow> FreeBytes b;
        let ((bs, addr, err), s') = rf s (length free);
        Some ((length bs, addr, err), (data_copy b (bend b) bs)\<lparr>bend := bend b + int (length bs)\<rparr>, s') })"

text \<open>
  \<open>io.ReadAtLeast\<close> into a buffer of \<open>n\<close> bytes: it calls \<open>Read\<close> until \<open>m\<close> bytes are there or
  an error comes, so it need not return if the reader keeps delivering nothing.
\<close>

partial_function (option) read_at_least_loop ::
  "'s read_fn \<Rightarrow> nat \<Rightarrow> nat \<Rightarrow> bytes \<Rightarrow> 's \<Rightarrow> ((bytes \<times> go_error option) \<times> 's) option" where
  "read_at_least_loop rf n m acc s =
     (if length acc < m then
        (case rf s (n - length acc) of
           ((bs, None), s') \<Rightarrow> read_at_least_loop rf n m (acc @ bs) s'
         | ((bs, Some err), s') \<Rightarrow>
             Some ((acc @ bs,
               (if m \<le> length (acc @ bs) then None
                else if acc @ bs \<noteq> [] \<and> err = EOF then Some ErrUnexpectedEOF else Some err)), s'))
      else Some ((acc, None), s))"

definition io_ReadAtLeast :: "'s read_fn \<Rightarrow> nat \<Rightarrow> nat \<Rightarrow> 's \<Rightarrow> ((bytes \<times> go_error option) \<times> 's) option" where
  "io_ReadAtLeast rf n m s =
     (if n < m then Some (([], Some ErrShortBuffer), s) else read_at_least_loop rf n m [] s)"

definition ReadAtLeastFrom ::
  "'s read_fn \<Rightarrow> buffer \<Rightarrow> 's \<Rightarrow> int \<Rightarrow> ((nat \<times> go_error option) \<times> buffer \<times> 's) option" where
  "ReadAtLeastFrom rf b s m =
     (if m \<le> 0 then ReadOnceFrom rf b s
      else if IsFull b then Some ((0, Some ErrShortBuffer), b, s)
      else do {
        free \<leftarrow> FreeBytes b;
        ((bs, err), s') \<leftarrow> io_ReadAtLeast rf (length free) (nat m) s;
        Some ((length bs, err), (data_copy b (bend b) bs)\<lparr>bend := bend b + int (length bs)\<rparr>, s') })"

definition ReadFullFrom ::
  "'s read_fn \<Rightarrow> buffer \<Rightarrow> 's \<Rightarrow> int \<Rightarrow> ((nat \<times> go_error option) \<times> buffer \<times> 's) option" where
  "ReadFullFrom rf b s sz =
     (if bend b + sz > capacity b then Some ((0, Some ErrShortBuffer), b, s)
      else do {
        region \<leftarrow> data_slice b (bend b) (bend b + sz);
        ((bs, err), s') \<leftarrow> io_ReadAtLeast rf (length region) (length region) s;
        Some ((length bs, err), (data_copy b (bend b) bs)\<lparr>bend := bend b + int (length bs)\<rparr>, s') })"

text \<open>
  \<open>ReadFrom\<close> reads until the reader reports an error (\<open>EOF\<close> is success) or the buffer is
  full, which it reports as an error together with a count of 0.
\<close>

partial_function (option) ReadFrom ::
  "'s read_fn \<Rightarrow> nat \<Rightarrow> buffer \<Rightarrow> 's \<Rightarrow> ((nat \<times> go_error option) \<times> buffer \<times> 's) option" where
  "ReadFrom rf n b s =
     (if IsFull b then Some ((0, Some ErrShortBuffer), b, s)
      else Option.bind (FreeBytes b) (\<lambda>free.
        (case rf s (length free) of
           ((bs, None), s') \<Rightarrow>
             ReadFrom rf (n + length bs) ((data_copy b (bend b) bs)\<lparr>bend := bend b + int (length bs)\<rparr>) s'
         | ((bs, Some err), s') \<Rightarrow>
             Some ((n + length bs, (if errors_Is err EOF then None else Some err)),
               (data_copy b (bend b) bs)\<lparr>bend := bend b + int (length bs)\<rparr>, s'))))"

definition WriteRune :: "buffer \<Rightarrow> int \<Rightarrow> ((nat \<times> go_error option) \<times> buffer) option" where
  "WriteRune b r = Write b [of_int r]"

definition WriteString :: "buffer \<Rightarrow> bytes \<Rightarrow> ((nat \<times> go_error option) \<times> buffer) option" where
  "WriteString b s =
     (if length s = 0 then Some ((0, None), b)
      else if IsFull b then Some ((0, Some ErrShortBuffer), b)
      else do {
        free \<leftarrow> data_slice b (bend b) (capacity b);
        let n = min (length free) (length s);
        Some ((n, None), (data_copy b (bend b) (take n s))\<lparr>bend := bend b + int n\<rparr>) })"

definition WriteZero :: "buffer \<Rightarrow> (go_error option \<times> buffer) option" where
  "WriteZero b =
     (if IsFull b then Some (Some ErrShortBuffer, b)
      else do { b' \<leftarrow> data_store b (bend b) 0; Some (None, b'\<lparr>bend := bend b + 1\<rparr>) })"

definition WriteZeroN :: "buffer \<Rightarrow> int \<Rightarrow> (go_error option \<times> buffer) option" where
  "WriteZeroN b n =
     (if bend b + n > capacity b then Some (Some ErrShortBuffer, b)
      else do { (ext, b') \<leftarrow> Extend b n; Some (None, data_copy b' (bend b) (replicate (length ext) 0)) })"

definition buf_ReadByte :: "buffer \<Rightarrow> ((go_error + byte) \<times> buffer) option" where
  "buf_ReadByte b =
     (if IsEmpty b then Some (Inl EOF, b)
      else do { nb \<leftarrow> data_index b (bstart b); Some (Inr nb, b\<lparr>bstart := bstart b + 1\<rparr>) })"

definition ReadBytes :: "buffer \<Rightarrow> int \<Rightarrow> ((go_error + bytes) \<times> buffer) option" where
  "ReadBytes b n =
     (if bend b - bstart b < n then Some (Inl EOF, b)
      else do { nb \<leftarrow> data_slice b (bstart b) (bstart b + n); Some (Inr nb, b\<lparr>bstart := bstart b + n\<rparr>) })"

text \<open>\<open>Read\<close> into a destination of \<open>n\<close> bytes: the bytes copied to it.\<close>

definition Read :: "buffer \<Rightarrow> nat \<Rightarrow> ((go_error + bytes) \<times> buffer) option" where
  "Read b n =
     (if IsEmpty b then Some (Inl EOF, b)
      else do { d \<leftarrow> data_slice b (bstart b) (bend b);
        Some (Inr (take n d), b\<lparr>bstart := bstart b + int (min n (length d))\<rparr>) })"

definition WriteTo :: "('w \<Rightarrow> bytes \<Rightarrow> (nat \<times> go_error option) \<times> 'w) \<Rightarrow> buffer \<Rightarrow> 'w \<Rightarrow>
   ((nat \<times> go_error option) \<times> 'w) option" where
  "WriteTo wr b w = do { d \<leftarrow> Bytes b; Some (wr w d) }"

definition Resize :: "buffer \<Rightarrow> int \<Rightarrow> int \<Rightarrow> buffer" where
  "Resize b s e = (let b' = b\<lparr>bstart := s\<rparr> in b'\<lparr>bend := bstart b' + e\<rparr>)"

definition Reserve :: "buffer \<Rightarrow> int \<Rightarrow> buffer option" where
  "Reserve b n = (if n > capacity b then None else Some (b\<lparr>capacity := capacity b - n\<rparr>))"

definition OverCap :: "buffer \<Rightarrow> int \<Rightarrow> buffer option" where
  "OverCap b n = (if capacity b + n > int (slen (data b)) then None else Some (b\<lparr>capacity := capacity b + n\<rparr>))"

definition Reset :: "buffer \<Rightarrow> buffer" where
  "Reset b = b\<lparr>bstart := 0, bend := 0, capacity := int (slen (data b))\<rparr>"

definition IncRef :: "buffer \<Rightarrow> buffer" where "IncRef b = b\<lparr>refs := refs b + 1\<rparr>"
definition DecRef :: "buffer \<Rightarrow> buffer" where "DecRef b = b\<lparr>refs := refs b - 1\<rparr>"

text \<open>\<open>common.Must(Put(b.data))\<close> panics when the allocator refuses the array.\<close>

definition Release :: "buffer \<Rightarrow> pools \<Rightarrow> (buffer \<times> pools) option" where
  "Release b p =
     (if \<not> managed b then Some (b, p)
      else if refs b > 0 then Some (b, p)
      else case buf_Put (data b) p of
          Some (None, p') \<Rightarrow> Some (zero_buffer, p')
        | _ \<Rightarrow> None)"

definition Leak :: "bool \<Rightarrow> buffer \<Rightarrow> pools \<Rightarrow> (buffer \<times> pools) option" where
  "Leak debug_Enabled b p =
     (if debug_Enabled then (if \<not> managed b then Some (b, p) else None) else Release b p)"

definition ToOwned :: "buffer \<Rightarrow> pools \<Rightarrow> (buffer \<times> pools) option" where
  "ToOwned b p = do {
     (n, p') \<leftarrow> NewSize (int (slen (data b))) p;
     dst \<leftarrow> data_slice n (bstart b) (bend b);
     src \<leftarrow> data_slice b (bstart b) (bend b);
     Some ((data_copy n (bstart b) src)\<lparr>bstart := bstart b, bend := bend b, capacity := capacity b\<rparr>, p') }"

definition LenMulti :: "buffer list \<Rightarrow> int" where
  "LenMulti bs = foldl (\<lambda>n b. n + Len b) 0 bs"

definition ToSliceMulti :: "buffer list \<Rightarrow> bytes list option" where
  "ToSliceMulti bs = those (map Bytes bs)"

text \<open>\<open>CopyMulti\<close>: the destination after the copies, and the number of bytes copied.\<close>

fun CopyMulti_loop :: "bytes \<Rightarrow> nat \<Rightarrow> buffer list \<Rightarrow> (nat \<times> bytes) option" where
  "CopyMulti_loop dst n [] = Some (n, dst)"
| "CopyMulti_loop dst n (b # bs) = do {
     d \<leftarrow> Bytes b;
     let d' = take (length dst - n) d;
     CopyMulti_loop (blit dst n d') (n + length d') bs }"

definition CopyMulti :: "bytes \<Rightarrow> buffer list \<Rightarrow> (nat \<times> bytes) option" where
  "CopyMulti dst bs = CopyMulti_loop dst 0 bs"

fun ReleaseMulti :: "buffer list \<Rightarrow> pools \<Rightarrow> (buffer list \<times> pools) option" where
  "ReleaseMulti [] p = Some ([], p)"
| "ReleaseMulti (b # bs) p = do {
     (b', p') \<leftarrow> Release b p; (bs', p'') \<leftarrow> ReleaseMulti bs p'; Some (b' # bs', p'') }"

section \<open>The window view\<close>

text \<open>
  The abstraction: a well-formed buffer splits its backing array into consecutive parts, the
  consumed bytes \<open>h\<close>, the contents \<open>c\<close>, the free room \<open>t\<close>, the reserved bytes \<open>r\<close> above
  the soft capacity, and the slack \<open>s\<close> of the array above the slice's length. Every method
  moves the boundaries between these parts.
\<close>

definition rep :: "buffer \<Rightarrow> bytes \<Rightarrow> bytes \<Rightarrow> bytes \<Rightarrow> bytes \<Rightarrow> bytes \<Rightarrow> bool" where
  "rep b h c t r s \<longleftrightarrow>
     arr (data b) = h @ c @ t @ r @ s \<and> bstart b = int (length h) \<and>
     bend b = int (length h + length c) \<and> capacity b = int (length h + length c + length t) \<and>
     slen (data b) = length h + length c + length t + length r"

definition wf_buffer :: "buffer \<Rightarrow> bool" where
  "wf_buffer b \<longleftrightarrow>
     0 \<le> bstart b \<and> bstart b \<le> bend b \<and> bend b \<le> capacity b \<and>
     capacity b \<le> int (slen (data b)) \<and> slen (data b) \<le> length (arr (data b))"

definition contents :: "buffer \<Rightarrow> bytes" where
  "contents b = take (nat (bend b - bstart b)) (drop (nat (bstart b)) (arr (data b)))"

definition headroom :: "buffer \<Rightarrow> nat" where
  "headroom b = nat (bstart b)"

definition freeroom :: "buffer \<Rightarrow> nat" where
  "freeroom b = nat (capacity b - bend b)"

lemma take_drop_seg: "i \<le> j \<Longrightarrow> take i xs @ take (j - i) (drop i xs) = take j xs"
  by (metis le_add_diff_inverse take_add)

lemma rep_wf: "rep b h c t r s \<Longrightarrow> wf_buffer b"
  by (auto simp: rep_def wf_buffer_def)

lemma rep_contents: "rep b h c t r s \<Longrightarrow> contents b = c"
  by (simp add: rep_def contents_def)

lemma rep_freeroom: "rep b h c t r s \<Longrightarrow> freeroom b = length t"
  by (simp add: rep_def freeroom_def)

lemma rep_headroom: "rep b h c t r s \<Longrightarrow> headroom b = length h"
  by (simp add: rep_def headroom_def)

lemma segments:
  assumes "i \<le> j" "j \<le> k" "k \<le> l" "l \<le> length xs"
  obtains h c t r s where "xs = h @ c @ t @ r @ s" "length h = i" "length h + length c = j"
    "length h + length c + length t = k" "length h + length c + length t + length r = l"
proof
  show "xs = take i xs @ take (j - i) (drop i xs) @ take (k - j) (drop j xs) @
      take (l - k) (drop k xs) @ drop l xs"
    using take_drop_seg [OF assms(1), of xs] take_drop_seg [OF assms(2), of xs]
      take_drop_seg [OF assms(3), of xs] append_take_drop_id [of l xs]
    by (metis append.assoc)
qed (use assms in \<open>simp_all add: min_absorb2 diff_le_mono\<close>)

lemma wf_rep:
  assumes "wf_buffer b"
  obtains h c t r s where "rep b h c t r s"
proof -
  have le: "nat (bstart b) \<le> nat (bend b)" "nat (bend b) \<le> nat (capacity b)"
      "nat (capacity b) \<le> slen (data b)" "slen (data b) \<le> length (arr (data b))"
    and z: "0 \<le> bstart b" "0 \<le> bend b" "0 \<le> capacity b"
    using assms by (auto simp: wf_buffer_def)
  obtain h c t r s where "arr (data b) = h @ c @ t @ r @ s" "length h = nat (bstart b)"
      "length h + length c = nat (bend b)" "length h + length c + length t = nat (capacity b)"
      "length h + length c + length t + length r = slen (data b)"
    by (rule segments [OF le])
  with z have "rep b h c t r s"
    by (simp add: rep_def)
  then show ?thesis by (rule that)
qed

lemma rep_slices:
  assumes "rep b h c t r s"
  shows rep_Bytes: "Bytes b = Some c"
    and rep_FreeBytes: "FreeBytes b = Some t"
    and rep_free_slice: "data_slice b (bend b) (capacity b) = Some t"
  using assms by (simp_all add: rep_def Bytes_def FreeBytes_def data_slice_def)

lemma rep_fields:
  assumes "rep b h c t r s"
  shows rep_IsFull: "IsFull b \<longleftrightarrow> t = []" and rep_IsEmpty: "IsEmpty b \<longleftrightarrow> c = []"
    and rep_Len: "Len b = int (length c)" and rep_FreeLen: "FreeLen b = int (length t)"
  using assms by (auto simp: rep_def IsFull_def IsEmpty_def Len_def FreeLen_def)

lemma rep_append:
  assumes "rep b h c t r s" "length d \<le> length t"
  shows "rep ((data_copy b (bend b) d)\<lparr>bend := bend b + int (length d)\<rparr>) h (c @ d) (drop (length d) t) r s"
proof -
  have "blit (arr (data b)) (nat (bend b)) d = h @ c @ d @ drop (length d) t @ r @ s"
    using assms by (simp add: rep_def blit_def nat_int_add)
  with assms show ?thesis by (simp add: rep_def data_copy_def of_nat_diff)
qed

lemma blit_single: "i < length xs \<Longrightarrow> blit xs i [x] = xs[i := x]"
  by (simp add: list_update_blit)

lemma rep_store:
  assumes "rep b h c t r s" "t \<noteq> []"
  shows "\<exists>b'. data_store b (bend b) d = Some b' \<and> rep (b'\<lparr>bend := bend b + 1\<rparr>) h (c @ [d]) (tl t) r s"
proof -
  have len: "nat (bend b) < length (arr (data b))" and lt: "nat (bend b) < slen (data b)"
    "slen (data b) \<le> length (arr (data b))"
    using assms by (auto simp: rep_def neq_Nil_conv)
  then have "data_store b (bend b) d = Some (data_copy b (bend b) [d])"
    using assms by (auto simp: data_store_def data_copy_def blit_single slice_bytes_def rep_def)
  moreover have "rep ((data_copy b (bend b) [d])\<lparr>bend := bend b + 1\<rparr>) h (c @ [d]) (tl t) r s"
    using rep_append [of b h c t r s "[d]"] assms by (cases t) auto
  ultimately show ?thesis by blast
qed

section \<open>What each method does to the window\<close>

lemma rep_Write:
  assumes "rep b h c t r s"
  shows "\<exists>b'. Write b d = Some ((min (length t) (length d),
             (if d \<noteq> [] \<and> t = [] then Some ErrShortBuffer else None)), b') \<and>
           rep b' h (c @ take (length t) d) (drop (length d) t) r s"
proof -
  let ?n = "min (length t) (length d)"
  have "rep ((data_copy b (bend b) (take ?n d))\<lparr>bend := bend b + int ?n\<rparr>) h (c @ take ?n d) (drop ?n t) r s"
    using rep_append [OF assms, of "take ?n d"] by simp
  moreover have "take ?n d = take (length t) d" "drop ?n t = drop (length d) t"
    by (simp_all add: min_def)
  ultimately show ?thesis
    using assms by (auto simp: Write_def rep_IsFull [OF assms] rep_free_slice [OF assms] Let_def)
qed

lemma WriteString_Write: "WriteString b d = Write b d"
  by (simp add: WriteString_def Write_def)

lemma rep_WriteByte:
  assumes "rep b h c t r s"
  shows "\<exists>b'. WriteByte b d = Some ((if t = [] then Some ErrShortBuffer else None), b') \<and>
           rep b' h (c @ take (length t) [d]) (tl t) r s"
proof (cases "t = []")
  case True
  with assms show ?thesis by (simp add: WriteByte_def rep_IsFull [OF assms])
next
  case False
  with rep_store [OF assms False, of d] assms show ?thesis
    by (cases t) (auto simp: WriteByte_def rep_IsFull [OF assms])
qed

lemma WriteZero_WriteByte: "WriteZero b = WriteByte b 0"
  by (simp add: WriteZero_def WriteByte_def)

lemma rep_Extend:
  assumes "rep b h c t r s" "0 \<le> n" "n \<le> int (length t)"
  shows "\<exists>b'. Extend b n = Some (take (nat n) t, b') \<and> data b' = data b \<and>
           rep b' h (c @ take (nat n) t) (drop (nat n) t) r s"
proof -
  have "data_slice b (bend b) (bend b + n) = Some (take (nat n) t)"
    using assms by (simp add: rep_def data_slice_def nat_int_add min_absorb2)
  then show ?thesis
    using assms by (simp add: Extend_def Let_def) (auto simp: rep_def)
qed

lemma Extend_overflow: "rep b h c t r s \<Longrightarrow> n < 0 \<or> int (length t) < n \<Longrightarrow> Extend b n = None"
  by (auto simp: rep_def Extend_def Let_def data_slice_def go_slice_def)

lemma rep_WriteZeroN:
  assumes "rep b h c t r s" "0 \<le> n"
  shows "\<exists>b'. WriteZeroN b n = Some ((if int (length t) < n then Some ErrShortBuffer else None), b') \<and>
           (if int (length t) < n then b' = b
            else rep b' h (c @ replicate (nat n) 0) (drop (nat n) t) r s)"
proof (cases "int (length t) < n")
  case True
  then show ?thesis using assms by (simp add: WriteZeroN_def rep_def)
next
  case False
  then obtain b' where b': "Extend b n = Some (take (nat n) t, b')" "data b' = data b"
    "rep b' h (c @ take (nat n) t) (drop (nat n) t) r s"
    using rep_Extend [OF assms(1,2)] by auto
  have "arr (data (data_copy b' (bend b) (replicate (nat n) 0))) = h @ c @ replicate (nat n) 0 @ drop (nat n) t @ r @ s"
    using assms False by (simp add: data_copy_def b'(2) rep_def blit_def nat_int_add)
  moreover have "min (length t) (nat n) = nat n" using False assms(2) by simp
  ultimately have "rep (data_copy b' (bend b) (replicate (nat n) 0)) h (c @ replicate (nat n) 0) (drop (nat n) t) r s"
    using b'(3) by (simp add: rep_def data_copy_def)
  with False assms b' show ?thesis by (simp add: WriteZeroN_def rep_def min_absorb2)
qed

lemma rep_ReadByte:
  assumes "rep b h c t r s"
  shows "\<exists>b'. buf_ReadByte b = Some ((case c of [] \<Rightarrow> Inl EOF | x # _ \<Rightarrow> Inr x), b') \<and>
           rep b' (h @ take 1 c) (tl c) t r s"
proof (cases c)
  case Nil
  with assms show ?thesis by (simp add: buf_ReadByte_def rep_IsEmpty [OF assms])
next
  case (Cons x xs)
  with assms have "data_index b (bstart b) = Some x"
    by (simp add: data_index_def slice_bytes_def rep_def)
  with Cons assms show ?thesis
    by (simp add: buf_ReadByte_def rep_IsEmpty [OF assms]) (simp add: rep_def)
qed

lemma rep_ReadBytes:
  assumes "rep b h c t r s" "0 \<le> n"
  shows "\<exists>b'. ReadBytes b n = Some ((if int (length c) < n then Inl EOF else Inr (take (nat n) c)), b') \<and>
           (if int (length c) < n then b' = b else rep b' (h @ take (nat n) c) (drop (nat n) c) t r s)"
proof (cases "int (length c) < n")
  case True
  then show ?thesis using assms by (simp add: ReadBytes_def rep_def)
next
  case False
  then have "data_slice b (bstart b) (bstart b + n) = Some (take (nat n) c)"
    using assms by (simp add: rep_def data_slice_def min_absorb2)
  with False assms show ?thesis by (simp add: ReadBytes_def rep_def)
qed

lemma rep_Read:
  assumes "rep b h c t r s"
  shows "\<exists>b'. Read b n = Some ((if c = [] then Inl EOF else Inr (take n c)), b') \<and>
           rep b' (h @ take n c) (drop n c) t r s"
proof -
  have "data_slice b (bstart b) (bend b) = Some c"
    using rep_Bytes [OF assms] by (simp add: Bytes_def)
  then show ?thesis
    using assms by (auto simp: Read_def rep_IsEmpty [OF assms]) (auto simp: rep_def min.commute min_def)
qed

lemma rep_ExtendHeader:
  assumes "rep b h c t r s" "0 \<le> n" "n \<le> int (length h)"
  shows "\<exists>b'. ExtendHeader b n = Some (drop (length h - nat n) h, b') \<and>
           rep b' (take (length h - nat n) h) (drop (length h - nat n) h @ c) t r s"
proof -
  obtain m where m: "n = int m" "m \<le> length h" using assms(2,3) by (metis nat_0_le nat_int_comparison(3))
  have "data_slice b (bstart b - n) (bstart b - n + n) = Some (drop (length h - m) h)"
    using assms m by (simp add: rep_def data_slice_def of_nat_diff [symmetric] del: of_nat_diff)
  with m assms show ?thesis
    by (simp add: ExtendHeader_def Let_def rep_def of_nat_diff)
qed

lemma ExtendHeader_overflow: "rep b h c t r s \<Longrightarrow> int (length h) < n \<Longrightarrow> ExtendHeader b n = None"
  by (simp add: rep_def ExtendHeader_def)

lemma rep_Advance:
  assumes "rep b h c t r s" "n \<le> length c"
  shows "rep (Advance b (int n)) (h @ take n c) (drop n c) t r s"
  using assms by (auto simp: rep_def Advance_def Let_def)

lemma rep_Truncate:
  assumes "rep b h c t r s" "n \<le> length c"
  shows "rep (Truncate b (int n)) h (take n c) (drop n c @ t) r s"
  using assms by (auto simp: rep_def Truncate_def)

lemma rep_Reserve:
  assumes "rep b h c t r s" "n \<le> length t"
  shows "\<exists>b'. Reserve b (int n) = Some b' \<and> rep b' h c (take (length t - n) t) (drop (length t - n) t @ r) s"
  using assms by (auto simp: rep_def Reserve_def)

lemma rep_OverCap:
  assumes "rep b h c t r s"
  shows "OverCap b (int n) = (if n \<le> length r then Some (b\<lparr>capacity := capacity b + int n\<rparr>) else None)"
    and "n \<le> length r \<Longrightarrow> rep (b\<lparr>capacity := capacity b + int n\<rparr>) h c (t @ take n r) (drop n r) s"
  using assms by (auto simp: rep_def OverCap_def)

lemma rep_Reset:
  assumes "rep b h c t r s"
  shows "rep (Reset b) [] [] (h @ c @ t @ r) [] s"
  using assms by (simp add: rep_def Reset_def)

lemma rep_data_copy_read:
  assumes "rep b h c t r s" "reads_at_most rf" "rf q (length t) = ((bs, err), q')"
  shows "rep ((data_copy b (bend b) bs)\<lparr>bend := bend b + int (length bs)\<rparr>) h (c @ bs) (drop (length bs) t) r s"
    and "length bs \<le> length t"
proof -
  show le: "length bs \<le> length t"
    using assms(2,3) unfolding reads_at_most_def by (metis fst_conv)
  show "rep ((data_copy b (bend b) bs)\<lparr>bend := bend b + int (length bs)\<rparr>) h (c @ bs) (drop (length bs) t) r s"
    by (rule rep_append [OF assms(1) le])
qed

lemma rep_ReadOnceFrom:
  assumes "rep b h c t r s" "reads_at_most rf" "rf q (length t) = ((bs, err), q')"
  shows "\<exists>b'. ReadOnceFrom rf b q =
             (if t = [] then Some ((0, Some ErrShortBuffer), b, q) else Some ((length bs, err), b', q')) \<and>
           rep b' h (c @ bs) (drop (length bs) t) r s"
  using rep_data_copy_read [OF assms] assms(3)
  by (auto simp: ReadOnceFrom_def rep_IsFull [OF assms(1)] rep_FreeBytes [OF assms(1)])

end
