(* ===== verification/BufferLaws.thy ===== *)
theory BufferLaws
  imports Buffer
begin

text \<open>
  What a buffer promises its clients: it is a byte sink (the interface the varint and
  address writers use) and a first-in first-out byte queue, no sequence of method calls that
  respects the documented bounds makes it panic, and its array returns to the pool it came
  from.
\<close>

section \<open>A buffer as a byte sink\<close>

text \<open>A client that writes chunk after chunk, counting the bytes the sink reports as written.\<close>

fun write_chunks :: "('w \<Rightarrow> bytes \<Rightarrow> ((nat \<times> go_error option) \<times> 'w) option) \<Rightarrow> 'w \<Rightarrow> bytes list \<Rightarrow>
    (nat \<times> 'w) option" where
  "write_chunks wr w [] = Some (0, w)"
| "write_chunks wr w (d # ds) =
     Option.bind (wr w d) (\<lambda>((n, _), w').
       Option.bind (write_chunks wr w' ds) (\<lambda>(m, w''). Some (n + m, w'')))"

text \<open>
  A sink extends the byte writer by writing several bytes at once: it takes the prefix
  that fits. The client lemmas describe a sequence of writes.
\<close>

locale byte_sink = byte_writer wb cont room ok
  for wb :: "'w write_byte" and cont :: "'w \<Rightarrow> bytes" and room :: "'w \<Rightarrow> nat" and ok :: "'w \<Rightarrow> bool" +
  fixes wr :: "'w \<Rightarrow> bytes \<Rightarrow> ((nat \<times> go_error option) \<times> 'w) option"
  assumes wr_takes: "ok w \<Longrightarrow>
      \<exists>w' e. wr w d = Some ((min (room w) (length d), e), w') \<and> ok w' \<and>
        cont w' = cont w @ take (room w) d \<and> room w' = room w - length d \<and>
        (length d \<le> room w \<longrightarrow> e = None)"
begin

lemma wr_all_takes:
  "ok w \<Longrightarrow> \<exists>w'. write_chunks wr w ds = Some (min (room w) (length (concat ds)), w') \<and> ok w' \<and>
     cont w' = cont w @ take (room w) (concat ds) \<and> room w' = room w - length (concat ds)"
proof (induction ds arbitrary: w)
  case Nil
  then show ?case by simp
next
  case (Cons d ds)
  obtain w1 e where w1: "wr w d = Some ((min (room w) (length d), e), w1)" "ok w1"
      "cont w1 = cont w @ take (room w) d" "room w1 = room w - length d"
    using wr_takes [OF Cons.prems, of d] by blast
  obtain w2 where "write_chunks wr w1 ds = Some (min (room w1) (length (concat ds)), w2)" "ok w2"
      "cont w2 = cont w1 @ take (room w1) (concat ds)" "room w2 = room w1 - length (concat ds)"
    using Cons.IH [OF w1(2)] by blast
  with w1 show ?case by auto
qed

lemma wr_all_fits:
  assumes "ok w" "length (concat ds) \<le> room w"
  shows "\<exists>w'. write_chunks wr w ds = Some (length (concat ds), w') \<and> ok w' \<and> cont w' = cont w @ concat ds \<and>
      room w' = room w - length (concat ds)"
  using wr_all_takes [OF assms(1), of ds] assms(2) by (auto simp: min_absorb2)

end

interpretation buffer_sink: byte_sink WriteByte contents freeroom wf_buffer Write
proof unfold_locales
  fix b d
  assume "wf_buffer b"
  then obtain h c t r s where rep: "rep b h c t r s" by (rule wf_rep)
  note view = rep_contents [OF rep] rep_freeroom [OF rep]
  show "\<exists>b'. WriteByte b d = Some (None, b') \<and> wf_buffer b' \<and> contents b' = contents b @ [d] \<and>
      freeroom b' = freeroom b - 1" if "0 < freeroom b"
    using rep_WriteByte [OF rep, of d] that
    by (cases t) (auto simp: view rep_contents rep_freeroom rep_wf)
  show "\<exists>err. WriteByte b d = Some (Some err, b)" if "freeroom b = 0"
    using that by (simp add: view WriteByte_def rep_IsFull [OF rep])
next
  fix b d
  assume "wf_buffer b"
  then obtain h c t r s where rep: "rep b h c t r s" by (rule wf_rep)
  note view = rep_contents [OF rep] rep_freeroom [OF rep]
  obtain b' where w: "Write b d = Some ((min (length t) (length d),
         (if d \<noteq> [] \<and> t = [] then Some ErrShortBuffer else None)), b')"
      and r': "rep b' h (c @ take (length t) d) (drop (length d) t) r s"
    using rep_Write [OF rep, of d] by blast
  from w r' show "\<exists>b' e. Write b d = Some ((min (freeroom b) (length d), e), b') \<and> wf_buffer b' \<and>
       contents b' = contents b @ take (freeroom b) d \<and> freeroom b' = freeroom b - length d \<and>
       (length d \<le> freeroom b \<longrightarrow> e = None)"
    by (auto simp: view rep_contents [OF r'] rep_freeroom [OF r'] rep_wf [OF r'])
qed

section \<open>Sequences of method calls\<close>

text \<open>
  One method call. The methods that take lengths from the caller without checking them
  (\<open>Advance\<close>, \<open>Truncate\<close>, \<open>Reserve\<close> below the end of the contents) are used within the
  bounds their callers keep; every other method is unrestricted, and a result that reports
  an error is a step too.
\<close>

inductive buf_step :: "buffer \<Rightarrow> buffer \<Rightarrow> bool" where
  step_Write: "Write b d = Some (x, b') \<Longrightarrow> buf_step b b'"
| step_WriteString: "WriteString b d = Some (x, b') \<Longrightarrow> buf_step b b'"
| step_WriteByte: "WriteByte b d1 = Some (y, b') \<Longrightarrow> buf_step b b'"
| step_WriteZeroN: "0 \<le> n \<Longrightarrow> WriteZeroN b n = Some (y, b') \<Longrightarrow> buf_step b b'"
| step_Extend: "Extend b n = Some (z, b') \<Longrightarrow> buf_step b b'"
| step_ExtendHeader: "0 \<le> n \<Longrightarrow> ExtendHeader b n = Some (z, b') \<Longrightarrow> buf_step b b'"
| step_ReadByte: "buf_ReadByte b = Some (u, b') \<Longrightarrow> buf_step b b'"
| step_ReadBytes: "0 \<le> n \<Longrightarrow> ReadBytes b n = Some (v, b') \<Longrightarrow> buf_step b b'"
| step_Read: "Read b m = Some (v, b') \<Longrightarrow> buf_step b b'"
| step_Advance: "0 \<le> n \<Longrightarrow> n \<le> Len b \<Longrightarrow> buf_step b (Advance b n)"
| step_Truncate: "0 \<le> n \<Longrightarrow> n \<le> Len b \<Longrightarrow> buf_step b (Truncate b n)"
| step_Reserve: "0 \<le> n \<Longrightarrow> n \<le> FreeLen b \<Longrightarrow> Reserve b n = Some b' \<Longrightarrow> buf_step b b'"
| step_OverCap: "0 \<le> n \<Longrightarrow> OverCap b n = Some b' \<Longrightarrow> buf_step b b'"
| step_Reset: "buf_step b (Reset b)"

lemma buf_step_wf: "buf_step b b' \<Longrightarrow> wf_buffer b \<Longrightarrow> wf_buffer b'"
proof (induction rule: buf_step.induct)
  case (step_Write b d x b')
  then show ?case using buffer_sink.wr_takes [of b d] by auto
next
  case (step_WriteString b d x b')
  then show ?case using buffer_sink.wr_takes [of b d] by (auto simp: WriteString_Write)
next
  case (step_WriteByte b d1 y b')
  then show ?case using buffer_sink.wb_room [of b d1] buffer_sink.wb_full [of b d1] by force
next
  case (step_WriteZeroN n b y b')
  obtain h c t r s where rep: "rep b h c t r s" by (rule wf_rep [OF step_WriteZeroN(3)])
  then show ?case
    using rep_WriteZeroN [OF rep step_WriteZeroN(1)] step_WriteZeroN by (auto split: if_splits dest: rep_wf)
next
  case (step_Extend b n z b')
  obtain h c t r s where rep: "rep b h c t r s" by (rule wf_rep [OF step_Extend(2)])
  then have "0 \<le> n \<and> n \<le> int (length t)"
    using Extend_overflow [OF rep, of n] step_Extend(1) by fastforce
  then show ?case using rep_Extend [OF rep, of n] step_Extend by (auto dest: rep_wf)
next
  case (step_ExtendHeader n b z b')
  obtain h c t r s where rep: "rep b h c t r s" by (rule wf_rep [OF step_ExtendHeader(3)])
  then have "n \<le> int (length h)"
    using ExtendHeader_overflow [OF rep, of n] step_ExtendHeader(2) by fastforce
  then show ?case using rep_ExtendHeader [OF rep step_ExtendHeader(1)] step_ExtendHeader by (auto dest: rep_wf)
next
  case (step_ReadByte b u b')
  obtain h c t r s where rep: "rep b h c t r s" by (rule wf_rep [OF step_ReadByte(2)])
  then show ?case using rep_ReadByte [OF rep] step_ReadByte by (auto dest: rep_wf)
next
  case (step_ReadBytes n b v b')
  obtain h c t r s where rep: "rep b h c t r s" by (rule wf_rep [OF step_ReadBytes(3)])
  then show ?case
    using rep_ReadBytes [OF rep step_ReadBytes(1)] step_ReadBytes by (auto split: if_splits dest: rep_wf)
next
  case (step_Read b m v b')
  obtain h c t r s where rep: "rep b h c t r s" by (rule wf_rep [OF step_Read(2)])
  then show ?case using rep_Read [OF rep, of m] step_Read by (auto dest: rep_wf)
qed (auto simp: wf_buffer_def Advance_def Truncate_def Reserve_def OverCap_def Reset_def Len_def
       FreeLen_def Let_def split: if_splits)

lemma buf_steps_wf: "buf_step\<^sup>*\<^sup>* b b' \<Longrightarrow> wf_buffer b \<Longrightarrow> wf_buffer b'"
  by (induction rule: rtranclp_induct) (auto intro: buf_step_wf)

section \<open>Composing writers\<close>

text \<open>
  A writer \<^emph>\<open>puts\<close> a byte string when, on every buffer with room for it, it succeeds and
  appends exactly these bytes. Writers compose like the decoders they are read back with.
\<close>

definition puts :: "buffer write_op \<Rightarrow> bytes \<Rightarrow> bool" where
  "puts f d \<longleftrightarrow> (\<forall>b. wf_buffer b \<longrightarrow> length d \<le> freeroom b \<longrightarrow>
     (\<exists>b'. f b = Some (None, b') \<and> buf_step\<^sup>*\<^sup>* b b' \<and> wf_buffer b' \<and> contents b' = contents b @ d \<and>
        freeroom b' = freeroom b - length d))"

lemma puts_then [put_intros]:
  assumes "puts f d" "puts g e"
  shows "puts (w_then f g) (d @ e)"
  unfolding puts_def
proof (intro allI impI)
  fix b
  assume b: "wf_buffer b" "length (d @ e) \<le> freeroom b"
  then obtain b1 where b1: "f b = Some (None, b1)" "buf_step\<^sup>*\<^sup>* b b1" "wf_buffer b1" "contents b1 = contents b @ d"
      "freeroom b1 = freeroom b - length d"
    using assms(1) unfolding puts_def by fastforce
  moreover from b(2) b1(5) have "length e \<le> freeroom b1" by simp
  ultimately obtain b2 where "g b1 = Some (None, b2)" "buf_step\<^sup>*\<^sup>* b1 b2" "wf_buffer b2" "contents b2 = contents b1 @ e"
      "freeroom b2 = freeroom b1 - length e"
    using assms(2) unfolding puts_def by blast
  with b1 show "\<exists>b'. w_then f g b = Some (None, b') \<and> buf_step\<^sup>*\<^sup>* b b' \<and> wf_buffer b' \<and> contents b' = contents b @ d @ e \<and>
      freeroom b' = freeroom b - length (d @ e)"
    by (auto simp: w_then_def)
qed

lemma puts_skip [put_intros]: "puts w_skip []"
  by (simp add: puts_def w_skip_def)

lemma puts_WriteByte [put_intros]: "puts (\<lambda>b. WriteByte b d) [d]"
  unfolding puts_def
proof (intro allI impI)
  fix b
  assume "wf_buffer b" "length [d] \<le> freeroom b"
  then obtain b' where "WriteByte b d = Some (None, b')" "wf_buffer b'" "contents b' = contents b @ [d]"
      "freeroom b' = freeroom b - 1"
    using buffer_sink.wb_room [of b d] by auto
  then show "\<exists>b'. WriteByte b d = Some (None, b') \<and> buf_step\<^sup>*\<^sup>* b b' \<and> wf_buffer b' \<and>
      contents b' = contents b @ [d] \<and> freeroom b' = freeroom b - length [d]"
    by (auto intro: r_into_rtranclp step_WriteByte)
qed

lemma puts_Write [put_intros]: "puts (common_Error (\<lambda>b. Write b d)) d"
  unfolding puts_def common_Error_def
proof (intro allI impI)
  fix b
  assume "wf_buffer b" "length d \<le> freeroom b"
  then show "\<exists>b'. (Write b d \<bind> (\<lambda>((_, err), w'). Some (err, w'))) = Some (None, b') \<and> buf_step\<^sup>*\<^sup>* b b' \<and>
      wf_buffer b' \<and> contents b' = contents b @ d \<and> freeroom b' = freeroom b - length d"
    using buffer_sink.wr_takes [of b d] step_Write [of b d] by fastforce
qed

lemma puts_WriteString [put_intros]: "puts (common_Error (\<lambda>b. WriteString b d)) d"
  using puts_Write [of d] by (simp add: WriteString_Write [abs_def] fun_eq_iff)

lemma puts_step [put_intros]: "puts (\<lambda>b. WriteByte b d) [d] \<Longrightarrow> puts g e \<Longrightarrow> puts (w_then (\<lambda>b. WriteByte b d) g) (d # e)"
  using puts_then [of "\<lambda>b. WriteByte b d" "[d]" g e] by simp

lemma putsD:
  assumes "puts f d" "wf_buffer b" "length d \<le> freeroom b"
  obtains b' where "f b = Some (None, b')" "buf_step\<^sup>*\<^sup>* b b'" "wf_buffer b'" "contents b' = contents b @ d"
    "freeroom b' = freeroom b - length d"
  using assms unfolding puts_def by blast

section \<open>Ownership\<close>

lemma wf_NewSize:
  assumes "wf_pools p" "0 \<le> sz"
  obtains b p' where "NewSize sz p = Some (b, p')" "wf_buffer b" "wf_pools p'" "contents b = []"
    "freeroom b = nat sz" "managed b \<longleftrightarrow> 0 < sz \<and> sz \<le> MaxPooledBufferSize" "refs b = 0"
    "bstart b = 0" "bend b = 0" "capacity b = sz" "slen (data b) = nat sz"
    "managed b \<Longrightarrow> \<exists>i \<le> 11. length (arr (data b)) = class_size i"
proof -
  consider "sz = 0" | "0 < sz" "sz \<le> MaxPooledBufferSize" | "MaxPooledBufferSize < sz"
    using assms(2) by linarith
  then show ?thesis
  proof cases
    case 1
    then show ?thesis
      using that [of zero_buffer p] assms(1)
      by (simp add: NewSize_def zero_buffer_def nil_slice_def wf_buffer_def contents_def freeroom_def)
  next
    case 2
    obtain s p' where s: "alloc_Get sz p = Some (Some s, p')" "wf_pools p'" "slen s = nat sz"
        "length (arr s) = class_size (unat (get_index sz))" "slen s \<le> length (arr s)"
      by (rule alloc_Get_wf [OF assms(1) 2])
    moreover have "unat (get_index sz) \<le> 11"
      using get_index_class [OF 2] by (simp add: word_le_nat_alt)
    ultimately show ?thesis
      using that [of "zero_buffer\<lparr>data := s, capacity := sz, managed := True\<rparr>" p'] 2
      by (auto simp: NewSize_def buf_Get_def zero_buffer_def wf_buffer_def contents_def freeroom_def)
  next
    case 3
    moreover from 3 have "0 < sz" by (simp add: MaxPooledBufferSize_def)
    ultimately show ?thesis
      using that [of "zero_buffer\<lparr>data := \<lparr>arr = replicate (nat sz) 0, slen = nat sz\<rparr>, capacity := sz\<rparr>" p]
        assms
      by (simp add: NewSize_def buf_Get_def alloc_Get_nil buf_Make_def zero_buffer_def wf_buffer_def
          contents_def freeroom_def)
  qed
qed

text \<open>The methods keep the ownership fields and the size of the array.\<close>

lemma buf_step_frame:
  "buf_step b b' \<Longrightarrow> wf_buffer b \<Longrightarrow>
   managed b' = managed b \<and> refs b' = refs b \<and> length (arr (data b')) = length (arr (data b)) \<and>
   slen (data b') = slen (data b)"
proof (induction rule: buf_step.induct)
  case (step_WriteZeroN n b y b')
  then show ?case
    by (auto simp: WriteZeroN_def Extend_def Let_def data_copy_def data_slice_def go_slice_def
        wf_buffer_def split: if_splits bind_splits)
qed (auto simp: Write_def WriteString_def WriteByte_def Extend_def ExtendHeader_def buf_ReadByte_def
       ReadBytes_def Read_def Advance_def Truncate_def Reserve_def OverCap_def Reset_def Let_def
       data_copy_def data_store_def data_slice_def go_slice_def wf_buffer_def
       split: if_splits bind_splits)

lemma buf_steps_frame:
  assumes "buf_step\<^sup>*\<^sup>* b b'" "wf_buffer b"
  shows "managed b' = managed b \<and> refs b' = refs b \<and> length (arr (data b')) = length (arr (data b)) \<and>
   slen (data b') = slen (data b)"
  using assms
proof (induction rule: rtranclp_induct)
  case (step y z)
  then have "wf_buffer y" by (simp add: buf_steps_wf)
  with buf_step_frame [OF step(2)] step show ?case by simp
qed simp

lemma wf_pools_Put: "wf_pools p \<Longrightarrow> length a = class_size i \<Longrightarrow> wf_pools (pool_Put i a p)"
  by (auto simp: wf_pools_def pool_Put_def)

lemma Release_managed:
  assumes "wf_pools p" "managed b" "refs b = 0" "i \<le> 11" "length (arr (data b)) = class_size i"
  shows "Release b p = Some (zero_buffer, pool_Put i (arr (data b)) p)"
    and "wf_pools (pool_Put i (arr (data b)) p)"
  using assms by (simp_all add: Release_def buf_Put_def alloc_Put_class wf_pools_Put)

section \<open>Messages through a scratch buffer\<close>

text \<open>
  \<open>common.Must(w1, ..., wn)\<close>: every write runs, and the first error panics.
\<close>

fun w_must :: "buffer write_op list \<Rightarrow> buffer write_op" where
  "w_must [] b = Some (None, b)"
| "w_must (f # fs) b = do { (e, b') \<leftarrow> f b; (_, b'') \<leftarrow> w_must fs b'; if e = None then Some (None, b'') else None }"

text \<open>
  The pattern the protocol writers share: \<open>buffer := buf.NewSize(n)\<close> with a deferred
  \<open>Release\<close>, the writes of the body (an error of which is returned), and one write of
  \<open>buffer.Bytes()\<close> to the writer.
\<close>

type_synonym 'w write_fn = "'w \<Rightarrow> bytes \<Rightarrow> (nat \<times> go_error option) \<times> 'w"

definition send_buffer :: "nat \<Rightarrow> buffer write_op \<Rightarrow> 'w write_fn \<Rightarrow> 'w \<Rightarrow> pools \<Rightarrow> (go_error option \<times> 'w \<times> pools) option" where
  "send_buffer n body wr w p = do {
     (b, p1) \<leftarrow> NewSize (int n) p;
     (err, b1) \<leftarrow> body b;
     (res, w') \<leftarrow> (case err of
         Some e \<Rightarrow> Some (Some e, w)
       | None \<Rightarrow> do { d \<leftarrow> Bytes b1; let ((_, e), w') = wr w d; Some (e, w') });
     (_, p2) \<leftarrow> Release b1 p1;
     Some (res, w', p2) }"

lemma puts_must_Nil [put_intros]: "puts (w_must []) []"
  by (simp add: puts_def)

lemma puts_must_Cons [put_intros]:
  assumes "puts f d" "puts (w_must fs) e"
  shows "puts (w_must (f # fs)) (d @ e)"
proof -
  have "w_must (f # fs) b = w_then f (w_must fs) b" if "f b = Some (None, b1)" "w_must fs b1 = Some (None, b2)" for b b1 b2
    using that by (simp add: w_then_def)
  moreover have "\<exists>b1 b2. f b = Some (None, b1) \<and> w_must fs b1 = Some (None, b2)"
    if b: "wf_buffer b" "length (d @ e) \<le> freeroom b" for b
  proof -
    obtain b1 where b1: "f b = Some (None, b1)" "wf_buffer b1" "freeroom b1 = freeroom b - length d"
      by (rule putsD [OF assms(1) b(1)]) (use b(2) in auto)
    moreover obtain b2 where "w_must fs b1 = Some (None, b2)"
      by (rule putsD [OF assms(2) b1(2)]) (use b(2) b1(3) in auto)
    ultimately show ?thesis by blast
  qed
  ultimately show ?thesis
    using puts_then [OF assms] unfolding puts_def by metis
qed

lemma puts_WriteZero [put_intros]: "puts WriteZero [0]"
  using puts_WriteByte [of 0] by (simp add: WriteZero_def [abs_def] WriteByte_def [abs_def])

lemma puts_WriteZeroN [put_intros]: "puts (\<lambda>b. WriteZeroN b (int n)) (replicate n 0)"
  unfolding puts_def
proof (intro allI impI)
  fix b
  assume b: "wf_buffer b" "length (replicate n (0 :: byte)) \<le> freeroom b"
  obtain h c t r s where rep: "rep b h c t r s" by (rule wf_rep [OF b(1)])
  with b(2) have "n \<le> length t" by (simp add: rep_freeroom)
  then obtain b' where b': "WriteZeroN b (int n) = Some (None, b')" "rep b' h (c @ replicate n 0) (drop n t) r s"
    using rep_WriteZeroN [OF rep, of "int n"] by auto
  then show "\<exists>b'. WriteZeroN b (int n) = Some (None, b') \<and> buf_step\<^sup>*\<^sup>* b b' \<and> wf_buffer b' \<and>
      contents b' = contents b @ replicate n 0 \<and> freeroom b' = freeroom b - length (replicate n (0 :: byte))"
    using step_WriteZeroN [of "int n" b None b'] rep_contents [OF rep] rep_freeroom [OF rep]
    by (auto simp: rep_contents rep_freeroom rep_wf)
qed

lemma NewSize_Release:
  assumes "wf_pools p" "NewSize (int n) p = Some (b, p')" "buf_step\<^sup>*\<^sup>* b b'"
  shows "\<exists>b2 p2. Release b' p' = Some (b2, p2) \<and> wf_pools p2"
proof -
  have b: "wf_buffer b" "wf_pools p'" "refs b = 0"
      "managed b \<Longrightarrow> \<exists>i \<le> 11. length (arr (data b)) = class_size i"
    using assms(2) by (rule_tac wf_NewSize [OF assms(1), of "int n"]; simp)+
  from buf_steps_frame [OF assms(3) b(1)] b(3) have f: "managed b' = managed b" "refs b' = 0"
      "length (arr (data b')) = length (arr (data b))" by simp_all
  show ?thesis
  proof (cases "managed b")
    case True
    with b(4) f obtain i where "i \<le> 11" "length (arr (data b')) = class_size i" by auto
    from Release_managed [OF b(2) _ f(2) this] True f(1) show ?thesis by auto
  next
    case False
    with f b(2) show ?thesis by (simp add: Release_def)
  qed
qed

lemma data_slice_contents: "wf_buffer b \<Longrightarrow> data_slice b (bstart b) (bend b) = Some (contents b)"
  by (simp add: data_slice_def contents_def wf_buffer_def)

lemma Bytes_contents: "wf_buffer b \<Longrightarrow> Bytes b = Some (contents b)"
  by (simp add: Bytes_def data_slice_contents)

lemma send_buffer_puts:
  assumes "puts body d" "length d \<le> n" "wf_pools p"
  shows "\<exists>p'. wf_pools p' \<and>
     send_buffer n body wr w p = (case wr w d of ((_, err), w') \<Rightarrow> Some (err, w', p'))"
proof -
  obtain b p1 where b: "NewSize (int n) p = Some (b, p1)" "wf_buffer b" "contents b = []" "freeroom b = n"
    by (rule wf_NewSize [OF assms(3), of "int n"]) auto
  obtain b1 where b1: "body b = Some (None, b1)" "buf_step\<^sup>*\<^sup>* b b1" "wf_buffer b1" "contents b1 = d"
    using putsD [OF assms(1) b(2)] b(3,4) assms(2) by force
  from NewSize_Release [OF assms(3) b(1) b1(2)] b(1) b1 show ?thesis
    by (auto simp: send_buffer_def Bytes_contents Let_def split: prod.splits)
qed

text \<open>A message function \<^emph>\<open>sends\<close> a byte string when it hands it to the writer in one write.\<close>

definition sends :: "('w write_fn \<Rightarrow> 'w \<Rightarrow> pools \<Rightarrow> (go_error option \<times> 'w \<times> pools) option) \<Rightarrow> bytes \<Rightarrow> bool" where
  "sends m d \<longleftrightarrow> (\<forall>wr w p. wf_pools p \<longrightarrow>
     (\<exists>p'. wf_pools p' \<and> m wr w p = (case wr w d of ((_, err), w') \<Rightarrow> Some (err, w', p'))))"

lemma sends_buffer:
  assumes "puts body d" "length d \<le> n"
  shows "sends (send_buffer n body) d"
  unfolding sends_def by (intro allI impI send_buffer_puts assms)

lemma sendsD:
  assumes "sends m d" "wf_pools p"
  obtains p' where "wf_pools p'" "m wr w p = (case wr w d of ((_, err), w') \<Rightarrow> Some (err, w', p'))"
proof -
  from assms have "\<exists>p'. wf_pools p' \<and> m wr w p = (case wr w d of ((_, err), w') \<Rightarrow> Some (err, w', p'))"
    by (simp add: sends_def)
  then show ?thesis using that by (elim exE conjE)
qed

lemma puts_cong: "puts f d \<Longrightarrow> d = e \<Longrightarrow> puts f e"
  by simp

section \<open>Reading from a stream\<close>




section \<open>Copies\<close>

lemma blit_take_drop: "i + length ys \<le> length xs \<Longrightarrow> take (length ys) (drop i (blit xs i ys)) = ys"
  by (simp add: blit_def)

lemma ToOwned_copy:
  assumes "wf_buffer b" "wf_pools p"
  shows "\<exists>b' p'. ToOwned b p = Some (b', p') \<and> wf_buffer b' \<and> wf_pools p' \<and> contents b' = contents b \<and>
      bstart b' = bstart b \<and> bend b' = bend b \<and> capacity b' = capacity b"
proof -
  obtain n p' where n: "NewSize (int (slen (data b))) p = Some (n, p')" "wf_pools p'" "wf_buffer n"
      "slen (data n) = slen (data b)"
    by (rule wf_NewSize [OF assms(2), of "int (slen (data b))"]) auto
  have b: "0 \<le> bstart b" "bstart b \<le> bend b" "bend b \<le> capacity b" "capacity b \<le> int (slen (data b))"
    using assms(1) by (simp_all add: wf_buffer_def)
  have sl: "slen (data b) \<le> length (arr (data n))"
    using n(3,4) by (simp add: wf_buffer_def)
  have len: "length (contents b) = nat (bend b - bstart b)"
    by (rule wf_rep [OF assms(1)]) (auto simp: rep_contents, simp add: rep_def)
  have "\<exists>d. data_slice n (bstart b) (bend b) = Some d"
    using b sl by (simp add: data_slice_def)
  moreover have "nat (bstart b) + length (contents b) \<le> length (arr (data n))"
    using b sl len by linarith
  ultimately show ?thesis
    using b sl len n blit_take_drop [of "nat (bstart b)" "contents b" "arr (data n)"]
    by (auto simp: ToOwned_def data_slice_contents [OF assms(1)] data_copy_def contents_def wf_buffer_def)
qed

lemma CopyMulti_loop_eq:
  "\<forall>b \<in> set bs. wf_buffer b \<Longrightarrow> n \<le> length dst \<Longrightarrow>
   CopyMulti_loop dst n bs =
     (let d = take (length dst - n) (concat (map contents bs)) in Some (n + length d, blit dst n d))"
proof (induction bs arbitrary: dst n)
  case Nil
  then show ?case by simp
next
  case (Cons b bs)
  define d where "d = take (length dst - n) (contents b)"
  define e where "e = take (length dst - (n + length d)) (concat (map contents bs))"
  have le: "n + length d \<le> length dst" using Cons.prems(2) by (simp add: d_def)
  have de: "d @ e = take (length dst - n) (concat (map contents (b # bs)))"
    by (simp add: d_def e_def min_def)
  have "CopyMulti_loop dst n (b # bs) = CopyMulti_loop (blit dst n d) (n + length d) bs"
    using Cons.prems(1) by (simp add: Bytes_contents d_def)
  also have "\<dots> = Some (n + length d + length e, blit (blit dst n d) (n + length d) e)"
    using Cons.IH [of "n + length d" "blit dst n d"] Cons.prems(1) le by (simp add: e_def Let_def)
  also have "\<dots> = Some (n + length (d @ e), blit dst n (d @ e))"
    by (simp add: blit_blit [OF le])
  finally show ?case unfolding de Let_def .
qed

text \<open>A client that reads with one destination after another, and what it got until the first error.\<close>

fun read_chunks :: "buffer \<Rightarrow> nat list \<Rightarrow> (bytes \<times> buffer) option" where
  "read_chunks b [] = Some ([], b)"
| "read_chunks b (n # ns) =
     Option.bind (Read b n) (\<lambda>(d, b'). case d of
         Inl _ \<Rightarrow> Some ([], b')
       | Inr d \<Rightarrow> Option.bind (read_chunks b' ns) (\<lambda>(ds, b''). Some (d @ ds, b'')))"

lemma read_chunks_contents:
  "wf_buffer b \<Longrightarrow> \<exists>b'. read_chunks b ns = Some (take (sum_list ns) (contents b), b') \<and> wf_buffer b' \<and>
     contents b' = drop (sum_list ns) (contents b) \<and> freeroom b' = freeroom b"
proof (induction ns arbitrary: b)
  case Nil
  then show ?case by simp
next
  case (Cons n ns)
  then obtain h c t r s where rep: "rep b h c t r s" by (blast elim: wf_rep)
  obtain b2 where b2: "Read b n = Some ((if c = [] then Inl EOF else Inr (take n c)), b2)"
    and rep2: "rep b2 (h @ take n c) (drop n c) t r s"
    using rep_Read [OF rep, of n] by blast
  note view = rep_contents [OF rep] rep_freeroom [OF rep] rep_contents [OF rep2] rep_freeroom [OF rep2]
  obtain b3 where "read_chunks b2 ns = Some (take (sum_list ns) (drop n c), b3)" "wf_buffer b3"
      "contents b3 = drop (sum_list ns) (drop n c)" "freeroom b3 = length t"
    using Cons.IH [OF rep_wf [OF rep2]] by (auto simp: view)
  with b2 show ?case
    by (cases "c = []") (auto simp: view rep_wf [OF rep2] take_add add.commute)
qed

section \<open>Properties\<close>



text \<open>
  C4. A buffer is a first-in first-out byte queue: whatever chunks are written into the room
  it has, and whatever sizes are then read, the reader gets the bytes in the order they were
  written, none lost, none repeated, and what it did not read is still there.
\<close>

theorem buffer_fifo:
  assumes "wf_buffer b" "length (concat ds) \<le> freeroom b"
  shows "\<exists>b1 b2. write_chunks Write b ds = Some (length (concat ds), b1) \<and>
     read_chunks b1 ns = Some (take (sum_list ns) (contents b @ concat ds), b2) \<and>
     Bytes b2 = Some (drop (sum_list ns) (contents b @ concat ds)) \<and>
     freeroom b2 = freeroom b - length (concat ds)"
proof -
  obtain b1 where b1: "write_chunks Write b ds = Some (length (concat ds), b1)" "wf_buffer b1"
      "contents b1 = contents b @ concat ds" "freeroom b1 = freeroom b - length (concat ds)"
    using buffer_sink.wr_all_fits [OF assms] by blast
  obtain b2 where "read_chunks b1 ns = Some (take (sum_list ns) (contents b1), b2)" "wf_buffer b2"
      "contents b2 = drop (sum_list ns) (contents b1)" "freeroom b2 = freeroom b1"
    using read_chunks_contents [OF b1(2), of ns] by blast
  with b1 show ?thesis by (simp add: Bytes_contents)
qed

theorem buffer_fifo_witness:
  "\<exists>b1 b2. write_chunks Write (buf_With \<lparr>arr = [0, 0, 0], slen = 3\<rparr>) [[1], [2, 3]] = Some (3, b1) \<and>
     read_chunks b1 [2] = Some ([1, 2], b2) \<and> Bytes b2 = Some [3]"
  using buffer_fifo [of "buf_With \<lparr>arr = [0, 0, 0], slen = 3\<rparr>" "[[1], [2, 3]]" "[2]"]
  by (auto simp: buf_With_def zero_buffer_def wf_buffer_def freeroom_def contents_def)





end
