(* ===== verification/Netip.thy ===== *)
theory Netip
  imports Prelude
begin

text \<open>
  The parts of Go's standard library the address code rests on: \<open>netip.Addr\<close> with
  \<open>ParseAddr\<close> and \<open>String\<close>, \<open>net.SplitHostPort\<close>, \<open>net.JoinHostPort\<close>, \<open>strconv.Itoa\<close> and
  \<open>strconv.Atoi\<close>. The functions follow the library's algorithms, with parse errors as
  \<open>None\<close> since the callers discard their text. The last sections show that decimal
  numbers and dotted IPv4 addresses survive printing and parsing.
\<close>

section \<open>Addresses\<close>

text \<open>
  A \<open>netip.Addr\<close>: the zero value, an IPv4 address of four bytes, or an IPv6 address of
  sixteen bytes with its zone (empty when there is none).
\<close>

datatype netip_addr = NoAddr | Addr4 bytes | Addr6 bytes (zone: bytes)

fun wf_addr :: "netip_addr \<Rightarrow> bool" where
  "wf_addr NoAddr = True"
| "wf_addr (Addr4 bs) = (length bs = 4)"
| "wf_addr (Addr6 bs z) = (length bs = 16)"

definition addr_IsValid :: "netip_addr \<Rightarrow> bool" where "addr_IsValid a \<longleftrightarrow> a \<noteq> NoAddr"

fun addr_Is4 :: "netip_addr \<Rightarrow> bool" where
  "addr_Is4 (Addr4 _) = True" | "addr_Is4 _ = False"

fun addr_Is6 :: "netip_addr \<Rightarrow> bool" where
  "addr_Is6 (Addr6 _ _) = True" | "addr_Is6 _ = False"

definition v4_in_v6_prefix :: bytes where
  "v4_in_v6_prefix = replicate 10 0 @ [0xff, 0xff]"

fun addr_Is4In6 :: "netip_addr \<Rightarrow> bool" where
  "addr_Is4In6 (Addr6 bs _) = (take 12 bs = v4_in_v6_prefix)"
| "addr_Is4In6 _ = False"

fun addr_As4 :: "netip_addr \<Rightarrow> bytes option" where
  "addr_As4 (Addr4 bs) = Some bs"
| "addr_As4 (Addr6 bs z) = (if take 12 bs = v4_in_v6_prefix then Some (drop 12 bs) else None)"
| "addr_As4 NoAddr = None"

fun addr_AsSlice :: "netip_addr \<Rightarrow> bytes" where
  "addr_AsSlice NoAddr = []" | "addr_AsSlice (Addr4 bs) = bs" | "addr_AsSlice (Addr6 bs _) = bs"

definition addr_Unmap :: "netip_addr \<Rightarrow> netip_addr" where
  "addr_Unmap a = (if addr_Is4In6 a then Addr4 (drop 12 (addr_AsSlice a)) else a)"

definition AddrFromSlice :: "bytes \<Rightarrow> netip_addr" where
  "AddrFromSlice bs = (if length bs = 4 then Addr4 bs else if length bs = 16 then Addr6 bs [] else NoAddr)"

section \<open>Searching and numbers\<close>

fun index_byte :: "byte \<Rightarrow> bytes \<Rightarrow> nat option" where
  "index_byte c [] = None"
| "index_byte c (x # xs) = (if x = c then Some 0 else map_option Suc (index_byte c xs))"

definition last_index_byte :: "byte \<Rightarrow> bytes \<Rightarrow> nat option" where
  "last_index_byte c xs = map_option (\<lambda>i. length xs - Suc i) (index_byte c (rev xs))"

definition is_digit :: "byte \<Rightarrow> bool" where "is_digit c \<longleftrightarrow> 48 \<le> c \<and> c \<le> 57"

definition digit_val :: "byte \<Rightarrow> nat" where "digit_val c = unat c - 48"

fun itoa_nat :: "nat \<Rightarrow> bytes" where
  "itoa_nat n = (if n < 10 then [of_nat (48 + n)] else itoa_nat (n div 10) @ [of_nat (48 + n mod 10)])"

declare itoa_nat.simps [simp del]

definition Itoa :: "int \<Rightarrow> bytes" where
  "Itoa i = (if i < 0 then 45 # itoa_nat (nat (- i)) else itoa_nat (nat i))"

text \<open>
  \<open>strconv.ParseUint\<close> in base 10 stops at the first digit that overflows 64 bits (the
  result is then the maximum), and \<open>Atoi\<close> clamps to the range of a 64-bit \<open>int\<close>; a syntax
  error gives 0. \<open>Atoi\<close> is the value the callers keep when they discard the error.
\<close>

fun parse_uint :: "int \<Rightarrow> bytes \<Rightarrow> int option" where
  "parse_uint n [] = Some n"
| "parse_uint n (c # cs) =
     (if is_digit c then
        (let n' = 10 * n + int (digit_val c) in if n' \<ge> 2 ^ 64 then Some (2 ^ 64 - 1) else parse_uint n' cs)
      else None)"

definition parse_unsigned :: "bytes \<Rightarrow> int option" where
  "parse_unsigned s = (if s = [] then None else parse_uint 0 s)"

definition Atoi :: "bytes \<Rightarrow> int" where
  "Atoi s =
     (case s of
        [] \<Rightarrow> 0
      | c # cs \<Rightarrow>
          if c = 45 then (case parse_unsigned cs of None \<Rightarrow> 0 | Some n \<Rightarrow> max (- n) (- (2 ^ 63)))
          else case parse_unsigned (if c = 43 then cs else s) of None \<Rightarrow> 0 | Some n \<Rightarrow> min n (2 ^ 63 - 1))"

section \<open>Parsing addresses\<close>

text \<open>
  \<open>parseIPv4Fields\<close>: \<open>fs\<close> are the fields stored so far, \<open>val\<close> and \<open>digLen\<close> the octet being
  read, \<open>dot\<close> whether the previous character was a dot (or there is none).
\<close>

fun parseIPv4Fields :: "bytes \<Rightarrow> nat \<Rightarrow> nat \<Rightarrow> bool \<Rightarrow> bytes \<Rightarrow> bytes option" where
  "parseIPv4Fields fs val digLen dot [] = (if length fs < 3 then None else Some (fs @ [of_nat val]))"
| "parseIPv4Fields fs val digLen dot (c # cs) =
     (if is_digit c then
        (if digLen = 1 \<and> val = 0 then None
         else let val' = val * 10 + digit_val c in
           if val' > 255 then None else parseIPv4Fields fs val' (digLen + 1) False cs)
      else if c = 46 then
        (if dot \<or> cs = [] then None
         else if length fs = 3 then None
         else parseIPv4Fields (fs @ [of_nat val]) 0 0 True cs)
      else None)"

definition parseIPv4 :: "bytes \<Rightarrow> netip_addr option" where
  "parseIPv4 s = map_option Addr4 (parseIPv4Fields [] 0 0 True s)"

definition hex_val :: "byte \<Rightarrow> nat option" where
  "hex_val c =
     (if 48 \<le> c \<and> c \<le> 57 then Some (unat c - 48)
      else if 97 \<le> c \<and> c \<le> 102 then Some (unat c - 97 + 10)
      else if 65 \<le> c \<and> c \<le> 70 then Some (unat c - 65 + 10)
      else None)"

text \<open>
  The inner loop reads a hexadecimal group: the outer \<open>None\<close> is its error, otherwise the
  number of digits, the value and the rest of the input.
\<close>

fun hex_group :: "nat \<Rightarrow> nat \<Rightarrow> bytes \<Rightarrow> (nat \<times> nat \<times> bytes) option" where
  "hex_group off acc [] = Some (off, acc, [])"
| "hex_group off acc (c # cs) =
     (case hex_val c of
        None \<Rightarrow> Some (off, acc, c # cs)
      | Some v \<Rightarrow>
          let acc' = acc * 16 + v in
          if off > 3 then None else if acc' > 65535 then None else hex_group (off + 1) acc' cs)"

text \<open>
  The outer loop: \<open>ip\<close> are the bytes stored so far, \<open>el\<close> the position of the ellipsis; the
  result has both, after the input is used up. Its fuel counts the 16-bit groups that fit.
\<close>

fun parseIPv6_loop :: "nat \<Rightarrow> bytes \<Rightarrow> nat option \<Rightarrow> bytes \<Rightarrow> (bytes \<times> nat option) option" where
  "parseIPv6_loop 0 ip el s = (if s \<noteq> [] then None else Some (ip, el))"
| "parseIPv6_loop (Suc fuel) ip el s =
     (case hex_group 0 0 s of
        None \<Rightarrow> None
      | Some (off, acc, rest) \<Rightarrow>
          if off = 0 then None
          else if rest \<noteq> [] \<and> hd rest = 46 then
            (if el = None \<and> length ip \<noteq> 12 then None
             else if length ip + 4 > 16 then None
             else map_option (\<lambda>f. (ip @ f, el)) (parseIPv4Fields [] 0 0 True s))
          else
            let ip' = ip @ [of_nat (acc div 256), of_nat (acc mod 256)] in
            (case rest of
               [] \<Rightarrow> Some (ip', el)
             | c # s1 \<Rightarrow>
                 if c \<noteq> 58 then None
                 else (case s1 of
                     [] \<Rightarrow> None
                   | d # s2 \<Rightarrow>
                       if d = 58 then
                         (if el \<noteq> None then None
                          else if s2 = [] then Some (ip', Some (length ip'))
                          else parseIPv6_loop fuel ip' (Some (length ip')) s2)
                       else parseIPv6_loop fuel ip' el s1)))"

definition expand_ellipsis :: "bytes \<times> nat option \<Rightarrow> bytes option" where
  "expand_ellipsis = (\<lambda>(ip, el).
     if length ip < 16 then
       (case el of None \<Rightarrow> None | Some e \<Rightarrow> Some (take e ip @ replicate (16 - length ip) 0 @ drop e ip))
     else if el \<noteq> None then None else Some ip)"

definition parseIPv6_in_zone :: "bytes \<Rightarrow> bytes \<Rightarrow> netip_addr option" where
  "parseIPv6_in_zone zn s =
     (if take 2 s = [58, 58] \<and> drop 2 s = [] then Some (Addr6 (replicate 16 0) zn)
      else map_option (\<lambda>ip. Addr6 ip zn)
        (Option.bind
          (if take 2 s = [58, 58] then parseIPv6_loop 8 [] (Some 0) (drop 2 s) else parseIPv6_loop 8 [] None s)
          expand_ellipsis))"

definition parseIPv6 :: "bytes \<Rightarrow> netip_addr option" where
  "parseIPv6 input =
     (case index_byte 37 input of
        None \<Rightarrow> parseIPv6_in_zone [] input
      | Some i \<Rightarrow> if drop (Suc i) input = [] then None else parseIPv6_in_zone (drop (Suc i) input) (take i input))"

fun netip_ParseAddr_scan :: "bytes \<Rightarrow> bytes \<Rightarrow> netip_addr option" where
  "netip_ParseAddr_scan s [] = None"
| "netip_ParseAddr_scan s (c # cs) =
     (if c = 46 then parseIPv4 s else if c = 58 then parseIPv6 s else if c = 37 then None
      else netip_ParseAddr_scan s cs)"

definition netip_ParseAddr :: "bytes \<Rightarrow> netip_addr option" where
  "netip_ParseAddr s = netip_ParseAddr_scan s s"

section \<open>Printing addresses\<close>

definition dotted :: "bytes \<Rightarrow> bytes" where
  "dotted bs = concat (map (\<lambda>(i, b). (if i = 0 then [] else [46]) @ itoa_nat (unat b)) (enumerate 0 bs))"

definition hex_digit :: "nat \<Rightarrow> byte" where
  "hex_digit n = of_nat (if n < 10 then 48 + n else 87 + n)"

definition appendHex :: "nat \<Rightarrow> bytes" where
  "appendHex x =
     (if x \<ge> 4096 then [hex_digit (x div 4096)] else []) @
     (if x \<ge> 256 then [hex_digit (x div 256 mod 16)] else []) @
     (if x \<ge> 16 then [hex_digit (x div 16 mod 16)] else []) @ [hex_digit (x mod 16)]"

definition v6u16 :: "bytes \<Rightarrow> nat \<Rightarrow> nat" where
  "v6u16 bs i = unat (bs ! (2 * i)) * 256 + unat (bs ! (2 * i + 1))"

text \<open>The longest run of at least two zero groups, the first one when there are several.\<close>

definition zero_run_from :: "bytes \<Rightarrow> nat \<Rightarrow> nat" where
  "zero_run_from bs i = length (takeWhile (\<lambda>j. v6u16 bs j = 0) [i..<8])"

definition zero_run :: "bytes \<Rightarrow> nat \<times> nat" where
  "zero_run bs = foldl (\<lambda>(s, e) i. let l = zero_run_from bs i in
       if 2 \<le> l \<and> e - s < l then (i, i + l) else (s, e)) (255, 255) [0..<8]"

fun v6_groups :: "nat \<Rightarrow> bytes \<Rightarrow> nat \<times> nat \<Rightarrow> nat \<Rightarrow> bytes" where
  "v6_groups 0 bs run i = []"
| "v6_groups (Suc fuel) bs run i =
     (if i \<ge> 8 then []
      else if i = fst run then
        [58, 58] @ (if snd run \<ge> 8 then [] else appendHex (v6u16 bs (snd run)) @ v6_groups fuel bs run (snd run + 1))
      else (if 0 < i then [58] else []) @ appendHex (v6u16 bs i) @ v6_groups fuel bs run (i + 1))"

fun addr_String :: "netip_addr \<Rightarrow> bytes" where
  "addr_String NoAddr = lit ''invalid IP''"
| "addr_String (Addr4 bs) = dotted bs"
| "addr_String (Addr6 bs z) =
     (let zn = (if z = [] then [] else 37 # z) in
      if take 12 bs = v4_in_v6_prefix then lit ''::ffff:'' @ dotted (drop 12 bs) @ zn
      else v6_groups 8 bs (zero_run bs) 0 @ zn)"

section \<open>Host and port\<close>

definition JoinHostPort :: "bytes \<Rightarrow> bytes \<Rightarrow> bytes" where
  "JoinHostPort host port =
     (if index_byte 58 host \<noteq> None then 91 # host @ [93, 58] @ port else host @ [58] @ port)"

definition SplitHostPort :: "bytes \<Rightarrow> (bytes \<times> bytes) option" where
  "SplitHostPort hp =
     (case last_index_byte 58 hp of
        None \<Rightarrow> None
      | Some i \<Rightarrow>
          (if hd hp = 91 then
             (case index_byte 93 hp of
                None \<Rightarrow> None
              | Some e \<Rightarrow>
                  if e + 1 = length hp \<or> e + 1 \<noteq> i then None
                  else if index_byte 91 (drop 1 hp) \<noteq> None then None
                  else if index_byte 93 (drop (e + 1) hp) \<noteq> None then None
                  else Some (take (e - 1) (drop 1 hp), drop (i + 1) hp))
           else
             let host = take i hp in
             if index_byte 58 host \<noteq> None then None
             else if index_byte 91 hp \<noteq> None then None
             else if index_byte 93 hp \<noteq> None then None
             else Some (host, drop (i + 1) hp)))"

section \<open>What the parser returns\<close>

lemma parseIPv4Fields_length: "parseIPv4Fields fs v d dot s = Some bs \<Longrightarrow> length fs \<le> 3 \<Longrightarrow> length bs = 4"
  by (induction fs v d dot s arbitrary: bs rule: parseIPv4Fields.induct)
     (auto simp: Let_def split: if_splits)

lemma parseIPv6_loop_length:
  "parseIPv6_loop fuel ip el s = Some (bs, el') \<Longrightarrow> length ip + 2 * fuel \<le> 16 \<Longrightarrow> length bs \<le> 16"
proof (induction fuel arbitrary: ip el s)
  case (Suc fuel)
  obtain off acc rest where h: "hex_group 0 0 s = Some (off, acc, rest)" and off: "off \<noteq> 0"
    using Suc.prems(1) by (cases "hex_group 0 0 s") (auto split: if_splits)
  define ip' where "ip' = ip @ [of_nat (acc div 256), of_nat (acc mod 256)]"
  have ip': "length ip' + 2 * fuel \<le> 16" "length ip' \<le> 16" using Suc.prems(2) by (simp_all add: ip'_def)
  show ?case
  proof (cases "rest \<noteq> [] \<and> hd rest = 46")
    case True
    with Suc.prems(1) h off obtain f where "parseIPv4Fields [] 0 0 True s = Some f" "bs = ip @ f"
      "length ip + 4 \<le> 16"
      by (auto split: if_splits)
    then show ?thesis using parseIPv4Fields_length [of "[]" 0 0 True s f] by simp
  next
    case False
    then consider "rest = []" | d s2 where "rest = 58 # d # s2"
      using Suc.prems(1) h off by (auto simp: Let_def split: list.splits if_splits)
    then show ?thesis
    proof cases
      case 1
      with Suc.prems(1) h off ip' show ?thesis by (simp add: Let_def ip'_def [symmetric])
    next
      case 2
      with Suc.prems(1) h off have "bs = ip' \<or> parseIPv6_loop fuel ip' (Some (length ip')) s2 = Some (bs, el') \<or>
          parseIPv6_loop fuel ip' el (d # s2) = Some (bs, el')"
        by (simp add: Let_def ip'_def [symmetric] split: if_splits)
      with Suc.IH [OF _ ip'(1)] ip'(2) show ?thesis by blast
    qed
  qed
qed (auto split: if_splits)

lemma expand_ellipsis_length: "expand_ellipsis (bs, el) = Some ip \<Longrightarrow> length bs \<le> 16 \<Longrightarrow> length ip = 16"
  by (auto simp: expand_ellipsis_def split: if_splits option.splits)

lemma parse_groups_length:
  assumes "Option.bind (parseIPv6_loop fuel [] el s) expand_ellipsis = Some ip" "fuel \<le> 8"
  shows "length ip = 16"
proof (cases "parseIPv6_loop fuel [] el s")
  case (Some r)
  obtain bs el' where r: "r = (bs, el')" by fastforce
  have "length bs \<le> 16"
    by (rule parseIPv6_loop_length [OF Some [unfolded r]]) (use assms(2) in simp)
  then show ?thesis using assms(1) Some expand_ellipsis_length [of bs el' ip] by (simp add: r)
qed (use assms(1) in simp)

lemma parseIPv6_in_zone_wf: "parseIPv6_in_zone zn s = Some a \<Longrightarrow> wf_addr a \<and> a \<noteq> NoAddr"
  unfolding parseIPv6_in_zone_def
  by (auto split: if_split_asm dest!: parse_groups_length)

lemma parseIPv6_wf: "parseIPv6 input = Some a \<Longrightarrow> wf_addr a \<and> a \<noteq> NoAddr"
  unfolding parseIPv6_def by (auto split: option.splits if_split_asm dest!: parseIPv6_in_zone_wf)

lemma parseIPv4_wf: "parseIPv4 s = Some a \<Longrightarrow> wf_addr a \<and> a \<noteq> NoAddr"
  using parseIPv4Fields_length [of "[]" 0 0 True s] by (auto simp: parseIPv4_def)

lemma netip_ParseAddr_scan_wf:
  "netip_ParseAddr_scan s cs = Some a \<Longrightarrow> wf_addr a \<and> a \<noteq> NoAddr"
proof (induction s cs rule: netip_ParseAddr_scan.induct)
  case (2 s c cs)
  then show ?case
    by (auto dest!: parseIPv4_wf parseIPv6_wf split: if_split_asm)
qed simp

lemma netip_ParseAddr_wf: "netip_ParseAddr s = Some a \<Longrightarrow> wf_addr a \<and> a \<noteq> NoAddr"
  by (simp add: netip_ParseAddr_def netip_ParseAddr_scan_wf)

section \<open>Printing and parsing numbers\<close>

lemma unat_digit: "n < 10 \<Longrightarrow> unat (of_nat (48 + n) :: byte) = 48 + n"
  by (simp add: unsigned_of_nat take_bit_eq_mod del: of_nat_add)

lemma digit_of_nat [simp]:
  assumes "n < 10"
  shows "is_digit (of_nat (48 + n))" "digit_val (of_nat (48 + n)) = n"
  using unat_digit [OF assms] assms by (simp_all add: is_digit_def digit_val_def word_le_nat_alt del: of_nat_add)

lemma digit_not [simp]: "is_digit c \<Longrightarrow> c \<noteq> 46" "is_digit c \<Longrightarrow> c \<noteq> 58" "is_digit c \<Longrightarrow> c \<noteq> 45" "is_digit c \<Longrightarrow> c \<noteq> 43"
    "is_digit c \<Longrightarrow> c \<noteq> 91" "is_digit c \<Longrightarrow> c \<noteq> 93" "is_digit c \<Longrightarrow> c \<noteq> 37"
  by (auto simp: is_digit_def)

lemma itoa_digits: "\<forall>c \<in> set (itoa_nat n). is_digit c"
  by (induction n rule: itoa_nat.induct) (subst itoa_nat.simps, auto simp del: of_nat_add)

lemma itoa_nonempty [simp]: "itoa_nat n \<noteq> []"
  by (subst itoa_nat.simps) simp

definition digits_val :: "int \<Rightarrow> bytes \<Rightarrow> int" where
  "digits_val k s = foldl (\<lambda>a c. 10 * a + int (digit_val c)) k s"

lemma digits_val_itoa: "digits_val 0 (itoa_nat n) = int n"
proof (induction n rule: itoa_nat.induct)
  case (1 n)
  show ?case
  proof (cases "n < 10")
    case True
    then show ?thesis by (subst itoa_nat.simps) (simp add: digits_val_def del: of_nat_add)
  next
    case False
    have "10 * int (n div 10) + int (n mod 10) = int n"
      by (metis div_mult_mod_eq mult.commute of_nat_add of_nat_mult of_nat_numeral)
    with False 1 show ?thesis
      by (subst itoa_nat.simps) (simp add: digits_val_def del: of_nat_add)
  qed
qed

lemma digits_val_mono: "0 \<le> k \<Longrightarrow> k \<le> digits_val k s"
proof (induction s arbitrary: k)
  case (Cons c s)
  from Cons.prems have "k \<le> 10 * k + int (digit_val c)" by simp
  also have "\<dots> \<le> digits_val (10 * k + int (digit_val c)) s" using Cons.prems by (intro Cons.IH) simp
  finally show ?case by (simp add: digits_val_def)
qed (simp add: digits_val_def)

lemma parse_uint_digits:
  "\<forall>c \<in> set s. is_digit c \<Longrightarrow> 0 \<le> k \<Longrightarrow> digits_val k s < 2 ^ 64 \<Longrightarrow> parse_uint k s = Some (digits_val k s)"
proof (induction s arbitrary: k)
  case (Cons c s)
  let ?k = "10 * k + int (digit_val c)"
  have "digits_val k (c # s) = digits_val ?k s" by (simp add: digits_val_def)
  moreover have "?k \<le> digits_val ?k s" using Cons.prems by (intro digits_val_mono) simp
  ultimately show ?case using Cons.prems Cons.IH [of ?k] by (simp add: Let_def)
qed (simp add: digits_val_def)

lemma Atoi_Itoa: "0 \<le> i \<Longrightarrow> i < 2 ^ 63 \<Longrightarrow> Atoi (Itoa i) = i"
proof -
  assume i: "0 \<le> i" "i < 2 ^ 63"
  obtain c cs where c: "itoa_nat (nat i) = c # cs" by (cases "itoa_nat (nat i)") auto
  with itoa_digits [of "nat i"] have "is_digit c" by simp
  then have "c \<noteq> 45" "c \<noteq> 43" by simp_all
  moreover have "parse_uint 0 (itoa_nat (nat i)) = Some i"
    using parse_uint_digits [OF itoa_digits, of 0 "nat i"] i by (simp add: digits_val_itoa)
  ultimately show ?thesis
    using i c by (simp add: Itoa_def Atoi_def parse_unsigned_def)
qed

section \<open>Printing and parsing IPv4 addresses\<close>

lemma itoa_10: "b < 10 \<Longrightarrow> 0 < a \<Longrightarrow> itoa_nat (10 * a + b) = itoa_nat a @ [of_nat (48 + b)]"
  by (subst itoa_nat.simps) (simp add: div_mult1_eq)

lemma itoa_1: "a < 10 \<Longrightarrow> itoa_nat a = [of_nat (48 + a)]"
  by (subst itoa_nat.simps) simp

lemma parseIPv4Fields_digit:
  "k < 10 \<Longrightarrow> 10 * v + k \<le> 255 \<Longrightarrow> \<not> (d = 1 \<and> v = 0) \<Longrightarrow>
   parseIPv4Fields fs v d dot (of_nat (48 + k) # r) = parseIPv4Fields fs (10 * v + k) (d + 1) False r"
  by (auto simp: Let_def mult.commute simp del: of_nat_add One_nat_def)

lemma decimal_cases:
  fixes n :: nat
  assumes "n < 256"
  obtains "n < 10" | a b where "n = 10 * a + b" "0 < a" "a < 10" "b < 10"
    | a b c where "n = 10 * (10 * a + b) + c" "0 < a" "a < 10" "b < 10" "c < 10"
proof -
  consider "n < 10" | "10 \<le> n" "n < 100" | "100 \<le> n" by linarith
  then show ?thesis
  proof cases
    case 2
    then show ?thesis using that(2) [of "n div 10" "n mod 10"] by simp
  next
    case 3
    obtain q c where q: "n = 10 * q + c" "c < 10"
      by (metis div_mult_mod_eq mod_less_divisor mult.commute zero_less_numeral)
    obtain a b where a: "q = 10 * a + b" "b < 10"
      by (metis div_mult_mod_eq mod_less_divisor mult.commute zero_less_numeral)
    have "0 < a" "a < 10" using 3 assms q a by simp_all
    with q a show ?thesis using that(3) [of a b c] by simp
  qed (rule that(1))
qed

lemma parseIPv4Fields_octet:
  assumes "n < 256"
  shows "\<exists>d. parseIPv4Fields fs 0 0 dot (itoa_nat n @ rest) = parseIPv4Fields fs n d False rest"
  using assms
proof (cases n rule: decimal_cases)
  case 1
  with assms parseIPv4Fields_digit [of n 0 0] show ?thesis
    by (auto simp: itoa_1 simp del: of_nat_add parseIPv4Fields.simps)
next
  case (2 a b)
  then have "itoa_nat n = [of_nat (48 + a), of_nat (48 + b)]"
    by (simp add: itoa_10 itoa_1 del: of_nat_add)
  with 2 assms parseIPv4Fields_digit [of a 0 0] parseIPv4Fields_digit [of b a 1] show ?thesis
    by (auto simp del: of_nat_add parseIPv4Fields.simps)
next
  case (3 a b c)
  then have "itoa_nat n = [of_nat (48 + a), of_nat (48 + b), of_nat (48 + c)]"
    unfolding 3(1) by (subst itoa_10, simp, simp) (simp add: itoa_10 itoa_1 del: of_nat_add)
  with 3 assms parseIPv4Fields_digit [of a 0 0] parseIPv4Fields_digit [of b a 1]
      parseIPv4Fields_digit [of c "10 * a + b" "Suc (Suc 0)"] show ?thesis
    by (auto simp del: of_nat_add parseIPv4Fields.simps)
qed

lemma of_nat_unat_byte [simp]: "of_nat (unat (b :: byte)) = b"
  by simp

lemma unat_byte_less [simp]: "unat (b :: byte) < 256"
  using unsigned_less [of b, where 'a = nat] by simp

lemma itoa_hd: "\<exists>c cs. itoa_nat n @ r = c # cs \<and> is_digit c"
  using itoa_digits [of n] by (cases "itoa_nat n") auto

lemma dotted_4: "dotted [a, b, c, d] =
   itoa_nat (unat a) @ 46 # itoa_nat (unat b) @ 46 # itoa_nat (unat c) @ 46 # itoa_nat (unat d)"
  by (simp add: dotted_def)

lemma parseIPv4Fields_dotted:
  "parseIPv4Fields [] 0 0 True (dotted [a, b, c, d]) = Some [a, b, c, d]"
proof -
  have step: "parseIPv4Fields fs 0 0 dot (itoa_nat (unat x) @ 46 # itoa_nat (unat y) @ r) =
      parseIPv4Fields (fs @ [x]) 0 0 True (itoa_nat (unat y) @ r)" if "length fs < 3" for fs dot x y r
    using parseIPv4Fields_octet [of "unat x" fs dot "46 # itoa_nat (unat y) @ r"] that
    by (auto simp: is_digit_def)
  have last: "parseIPv4Fields fs 0 0 True (itoa_nat (unat x)) = Some (fs @ [x])" if "length fs = 3" for fs x
    using parseIPv4Fields_octet [of "unat x" fs True "[]"] that by auto
  show ?thesis
    unfolding dotted_4 using step [of "[]" True a b] step [of "[a]" True b c] step [of "[a, b]" True c d "[]"]
      last [of "[a, b, c]" d] by simp
qed

lemma netip_ParseAddr_scan_digits:
  "\<forall>c \<in> set ds. is_digit c \<Longrightarrow> netip_ParseAddr_scan s (ds @ r) = netip_ParseAddr_scan s r"
  by (induction ds) auto

lemma netip_ParseAddr_dotted:
  assumes "length bs = 4"
  shows "netip_ParseAddr (dotted bs) = Some (Addr4 bs)"
proof -
  obtain a b c d where bs: "bs = [a, b, c, d]"
    using assms by (auto simp: length_Suc_conv numeral_eq_Suc)
  have "netip_ParseAddr_scan s (dotted bs) = parseIPv4 s" for s
    unfolding bs dotted_4 by (subst netip_ParseAddr_scan_digits [OF itoa_digits]) simp
  then show ?thesis
    by (simp add: netip_ParseAddr_def parseIPv4_def bs parseIPv4Fields_dotted)
qed

lemma set_dotted: "length bs = 4 \<Longrightarrow> x \<in> set (dotted bs) \<Longrightarrow> is_digit x \<or> x = 46"
  using itoa_digits by (auto simp: dotted_4 length_Suc_conv numeral_eq_Suc)

section \<open>Joining and splitting host and port\<close>

lemma index_byte_None: "index_byte c xs = None \<longleftrightarrow> c \<notin> set xs"
  by (induction xs) auto

lemma index_byte_append: "c \<notin> set xs \<Longrightarrow> index_byte c (xs @ c # ys) = Some (length xs)"
  by (induction xs) auto

lemma last_index_byte_append: "c \<notin> set ys \<Longrightarrow> last_index_byte c (xs @ c # ys) = Some (length xs)"
  by (simp add: last_index_byte_def index_byte_append)

lemma SplitHostPort_Join:
  assumes "58 \<notin> set host" "91 \<notin> set host" "93 \<notin> set host" "\<forall>c \<in> set port. is_digit c"
  shows "SplitHostPort (JoinHostPort host port) = Some (host, port)"
proof -
  have port: "58 \<notin> set port" "91 \<notin> set port" "93 \<notin> set port"
    using assms(4) by (metis digit_not(2,5,6))+
  have "hd (host @ [58] @ port) \<noteq> 91" using assms(2) by (cases host) auto
  then show ?thesis
    using assms port by (simp add: SplitHostPort_def JoinHostPort_def index_byte_None last_index_byte_append)
qed

end
