(* ===== verification/Metadata.thy ===== *)
theory Metadata
  imports BufferLaws Codec Netip
begin

text \<open>
  Addresses: \<open>Socksaddr\<close> with its conversions (\<open>common/metadata/addr.go\<close>) and the
  \<open>Serializer\<close> that writes and reads them (\<open>common/metadata/serializer.go\<close>,
  \<open>family.go\<close>, \<open>socksaddr.go\<close>).
\<close>

section \<open>Socksaddr\<close>

record socksaddr =
  Addr :: netip_addr
  Port :: uint16
  Fqdn :: bytes

definition no_socksaddr :: socksaddr where
  "no_socksaddr = \<lparr>Addr = NoAddr, Port = 0, Fqdn = []\<rparr>"

definition IsIP :: "socksaddr \<Rightarrow> bool" where "IsIP ap = addr_IsValid (Addr ap)"
definition IsIPv4 :: "socksaddr \<Rightarrow> bool" where "IsIPv4 ap = addr_Is4 (Addr ap)"
definition IsIPv6 :: "socksaddr \<Rightarrow> bool" where "IsIPv6 ap = addr_Is6 (Addr ap)"

text \<open>\<open>As4\<close> does not panic here: it is called on a mapped address only.\<close>

definition Unwrap :: "socksaddr \<Rightarrow> socksaddr" where
  "Unwrap ap =
     (if addr_Is4In6 (Addr ap)
      then \<lparr>Addr = (case addr_As4 (Addr ap) of None \<Rightarrow> NoAddr | Some a \<Rightarrow> Addr4 a), Port = Port ap, Fqdn = []\<rparr>
      else ap)"

definition IsDomain :: "socksaddr \<Rightarrow> bool" where "IsDomain ap \<longleftrightarrow> Fqdn ap \<noteq> []"
definition IsValid :: "socksaddr \<Rightarrow> bool" where "IsValid ap \<longleftrightarrow> IsIP ap \<or> IsDomain ap"

definition CheckBadAddr :: "socksaddr \<Rightarrow> unit option" where
  "CheckBadAddr ap =
     (if addr_Is4In6 (Addr ap) \<or> addr_IsValid (Addr ap) \<and> Fqdn ap \<noteq> [] then None else Some ())"

definition when_debug :: "bool \<Rightarrow> socksaddr \<Rightarrow> unit option" where
  "when_debug debug_Enabled ap = (if debug_Enabled then CheckBadAddr ap else Some ())"

definition AddrString :: "bool \<Rightarrow> socksaddr \<Rightarrow> bytes option" where
  "AddrString dbg ap = do { when_debug dbg ap;
     Some (if addr_IsValid (Addr ap) then addr_String (Addr ap) else Fqdn ap) }"

text \<open>
  \<open>net.Addr\<close> values: nil, a \<open>Socksaddr\<close>, the IP-based addresses of \<open>net\<close> (IP, port and zone),
  an IP network with its mask length, and any other implementation of the interface.
\<close>

datatype net_addr =
    NilNetAddr
  | SocksNetAddr socksaddr
  | NetTCPAddr bytes int bytes
  | NetUDPAddr bytes int bytes
  | NetIPAddr bytes bytes
  | NetIPNet bytes int
  | OtherNetAddr

definition IPAddr :: "bool \<Rightarrow> socksaddr \<Rightarrow> net_addr option" where
  "IPAddr dbg ap = do { when_debug dbg ap; Some (NetIPAddr (addr_AsSlice (Addr ap))
     (case Addr ap of Addr6 _ z \<Rightarrow> z | _ \<Rightarrow> [])) }"

definition TCPAddr :: "bool \<Rightarrow> socksaddr \<Rightarrow> net_addr option" where
  "TCPAddr dbg ap = do { when_debug dbg ap; Some (NetTCPAddr (addr_AsSlice (Addr ap)) (uint (Port ap))
     (case Addr ap of Addr6 _ z \<Rightarrow> z | _ \<Rightarrow> [])) }"

definition UDPAddr :: "bool \<Rightarrow> socksaddr \<Rightarrow> net_addr option" where
  "UDPAddr dbg ap = do { when_debug dbg ap; Some (NetUDPAddr (addr_AsSlice (Addr ap)) (uint (Port ap))
     (case Addr ap of Addr6 _ z \<Rightarrow> z | _ \<Rightarrow> [])) }"

type_synonym addr_port = "netip_addr \<times> uint16"

definition AddrPort :: "bool \<Rightarrow> socksaddr \<Rightarrow> addr_port option" where
  "AddrPort dbg ap = do { when_debug dbg ap; Some (Addr ap, Port ap) }"

definition socksaddr_String :: "bool \<Rightarrow> socksaddr \<Rightarrow> bytes option" where
  "socksaddr_String dbg ap = do { when_debug dbg ap; h \<leftarrow> AddrString dbg ap;
     Some (JoinHostPort h (Itoa (uint (Port ap)))) }"

definition AddrFromIP :: "bytes \<Rightarrow> netip_addr" where
  "AddrFromIP ip = AddrFromSlice ip"

definition AddrPortFrom :: "bytes \<Rightarrow> uint16 \<Rightarrow> addr_port" where
  "AddrPortFrom ip port = (AddrFromIP ip, port)"

definition SocksaddrFromNetIP :: "addr_port \<Rightarrow> socksaddr" where
  "SocksaddrFromNetIP ap = \<lparr>Addr = fst ap, Port = snd ap, Fqdn = []\<rparr>"

definition SocksaddrFrom :: "netip_addr \<Rightarrow> uint16 \<Rightarrow> socksaddr" where
  "SocksaddrFrom addr port = SocksaddrFromNetIP (addr, port)"

definition AddrPortFromNet :: "bool \<Rightarrow> net_addr \<Rightarrow> addr_port option" where
  "AddrPortFromNet dbg a =
     (case a of
        SocksNetAddr s \<Rightarrow> AddrPort dbg s
      | NetTCPAddr ip port _ \<Rightarrow> Some (AddrFromIP ip, of_int port)
      | NetUDPAddr ip port _ \<Rightarrow> Some (AddrFromIP ip, of_int port)
      | NetIPAddr ip _ \<Rightarrow> Some (AddrFromIP ip, 0)
      | _ \<Rightarrow> Some (AddrFromIP [], 0))"

definition AddrFromNet :: "bool \<Rightarrow> net_addr \<Rightarrow> netip_addr option" where
  "AddrFromNet dbg a = do {
     ap \<leftarrow> AddrPortFromNet dbg a;
     Some (if addr_IsValid (fst ap) then fst ap
       else case a of
          SocksNetAddr s \<Rightarrow> Addr s
        | NetIPAddr ip _ \<Rightarrow> AddrFromIP ip
        | NetIPNet ip _ \<Rightarrow> AddrFromIP ip
        | _ \<Rightarrow> NoAddr) }"

definition unwrapIPv6Address :: "bytes \<Rightarrow> bytes" where
  "unwrapIPv6Address address =
     (if length address > 2 \<and> hd address = 91 \<and> last address = 93
      then butlast (tl address) else address)"

definition ParseAddr :: "bytes \<Rightarrow> netip_addr" where
  "ParseAddr address =
     (case netip_ParseAddr (unwrapIPv6Address address) of None \<Rightarrow> NoAddr | Some a \<Rightarrow> a)"

definition ParseSocksaddrHostPort :: "bytes \<Rightarrow> uint16 \<Rightarrow> socksaddr" where
  "ParseSocksaddrHostPort host port =
     (case netip_ParseAddr (unwrapIPv6Address host) of
        None \<Rightarrow> \<lparr>Addr = NoAddr, Port = port, Fqdn = host\<rparr>
      | Some a \<Rightarrow> \<lparr>Addr = a, Port = port, Fqdn = []\<rparr>)"

definition ParseSocksaddrHostPortStr :: "bytes \<Rightarrow> bytes \<Rightarrow> socksaddr" where
  "ParseSocksaddrHostPortStr host portStr =
     (let port = Atoi portStr in
      case netip_ParseAddr (unwrapIPv6Address host) of
        None \<Rightarrow> \<lparr>Addr = NoAddr, Port = of_int port, Fqdn = host\<rparr>
      | Some a \<Rightarrow> \<lparr>Addr = a, Port = of_int port, Fqdn = []\<rparr>)"

definition ParseSocksaddr :: "bytes \<Rightarrow> socksaddr" where
  "ParseSocksaddr address =
     (case SplitHostPort address of
        None \<Rightarrow> ParseSocksaddrHostPort address 0
      | Some (host, port) \<Rightarrow> ParseSocksaddrHostPortStr host port)"

definition SocksaddrFromNet :: "bool \<Rightarrow> (net_addr \<Rightarrow> bytes) \<Rightarrow> net_addr \<Rightarrow> socksaddr option" where
  "SocksaddrFromNet dbg net_String a =
     (case a of
        NilNetAddr \<Rightarrow> Some no_socksaddr
      | SocksNetAddr s \<Rightarrow> Some s
      | _ \<Rightarrow> do {
          ap \<leftarrow> AddrPortFromNet dbg a;
          let addr = SocksaddrFromNetIP ap;
          Some (if IsValid addr then addr else ParseSocksaddr (net_String a)) })"

section \<open>Serializer\<close>

definition AddressFamilyIPv4 :: byte where "AddressFamilyIPv4 = 0x01"
definition AddressFamilyIPv6 :: byte where "AddressFamilyIPv6 = 0x04"
definition AddressFamilyFqdn :: byte where "AddressFamilyFqdn = 0x03"
definition AddressFamilyEmpty :: byte where "AddressFamilyEmpty = 0xff"

lemmas family_defs = AddressFamilyIPv4_def AddressFamilyIPv6_def AddressFamilyFqdn_def AddressFamilyEmpty_def

record serializer =
  familyMap :: "byte \<rightharpoonup> byte"
  familyByteMap :: "byte \<rightharpoonup> byte"
  portFirst :: bool

datatype serializer_option = AddressFamilyByte byte byte | PortThenAddress

fun apply_option :: "serializer \<Rightarrow> serializer_option \<Rightarrow> serializer" where
  "apply_option s (AddressFamilyByte b f) =
     s\<lparr>familyMap := (familyMap s)(b \<mapsto> f), familyByteMap := (familyByteMap s)(f \<mapsto> b)\<rparr>"
| "apply_option s PortThenAddress = s\<lparr>portFirst := True\<rparr>"

definition NewSerializer :: "serializer_option list \<Rightarrow> serializer" where
  "NewSerializer options =
     foldl apply_option \<lparr>familyMap = Map.empty, familyByteMap = Map.empty, portFirst = False\<rparr> options"

definition SocksaddrSerializer :: serializer where
  "SocksaddrSerializer = NewSerializer [AddressFamilyByte 0x01 AddressFamilyIPv4,
     AddressFamilyByte 0x04 AddressFamilyIPv6, AddressFamilyByte 0x03 AddressFamilyFqdn]"

definition WriteSocksString :: "bytes \<Rightarrow> buffer write_op" where
  "WriteSocksString str =
     (if length str > 255 then w_fail (ErrorNew [Txt ''fqdn too long''])
      else w_then (\<lambda>b. WriteByte b (of_nat (length str))) (common_Error (\<lambda>b. WriteString b str)))"

definition address_family :: "socksaddr \<Rightarrow> byte" where
  "address_family addr =
     (if \<not> IsValid addr then AddressFamilyEmpty
      else if IsIPv4 addr then AddressFamilyIPv4
      else if IsIPv6 addr then AddressFamilyIPv6
      else AddressFamilyFqdn)"

definition WriteAddress :: "serializer \<Rightarrow> socksaddr \<Rightarrow> buffer write_op" where
  "WriteAddress s addr =
     (let af = address_family addr in
      case familyByteMap s af of
        None \<Rightarrow> w_fail (ErrorNew [Txt ''unsupported address''])
      | Some afByte \<Rightarrow>
          w_then (\<lambda>b. WriteByte b afByte)
            (if af = AddressFamilyIPv4 \<or> af = AddressFamilyIPv6
             then common_Error (\<lambda>b. Write b (addr_AsSlice (Addr addr)))
             else if af = AddressFamilyFqdn then WriteSocksString (Fqdn addr)
             else w_skip))"

definition AddressLen :: "serializer \<Rightarrow> socksaddr \<Rightarrow> nat" where
  "AddressLen s addr =
     (if \<not> IsValid addr then 1 else if IsIPv4 addr then 5 else if IsIPv6 addr then 17
      else 2 + length (Fqdn addr))"

definition AddrPortLen :: "serializer \<Rightarrow> socksaddr \<Rightarrow> nat" where
  "AddrPortLen s dst = (if IsValid dst then AddressLen s dst + 2 else AddressLen s dst)"

text \<open>\<open>binary.Write\<close> of a \<open>uint16\<close> is one \<open>Write\<close> of its two bytes.\<close>

definition WritePort :: "serializer \<Rightarrow> uint16 \<Rightarrow> buffer write_op" where
  "WritePort s port = common_Error (\<lambda>b. Write b (be16 port))"

text \<open>\<open>WriteAddrPort\<close> into a buffer; \<open>WriteAddrPort_writer\<close> is the branch for any other writer.\<close>

definition WriteAddrPort :: "serializer \<Rightarrow> socksaddr \<Rightarrow> buffer write_op" where
  "WriteAddrPort s dst =
     w_then (if \<not> portFirst s then WriteAddress s dst else WritePort s (Port dst))
       (if portFirst s then WriteAddress s dst
        else if IsValid dst then WritePort s (Port dst)
        else w_skip)"

definition WriteAddrPort_writer ::
  "serializer \<Rightarrow> 'w write_fn \<Rightarrow> 'w \<Rightarrow> socksaddr \<Rightarrow> pools \<Rightarrow> (go_error option \<times> 'w \<times> pools) option" where
  "WriteAddrPort_writer s wr w dst p = send_buffer (AddrPortLen s dst) (WriteAddrPort s dst) wr w p"

definition ReadSockString :: "bytes rd" where
  "ReadSockString = rd_bind ReadByte (\<lambda>n. ReadFull (unat n))"

definition ReadAddress :: "serializer \<Rightarrow> socksaddr rd" where
  "ReadAddress s = rd_bind ReadByte (\<lambda>af.
     let family = (case familyMap s af of None \<Rightarrow> 0 | Some f \<Rightarrow> f) in
     if family = AddressFamilyFqdn then
       rd_bind (rd_cause [Txt ''read fqdn''] ReadSockString) (\<lambda>fqdn. rd_return (ParseSocksaddrHostPort fqdn 0))
     else if family = AddressFamilyIPv4 then
       rd_bind (rd_cause [Txt ''read ipv4 address''] (ReadFull 4))
         (\<lambda>a. rd_return (no_socksaddr\<lparr>Addr := Addr4 a\<rparr>))
     else if family = AddressFamilyIPv6 then
       rd_bind (rd_cause [Txt ''read ipv6 address''] (ReadFull 16))
         (\<lambda>a. rd_return (Unwrap (no_socksaddr\<lparr>Addr := Addr6 a []\<rparr>)))
     else if family = AddressFamilyEmpty then rd_return no_socksaddr
     else rd_fail (ErrorNew [Txt ''unknown address family: '', Num (uint af)]))"

definition ReadPort :: "serializer \<Rightarrow> uint16 rd" where
  "ReadPort s = rd_cause [Txt ''read port''] ReadUint16"

definition ReadAddrPort :: "serializer \<Rightarrow> socksaddr rd" where
  "ReadAddrPort s =
     (if \<not> portFirst s then
        rd_bind (ReadAddress s) (\<lambda>addr.
          if IsValid addr then rd_bind (ReadPort s) (\<lambda>port. rd_return (addr\<lparr>Port := port\<rparr>))
          else rd_return (addr\<lparr>Port := 0\<rparr>))
      else
        rd_bind (ReadPort s) (\<lambda>port. rd_bind (ReadAddress s) (\<lambda>addr. rd_return (addr\<lparr>Port := port\<rparr>))))"

section \<open>The wire format\<close>

text \<open>The bytes \<open>WriteAddress\<close> and \<open>WriteAddrPort\<close> produce, and when they can.\<close>

definition address_bytes :: "serializer \<Rightarrow> socksaddr \<Rightarrow> bytes" where
  "address_bytes s a =
     the (familyByteMap s (address_family a)) #
       (if IsIP a then addr_AsSlice (Addr a)
        else if IsDomain a then of_nat (length (Fqdn a)) # Fqdn a else [])"

definition addr_port_bytes :: "serializer \<Rightarrow> socksaddr \<Rightarrow> bytes" where
  "addr_port_bytes s a =
     (if portFirst s then be16 (Port a) @ address_bytes s a
      else address_bytes s a @ (if IsValid a then be16 (Port a) else []))"

definition encodable :: "serializer \<Rightarrow> socksaddr \<Rightarrow> bool" where
  "encodable s a \<longleftrightarrow> wf_addr (Addr a) \<and> familyByteMap s (address_family a) \<noteq> None \<and>
     (IsIP a \<or> length (Fqdn a) \<le> 255)"

text \<open>What comes back: mapped addresses unwrapped, zones and names beside an address dropped,
  names that are addresses parsed, and no port on the empty address unless it comes first.\<close>

definition normal_addr :: "serializer \<Rightarrow> socksaddr \<Rightarrow> socksaddr" where
  "normal_addr s a =
     (case Addr a of
        Addr4 bs \<Rightarrow> \<lparr>Addr = Addr4 bs, Port = Port a, Fqdn = []\<rparr>
      | Addr6 bs _ \<Rightarrow> Unwrap \<lparr>Addr = Addr6 bs [], Port = Port a, Fqdn = []\<rparr>
      | NoAddr \<Rightarrow> if IsDomain a then ParseSocksaddrHostPort (Fqdn a) (Port a)
                 else no_socksaddr\<lparr>Port := (if portFirst s then Port a else 0)\<rparr>)"

definition wf_serializer :: "serializer \<Rightarrow> bool" where
  "wf_serializer s \<longleftrightarrow> (\<forall>f b. familyByteMap s f = Some b \<longrightarrow> familyMap s b = Some f)"

lemmas addr_preds = IsValid_def IsIP_def IsDomain_def IsIPv4_def IsIPv6_def addr_IsValid_def

lemma address_family_cases:
  "address_family a = (case Addr a of Addr4 _ \<Rightarrow> AddressFamilyIPv4 | Addr6 _ _ \<Rightarrow> AddressFamilyIPv6
     | NoAddr \<Rightarrow> if Fqdn a \<noteq> [] then AddressFamilyFqdn else AddressFamilyEmpty)"
  by (cases "Addr a") (simp_all add: address_family_def addr_preds)

lemma length_address_bytes: "encodable s a \<Longrightarrow> length (address_bytes s a) = AddressLen s a"
  by (cases "Addr a") (auto simp: address_bytes_def AddressLen_def encodable_def addr_preds)

lemma length_addr_port_bytes:
  "encodable s a \<Longrightarrow> portFirst s \<longrightarrow> IsValid a \<Longrightarrow> length (addr_port_bytes s a) = AddrPortLen s a"
  by (auto simp: addr_port_bytes_def AddrPortLen_def length_address_bytes)

fun option_byte :: "serializer_option \<Rightarrow> byte list" where
  "option_byte (AddressFamilyByte b f) = [b]"
| "option_byte PortThenAddress = []"

lemma wf_apply_option:
  assumes "wf_serializer s" "\<forall>b \<in> set (option_byte p). b \<notin> dom (familyMap s)"
  shows "wf_serializer (apply_option s p)"
proof (cases p)
  case (AddressFamilyByte b f)
  with assms(2) have "familyMap s b = None" by auto
  with assms(1) have "familyByteMap s g \<noteq> Some b" for g by (auto simp: wf_serializer_def)
  with assms(1) AddressFamilyByte show ?thesis by (auto simp: wf_serializer_def)
next
  case PortThenAddress
  with assms(1) show ?thesis by (simp add: wf_serializer_def)
qed

lemma dom_apply_option: "dom (familyMap (apply_option s p)) = dom (familyMap s) \<union> set (option_byte p)"
  by (cases p) auto

lemma wf_NewSerializer:
  assumes "distinct (concat (map option_byte options))"
  shows "wf_serializer (NewSerializer options)"
proof -
  have "wf_serializer (foldl apply_option s options)"
    if "wf_serializer s" "set (concat (map option_byte options)) \<inter> dom (familyMap s) = {}" for s
    using assms that
  proof (induction options arbitrary: s)
    case (Cons p ps)
    have "wf_serializer (apply_option s p)"
      by (rule wf_apply_option) (use Cons.prems in auto)
    moreover have "set (concat (map option_byte ps)) \<inter> dom (familyMap (apply_option s p)) = {}"
      using Cons.prems unfolding dom_apply_option by auto
    ultimately show ?case using Cons by simp
  qed simp
  then show ?thesis by (simp add: NewSerializer_def wf_serializer_def)
qed

lemma wf_SocksaddrSerializer: "wf_serializer SocksaddrSerializer"
  unfolding SocksaddrSerializer_def by (rule wf_NewSerializer) simp

section \<open>Writing\<close>

lemma puts_WriteSocksString [put_intros]:
  "length str \<le> 255 \<Longrightarrow> puts (WriteSocksString str) (of_nat (length str) # str)"
  by (simp add: WriteSocksString_def put_intros)

lemma puts_WriteAddress [put_intros]:
  assumes "encodable s a"
  shows "puts (WriteAddress s a) (address_bytes s a)"
proof -
  obtain af where af: "familyByteMap s (address_family a) = Some af"
    using assms by (auto simp: encodable_def)
  show ?thesis
  proof (cases "Addr a")
    case NoAddr
    with assms af show ?thesis
      by (cases "Fqdn a = []")
         (simp_all add: WriteAddress_def address_bytes_def encodable_def address_family_cases addr_preds
           family_defs puts_step puts_WriteByte puts_skip puts_WriteSocksString)
  qed (use af in \<open>simp_all add: WriteAddress_def address_bytes_def address_family_cases addr_preds
           puts_step puts_WriteByte puts_Write\<close>)
qed

lemma puts_WritePort [put_intros]: "puts (WritePort s port) (be16 port)"
  by (simp add: WritePort_def put_intros)

lemma puts_WriteAddrPort [put_intros]:
  assumes "encodable s a"
  shows "puts (WriteAddrPort s a) (addr_port_bytes s a)"
proof (cases "portFirst s")
  case True
  with assms show ?thesis
    by (simp add: WriteAddrPort_def addr_port_bytes_def put_intros)
next
  case False
  then show ?thesis
    using puts_then [OF puts_WriteAddress [OF assms] puts_WritePort [of s "Port a"]]
      puts_then [OF puts_WriteAddress [OF assms] puts_skip]
    by (cases "IsValid a") (simp_all add: WriteAddrPort_def addr_port_bytes_def)
qed

section \<open>Reading\<close>

lemma yields_ReadSockString [codec_intros]:
  "length str \<le> 255 \<Longrightarrow> yields ReadSockString (of_nat (length str) # str) str"
  unfolding ReadSockString_def
  by (intro codec_intros) (simp add: unsigned_of_nat take_bit_eq_mod)

lemma starves_ReadSockString [codec_intros]:
  "length str \<le> 255 \<Longrightarrow> starves ReadSockString (of_nat (length str) # str)"
  unfolding ReadSockString_def
  by (intro codec_intros) (simp add: unsigned_of_nat take_bit_eq_mod)

text \<open>The address as \<open>ReadAddress\<close> returns it, before its port is set.\<close>

definition read_back :: "socksaddr \<Rightarrow> socksaddr" where
  "read_back a =
     (case Addr a of
        Addr4 bs \<Rightarrow> no_socksaddr\<lparr>Addr := Addr4 bs\<rparr>
      | Addr6 bs _ \<Rightarrow> Unwrap (no_socksaddr\<lparr>Addr := Addr6 bs []\<rparr>)
      | NoAddr \<Rightarrow> if IsDomain a then ParseSocksaddrHostPort (Fqdn a) 0 else no_socksaddr)"

lemma ReadAddress_codec:
  assumes "wf_serializer s" "encodable s a"
  shows "yields (ReadAddress s) (address_bytes s a) (read_back a)"
    and "starves (ReadAddress s) (address_bytes s a)"
proof -
  obtain af where af: "familyByteMap s (address_family a) = Some af"
    using assms(2) by (auto simp: encodable_def)
  with assms(1) have fm: "familyMap s af = Some (address_family a)" by (auto simp: wf_serializer_def)
  note defs = ReadAddress_def Let_def address_bytes_def read_back_def
  note bind = yields_ReadByte_bind starves_ReadByte_bind yields_bind_Nil starves_bind_Nil
    yields_cause starves_cause yields_ReadFull starves_ReadFull yields_return starves_return
  show "yields (ReadAddress s) (address_bytes s a) (read_back a)"
  proof (cases "Addr a")
    case NoAddr
    with assms(2) af fm show ?thesis
      by (cases "Fqdn a = []")
         (auto simp: defs encodable_def address_family_cases addr_preds family_defs
           intro!: yields_ReadByte_bind yields_return yields_bind_Nil [OF yields_cause [OF yields_ReadSockString]])
  qed (use assms(2) af fm in \<open>auto simp: defs encodable_def address_family_cases addr_preds family_defs
           intro!: yields_ReadByte_bind yields_return yields_bind_Nil [OF yields_cause [OF yields_ReadFull]]\<close>)
  show "starves (ReadAddress s) (address_bytes s a)"
  proof (cases "Addr a")
    case NoAddr
    with assms(2) af fm show ?thesis
      by (cases "Fqdn a = []")
         (auto simp: defs encodable_def address_family_cases addr_preds family_defs intro!: starves_ReadByte_bind
           starves_bind_Nil [OF yields_cause [OF yields_ReadSockString] starves_cause [OF starves_ReadSockString]])
  qed (use assms(2) af fm in \<open>auto simp: defs encodable_def address_family_cases addr_preds family_defs
      intro!: starves_ReadByte_bind starves_bind_Nil [OF yields_cause [OF yields_ReadFull] starves_cause [OF starves_ReadFull]]\<close>)
qed

lemma ParseSocksaddrHostPort_valid: "host \<noteq> [] \<Longrightarrow> IsValid (ParseSocksaddrHostPort host port)"
  by (auto simp: ParseSocksaddrHostPort_def addr_preds split: option.splits dest: netip_ParseAddr_wf)

lemma IsValid_Unwrap: "IsValid (Unwrap ap) \<longleftrightarrow> IsValid ap"
  by (cases "Addr ap") (auto simp: Unwrap_def addr_preds)

lemma IsValid_read_back: "IsValid (read_back a) \<longleftrightarrow> IsValid a"
proof (cases "Addr a")
  case NoAddr
  then show ?thesis
    using ParseSocksaddrHostPort_valid [of "Fqdn a" 0]
    by (cases "Fqdn a = []") (simp_all add: read_back_def addr_preds no_socksaddr_def)
qed (simp_all add: read_back_def IsValid_Unwrap, simp_all add: addr_preds no_socksaddr_def)

lemma read_back_port:
  "(read_back a)\<lparr>Port := (if IsValid a \<or> portFirst s then Port a else 0)\<rparr> = normal_addr s a"
  by (cases "Addr a")
     (auto simp: read_back_def normal_addr_def addr_preds Unwrap_def no_socksaddr_def
       ParseSocksaddrHostPort_def split: option.splits)

lemma ReadAddrPort_codec:
  assumes "wf_serializer s" "encodable s a"
  shows "yields (ReadAddrPort s) (addr_port_bytes s a) (normal_addr s a)"
    and "starves (ReadAddrPort s) (addr_port_bytes s a)"
proof -
  note codec = ReadAddress_codec [OF assms] IsValid_read_back
  have port: "yields (ReadPort s) (be16 p) p" "starves (ReadPort s) (be16 p)" for p
    by (auto simp: ReadPort_def intro: codec_intros)
  define fin where "fin = (\<lambda>addr. if IsValid addr then rd_bind (ReadPort s) (\<lambda>port. rd_return (addr\<lparr>Port := port\<rparr>))
          else rd_return (addr\<lparr>Port := 0\<rparr>))"
  have fin: "yields (fin (read_back a)) (if IsValid a then be16 (Port a) else [])
       ((read_back a)\<lparr>Port := (if IsValid a then Port a else 0)\<rparr>)"
    "starves (fin (read_back a)) (if IsValid a then be16 (Port a) else [])"
    by (auto simp: fin_def codec(3) intro!: yields_bind_Nil [OF port(1)] starves_bind_Nil [OF port] yields_return)
  define fin' where "fin' = (\<lambda>port. rd_bind (ReadAddress s) (\<lambda>addr. rd_return (addr\<lparr>Port := port\<rparr>)))"
  have fin': "yields (fin' p) (address_bytes s a) ((read_back a)\<lparr>Port := p\<rparr>)"
    "starves (fin' p) (address_bytes s a)" for p
    by (auto simp: fin'_def intro!: yields_bind_Nil [OF codec(1)] starves_bind_Nil [OF codec(1,2)] yields_return)
  have "yields (ReadAddrPort s) (addr_port_bytes s a)
      ((read_back a)\<lparr>Port := (if IsValid a \<or> portFirst s then Port a else 0)\<rparr>)"
    using yields_bind [of "ReadAddress s" _ _ fin, OF codec(1) fin(1)] yields_bind [of "ReadPort s" _ _ fin', OF port(1) fin'(1)]
    by (auto simp: ReadAddrPort_def addr_port_bytes_def fin_def fin'_def)
  then show "yields (ReadAddrPort s) (addr_port_bytes s a) (normal_addr s a)"
    by (simp only: read_back_port)
  show "starves (ReadAddrPort s) (addr_port_bytes s a)"
    using starves_bind [of "ReadAddress s" _ _ fin, OF codec(1,2) fin(2)]
      starves_bind [of "ReadPort s" _ _ fin', OF port fin'(2)]
    by (auto simp: ReadAddrPort_def addr_port_bytes_def fin_def fin'_def)
qed

text \<open>Every consistent serializer is a wire format for the addresses it does not normalise.\<close>

lemma serializer_codec:
  "wf_serializer s \<Longrightarrow> codec (addr_port_bytes s) (ReadAddrPort s) (\<lambda>a. encodable s a \<and> normal_addr s a = a)"
  by unfold_locales (use ReadAddrPort_codec in \<open>force+\<close>)

interpretation socksaddr: codec "addr_port_bytes SocksaddrSerializer" "ReadAddrPort SocksaddrSerializer"
    "\<lambda>a. encodable SocksaddrSerializer a \<and> normal_addr SocksaddrSerializer a = a"
  by (rule serializer_codec [OF wf_SocksaddrSerializer])

text \<open>The empty address written port first: the buffer \<open>AddrPortLen\<close> asks for is two bytes short.\<close>

lemma WriteAddrPort_short:
  assumes "wf_buffer b" "freeroom b = 1" "portFirst s" "familyByteMap s (address_family a) \<noteq> None"
  shows "\<exists>b'. WriteAddrPort s a b = Some (Some ErrShortBuffer, b') \<and> buf_step\<^sup>*\<^sup>* b b'"
proof -
  obtain h c t r u where rep: "rep b h c t r u" by (rule wf_rep [OF assms(1)])
  with assms(2) have t: "length t = 1" by (simp add: rep_freeroom)
  obtain b1 where w: "Write b (be16 (Port a)) = Some ((1, None), b1)"
    and rep1: "rep b1 h (c @ take 1 (be16 (Port a))) [] r u"
    using rep_Write [OF rep, of "be16 (Port a)"] t by (cases t) (auto simp: be16_def)
  obtain af where "familyByteMap s (address_family a) = Some af" using assms(4) by blast
  moreover have "WriteByte b1 af = Some (Some ErrShortBuffer, b1)" for af
    using rep_IsFull [OF rep1] by (simp add: WriteByte_def)
  ultimately show ?thesis
    using assms(3) w step_Write [OF w]
    by (auto simp: WriteAddrPort_def WritePort_def WriteAddress_def w_then_def common_Error_def Let_def)
qed

section \<open>Properties\<close>



text \<open>
  \<open>WriteAddrPort\<close> to a writer that is not a buffer hands it the whole encoding in one
  write, returns that write's error, and gives its scratch buffer back to the pools. The
  scratch buffer has \<open>AddrPortLen\<close> bytes, which is exact except for the empty address of a
  serializer that writes the port first: there it is 1 for an encoding of 3 bytes, and the
  call fails with \<open>io.ErrShortBuffer\<close> and writes nothing.
\<close>

theorem WriteAddrPort_to_writer:
  assumes "encodable s a" "wf_pools p"
  shows "\<exists>p'. wf_pools p' \<and> WriteAddrPort_writer s wr w a p =
     (if portFirst s \<and> \<not> IsValid a then Some (Some ErrShortBuffer, w, p')
      else (case wr w (addr_port_bytes s a) of ((n, err), w') \<Rightarrow> Some (err, w', p')))"
proof (cases "portFirst s \<and> \<not> IsValid a")
  case True
  then have n: "AddrPortLen s a = 1" by (simp add: AddrPortLen_def AddressLen_def)
  obtain b p1 where b: "NewSize (int 1) p = Some (b, p1)" "wf_buffer b" "freeroom b = 1"
    by (rule wf_NewSize [OF assms(2), of "int 1"]) auto
  from WriteAddrPort_short [OF b(2,3), of s a] True assms(1) obtain b1 where
    b1: "WriteAddrPort s a b = Some (Some ErrShortBuffer, b1)" "buf_step\<^sup>*\<^sup>* b b1"
    by (auto simp: encodable_def)
  from NewSize_Release [OF assms(2) b(1) b1(2)] b(1) b1(1) True show ?thesis
    by (auto simp: WriteAddrPort_writer_def send_buffer_def n)
next
  case False
  then have "length (addr_port_bytes s a) \<le> AddrPortLen s a"
    using length_addr_port_bytes [OF assms(1)] by auto
  from send_buffer_puts [OF puts_WriteAddrPort [OF assms(1)] this assms(2), of wr w] False show ?thesis
    by (auto simp: WriteAddrPort_writer_def)
qed

theorem WriteAddrPort_to_writer_witness:
  "\<exists>p'. WriteAddrPort_writer SocksaddrSerializer (\<lambda>w d. ((length d, None), w @ d)) [5, 1, 0]
     \<lparr>Addr = Addr4 [1, 2, 3, 4], Port = 80, Fqdn = []\<rparr> newDefaultAllocator =
     Some (None, [5, 1, 0, 1, 1, 2, 3, 4, 0, 80], p')"
  using WriteAddrPort_to_writer [of SocksaddrSerializer "\<lparr>Addr = Addr4 [1, 2, 3, 4], Port = 80, Fqdn = []\<rparr>"
      newDefaultAllocator "\<lambda>w d. ((length d, None), w @ d)" "[5, 1, 0]"] wf_newDefaultAllocator
  by (auto simp: SocksaddrSerializer_def NewSerializer_def encodable_def address_family_def addr_preds family_defs
      addr_port_bytes_def address_bytes_def be16_def)

text \<open>
  C13. Endpoints survive printing: \<open>ParseSocksaddr\<close> of \<open>String\<close> is the same endpoint, for
  every IPv4 endpoint and for every domain endpoint whose name has no colon or bracket and
  is not itself an IP address.
\<close>

theorem socksaddr_String_parse:
  assumes "(\<exists>bs. length bs = 4 \<and> Addr ap = Addr4 bs \<and> Fqdn ap = []) \<or>
     Addr ap = NoAddr \<and> set (Fqdn ap) \<inter> {58, 91, 93} = {} \<and> netip_ParseAddr (Fqdn ap) = None"
  shows "\<exists>s. socksaddr_String dbg ap = Some s \<and> ParseSocksaddr s = ap"
proof -
  define host where "host = (if addr_IsValid (Addr ap) then addr_String (Addr ap) else Fqdn ap)"
  have str: "socksaddr_String dbg ap = Some (JoinHostPort host (Itoa (uint (Port ap))))"
    using assms by (auto simp: socksaddr_String_def AddrString_def when_debug_def CheckBadAddr_def host_def addr_IsValid_def)
  have digits: "\<forall>c \<in> set (Itoa (uint (Port ap))). is_digit c"
    by (simp add: Itoa_def itoa_digits not_less)
  have host: "58 \<notin> set host" "91 \<notin> set host" "93 \<notin> set host"
    using assms set_dotted by (fastforce simp: host_def addr_IsValid_def is_digit_def)+
  have split: "SplitHostPort (JoinHostPort host (Itoa (uint (Port ap)))) = Some (host, Itoa (uint (Port ap)))"
    by (rule SplitHostPort_Join [OF host digits])
  have "hd host \<noteq> 91 \<or> host = []" using host(2) by (cases host) auto
  then have un: "unwrapIPv6Address host = host" by (auto simp: unwrapIPv6Address_def)
  have "uint (Port ap) < 2 ^ 63" using unsigned_less [of "Port ap", where 'a = int] by simp
  then have port: "of_int (Atoi (Itoa (uint (Port ap)))) = Port ap" by (simp add: Atoi_Itoa)
  have parse: "netip_ParseAddr host = (if addr_IsValid (Addr ap) then Some (Addr ap) else None)"
    "addr_IsValid (Addr ap) \<Longrightarrow> Fqdn ap = []" "\<not> addr_IsValid (Addr ap) \<Longrightarrow> Addr ap = NoAddr \<and> host = Fqdn ap"
    using assms by (auto simp: host_def addr_IsValid_def netip_ParseAddr_dotted)
  have "ParseSocksaddr (JoinHostPort host (Itoa (uint (Port ap)))) = ap"
    using parse(2,3)
    by (auto simp: ParseSocksaddr_def split ParseSocksaddrHostPortStr_def un Let_def port parse(1))
  with str show ?thesis by blast
qed

theorem socksaddr_String_parse_witness:
  "\<exists>s. socksaddr_String True \<lparr>Addr = Addr4 [10, 0, 0, 1], Port = 443, Fqdn = []\<rparr> = Some s \<and>
     ParseSocksaddr s = \<lparr>Addr = Addr4 [10, 0, 0, 1], Port = 443, Fqdn = []\<rparr>"
  by (rule socksaddr_String_parse) simp

end
