(* ===== verification/Socks5.thy ===== *)
theory Socks5
  imports Metadata
begin

text \<open>
  The SOCKS5 messages of \<open>protocol/socks/socks5/protocol.go\<close>: what each \<open>Write\<close> function
  sends and what each \<open>Read\<close> function accepts. A \<open>Write\<close> function takes the writer (a write
  function and its state) and the pools its scratch buffer comes from.
\<close>

section \<open>Constants\<close>

definition socks5_Version :: byte where "socks5_Version = 5"
definition AuthTypeNotRequired :: byte where "AuthTypeNotRequired = 0x00"
definition AuthTypeUsernamePassword :: byte where "AuthTypeUsernamePassword = 0x02"
definition AuthTypeNoAcceptedMethods :: byte where "AuthTypeNoAcceptedMethods = 0xFF"
definition UsernamePasswordStatusSuccess :: byte where "UsernamePasswordStatusSuccess = 0x00"
definition UsernamePasswordStatusFailure :: byte where "UsernamePasswordStatusFailure = 0x01"
definition socks5_CommandConnect :: byte where "socks5_CommandConnect = 0x01"
definition socks5_CommandBind :: byte where "socks5_CommandBind = 0x02"
definition socks5_CommandUDPAssociate :: byte where "socks5_CommandUDPAssociate = 0x03"
definition socks5_ReplyCodeSuccess :: byte where "socks5_ReplyCodeSuccess = 0"
definition socks5_ReplyCodeFailure :: byte where "socks5_ReplyCodeFailure = 1"
definition socks5_ReplyCodeNotAllowed :: byte where "socks5_ReplyCodeNotAllowed = 2"
definition socks5_ReplyCodeNetworkUnreachable :: byte where "socks5_ReplyCodeNetworkUnreachable = 3"
definition socks5_ReplyCodeHostUnreachable :: byte where "socks5_ReplyCodeHostUnreachable = 4"
definition socks5_ReplyCodeConnectionRefused :: byte where "socks5_ReplyCodeConnectionRefused = 5"
definition socks5_ReplyCodeUnsupported :: byte where "socks5_ReplyCodeUnsupported = 7"

lemmas socks5_consts = socks5_Version_def AuthTypeNotRequired_def AuthTypeUsernamePassword_def
  AuthTypeNoAcceptedMethods_def UsernamePasswordStatusSuccess_def UsernamePasswordStatusFailure_def
  socks5_CommandConnect_def socks5_CommandBind_def socks5_CommandUDPAssociate_def
  socks5_ReplyCodeSuccess_def socks5_ReplyCodeFailure_def socks5_ReplyCodeUnsupported_def

text \<open>The system errors a reply code distinguishes, by their Linux numbers.\<close>

definition ENETUNREACH :: go_error where "ENETUNREACH = Errno 101"
definition EHOSTUNREACH :: go_error where "EHOSTUNREACH = Errno 113"
definition ECONNREFUSED :: go_error where "ECONNREFUSED = Errno 111"
definition EPERM :: go_error where "EPERM = Errno 1"

definition ReplyCodeForError :: "go_error \<Rightarrow> byte" where
  "ReplyCodeForError err =
     (if errors_Is err ENETUNREACH then socks5_ReplyCodeNetworkUnreachable
      else if errors_Is err EHOSTUNREACH then socks5_ReplyCodeHostUnreachable
      else if errors_Is err ECONNREFUSED then socks5_ReplyCodeConnectionRefused
      else if errors_Is err EPERM then socks5_ReplyCodeNotAllowed
      else socks5_ReplyCodeFailure)"

section \<open>Messages\<close>

text \<open>One write of constant bytes to the writer.\<close>

definition send_bytes :: "bytes \<Rightarrow> 'w write_fn \<Rightarrow> 'w \<Rightarrow> pools \<Rightarrow> (go_error option \<times> 'w \<times> pools) option" where
  "send_bytes d wr w p = (case wr w d of ((_, err), w') \<Rightarrow> Some (err, w', p))"

definition expect_byte :: "byte \<Rightarrow> string \<Rightarrow> unit rd" where
  "expect_byte v msg = rd_bind ReadByte (\<lambda>version.
     if version \<noteq> v then rd_fail (ErrorNew [Txt msg, Num (uint version)]) else rd_return ())"

record auth_request = Methods :: bytes

definition WriteAuthRequest ::
  "auth_request \<Rightarrow> 'w write_fn \<Rightarrow> 'w \<Rightarrow> pools \<Rightarrow> (go_error option \<times> 'w \<times> pools) option" where
  "WriteAuthRequest request =
     send_buffer (length (Methods request) + 2)
       (w_must [\<lambda>b. WriteByte b socks5_Version, \<lambda>b. WriteByte b (of_nat (length (Methods request))),
          common_Error (\<lambda>b. Write b (Methods request))])"

definition ReadAuthRequest0 :: "auth_request rd" where
  "ReadAuthRequest0 = rd_bind ReadByte (\<lambda>methodLen.
     rd_bind (ReadFull (unat methodLen)) (\<lambda>ms. rd_return \<lparr>Methods = ms\<rparr>))"

definition ReadAuthRequest :: "auth_request rd" where
  "ReadAuthRequest = rd_bind (expect_byte socks5_Version ''expected socks version 5, got '') (\<lambda>_. ReadAuthRequest0)"

record auth_response = Method :: byte

definition WriteAuthResponse ::
  "auth_response \<Rightarrow> 'w write_fn \<Rightarrow> 'w \<Rightarrow> pools \<Rightarrow> (go_error option \<times> 'w \<times> pools) option" where
  "WriteAuthResponse response = send_bytes [socks5_Version, Method response]"

definition ReadAuthResponse :: "auth_response rd" where
  "ReadAuthResponse = rd_bind (expect_byte socks5_Version ''expected socks version 5, got '') (\<lambda>_.
     rd_bind ReadByte (\<lambda>m. rd_return \<lparr>Method = m\<rparr>))"

record userpass_request =
  Username :: bytes
  Password :: bytes

definition WriteUsernamePasswordAuthRequest ::
  "userpass_request \<Rightarrow> 'w write_fn \<Rightarrow> 'w \<Rightarrow> pools \<Rightarrow> (go_error option \<times> 'w \<times> pools) option" where
  "WriteUsernamePasswordAuthRequest request =
     send_buffer (3 + length (Username request) + length (Password request))
       (w_must [\<lambda>b. WriteByte b 1, WriteSocksString (Username request), WriteSocksString (Password request)])"

definition ReadUsernamePasswordAuthRequest :: "userpass_request rd" where
  "ReadUsernamePasswordAuthRequest =
     rd_bind (expect_byte 1 ''excepted password request version 1, got '') (\<lambda>_.
       rd_bind ReadSockString (\<lambda>u. rd_bind ReadSockString (\<lambda>p. rd_return \<lparr>Username = u, Password = p\<rparr>)))"

record userpass_response = Status :: byte

definition WriteUsernamePasswordAuthResponse ::
  "userpass_response \<Rightarrow> 'w write_fn \<Rightarrow> 'w \<Rightarrow> pools \<Rightarrow> (go_error option \<times> 'w \<times> pools) option" where
  "WriteUsernamePasswordAuthResponse response = send_bytes [1, Status response]"

definition ReadUsernamePasswordAuthResponse :: "userpass_response rd" where
  "ReadUsernamePasswordAuthResponse =
     rd_bind (expect_byte 1 ''excepted password request version 1, got '') (\<lambda>_.
       rd_bind ReadByte (\<lambda>s. rd_return \<lparr>Status = s\<rparr>))"

record socks5_request =
  Command :: byte
  Destination :: socksaddr

definition socks5_WriteRequest ::
  "socks5_request \<Rightarrow> 'w write_fn \<Rightarrow> 'w \<Rightarrow> pools \<Rightarrow> (go_error option \<times> 'w \<times> pools) option" where
  "socks5_WriteRequest request =
     send_buffer (3 + AddrPortLen SocksaddrSerializer (Destination request))
       (w_then (w_must [\<lambda>b. WriteByte b socks5_Version, \<lambda>b. WriteByte b (Command request), WriteZero])
          (WriteAddrPort SocksaddrSerializer (Destination request)))"

definition socks5_ReadRequest :: "socks5_request rd" where
  "socks5_ReadRequest = rd_bind (expect_byte socks5_Version ''expected socks version 5, got '') (\<lambda>_.
     rd_bind ReadByte (\<lambda>cmd. rd_bind ReadByte (\<lambda>_.
       rd_bind (ReadAddrPort SocksaddrSerializer) (\<lambda>dst. rd_return \<lparr>Command = cmd, Destination = dst\<rparr>))))"

record socks5_response =
  ReplyCode :: byte
  Bind :: socksaddr

definition response_bind :: "socks5_response \<Rightarrow> socksaddr" where
  "response_bind response =
     (if IsValid (Bind response) then Bind response else no_socksaddr\<lparr>Addr := Addr4 [0, 0, 0, 0]\<rparr>)"

definition socks5_WriteResponse ::
  "socks5_response \<Rightarrow> 'w write_fn \<Rightarrow> 'w \<Rightarrow> pools \<Rightarrow> (go_error option \<times> 'w \<times> pools) option" where
  "socks5_WriteResponse response =
     send_buffer (3 + AddrPortLen SocksaddrSerializer (response_bind response))
       (w_then (w_must [\<lambda>b. WriteByte b socks5_Version, \<lambda>b. WriteByte b (ReplyCode response), WriteZero])
          (WriteAddrPort SocksaddrSerializer (response_bind response)))"

definition socks5_ReadResponse :: "socks5_response rd" where
  "socks5_ReadResponse = rd_bind (expect_byte socks5_Version ''expected socks version 5, got '') (\<lambda>_.
     rd_bind ReadByte (\<lambda>code. rd_bind ReadByte (\<lambda>_.
       rd_bind (ReadAddrPort SocksaddrSerializer) (\<lambda>a. rd_return \<lparr>ReplyCode = code, Bind = a\<rparr>))))"

section \<open>The wire formats\<close>

text \<open>The bytes of each message.\<close>

definition auth_request_bytes :: "auth_request \<Rightarrow> bytes" where
  "auth_request_bytes r = socks5_Version # of_nat (length (Methods r)) # Methods r"

definition userpass_bytes :: "userpass_request \<Rightarrow> bytes" where
  "userpass_bytes r = 1 # (of_nat (length (Username r)) # Username r) @ of_nat (length (Password r)) # Password r"

definition socks5_request_bytes :: "socks5_request \<Rightarrow> bytes" where
  "socks5_request_bytes r =
     socks5_Version # Command r # 0 # addr_port_bytes SocksaddrSerializer (Destination r)"

definition socks5_response_bytes :: "socks5_response \<Rightarrow> bytes" where
  "socks5_response_bytes r =
     socks5_Version # ReplyCode r # 0 # addr_port_bytes SocksaddrSerializer (response_bind r)"

text \<open>An address that \<open>SocksaddrSerializer\<close> carries unchanged.\<close>

definition plain_addr :: "socksaddr \<Rightarrow> bool" where
  "plain_addr a \<longleftrightarrow> encodable SocksaddrSerializer a \<and> normal_addr SocksaddrSerializer a = a"

lemma yields_expect [codec_intros]: "yields f bs v \<Longrightarrow> yields (rd_bind (expect_byte c m) (\<lambda>_. f)) (c # bs) v"
  unfolding expect_byte_def rd_bind_assoc by (intro yields_ReadByte_bind) (simp add: rd_bind_return)

lemma starves_expect [codec_intros]: "starves f bs \<Longrightarrow> starves (rd_bind (expect_byte c m) (\<lambda>_. f)) (c # bs)"
  unfolding expect_byte_def rd_bind_assoc by (intro starves_ReadByte_bind) (simp add: rd_bind_return)

lemma unat_len: "length xs \<le> 255 \<Longrightarrow> unat (of_nat (length xs) :: byte) = length xs"
  by (simp add: unsigned_of_nat take_bit_eq_mod)

interpretation auth_req: codec auth_request_bytes ReadAuthRequest "\<lambda>r. length (Methods r) \<le> 255"
  by unfold_locales
     (auto simp: ReadAuthRequest_def ReadAuthRequest0_def auth_request_bytes_def unat_len
       intro!: yields_expect starves_expect yields_ReadByte_bind starves_ReadByte_bind yields_result
         yields_bind_Nil [OF yields_ReadFull] starves_bind_Nil [OF yields_ReadFull starves_ReadFull])

interpretation auth_rsp: codec "\<lambda>r. [socks5_Version, Method r]" ReadAuthResponse "\<lambda>_. True"
  by unfold_locales
     (auto simp: ReadAuthResponse_def intro!: yields_expect starves_expect yields_ReadByte_bind
       starves_ReadByte_bind yields_result)

lemma userpass_yields:
  assumes "length (Username r) \<le> 255" "length (Password r) \<le> 255"
  shows "yields ReadUsernamePasswordAuthRequest (userpass_bytes r) r"
    and "starves ReadUsernamePasswordAuthRequest (userpass_bytes r)"
proof -
  let ?k = "\<lambda>u. rd_bind ReadSockString (\<lambda>p. rd_return \<lparr>Username = u, Password = p\<rparr>)"
  have k: "yields (?k u) (of_nat (length (Password r)) # Password r) \<lparr>Username = u, Password = Password r\<rparr>"
    "starves (?k u) (of_nat (length (Password r)) # Password r)" for u
    using assms by (auto intro!: yields_bind_Nil [OF yields_ReadSockString] starves_bind_Nil [OF yields_ReadSockString]
        starves_ReadSockString yields_return)
  show "yields ReadUsernamePasswordAuthRequest (userpass_bytes r) r"
    unfolding ReadUsernamePasswordAuthRequest_def userpass_bytes_def
    using yields_bind [of ReadSockString _ "Username r" ?k, OF yields_ReadSockString [OF assms(1)] k(1)]
    by (intro yields_expect) (cases r, simp)
  show "starves ReadUsernamePasswordAuthRequest (userpass_bytes r)"
    unfolding ReadUsernamePasswordAuthRequest_def userpass_bytes_def
    using starves_bind [of ReadSockString _ "Username r" ?k, OF yields_ReadSockString [OF assms(1)]
        starves_ReadSockString [OF assms(1)] k(2)]
    by (intro starves_expect) simp
qed

interpretation userpass: codec userpass_bytes ReadUsernamePasswordAuthRequest
    "\<lambda>r. length (Username r) \<le> 255 \<and> length (Password r) \<le> 255"
  by unfold_locales (auto intro: userpass_yields)

interpretation userpass_rsp: codec "\<lambda>r. [1, Status r]" ReadUsernamePasswordAuthResponse "\<lambda>_. True"
  by unfold_locales
     (auto simp: ReadUsernamePasswordAuthResponse_def intro!: yields_expect starves_expect yields_ReadByte_bind
       starves_ReadByte_bind yields_result)

lemma plain_codec:
  assumes "plain_addr a"
  shows "yields (ReadAddrPort SocksaddrSerializer) (addr_port_bytes SocksaddrSerializer a) a"
    and "starves (ReadAddrPort SocksaddrSerializer) (addr_port_bytes SocksaddrSerializer a)"
  using socksaddr.dec_enc [of a] socksaddr.dec_starves [of a] assms by (simp_all add: plain_addr_def)

interpretation socks5_req: codec socks5_request_bytes socks5_ReadRequest "\<lambda>r. plain_addr (Destination r)"
  by unfold_locales
     (auto simp: socks5_ReadRequest_def socks5_request_bytes_def
       intro!: yields_expect starves_expect yields_ReadByte_bind starves_ReadByte_bind
         yields_bind_Nil [OF plain_codec(1)] starves_bind_Nil [OF plain_codec] yields_result)

interpretation socks5_rsp: codec socks5_response_bytes socks5_ReadResponse "\<lambda>r. IsValid (Bind r) \<and> plain_addr (Bind r)"
  by unfold_locales
     (auto simp: socks5_ReadResponse_def socks5_response_bytes_def response_bind_def
       intro!: yields_expect starves_expect yields_ReadByte_bind starves_ReadByte_bind
         yields_bind_Nil [OF plain_codec(1)] starves_bind_Nil [OF plain_codec] yields_result)

section \<open>What is sent\<close>

lemma sends_bytes: "sends (send_bytes d) d"
  by (auto simp: sends_def send_bytes_def split: prod.splits)

lemma sends_WriteAuthRequest: "sends (WriteAuthRequest r) (auth_request_bytes r)"
proof -
  have "puts (w_must [\<lambda>b. WriteByte b socks5_Version, \<lambda>b. WriteByte b (of_nat (length (Methods r))),
      common_Error (\<lambda>b. Write b (Methods r))])
     ([socks5_Version] @ [of_nat (length (Methods r))] @ Methods r @ [])"
    by (intro put_intros)
  then show ?thesis
    unfolding WriteAuthRequest_def by (intro sends_buffer) (simp_all add: auth_request_bytes_def)
qed

lemma sends_WriteUsernamePasswordAuthRequest:
  assumes "length (Username r) \<le> 255" "length (Password r) \<le> 255"
  shows "sends (WriteUsernamePasswordAuthRequest r) (userpass_bytes r)"
proof -
  have "puts (w_must [\<lambda>b. WriteByte b 1, WriteSocksString (Username r), WriteSocksString (Password r)])
     ([1] @ (of_nat (length (Username r)) # Username r) @ (of_nat (length (Password r)) # Password r) @ [])"
    by (intro puts_must_Cons puts_must_Nil puts_WriteByte puts_WriteSocksString assms)
  then show ?thesis
    unfolding WriteUsernamePasswordAuthRequest_def by (intro sends_buffer) (simp_all add: userpass_bytes_def)
qed

lemma SocksaddrSerializer_portLast [simp]: "\<not> portFirst SocksaddrSerializer"
  by (simp add: SocksaddrSerializer_def NewSerializer_def)

lemma sends_header_addr:
  assumes "encodable SocksaddrSerializer a"
  shows "sends (send_buffer (3 + AddrPortLen SocksaddrSerializer a)
       (w_then (w_must [\<lambda>b. WriteByte b v, \<lambda>b. WriteByte b c, WriteZero]) (WriteAddrPort SocksaddrSerializer a)))
     (v # c # 0 # addr_port_bytes SocksaddrSerializer a)"
proof -
  have "puts (w_must [\<lambda>b. WriteByte b v, \<lambda>b. WriteByte b c, WriteZero]) ([v] @ [c] @ [0] @ [])"
    by (intro put_intros)
  from puts_then [OF this puts_WriteAddrPort [OF assms]] show ?thesis
    by (intro sends_buffer) (simp_all add: length_addr_port_bytes [OF assms])
qed

lemma sends_socks5_WriteRequest:
  "encodable SocksaddrSerializer (Destination r) \<Longrightarrow> sends (socks5_WriteRequest r) (socks5_request_bytes r)"
  unfolding socks5_WriteRequest_def socks5_request_bytes_def by (rule sends_header_addr)

lemma sends_socks5_WriteResponse:
  "encodable SocksaddrSerializer (response_bind r) \<Longrightarrow> sends (socks5_WriteResponse r) (socks5_response_bytes r)"
  unfolding socks5_WriteResponse_def socks5_response_bytes_def by (rule sends_header_addr)

end
