(* ===== verification/Socks4.thy ===== *)
theory Socks4
  imports Socks5
begin

text \<open>
  The SOCKS4 and SOCKS4A messages of \<open>protocol/socks/socks4/protocol.go\<close>.
\<close>

section \<open>Definitions\<close>

definition socks4_Version :: byte where "socks4_Version = 4"
definition socks4_CommandConnect :: byte where "socks4_CommandConnect = 1"
definition socks4_CommandBind :: byte where "socks4_CommandBind = 2"
definition socks4_ReplyCodeGranted :: byte where "socks4_ReplyCodeGranted = 90"
definition socks4_ReplyCodeRejectedOrFailed :: byte where "socks4_ReplyCodeRejectedOrFailed = 91"

lemmas socks4_consts = socks4_Version_def socks4_CommandConnect_def socks4_CommandBind_def
  socks4_ReplyCodeGranted_def socks4_ReplyCodeRejectedOrFailed_def

record socks4_request =
  Command4 :: byte
  Destination4 :: socksaddr
  Username4 :: bytes

text \<open>\<open>readString\<close>: bytes up to a NUL, at most 255 of them.\<close>

function readString_loop :: "bytes \<Rightarrow> bytes rd" where
  "readString_loop acc r =
     (case ReadByte r of
        (Inl err, r') \<Rightarrow> (Inl err, r')
      | (Inr b, r') \<Rightarrow>
          if b = 0 then (Inr acc, r')
          else if length (acc @ [b]) > 255 then (Inl (ErrorNew [Txt ''string too long'']), r')
          else readString_loop (acc @ [b]) r')"
  by pat_completeness auto
termination
  by (relation "measure (\<lambda>(acc, r). length (rdata r))") (auto simp: ReadByte_def split: list.splits)

declare readString_loop.simps [simp del]

definition readString :: "bytes rd" where
  "readString = readString_loop []"

definition socks4_ReadRequest0 :: "socks4_request rd" where
  "socks4_ReadRequest0 =
     rd_bind ReadByte (\<lambda>cmd. rd_bind ReadUint16 (\<lambda>port. rd_bind (ReadFull 4) (\<lambda>dstIP.
       let readHostName = (dstIP ! 0 = 0 \<and> dstIP ! 1 = 0 \<and> dstIP ! 2 = 0 \<and> dstIP ! 3 \<noteq> 0);
           dst = no_socksaddr\<lparr>Port := port\<rparr>;
           dst = (if readHostName then dst else dst\<lparr>Addr := Addr4 dstIP\<rparr>)
       in rd_bind (rd_cause [Txt ''reading username''] readString) (\<lambda>user.
            if readHostName then
              rd_bind (rd_cause [Txt ''reading hostname''] readString) (\<lambda>fqdn.
                rd_return \<lparr>Command4 = cmd, Destination4 = Unwrap (ParseSocksaddrHostPort fqdn port), Username4 = user\<rparr>)
            else rd_return \<lparr>Command4 = cmd, Destination4 = dst, Username4 = user\<rparr>))))"

definition socks4_ReadRequest :: "socks4_request rd" where
  "socks4_ReadRequest = rd_bind (expect_byte 4 ''excepted socks version 4, got '') (\<lambda>_. socks4_ReadRequest0)"

definition must1 :: "buffer write_op \<Rightarrow> buffer write_op" where
  "must1 f = w_must [f]"

definition socks4_requestLen :: "socks4_request \<Rightarrow> bytes \<Rightarrow> nat" where
  "socks4_requestLen request addrString =
     1 + 1 + 2 + 4 + 1 +
     (if \<not> IsIPv4 (Destination4 request) then length addrString + 1 else 0) +
     (if Username4 request \<noteq> [] then length (Username4 request) else 0)"

text \<open>\<open>AddrString\<close>, which panics on a bad address when debugging, is evaluated for every
  destination that is not IPv4.\<close>

definition socks4_WriteRequest ::
  "bool \<Rightarrow> socks4_request \<Rightarrow> 'w write_fn \<Rightarrow> 'w \<Rightarrow> pools \<Rightarrow> (go_error option \<times> 'w \<times> pools) option" where
  "socks4_WriteRequest dbg request wr w p =
     (let dst = Destination4 request; v4 = IsIPv4 dst; user = Username4 request in do {
        addrString \<leftarrow> (if v4 then Some [] else AddrString dbg dst);
        send_buffer (socks4_requestLen request addrString)
          (w_then (w_must [\<lambda>b. WriteByte b socks4_Version, \<lambda>b. WriteByte b (Command4 request),
             common_Error (\<lambda>b. Write b (be16 (Port dst)))])
          (w_then (if v4 then must1 (common_Error (\<lambda>b. Write b (addr_AsSlice (Addr dst))))
             else w_then (must1 (\<lambda>b. WriteZeroN b 3)) (must1 (\<lambda>b. WriteByte b 1)))
          (w_then (if user \<noteq> [] then
               (if length user > 255 then w_fail (ErrorNew [Txt ''username too long''])
                else must1 (common_Error (\<lambda>b. WriteString b user)))
             else w_skip)
          (w_then (must1 WriteZero)
          (if \<not> v4 then
             (if length addrString > 255 then w_fail (ErrorNew [Txt ''destination hostname too long''])
              else w_then (must1 (common_Error (\<lambda>b. WriteString b addrString))) (must1 WriteZero))
           else w_skip))))) wr w p })"

record socks4_response =
  ReplyCode4 :: byte
  RDestination4 :: socksaddr

definition socks4_ReadResponse :: "socks4_response rd" where
  "socks4_ReadResponse = rd_bind (expect_byte 0 ''excepted socks4 response version 0, got '') (\<lambda>_.
     rd_bind ReadByte (\<lambda>code. rd_bind ReadUint16 (\<lambda>port. rd_bind (ReadFull 4) (\<lambda>dstIP.
       rd_return \<lparr>ReplyCode4 = code, RDestination4 = \<lparr>Addr = Addr4 dstIP, Port = port, Fqdn = []\<rparr>\<rparr>))))"

definition socks4_WriteResponse ::
  "socks4_response \<Rightarrow> 'w write_fn \<Rightarrow> 'w \<Rightarrow> pools \<Rightarrow> (go_error option \<times> 'w \<times> pools) option" where
  "socks4_WriteResponse response =
     send_buffer 8
       (w_must [\<lambda>b. WriteByte b 0, \<lambda>b. WriteByte b (ReplyCode4 response),
          common_Error (\<lambda>b. Write b (be16 (Port (RDestination4 response)))),
          common_Error (\<lambda>b. Write b (addr_AsSlice (Addr (RDestination4 response))))])"

section \<open>The wire formats\<close>

definition socks4_response_bytes :: "socks4_response \<Rightarrow> bytes" where
  "socks4_response_bytes r =
     0 # ReplyCode4 r # be16 (Port (RDestination4 r)) @ addr_AsSlice (Addr (RDestination4 r))"

definition socks4_request_bytes :: "socks4_request \<Rightarrow> bytes" where
  "socks4_request_bytes r =
     socks4_Version # Command4 r # be16 (Port (Destination4 r)) @
     (case Addr (Destination4 r) of
        Addr4 ip \<Rightarrow> ip @ Username4 r @ [0]
      | _ \<Rightarrow> [0, 0, 0, 1] @ Username4 r @ [0] @ Fqdn (Destination4 r) @ [0])"

text \<open>Requests that the format carries: an IPv4 address that is not the SOCKS4A marker, or a
  name; both strings without NUL and of at most 255 bytes.\<close>

definition socks4_sendable :: "socks4_request \<Rightarrow> bool" where
  "socks4_sendable r \<longleftrightarrow>
     0 \<notin> set (Username4 r) \<and> length (Username4 r) \<le> 255 \<and>
     (case Addr (Destination4 r) of
        Addr4 ip \<Rightarrow> length ip = 4 \<and> (take 3 ip = [0, 0, 0] \<longrightarrow> ip ! 3 = 0) \<and> Fqdn (Destination4 r) = []
      | NoAddr \<Rightarrow> 0 \<notin> set (Fqdn (Destination4 r)) \<and> length (Fqdn (Destination4 r)) \<le> 255
      | Addr6 _ _ \<Rightarrow> False)"

text \<open>The destination as the server sees it.\<close>

definition socks4_normal :: "socks4_request \<Rightarrow> socks4_request" where
  "socks4_normal r =
     (case Addr (Destination4 r) of
        NoAddr \<Rightarrow> r\<lparr>Destination4 := Unwrap (ParseSocksaddrHostPort (Fqdn (Destination4 r)) (Port (Destination4 r)))\<rparr>
      | _ \<Rightarrow> r)"

lemma readString_loop_yields:
  "0 \<notin> set s \<Longrightarrow> length acc + length s \<le> 255 \<Longrightarrow>
   readString_loop acc \<lparr>rdata = s @ 0 # rest, rerr = e\<rparr> = (Inr (acc @ s), \<lparr>rdata = rest, rerr = e\<rparr>)"
  by (induction s arbitrary: acc) (subst readString_loop.simps, simp add: ReadByte_def)+

lemma readString_loop_starves:
  "0 \<notin> set s \<Longrightarrow> length acc + length s \<le> 255 \<Longrightarrow>
   readString_loop acc \<lparr>rdata = s, rerr = e\<rparr> = (Inl e, \<lparr>rdata = [], rerr = e\<rparr>)"
  by (induction s arbitrary: acc) (subst readString_loop.simps, simp add: ReadByte_def)+

lemma yields_readString: "0 \<notin> set s \<Longrightarrow> length s \<le> 255 \<Longrightarrow> yields readString (s @ [0]) s"
  by (simp add: yields_def readString_def readString_loop_yields)

lemma starves_readString: "0 \<notin> set s \<Longrightarrow> length s \<le> 255 \<Longrightarrow> starves readString (s @ [0])"
  unfolding starves_def readString_def
proof (intro allI impI)
  fix k e
  assume s: "0 \<notin> set s" "length s \<le> 255" and "k < length (s @ [0 :: byte])"
  then have "take k (s @ [0]) = take k s" "0 \<notin> set (take k s)" "length ([] :: bytes) + length (take k s) \<le> 255"
    by (auto dest: in_set_takeD)
  with readString_loop_starves [of "take k s" "[]" e]
  show "\<exists>err r. readString_loop [] \<lparr>rdata = take k (s @ [0]), rerr = e\<rparr> = (Inl err, r)" by auto
qed

lemma yields_ReadUint16_bind: "yields (f w) cs v \<Longrightarrow> yields (rd_bind ReadUint16 f) (be16 w @ cs) v"
  by (rule yields_bind [OF yields_ReadUint16])

lemma starves_ReadUint16_bind: "starves (f w) cs \<Longrightarrow> starves (rd_bind ReadUint16 f) (be16 w @ cs)"
  by (rule starves_bind [OF yields_ReadUint16 starves_ReadUint16])

lemma yields_ReadFull_bind: "length a = n \<Longrightarrow> yields (f a) cs v \<Longrightarrow> yields (rd_bind (ReadFull n) f) (a @ cs) v"
  by (rule yields_bind [OF yields_ReadFull])

lemma starves_ReadFull_bind: "length a = n \<Longrightarrow> starves (f a) cs \<Longrightarrow> starves (rd_bind (ReadFull n) f) (a @ cs)"
  by (rule starves_bind [OF yields_ReadFull starves_ReadFull])

lemma yields_readString_bind:
  "0 \<notin> set s \<Longrightarrow> length s \<le> 255 \<Longrightarrow> yields (f s) cs v \<Longrightarrow>
   yields (rd_bind (rd_cause m readString) f) (s @ 0 # cs) v"
  using yields_bind [OF yields_cause [OF yields_readString], of s f cs v m] by simp

lemma starves_readString_bind:
  "0 \<notin> set s \<Longrightarrow> length s \<le> 255 \<Longrightarrow> starves (f s) cs \<Longrightarrow>
   starves (rd_bind (rd_cause m readString) f) (s @ 0 # cs)"
  using starves_bind [where p = "rd_cause m readString" and bs = "s @ [0]" and v = s and f = f and cs = cs]
  by (simp add: yields_cause [OF yields_readString] starves_cause [OF starves_readString])

lemmas socks4_intros = yields_expect starves_expect yields_ReadByte_bind starves_ReadByte_bind
  yields_ReadUint16_bind starves_ReadUint16_bind yields_ReadFull_bind starves_ReadFull_bind
  yields_readString_bind starves_readString_bind yields_result starves_return

lemma marker_iff:
  "length ip = 4 \<Longrightarrow> (ip ! 0 = 0 \<and> ip ! Suc 0 = 0 \<and> ip ! 2 = 0 \<and> ip ! 3 \<noteq> 0) \<longleftrightarrow> take 3 ip = [0, 0, 0] \<and> ip ! 3 \<noteq> (0 :: byte)"
  by (auto simp: length_Suc_conv numeral_eq_Suc)

lemma socks4_ReadRequest0_codec:
  assumes "socks4_sendable r"
  shows "yields socks4_ReadRequest0 (tl (socks4_request_bytes r)) (socks4_normal r)"
    and "starves socks4_ReadRequest0 (tl (socks4_request_bytes r))"
proof -
  have "yields socks4_ReadRequest0 (tl (socks4_request_bytes r)) (socks4_normal r) \<and>
      starves socks4_ReadRequest0 (tl (socks4_request_bytes r))"
  proof (cases "Addr (Destination4 r)")
    case (Addr4 ip)
    with assms have ip: "length ip = 4" "\<not> (ip ! 0 = 0 \<and> ip ! Suc 0 = 0 \<and> ip ! 2 = 0 \<and> ip ! 3 \<noteq> 0)"
      using marker_iff [of ip] by (auto simp: socks4_sendable_def)
    have eq: "\<lparr>Command4 = Command4 r, Destination4 = \<lparr>Addr = Addr4 ip, Port = Port (Destination4 r), Fqdn = []\<rparr>,
        Username4 = Username4 r\<rparr> = r"
      using Addr4 assms by (cases r; cases "Destination4 r") (auto simp: socks4_sendable_def)
    show ?thesis
      using assms Addr4 ip eq unfolding socks4_ReadRequest0_def socks4_request_bytes_def socks4_normal_def Let_def
      by (auto simp: socks4_sendable_def no_socksaddr_def intro!: socks4_intros)
  next
    case NoAddr
    with assms have s: "0 \<notin> set (Username4 r)" "length (Username4 r) \<le> 255"
      "0 \<notin> set (Fqdn (Destination4 r))" "length (Fqdn (Destination4 r)) \<le> 255"
      by (simp_all add: socks4_sendable_def)
    have my: "yields (rd_bind (ReadFull 4) f) (0 # 0 # 0 # 1 # cs) v" if "yields (f [0, 0, 0, 1]) cs v" for f cs and v :: socks4_request
      using yields_ReadFull_bind [of "[0, 0, 0, 1]" 4 f cs v] that by simp
    have ms: "starves (rd_bind (ReadFull 4) f) (0 # 0 # 0 # 1 # cs)" if "starves (f [0, 0, 0, 1]) cs"
      for f :: "bytes \<Rightarrow> socks4_request rd" and cs
      using starves_ReadFull_bind [of "[0, 0, 0, 1]" 4 f cs] that by simp
    show ?thesis
      using NoAddr s unfolding socks4_ReadRequest0_def socks4_request_bytes_def socks4_normal_def Let_def
      by (auto intro!: my ms yields_ReadByte_bind starves_ReadByte_bind
          yields_ReadUint16_bind starves_ReadUint16_bind yields_readString_bind starves_readString_bind yields_result)
  next
    case (Addr6 x y)
    with assms show ?thesis by (simp add: socks4_sendable_def)
  qed
  then show "yields socks4_ReadRequest0 (tl (socks4_request_bytes r)) (socks4_normal r)"
    "starves socks4_ReadRequest0 (tl (socks4_request_bytes r))" by simp_all
qed

lemma socks4_request_split: "socks4_request_bytes r = socks4_Version # tl (socks4_request_bytes r)"
  by (simp add: socks4_request_bytes_def)

interpretation socks4_req: codec socks4_request_bytes socks4_ReadRequest
    "\<lambda>r. socks4_sendable r \<and> socks4_normal r = r"
proof unfold_locales
  fix r
  assume r: "socks4_sendable r \<and> socks4_normal r = r"
  with socks4_ReadRequest0_codec [of r] show "yields socks4_ReadRequest (socks4_request_bytes r) r"
    "starves socks4_ReadRequest (socks4_request_bytes r)"
    unfolding socks4_ReadRequest_def by (subst socks4_request_split; simp add: socks4_Version_def yields_expect starves_expect)+
qed

interpretation socks4_rsp: codec socks4_response_bytes socks4_ReadResponse
    "\<lambda>r. \<exists>ip. Addr (RDestination4 r) = Addr4 ip \<and> length ip = 4 \<and> Fqdn (RDestination4 r) = []"
proof unfold_locales
  fix r :: socks4_response
  assume "\<exists>ip. Addr (RDestination4 r) = Addr4 ip \<and> length ip = 4 \<and> Fqdn (RDestination4 r) = []"
  then obtain ip where ip: "Addr (RDestination4 r) = Addr4 ip" "length ip = 4" "Fqdn (RDestination4 r) = []" by blast
  then have eq: "\<lparr>ReplyCode4 = ReplyCode4 r, RDestination4 = \<lparr>Addr = Addr4 ip, Port = Port (RDestination4 r), Fqdn = []\<rparr>\<rparr> = r"
    by (cases r; cases "RDestination4 r") simp
  show "yields socks4_ReadResponse (socks4_response_bytes r) r"
    using ip eq unfolding socks4_ReadResponse_def socks4_response_bytes_def
    by (auto intro!: yields_expect yields_ReadByte_bind yields_ReadUint16_bind yields_bind_Nil [OF yields_ReadFull] yields_result)
  show "starves socks4_ReadResponse (socks4_response_bytes r)"
    using ip unfolding socks4_ReadResponse_def socks4_response_bytes_def
    by (auto intro!: starves_expect starves_ReadByte_bind starves_ReadUint16_bind
        starves_bind_Nil [OF yields_ReadFull starves_ReadFull])
qed

section \<open>What is sent\<close>

lemma puts_must1: "puts f d \<Longrightarrow> puts (must1 f) d"
  using puts_must_Cons [OF _ puts_must_Nil, of f d] by (simp add: must1_def)

lemma sends_socks4_WriteResponse:
  assumes "length (addr_AsSlice (Addr (RDestination4 r))) \<le> 4"
  shows "sends (socks4_WriteResponse r) (socks4_response_bytes r)"
proof -
  have "puts (w_must [\<lambda>b. WriteByte b 0, \<lambda>b. WriteByte b (ReplyCode4 r),
          common_Error (\<lambda>b. Write b (be16 (Port (RDestination4 r)))),
          common_Error (\<lambda>b. Write b (addr_AsSlice (Addr (RDestination4 r))))])
     ([0] @ [ReplyCode4 r] @ be16 (Port (RDestination4 r)) @ addr_AsSlice (Addr (RDestination4 r)) @ [])"
    by (intro put_intros)
  then show ?thesis
    unfolding socks4_WriteResponse_def by (intro sends_buffer) (use assms in \<open>simp_all add: socks4_response_bytes_def\<close>)
qed

lemma sends_socks4_WriteRequest:
  assumes "socks4_sendable r"
  shows "sends (socks4_WriteRequest dbg r) (socks4_request_bytes r)"
proof -
  let ?dst = "Destination4 r" and ?user = "Username4 r"
  have user: "puts (if ?user \<noteq> [] then
               (if length ?user > 255 then w_fail (ErrorNew [Txt ''username too long''])
                else must1 (common_Error (\<lambda>b. WriteString b ?user)))
             else w_skip) ?user"
    using assms by (auto simp: socks4_sendable_def intro!: puts_must1 puts_WriteString puts_skip)
  have hd: "puts (w_must [\<lambda>b. WriteByte b socks4_Version, \<lambda>b. WriteByte b (Command4 r),
             common_Error (\<lambda>b. Write b (be16 (Port ?dst)))]) ([socks4_Version] @ [Command4 r] @ be16 (Port ?dst) @ [])"
    by (intro put_intros)
  show ?thesis
  proof (cases "Addr ?dst")
    case (Addr4 ip)
    have "puts (w_then (must1 WriteZero) w_skip) ([0] @ [])"
      by (intro puts_then puts_must1 puts_WriteZero puts_skip)
    from puts_then [OF hd puts_then [OF puts_must1 [OF puts_Write [of ip]] puts_then [OF user this]]]
    show ?thesis
      using Addr4 assms unfolding socks4_WriteRequest_def Let_def
      by (auto simp: IsIPv4_def sends_def socks4_requestLen_def socks4_request_bytes_def socks4_sendable_def
          intro!: send_buffer_puts)
  next
    case NoAddr
    have z3: "puts (\<lambda>b. WriteZeroN b 3) [0, 0, 0]" using puts_WriteZeroN [of 3] by (simp add: numeral_3_eq_3)
    have m: "puts (w_then (must1 (\<lambda>b. WriteZeroN b 3)) (must1 (\<lambda>b. WriteByte b 1))) ([0, 0, 0] @ [1])"
      by (intro puts_then puts_must1 z3 puts_WriteByte)
    have "puts (w_then (must1 WriteZero) (w_then (must1 (common_Error (\<lambda>b. WriteString b (Fqdn ?dst)))) (must1 WriteZero)))
        ([0] @ Fqdn ?dst @ [0])"
      by (intro puts_then puts_must1 puts_WriteZero puts_WriteString)
    from puts_then [OF hd puts_then [OF m puts_then [OF user this]]]
    show ?thesis
      using NoAddr assms unfolding socks4_WriteRequest_def Let_def
      by (auto simp: IsIPv4_def AddrString_def when_debug_def CheckBadAddr_def addr_IsValid_def sends_def
          socks4_requestLen_def socks4_request_bytes_def socks4_sendable_def intro!: send_buffer_puts)
  next
    case (Addr6 x y)
    with assms show ?thesis by (simp add: socks4_sendable_def)
  qed
qed

end
