(* ===== verification/Handshake.thy ===== *)
theory Handshake
  imports Socks4
begin

text \<open>
  The SOCKS handshakes of \<open>protocol/socks/handshake.go\<close> and the response-on-demand
  connection of \<open>protocol/socks/lazy.go\<close>, with the authenticator of \<open>common/auth/auth.go\<close>.

  A connection is its input stream, the bytes written to it, and the number of writes after
  which it fails (\<open>None\<close> when it never does). The handler is the caller's: a call of it is
  recorded, with the user of the context, the version of the \<open>LazyConn\<close> it gets, and the
  source and destination.
\<close>

section \<open>Authenticator\<close>

record auth_user =
  UserName :: bytes
  UserPassword :: bytes

type_synonym authenticator = "bytes \<rightharpoonup> bytes list"

definition add_user :: "authenticator \<Rightarrow> auth_user \<Rightarrow> authenticator" where
  "add_user m u =
     m(UserName u \<mapsto> (case m (UserName u) of None \<Rightarrow> [] | Some l \<Rightarrow> l) @ [UserPassword u])"

definition NewAuthenticator :: "auth_user list \<Rightarrow> authenticator option" where
  "NewAuthenticator users = (if users = [] then None else Some (foldl add_user Map.empty users))"

definition Verify :: "authenticator \<Rightarrow> bytes \<Rightarrow> bytes \<Rightarrow> bool" where
  "Verify au username password =
     (case au username of None \<Rightarrow> False | Some passwordList \<Rightarrow> password \<in> set passwordList)"

section \<open>Connections\<close>

record conn =
  cin :: reader
  cout :: bytes
  cfail :: "nat option"

definition broken_conn :: go_error where "broken_conn = OtherError 0"

definition conn_Write :: "conn write_fn" where
  "conn_Write c d =
     (if cfail c = Some 0 then ((0, Some broken_conn), c)
      else ((length d, None), c\<lparr>cout := cout c @ d, cfail := map_option (\<lambda>n. n - 1) (cfail c)\<rparr>))"

datatype handler_call =
    NewConnectionEx "bytes option" byte socksaddr socksaddr
  | NewPacketConnectionEx "bytes option" socksaddr socksaddr bytes

record hs =
  hconn :: conn
  hpools :: pools
  hcalls :: "handler_call list"

type_synonym 'a io = "hs \<Rightarrow> ((go_error + 'a) \<times> hs) option"

definition io_return :: "'a \<Rightarrow> 'a io" where
  "io_return x s = Some (Inr x, s)"

definition io_fail :: "go_error \<Rightarrow> 'a io" where
  "io_fail e s = Some (Inl e, s)"

definition io_panic :: "'a io" where
  "io_panic s = None"

definition io_bind :: "'a io \<Rightarrow> ('a \<Rightarrow> 'b io) \<Rightarrow> 'b io" where
  "io_bind m f s = (case m s of None \<Rightarrow> None | Some (Inl e, s') \<Rightarrow> Some (Inl e, s') | Some (Inr x, s') \<Rightarrow> f x s')"

definition io_cause :: "msg_part list \<Rightarrow> 'a io \<Rightarrow> 'a io" where
  "io_cause msg m s =
     (case m s of None \<Rightarrow> None | Some (Inl e, s') \<Rightarrow> Some (Inl (CauseError msg e), s') | Some (Inr x, s') \<Rightarrow> Some (Inr x, s'))"

definition io_read :: "'a rd \<Rightarrow> 'a io" where
  "io_read p s = (case p (cin (hconn s)) of (res, r') \<Rightarrow> Some (res, s\<lparr>hconn := (hconn s)\<lparr>cin := r'\<rparr>\<rparr>))"

definition io_send ::
  "(conn write_fn \<Rightarrow> conn \<Rightarrow> pools \<Rightarrow> (go_error option \<times> conn \<times> pools) option) \<Rightarrow> unit io" where
  "io_send m s =
     (case m conn_Write (hconn s) (hpools s) of
        None \<Rightarrow> None
      | Some (err, c, p) \<Rightarrow>
          Some ((case err of None \<Rightarrow> Inr () | Some e \<Rightarrow> Inl e), s\<lparr>hconn := c, hpools := p\<rparr>))"

definition io_call :: "handler_call \<Rightarrow> unit io" where
  "io_call h s = Some (Inr (), s\<lparr>hcalls := hcalls s @ [h]\<rparr>)"

section \<open>Client\<close>

definition ClientHandshake4 :: "bool \<Rightarrow> byte \<Rightarrow> socksaddr \<Rightarrow> bytes \<Rightarrow> socks4_response io" where
  "ClientHandshake4 dbg command destination username =
     io_bind (io_send (socks4_WriteRequest dbg
         \<lparr>Command4 = command, Destination4 = destination, Username4 = username\<rparr>)) (\<lambda>_.
     io_bind (io_read socks4_ReadResponse) (\<lambda>response.
     if ReplyCode4 response \<noteq> socks4_ReplyCodeGranted
     then io_fail (ErrorNew [Txt ''socks4: request rejected, code= '', Num (uint (ReplyCode4 response))])
     else io_return response))"

text \<open>The predicates of \<open>netip.Addr\<close> the UDP request depends on.\<close>

fun addr_IsPrivate0 :: "netip_addr \<Rightarrow> bool" where
  "addr_IsPrivate0 (Addr4 bs) =
     (bs ! 0 = 10 \<or> bs ! 0 = 172 \<and> bs ! 1 AND 0xf0 = 16 \<or> bs ! 0 = 192 \<and> bs ! 1 = 168)"
| "addr_IsPrivate0 (Addr6 bs z) = (bs ! 0 AND 0xfe = 0xfc)"
| "addr_IsPrivate0 NoAddr = False"

definition addr_IsPrivate :: "netip_addr \<Rightarrow> bool" where
  "addr_IsPrivate a = addr_IsPrivate0 (addr_Unmap a)"

fun addr_special :: "netip_addr \<Rightarrow> bool" where
  "addr_special (Addr4 bs) =
     (bs = [0, 0, 0, 0] \<or> bs = [255, 255, 255, 255] \<or> bs ! 0 = 127 \<or> bs ! 0 AND 0xf0 = 0xe0 \<or>
      bs ! 0 = 169 \<and> bs ! 1 = 254)"
| "addr_special (Addr6 bs z) =
     (bs = replicate 16 0 \<and> z = [] \<or> bs = replicate 15 0 @ [1] \<or> bs ! 0 = 0xff \<or>
      bs ! 0 = 0xfe \<and> bs ! 1 AND 0xc0 = 0x80)"
| "addr_special NoAddr = True"

definition addr_IsGlobalUnicast :: "netip_addr \<Rightarrow> bool" where
  "addr_IsGlobalUnicast a \<longleftrightarrow> a \<noteq> NoAddr \<and> \<not> addr_special (addr_Unmap a)"

definition udp_associate_destination :: "socksaddr \<Rightarrow> socksaddr" where
  "udp_associate_destination destination =
     destination\<lparr>Addr :=
        (if addr_IsPrivate (Addr destination) then
           (if addr_Is6 (Addr destination) then Addr4 [127, 0, 0, 1] else Addr6 (replicate 15 0 @ [1]) [])
         else if addr_IsGlobalUnicast (Addr destination) then
           (if addr_Is6 (Addr destination) then Addr6 (replicate 16 0) [] else Addr4 [0, 0, 0, 0])
         else Addr6 (replicate 16 0) []),
      Port := 0\<rparr>"

definition ClientHandshake5 :: "byte \<Rightarrow> socksaddr \<Rightarrow> bytes \<Rightarrow> bytes \<Rightarrow> socks5_response io" where
  "ClientHandshake5 command destination username password =
     (let reqMethod = (if username = [] then AuthTypeNotRequired else AuthTypeUsernamePassword) in
      io_bind (io_send (WriteAuthRequest \<lparr>Methods = [reqMethod]\<rparr>)) (\<lambda>_.
      io_bind (io_read ReadAuthResponse) (\<lambda>authResponse.
      io_bind
        (if Method authResponse = AuthTypeUsernamePassword then
           io_bind (io_send (WriteUsernamePasswordAuthRequest \<lparr>Username = username, Password = password\<rparr>)) (\<lambda>_.
           io_bind (io_read ReadUsernamePasswordAuthResponse) (\<lambda>usernamePasswordResponse.
           if Status usernamePasswordResponse \<noteq> UsernamePasswordStatusSuccess
           then io_fail (ErrorNew [Txt ''socks5: incorrect user name or password''])
           else io_return ()))
         else if Method authResponse \<noteq> AuthTypeNotRequired
         then io_fail (ErrorNew [Txt ''socks5: unsupported auth method: '', Num (uint (Method authResponse))])
         else io_return ()) (\<lambda>_.
      let dst = (if command = socks5_CommandUDPAssociate then udp_associate_destination destination else destination) in
      io_bind (io_send (socks5_WriteRequest \<lparr>Command = command, Destination = dst\<rparr>)) (\<lambda>_.
      io_bind (io_read socks5_ReadResponse) (\<lambda>response.
      if ReplyCode response \<noteq> socks5_ReplyCodeSuccess
      then io_fail (ErrorNew [Txt ''socks5: request rejected, code='', Num (uint (ReplyCode response))])
      else io_return response))))))"

section \<open>Server\<close>

text \<open>
  What the server gets from the system: its own address, the result of opening the UDP
  socket (its local address), the first datagram read into a buffer, and how the addresses
  of \<open>net\<close> print.
\<close>

record environment =
  debug_on :: bool
  low_memory :: bool
  local_addr :: net_addr
  listen_udp :: "go_error + net_addr"
  read_buffer :: "buffer \<Rightarrow> go_error option \<times> buffer"
  net_string :: "net_addr \<Rightarrow> bytes"

definition handle_socks4 :: "authenticator option \<Rightarrow> socksaddr \<Rightarrow> byte \<Rightarrow> unit io" where
  "handle_socks4 authenticator source version =
     io_bind (io_read socks4_ReadRequest0) (\<lambda>request.
     if Command4 request = socks4_CommandConnect then
       (if authenticator \<noteq> None \<and> \<not> Verify (the authenticator) (Username4 request) [] then
          io_bind (io_send (socks4_WriteResponse
            \<lparr>ReplyCode4 = socks4_ReplyCodeRejectedOrFailed, RDestination4 = no_socksaddr\<rparr>)) (\<lambda>_.
          io_fail (ErrorNew [Txt ''socks4: authentication failed, username='', Str (Username4 request)]))
        else io_call (NewConnectionEx (Some (Username4 request)) version source (Destination4 request)))
     else
       io_bind (io_send (socks4_WriteResponse
         \<lparr>ReplyCode4 = socks4_ReplyCodeRejectedOrFailed, RDestination4 = no_socksaddr\<rparr>)) (\<lambda>_.
       io_fail (ErrorNew [Txt ''socks4: unsupported command '', Num (uint (Command4 request))])))"

text \<open>The username and password exchange, and the user it puts into the context.\<close>

definition handle_userpass :: "authenticator \<Rightarrow> bytes option io" where
  "handle_userpass au =
     io_bind (io_read ReadUsernamePasswordAuthRequest) (\<lambda>req.
     let status = (if Verify au (Username req) (Password req) then UsernamePasswordStatusSuccess
                   else UsernamePasswordStatusFailure) in
     io_bind (io_send (WriteUsernamePasswordAuthResponse \<lparr>Status = status\<rparr>)) (\<lambda>_.
     if status \<noteq> UsernamePasswordStatusSuccess
     then io_fail (ErrorNew [Txt ''socks5: authentication failed, username='', Str (Username req),
                     Txt '', password='', Str (Password req)])
     else io_return (Some (Username req))))"

text \<open>Decoding from a buffer, through its \<open>io.Reader\<close> interface.\<close>

definition buf_rd :: "'a rd \<Rightarrow> buffer \<Rightarrow> (go_error + 'a) \<times> buffer" where
  "buf_rd p b = (case p \<lparr>rdata = contents b, rerr = EOF\<rparr> of (res, r') \<Rightarrow>
     (res, b\<lparr>bstart := bend b - int (length (rdata r'))\<rparr>))"

definition ErrInvalidPacket :: go_error where
  "ErrInvalidPacket = ErrorNew [Txt ''socks5: invalid packet'']"

text \<open>\<open>AssociatePacketConn.ReadPacket\<close>.\<close>

definition assoc_ReadPacket :: "(buffer \<Rightarrow> go_error option \<times> buffer) \<Rightarrow> buffer \<Rightarrow> (go_error + socksaddr) \<times> buffer" where
  "assoc_ReadPacket rb b =
     (case rb b of
        (Some e, b') \<Rightarrow> (Inl e, b')
      | (None, b') \<Rightarrow>
          if Len b' < 3 then (Inl ErrInvalidPacket, b')
          else buf_rd (ReadAddrPort SocksaddrSerializer) (Advance b' 3))"

definition handle_udp_associate :: "environment \<Rightarrow> bytes option \<Rightarrow> socksaddr \<Rightarrow> unit io" where
  "handle_udp_associate env user source s =
     (case Option.bind (AddrFromNet (debug_on env) (local_addr env)) (\<lambda>a. socksaddr_String (debug_on env) (SocksaddrFrom a 0)) of
        None \<Rightarrow> None
      | Some _ \<Rightarrow>
     (case listen_udp env of
        Inl e \<Rightarrow> io_fail (CauseError [Txt ''socks5: listen udp''] e) s
      | Inr laddr \<Rightarrow>
     (case SocksaddrFromNet (debug_on env) (net_string env) laddr of
        None \<Rightarrow> None
      | Some bound \<Rightarrow>
     io_bind (io_cause [Txt ''socks5: write response'']
        (io_send (socks5_WriteResponse \<lparr>ReplyCode = socks5_ReplyCodeSuccess, Bind = Unwrap bound\<rparr>))) (\<lambda>_ s'.
     (case NewPacket (low_memory env) (hpools s') of
        None \<Rightarrow> None
      | Some (firstPacket, p) \<Rightarrow>
     (case assoc_ReadPacket (read_buffer env) firstPacket of
        (Inl e, b) \<Rightarrow> io_fail (CauseError [Txt ''socks5: read first packet''] e) (s'\<lparr>hpools := p\<rparr>)
      | (Inr destination, b) \<Rightarrow>
          io_call (NewPacketConnectionEx user source destination (contents b)) (s'\<lparr>hpools := p\<rparr>)))) s)))"

definition handle_socks5 :: "environment \<Rightarrow> authenticator option \<Rightarrow> socksaddr \<Rightarrow> byte \<Rightarrow> unit io" where
  "handle_socks5 env authenticator source version =
     io_bind (io_read ReadAuthRequest0) (\<lambda>authRequest.
     io_bind (if authenticator \<noteq> None \<and> AuthTypeUsernamePassword \<notin> set (Methods authRequest)
         then io_send (WriteAuthResponse \<lparr>Method = AuthTypeNoAcceptedMethods\<rparr>) else io_return ()) (\<lambda>_.
     let authMethod = (if authenticator \<noteq> None then AuthTypeUsernamePassword else AuthTypeNotRequired) in
     io_bind (io_send (WriteAuthResponse \<lparr>Method = authMethod\<rparr>)) (\<lambda>_.
     io_bind (case authenticator of None \<Rightarrow> io_return None | Some au \<Rightarrow> handle_userpass au) (\<lambda>user.
     io_bind (io_read socks5_ReadRequest) (\<lambda>request.
     if Command request = socks5_CommandConnect then
       io_call (NewConnectionEx user version source (Destination request))
     else if Command request = socks5_CommandUDPAssociate then handle_udp_associate env user source
     else
       io_bind (io_send (socks5_WriteResponse \<lparr>ReplyCode = socks5_ReplyCodeUnsupported, Bind = no_socksaddr\<rparr>)) (\<lambda>_.
       io_fail (ErrorNew [Txt ''socks5: unsupported command '', Num (uint (Command request))])))))))"

definition HandleConnectionEx :: "environment \<Rightarrow> authenticator option \<Rightarrow> socksaddr \<Rightarrow> unit io" where
  "HandleConnectionEx env authenticator source =
     io_bind (io_read ReadByte) (\<lambda>version.
     if version = socks4_Version then handle_socks4 authenticator source version
     else if version = socks5_Version then handle_socks5 env authenticator source version
     else io_fail ErrInvalid)"

section \<open>LazyConn\<close>

record lazy_conn =
  socksVersion :: byte
  responseWritten :: bool

definition NewLazyConn :: "byte \<Rightarrow> lazy_conn" where
  "NewLazyConn v = \<lparr>socksVersion = v, responseWritten = False\<rparr>"

text \<open>\<open>local\<close> is \<open>conn.LocalAddr()\<close> of the connection passed to \<open>ConnHandshakeSuccess\<close>.\<close>

definition ConnHandshakeSuccess ::
  "environment \<Rightarrow> net_addr \<Rightarrow> lazy_conn \<Rightarrow> hs \<Rightarrow> (((go_error + unit) \<times> hs) \<times> lazy_conn) option" where
  "ConnHandshakeSuccess env laddr c s =
     (if responseWritten c then Some ((Inr (), s), c)
      else case SocksaddrFromNet (debug_on env) (net_string env) laddr of
          None \<Rightarrow> None
        | Some a \<Rightarrow>
            (case (if socksVersion c = socks4_Version then
                io_send (socks4_WriteResponse \<lparr>ReplyCode4 = socks4_ReplyCodeGranted, RDestination4 = Unwrap a\<rparr>) s
              else if socksVersion c = socks5_Version then
                io_send (socks5_WriteResponse \<lparr>ReplyCode = socks5_ReplyCodeSuccess, Bind = Unwrap a\<rparr>) s
              else None) of
               None \<Rightarrow> None
             | Some r \<Rightarrow> Some (r, c\<lparr>responseWritten := True\<rparr>)))"

definition HandshakeFailure ::
  "go_error \<Rightarrow> lazy_conn \<Rightarrow> hs \<Rightarrow> (((go_error + unit) \<times> hs) \<times> lazy_conn) option" where
  "HandshakeFailure err c s =
     (if responseWritten c then Some ((Inl ErrInvalid, s), c)
      else
        (case (if socksVersion c = socks4_Version then
             io_send (socks4_WriteResponse
               \<lparr>ReplyCode4 = socks4_ReplyCodeRejectedOrFailed, RDestination4 = no_socksaddr\<rparr>) s
           else if socksVersion c = socks5_Version then
             io_send (socks5_WriteResponse \<lparr>ReplyCode = ReplyCodeForError err, Bind = no_socksaddr\<rparr>) s
           else None) of
            None \<Rightarrow> None
          | Some r \<Rightarrow> Some (r, c\<lparr>responseWritten := True\<rparr>)))"

text \<open>\<open>Read\<close> and \<open>Write\<close> answer the handshake first; \<open>lazy_Read n\<close> takes at most \<open>n\<close> bytes.\<close>

definition lazy_Write ::
  "environment \<Rightarrow> bytes \<Rightarrow> lazy_conn \<Rightarrow> hs \<Rightarrow> (((go_error + unit) \<times> hs) \<times> lazy_conn) option" where
  "lazy_Write env d c s =
     (case ConnHandshakeSuccess env (local_addr env) c s of
        None \<Rightarrow> None
      | Some ((Inl e, s'), c') \<Rightarrow> Some ((Inl e, s'), c')
      | Some ((Inr _, s'), c') \<Rightarrow>
          (case io_send (send_bytes d) s' of None \<Rightarrow> None | Some r \<Rightarrow> Some (r, c')))"

definition conn_Read :: "nat \<Rightarrow> bytes rd" where
  "conn_Read n r =
     (if rdata r = [] then (Inl (rerr r), r)
      else (Inr (take n (rdata r)), r\<lparr>rdata := drop n (rdata r)\<rparr>))"

definition lazy_Read ::
  "environment \<Rightarrow> nat \<Rightarrow> lazy_conn \<Rightarrow> hs \<Rightarrow> (((go_error + bytes) \<times> hs) \<times> lazy_conn) option" where
  "lazy_Read env n c s =
     (case ConnHandshakeSuccess env (local_addr env) c s of
        None \<Rightarrow> None
      | Some ((Inl e, s'), c') \<Rightarrow> Some ((Inl e, s'), c')
      | Some ((Inr _, s'), c') \<Rightarrow>
          (case io_read (conn_Read n) s' of None \<Rightarrow> None | Some r \<Rightarrow> Some (r, c')))"

end
