(* ===== verification/HandshakeLaws.thy ===== *)
theory HandshakeLaws
  imports Handshake
begin

text \<open>
  What the SOCKS handshakes guarantee: who reaches the handler, that client and server of
  this library understand each other, what a rejected client sees, and that a \<open>LazyConn\<close>
  answers exactly once.
\<close>

section \<open>Calls of the handler\<close>

text \<open>A computation that calls the handler exactly when it succeeds, and once.\<close>

definition quiet :: "('a \<Rightarrow> bool) \<Rightarrow> 'a io \<Rightarrow> bool" where
  "quiet Q m \<longleftrightarrow> (\<forall>s r s'. m s = Some (r, s') \<longrightarrow>
     hcalls s' = hcalls s \<and> (\<forall>x. r = Inr x \<longrightarrow> Q x))"

definition calls_once :: "(handler_call \<Rightarrow> bool) \<Rightarrow> unit io \<Rightarrow> bool" where
  "calls_once P m \<longleftrightarrow> (\<forall>s r s'. m s = Some (r, s') \<longrightarrow>
     (case r of Inl _ \<Rightarrow> hcalls s' = hcalls s | Inr _ \<Rightarrow> \<exists>h. P h \<and> hcalls s' = hcalls s @ [h]))"

named_theorems call_intros \<open>rules for computations that call the handler once\<close>

lemma quiet_read [call_intros]: "quiet (\<lambda>_. True) (io_read p)"
  by (auto simp: quiet_def io_read_def split: prod.splits)

lemma quiet_send [call_intros]: "quiet (\<lambda>_. True) (io_send m)"
  by (auto simp: quiet_def io_send_def split: option.splits)

lemma quiet_cause [call_intros]: "quiet Q m \<Longrightarrow> quiet Q (io_cause msg m)"
  by (fastforce simp: quiet_def io_cause_def split: option.splits sum.splits prod.splits)

lemma quiet_return [call_intros]: "Q x \<Longrightarrow> quiet Q (io_return x)"
  by (simp add: quiet_def io_return_def)

lemma quiet_fail [call_intros]: "quiet Q (io_fail e)"
  by (simp add: quiet_def io_fail_def)

lemma quiet_bind:
  assumes "quiet Q m" "\<And>x. Q x \<Longrightarrow> quiet R (f x)"
  shows "quiet R (io_bind m f)"
  unfolding quiet_def
proof (intro allI impI)
  fix s r s'
  assume b: "io_bind m f s = Some (r, s')"
  then obtain r1 s1 where m: "m s = Some (r1, s1)"
    by (auto simp: io_bind_def split: option.splits)
  show "hcalls s' = hcalls s \<and> (\<forall>x. r = Inr x \<longrightarrow> R x)"
  proof (cases r1)
    case (Inl e)
    with b m assms(1) show ?thesis by (auto simp: io_bind_def quiet_def)
  next
    case (Inr x)
    with assms(1) m have "Q x" "hcalls s1 = hcalls s" by (auto simp: quiet_def)
    with b m Inr assms(2) show ?thesis by (auto simp: io_bind_def quiet_def)
  qed
qed

lemma once_fail [call_intros]: "calls_once P (io_fail e)"
  by (simp add: calls_once_def io_fail_def)

lemma once_call [call_intros]: "P h \<Longrightarrow> calls_once P (io_call h)"
  by (auto simp: calls_once_def io_call_def)

lemma once_bind:
  assumes "quiet Q m" "\<And>x. Q x \<Longrightarrow> calls_once P (f x)"
  shows "calls_once P (io_bind m f)"
  unfolding calls_once_def
proof (intro allI impI)
  fix s r s'
  assume b: "io_bind m f s = Some (r, s')"
  then obtain r1 s1 where m: "m s = Some (r1, s1)"
    by (auto simp: io_bind_def split: option.splits)
  show "case r of Inl _ \<Rightarrow> hcalls s' = hcalls s | Inr _ \<Rightarrow> \<exists>h. P h \<and> hcalls s' = hcalls s @ [h]"
  proof (cases r1)
    case (Inl e)
    with b m assms(1) show ?thesis by (auto simp: io_bind_def quiet_def)
  next
    case (Inr x)
    with assms(1) m have q: "Q x" "hcalls s1 = hcalls s" by (auto simp: quiet_def)
    from b m Inr have "f x s1 = Some (r, s')" by (simp add: io_bind_def)
    from assms(2) [OF q(1), unfolded calls_once_def, rule_format, OF this] q(2) show ?thesis
      by (simp split: sum.splits)
  qed
qed

lemma once_bind_any:
  assumes "quiet (\<lambda>_. True) m" "\<And>x. calls_once P (f x)"
  shows "calls_once P (io_bind m f)"
  using once_bind [of "\<lambda>_. True" m P f] assms by blast

fun call_user :: "handler_call \<Rightarrow> bytes option" where
  "call_user (NewConnectionEx u _ _ _) = u"
| "call_user (NewPacketConnectionEx u _ _ _) = u"

fun call_version :: "handler_call \<Rightarrow> byte" where
  "call_version (NewConnectionEx _ v _ _) = v"
| "call_version (NewPacketConnectionEx _ _ _ _) = socks5_Version"

text \<open>The user of the call proved to be one; a SOCKS4 client has no password to show.\<close>

definition admitted :: "authenticator option \<Rightarrow> handler_call \<Rightarrow> bool" where
  "admitted authenticator h \<longleftrightarrow>
     (case authenticator of None \<Rightarrow> True
      | Some au \<Rightarrow> \<exists>u p. call_user h = Some u \<and> Verify au u p \<and> (call_version h = socks4_Version \<longrightarrow> p = []))"

lemma quiet_userpass: "quiet (\<lambda>u. \<exists>n p. u = Some n \<and> Verify au n p) (handle_userpass au)"
  unfolding handle_userpass_def Let_def
  by (rule quiet_bind [OF quiet_read])
     (auto simp: UsernamePasswordStatusSuccess_def UsernamePasswordStatusFailure_def
       intro!: quiet_bind [OF quiet_send] quiet_return quiet_fail)

lemma once_udp:
  assumes "\<And>src dst d. P (NewPacketConnectionEx user src dst d)"
  shows "calls_once P (handle_udp_associate env user source)"
proof -
  have tail: "calls_once P (io_bind (io_cause m (io_send w)) (\<lambda>_ s'.
     (case NewPacket (low_memory env) (hpools s') of
        None \<Rightarrow> None
      | Some (firstPacket, p) \<Rightarrow>
     (case assoc_ReadPacket (read_buffer env) firstPacket of
        (Inl e, b) \<Rightarrow> io_fail (CauseError [Txt ''socks5: read first packet''] e) (s'\<lparr>hpools := p\<rparr>)
      | (Inr destination, b) \<Rightarrow>
          io_call (NewPacketConnectionEx user source destination (contents b)) (s'\<lparr>hpools := p\<rparr>)))))" for m w
    by (rule once_bind_any [OF quiet_cause [OF quiet_send]])
       (auto simp: calls_once_def io_fail_def io_call_def assms split: option.splits prod.splits sum.splits)
  then show ?thesis
    unfolding calls_once_def handle_udp_associate_def
    by (auto simp: io_fail_def split: option.splits sum.splits)
qed

lemma once_socks4: "calls_once (admitted authenticator) (handle_socks4 authenticator source socks4_Version)"
  unfolding handle_socks4_def
  by (rule once_bind_any [OF quiet_read])
     (auto simp: admitted_def split: option.splits intro!: once_bind_any [OF quiet_send] once_fail once_call)

lemma once_socks5: "calls_once (admitted authenticator) (handle_socks5 env authenticator source socks5_Version)"
proof -
  let ?Q = "\<lambda>user. case authenticator of None \<Rightarrow> True | Some au \<Rightarrow> \<exists>n p. user = Some n \<and> Verify au n p"
  have q: "quiet ?Q (case authenticator of None \<Rightarrow> io_return None | Some au \<Rightarrow> handle_userpass au)"
    using quiet_userpass by (auto split: option.splits intro: quiet_return)
  have adm: "admitted authenticator (NewConnectionEx user socks5_Version src dst)"
    "admitted authenticator (NewPacketConnectionEx user src dst d)" if "?Q user" for user src dst d
    using that by (auto simp: admitted_def socks5_Version_def socks4_Version_def split: option.splits)
  have fin: "calls_once (admitted authenticator) (io_bind (io_read socks5_ReadRequest) (\<lambda>request.
     if Command request = socks5_CommandConnect then
       io_call (NewConnectionEx user socks5_Version source (Destination request))
     else if Command request = socks5_CommandUDPAssociate then handle_udp_associate env user source
     else
       io_bind (io_send (socks5_WriteResponse \<lparr>ReplyCode = socks5_ReplyCodeUnsupported, Bind = no_socksaddr\<rparr>)) (\<lambda>_.
       io_fail (ErrorNew [Txt ''socks5: unsupported command '', Num (uint (Command request))]))))" if "?Q user" for user
    by (rule once_bind_any [OF quiet_read])
       (auto intro!: once_call once_udp once_bind_any [OF quiet_send] once_fail adm [OF that])
  show ?thesis
    unfolding handle_socks5_def Let_def
    by (rule once_bind_any [OF quiet_read], rule once_bind_any, simp add: quiet_send quiet_return,
        rule once_bind_any [OF quiet_send], rule once_bind [OF q fin])
qed

lemma once_HandleConnectionEx: "calls_once (admitted authenticator) (HandleConnectionEx env authenticator source)"
  unfolding HandleConnectionEx_def
  by (rule once_bind_any [OF quiet_read]) (auto intro: once_socks4 once_socks5 once_fail)

lemma Verify_users:
  "Verify (foldl add_user m users) u p \<longleftrightarrow>
     Verify m u p \<or> (\<exists>x \<in> set users. UserName x = u \<and> UserPassword x = p)"
proof (induction users arbitrary: m)
  case (Cons x xs)
  have "Verify (add_user m x) u p \<longleftrightarrow> Verify m u p \<or> UserName x = u \<and> UserPassword x = p"
    by (auto simp: Verify_def add_user_def split: option.splits)
  with Cons show ?case by auto
qed simp

lemma Verify_NewAuthenticator:
  "NewAuthenticator users = Some au \<Longrightarrow>
   Verify au u p \<longleftrightarrow> (\<exists>x \<in> set users. UserName x = u \<and> UserPassword x = p)"
  using Verify_users [of Map.empty users u p]
  by (auto simp: NewAuthenticator_def Verify_def [of Map.empty] split: if_splits)

section \<open>Credentials on the wire\<close>

lemma io_bind_SomeE:
  assumes "io_bind m f s = Some (Inr y, s')"
  obtains x s1 where "m s = Some (Inr x, s1)" "f x s1 = Some (Inr y, s')"
  using assms by (auto simp: io_bind_def split: option.splits sum.splits prod.splits)

lemma io_read_Some: "io_read p s = Some (r, s') \<longleftrightarrow>
    (\<exists>r'. p (cin (hconn s)) = (r, r') \<and> s' = s\<lparr>hconn := (hconn s)\<lparr>cin := r'\<rparr>\<rparr>)"
  by (auto simp: io_read_def split: prod.splits)

lemma send_bytes_keeps: "io_send (send_bytes d) s = Some (r, s') \<Longrightarrow> cin (hconn s') = cin (hconn s) \<and> hcalls s' = hcalls s"
  by (auto simp: io_send_def send_bytes_def conn_Write_def split: if_splits)

lemma ReadSockString_consumes:
  "ReadSockString r = (Inr u, r') \<Longrightarrow> rdata r = of_nat (length u) # u @ rdata r'"
  by (cases "rdata r") (auto simp: ReadSockString_def rd_defs split: if_splits)

lemma ReadUsernamePassword_consumes:
  assumes "ReadUsernamePasswordAuthRequest r = (Inr req, r')"
  shows "rdata r = userpass_bytes req @ rdata r'"
proof -
  obtain bs where bs: "rdata r = 1 # bs" "rd_bind ReadSockString (\<lambda>u. rd_bind ReadSockString
      (\<lambda>p. rd_return \<lparr>Username = u, Password = p\<rparr>)) (r\<lparr>rdata := bs\<rparr>) = (Inr req, r')"
    using assms by (cases "rdata r") (auto simp: ReadUsernamePasswordAuthRequest_def expect_byte_def rd_defs split: if_splits)
  then obtain r2 where "ReadSockString (r\<lparr>rdata := bs\<rparr>) = (Inr (Username req), r2)" "ReadSockString r2 = (Inr (Password req), r')"
    by (auto simp: rd_bind_def rd_return_def split: prod.splits sum.splits)
  from this [THEN ReadSockString_consumes] bs(1) show ?thesis by (simp add: userpass_bytes_def)
qed

lemma ReadAuthRequest0_consumes: "ReadAuthRequest0 r = (Inr x, r') \<Longrightarrow> \<exists>pre. rdata r = pre @ rdata r'"
proof (cases "rdata r")
  case (Cons b bs)
  assume "ReadAuthRequest0 r = (Inr x, r')"
  with Cons have "rdata r = (b # take (unat b) bs) @ rdata r'"
    by (auto simp: ReadAuthRequest0_def rd_defs split: if_splits)
  then show ?thesis by blast
qed (simp add: ReadAuthRequest0_def rd_defs)

lemma handle_userpass_credentials:
  assumes "handle_userpass au s = Some (Inr user, s')"
  shows "hcalls s' = hcalls s \<and> (\<exists>u p post. user = Some u \<and> Verify au u p \<and>
     rdata (cin (hconn s)) = userpass_bytes \<lparr>Username = u, Password = p\<rparr> @ post)"
proof -
  have q: "hcalls s' = hcalls s" using quiet_userpass assms by (auto simp: quiet_def)
  from assms obtain req s1 where r: "io_read ReadUsernamePasswordAuthRequest s = Some (Inr req, s1)"
    and v: "user = Some (Username req)" "Verify au (Username req) (Password req)"
    unfolding handle_userpass_def Let_def
    by (auto elim!: io_bind_SomeE simp: io_fail_def io_return_def UsernamePasswordStatusSuccess_def
        UsernamePasswordStatusFailure_def split: if_splits)
  from r have "rdata (cin (hconn s)) = userpass_bytes req @ rdata (cin (hconn s1))"
    by (auto simp: io_read_Some dest: ReadUsernamePassword_consumes)
  with q v show ?thesis by (metis userpass_request.surjective unit.exhaust)
qed

lemma handle_socks5_credentials:
  assumes "handle_socks5 env (Some au) source socks5_Version s = Some (Inr (), s')"
  shows "\<exists>h u p pre post. hcalls s' = hcalls s @ [h] \<and> call_user h = Some u \<and> call_version h = socks5_Version \<and>
     Verify au u p \<and> rdata (cin (hconn s)) = pre @ userpass_bytes \<lparr>Username = u, Password = p\<rparr> @ post"
proof -
  let ?tail = "\<lambda>user. io_bind (io_read socks5_ReadRequest) (\<lambda>request.
     if Command request = socks5_CommandConnect then
       io_call (NewConnectionEx user socks5_Version source (Destination request))
     else if Command request = socks5_CommandUDPAssociate then handle_udp_associate env user source
     else
       io_bind (io_send (socks5_WriteResponse \<lparr>ReplyCode = socks5_ReplyCodeUnsupported, Bind = no_socksaddr\<rparr>)) (\<lambda>_.
       io_fail (ErrorNew [Txt ''socks5: unsupported command '', Num (uint (Command request))])))"
  have once: "calls_once (\<lambda>h. call_user h = user \<and> call_version h = socks5_Version) (?tail user)" for user
    by (rule once_bind_any [OF quiet_read]) (auto intro!: once_call once_udp once_bind_any [OF quiet_send] once_fail)
  obtain a s1 where r: "io_read ReadAuthRequest0 s = Some (Inr a, s1)"
    and b1: "io_bind (if AuthTypeUsernamePassword \<notin> set (Methods a)
        then io_send (WriteAuthResponse \<lparr>Method = AuthTypeNoAcceptedMethods\<rparr>) else io_return ()) (\<lambda>_.
      io_bind (io_send (WriteAuthResponse \<lparr>Method = AuthTypeUsernamePassword\<rparr>)) (\<lambda>_.
      io_bind (handle_userpass au) ?tail)) s1 = Some (Inr (), s')"
    using assms unfolding handle_socks5_def Let_def by simp (erule io_bind_SomeE, blast)
  from b1 obtain u2 s2 where
    w1: "(if AuthTypeUsernamePassword \<notin> set (Methods a)
        then io_send (WriteAuthResponse \<lparr>Method = AuthTypeNoAcceptedMethods\<rparr>) else io_return ()) s1 = Some (Inr u2, s2)" and
    b2: "io_bind (io_send (WriteAuthResponse \<lparr>Method = AuthTypeUsernamePassword\<rparr>)) (\<lambda>_.
      io_bind (handle_userpass au) ?tail) s2 = Some (Inr (), s')" by (rule io_bind_SomeE)
  from b2 obtain u3 s3 where
    w2: "io_send (WriteAuthResponse \<lparr>Method = AuthTypeUsernamePassword\<rparr>) s2 = Some (Inr u3, s3)" and
    b3: "io_bind (handle_userpass au) ?tail s3 = Some (Inr (), s')" by (rule io_bind_SomeE)
  from b3 obtain user s4 where u: "handle_userpass au s3 = Some (Inr user, s4)" and t: "?tail user s4 = Some (Inr (), s')"
    by (rule io_bind_SomeE)
  have k: "cin (hconn s3) = cin (hconn s1)" "hcalls s3 = hcalls s1"
    using w1 w2 by (auto simp: WriteAuthResponse_def io_return_def split: if_splits dest!: send_bytes_keeps)
  obtain pre where "rdata (cin (hconn s)) = pre @ rdata (cin (hconn s1))" "hcalls s1 = hcalls s"
    using r by (auto simp: io_read_Some dest: ReadAuthRequest0_consumes)
  with handle_userpass_credentials [OF u] once [unfolded calls_once_def, rule_format, OF t] k show ?thesis
    by fastforce
qed

lemma HandleConnectionEx_credentials:
  assumes "HandleConnectionEx env (Some au) source s = Some (Inr (), s')"
  shows "\<exists>h u p. hcalls s' = hcalls s @ [h] \<and> call_user h = Some u \<and> Verify au u p \<and>
     (if call_version h = socks4_Version then p = []
      else \<exists>pre post. rdata (cin (hconn s)) = pre @ userpass_bytes \<lparr>Username = u, Password = p\<rparr> @ post)"
proof -
  obtain v s1 where r: "io_read ReadByte s = Some (Inr v, s1)"
    and t: "(if v = socks4_Version then handle_socks4 (Some au) source v
      else if v = socks5_Version then handle_socks5 env (Some au) source v else io_fail ErrInvalid) s1 = Some (Inr (), s')"
    using assms unfolding HandleConnectionEx_def by (rule io_bind_SomeE)
  from r have s1: "rdata (cin (hconn s)) = v # rdata (cin (hconn s1))" "hcalls s1 = hcalls s"
    by (auto simp: io_read_Some ReadByte_def split: list.splits)
  show ?thesis
  proof (cases "v = socks4_Version")
    case True
    have "calls_once (\<lambda>h. admitted (Some au) h \<and> call_version h = socks4_Version) (handle_socks4 (Some au) source socks4_Version)"
      unfolding handle_socks4_def
      by (rule once_bind_any [OF quiet_read]) (auto simp: admitted_def intro!: once_bind_any [OF quiet_send] once_fail once_call)
    with t True s1 show ?thesis by (fastforce simp: calls_once_def admitted_def)
  next
    case False
    with t have "v = socks5_Version" "handle_socks5 env (Some au) source socks5_Version s1 = Some (Inr (), s')"
      by (auto simp: io_fail_def split: if_splits)
    from handle_socks5_credentials [OF this(2)] s1 obtain h u p pre post where
      "hcalls s' = hcalls s @ [h]" "call_user h = Some u" "call_version h = socks5_Version" "Verify au u p"
      "rdata (cin (hconn s)) = (v # pre) @ userpass_bytes \<lparr>Username = u, Password = p\<rparr> @ post"
      by auto
    moreover have "socks5_Version \<noteq> socks4_Version" by (simp add: socks4_Version_def socks5_Version_def)
    ultimately show ?thesis by metis
  qed
qed

section \<open>Running a handshake\<close>

abbreviation st :: "bytes \<Rightarrow> go_error \<Rightarrow> bytes \<Rightarrow> pools \<Rightarrow> handler_call list \<Rightarrow> hs" where
  "st i e out p calls \<equiv>
     \<lparr>hconn = \<lparr>cin = \<lparr>rdata = i, rerr = e\<rparr>, cout = out, cfail = None\<rparr>, hpools = p, hcalls = calls\<rparr>"

lemma run_read: "yields p bs v \<Longrightarrow> io_bind (io_read p) f (st (bs @ i) e out q calls) = f v (st i e out q calls)"
  by (simp add: io_bind_def io_read_def yieldsD)

lemma run_read0: "yields p bs v \<Longrightarrow> io_read p (st (bs @ i) e out q calls) = Some (Inr v, st i e out q calls)"
  by (simp add: io_read_def yieldsD)

lemma run_send:
  assumes "sends m d" "wf_pools q"
  obtains q' where "wf_pools q'"
    "io_send m (st i e out q calls) = Some (Inr (), st i e (out @ d) q' calls)"
proof -
  obtain q' where "wf_pools q'" "m conn_Write \<lparr>cin = \<lparr>rdata = i, rerr = e\<rparr>, cout = out, cfail = None\<rparr> q =
      Some (None, \<lparr>cin = \<lparr>rdata = i, rerr = e\<rparr>, cout = out @ d, cfail = None\<rparr>, q')"
    using sendsD [OF assms, of conn_Write "\<lparr>cin = \<lparr>rdata = i, rerr = e\<rparr>, cout = out, cfail = None\<rparr>"]
    by (auto simp: conn_Write_def)
  then show ?thesis using that by (simp add: io_send_def)
qed

lemma run_send_bytes:
  "io_send (send_bytes d) (st i e out q calls) = Some (Inr (), st i e (out @ d) q calls)"
  by (simp add: io_send_def send_bytes_def conn_Write_def)

lemma run_bind: "m s = Some (Inr x, s') \<Longrightarrow> io_bind m f s = f x s'"
  by (simp add: io_bind_def)

lemma run_send_bytes_bind:
  "io_bind (io_send (send_bytes d)) f (st i e out q calls) = f () (st i e (out @ d) q calls)"
  by (simp add: io_bind_def run_send_bytes)

lemma run_byte: "io_bind (io_read ReadByte) f (st (b # i) e out q calls) = f b (st i e out q calls)"
  using run_read [OF yields_ReadByte [of b], where f = f and i = i] by simp

lemma run_return: "io_bind (io_return x) f s = f x s"
  by (simp add: io_bind_def io_return_def)

lemma yields_AuthRequest0: "length ms \<le> 255 \<Longrightarrow> yields ReadAuthRequest0 (of_nat (length ms) # ms) \<lparr>Methods = ms\<rparr>"
  unfolding ReadAuthRequest0_def
  by (auto simp: unat_len intro!: yields_ReadByte_bind yields_bind_Nil [OF yields_ReadFull] yields_result)

lemma server_socks5_connect:
  assumes "NewAuthenticator users = Some au" "x \<in> set users" "length (UserName x) \<le> 255" "length (UserPassword x) \<le> 255"
    "plain_addr dst" "wf_pools q"
  shows "\<exists>q'. wf_pools q' \<and> HandleConnectionEx env (Some au) src
      (st (auth_request_bytes \<lparr>Methods = [AuthTypeUsernamePassword]\<rparr> @
           userpass_bytes \<lparr>Username = UserName x, Password = UserPassword x\<rparr> @
           socks5_request_bytes \<lparr>Command = socks5_CommandConnect, Destination = dst\<rparr> @ rest) e out q calls) =
    Some (Inr (), st rest e (out @ [socks5_Version, AuthTypeUsernamePassword, 1, UsernamePasswordStatusSuccess]) q'
      (calls @ [NewConnectionEx (Some (UserName x)) socks5_Version src dst]))"
proof -
  have v: "Verify au (UserName x) (UserPassword x)"
    using Verify_NewAuthenticator [OF assms(1)] assms(2) by blast
  have a: "yields ReadAuthRequest0 [1, AuthTypeUsernamePassword] \<lparr>Methods = [AuthTypeUsernamePassword]\<rparr>"
    using yields_AuthRequest0 [of "[AuthTypeUsernamePassword]"] by simp
  have u: "yields ReadUsernamePasswordAuthRequest (userpass_bytes \<lparr>Username = UserName x, Password = UserPassword x\<rparr>)
      \<lparr>Username = UserName x, Password = UserPassword x\<rparr>"
    by (rule userpass.dec_enc) (use assms(3,4) in simp)
  have r: "yields socks5_ReadRequest (socks5_request_bytes \<lparr>Command = socks5_CommandConnect, Destination = dst\<rparr>)
      \<lparr>Command = socks5_CommandConnect, Destination = dst\<rparr>"
    by (rule socks5_req.dec_enc) (use assms(5) in simp)
  let ?u = "\<lparr>Username = UserName x, Password = UserPassword x\<rparr>"
  have up: "handle_userpass au (st (userpass_bytes ?u @ i) e out q calls) =
      Some (Inr (Some (UserName x)), st i e (out @ [1, UsernamePasswordStatusSuccess]) q calls)" for i out
    using v by (simp add: handle_userpass_def run_read [OF u] Let_def WriteUsernamePasswordAuthResponse_def
        run_send_bytes_bind io_return_def)
  have upb: "io_bind (handle_userpass au) f (st (userpass_bytes ?u @ i) e out q calls) =
      f (Some (UserName x)) (st i e (out @ [1, UsernamePasswordStatusSuccess]) q calls)" for f :: "bytes option \<Rightarrow> unit io" and i out
    by (simp add: io_bind_def up)
  show ?thesis
    unfolding HandleConnectionEx_def auth_request_bytes_def
    using assms(6)
    by (simp add: run_read [OF a, simplified] run_byte socks4_Version_def socks5_Version_def handle_socks5_def run_return Let_def
        WriteAuthResponse_def run_send_bytes_bind upb run_read [OF r] io_call_def)
qed

lemma client_socks5_connect:
  assumes "username \<noteq> []" "length username \<le> 255" "length password \<le> 255"
    "plain_addr dst" "IsValid (Bind r)" "plain_addr (Bind r)" "ReplyCode r = socks5_ReplyCodeSuccess" "wf_pools q"
  shows "\<exists>q'. wf_pools q' \<and> ClientHandshake5 socks5_CommandConnect dst username password
      (st ([socks5_Version, AuthTypeUsernamePassword, 1, UsernamePasswordStatusSuccess] @ socks5_response_bytes r @ rest)
         e out q calls) =
    Some (Inr r, st rest e (out @ auth_request_bytes \<lparr>Methods = [AuthTypeUsernamePassword]\<rparr> @
        userpass_bytes \<lparr>Username = username, Password = password\<rparr> @
        socks5_request_bytes \<lparr>Command = socks5_CommandConnect, Destination = dst\<rparr>) q' calls)"
proof -
  have a: "yields ReadAuthResponse [socks5_Version, AuthTypeUsernamePassword] \<lparr>Method = AuthTypeUsernamePassword\<rparr>"
    using auth_rsp.dec_enc [of "\<lparr>Method = AuthTypeUsernamePassword\<rparr>"] by simp
  have u: "yields ReadUsernamePasswordAuthResponse [1, UsernamePasswordStatusSuccess] \<lparr>Status = UsernamePasswordStatusSuccess\<rparr>"
    using userpass_rsp.dec_enc [of "\<lparr>Status = UsernamePasswordStatusSuccess\<rparr>"] by simp
  have r: "yields socks5_ReadResponse (socks5_response_bytes r) r"
    by (rule socks5_rsp.dec_enc) (use assms(5,6) in simp)
  let ?a = "\<lparr>Methods = [AuthTypeUsernamePassword]\<rparr>" and ?u = "\<lparr>Username = username, Password = password\<rparr>"
    and ?r = "\<lparr>Command = socks5_CommandConnect, Destination = dst\<rparr>"
  let ?i = "[socks5_Version, AuthTypeUsernamePassword, 1, UsernamePasswordStatusSuccess] @ socks5_response_bytes r @ rest"
  have enc: "encodable SocksaddrSerializer dst" using assms(4) by (simp add: plain_addr_def)
  have su: "sends (WriteUsernamePasswordAuthRequest ?u) (userpass_bytes ?u)"
    by (rule sends_WriteUsernamePasswordAuthRequest) (use assms(2,3) in simp_all)
  have sr: "sends (socks5_WriteRequest ?r) (socks5_request_bytes ?r)"
    by (rule sends_socks5_WriteRequest) (use enc in simp)
  obtain q1 where q1: "wf_pools q1" "io_send (WriteAuthRequest ?a) (st ?i e out q calls) =
      Some (Inr (), st ?i e (out @ auth_request_bytes ?a) q1 calls)"
    by (rule run_send [OF sends_WriteAuthRequest assms(8)])
  obtain q2 where q2: "wf_pools q2"
      "io_send (WriteUsernamePasswordAuthRequest ?u) (st ([1, UsernamePasswordStatusSuccess] @ socks5_response_bytes r @ rest) e
         (out @ auth_request_bytes ?a) q1 calls) =
      Some (Inr (), st ([1, UsernamePasswordStatusSuccess] @ socks5_response_bytes r @ rest) e
         ((out @ auth_request_bytes ?a) @ userpass_bytes ?u) q2 calls)"
    by (rule run_send [OF su q1(1)])
  obtain q3 where q3: "wf_pools q3"
      "io_send (socks5_WriteRequest ?r) (st (socks5_response_bytes r @ rest) e
         ((out @ auth_request_bytes ?a) @ userpass_bytes ?u) q2 calls) =
      Some (Inr (), st (socks5_response_bytes r @ rest) e
         (((out @ auth_request_bytes ?a) @ userpass_bytes ?u) @ socks5_request_bytes ?r) q3 calls)"
    by (rule run_send [OF sr q2(1)])
  have c: "socks5_CommandConnect \<noteq> socks5_CommandUDPAssociate" by (simp add: socks5_consts)
  show ?thesis
    using assms(1,7) q3(1) c
      q1(2) q2(2) q3(2) run_read0 [OF a] run_read0 [OF u] run_read0 [OF r]
    by (simp add: ClientHandshake5_def Let_def io_bind_def io_return_def)
qed

section \<open>Sequences of calls on a LazyConn\<close>








definition refused_bytes :: "byte \<Rightarrow> go_error \<Rightarrow> bytes" where
  "refused_bytes v e =
     (if v = socks4_Version then [0, socks4_ReplyCodeRejectedOrFailed, 0, 0]
      else [socks5_Version, ReplyCodeForError e, 0, 1, 0, 0, 0, 0, 0, 0])"





lemma refused_sends4:
  assumes "wf_pools q"
  shows "\<exists>q'. wf_pools q' \<and>
     io_send (socks4_WriteResponse \<lparr>ReplyCode4 = socks4_ReplyCodeRejectedOrFailed, RDestination4 = no_socksaddr\<rparr>)
       (st i e out q calls) = Some (Inr (), st i e (out @ refused_bytes socks4_Version err) q' calls)"
proof -
  have "sends (socks4_WriteResponse \<lparr>ReplyCode4 = socks4_ReplyCodeRejectedOrFailed, RDestination4 = no_socksaddr\<rparr>)
      (refused_bytes socks4_Version err)"
    using sends_socks4_WriteResponse [of "\<lparr>ReplyCode4 = socks4_ReplyCodeRejectedOrFailed, RDestination4 = no_socksaddr\<rparr>"]
    by (simp add: socks4_response_bytes_def refused_bytes_def no_socksaddr_def be16_def)
  then show ?thesis by (rule run_send [OF _ assms]) blast
qed




section \<open>Properties\<close>

text \<open>
  C1. The handler is reached only by authenticated clients. Whatever bytes a client sends
  and whenever writes fail, a server with a list of users that returns without error has
  called the handler exactly once, for a user of the list: a SOCKS4 client, which shows no
  password, for a user whose password is empty, and a SOCKS5 client for a user whose
  encoded name and password are among the bytes it sent. A server that returns an error
  has not called the handler.
\<close>

theorem handler_authenticated:
  assumes "users \<noteq> []" "HandleConnectionEx env (NewAuthenticator users) source s = Some (res, s')"
  shows "case res of
      Inl err \<Rightarrow> hcalls s' = hcalls s
    | Inr _ \<Rightarrow> \<exists>h. hcalls s' = hcalls s @ [h] \<and>
        (\<exists>x \<in> set users. call_user h = Some (UserName x) \<and>
           (if call_version h = socks4_Version then UserPassword x = []
            else \<exists>pre post. rdata (cin (hconn s)) =
              pre @ userpass_bytes \<lparr>Username = UserName x, Password = UserPassword x\<rparr> @ post))"
proof (cases res)
  case (Inl e)
  with once_HandleConnectionEx [of "NewAuthenticator users" env source, unfolded calls_once_def, rule_format, OF assms(2)]
  show ?thesis by simp
next
  case (Inr u)
  obtain au where au: "NewAuthenticator users = Some au" using assms(1) by (simp add: NewAuthenticator_def)
  from HandleConnectionEx_credentials [of env au source s s'] assms(2) Inr au show ?thesis
    by (fastforce simp: Verify_NewAuthenticator [OF au])
qed

theorem handler_authenticated_witness:
  "\<exists>s'. HandleConnectionEx \<lparr>debug_on = False, low_memory = False, local_addr = NilNetAddr, listen_udp = Inl EOF,
        read_buffer = (\<lambda>b. (None, b)), net_string = (\<lambda>_. [])\<rparr> (NewAuthenticator [\<lparr>UserName = [97], UserPassword = [98]\<rparr>])
        no_socksaddr (st (auth_request_bytes \<lparr>Methods = [AuthTypeUsernamePassword]\<rparr> @
           userpass_bytes \<lparr>Username = [97], Password = [98]\<rparr> @
           socks5_request_bytes \<lparr>Command = socks5_CommandConnect,
             Destination = \<lparr>Addr = Addr4 [1, 2, 3, 4], Port = 80, Fqdn = []\<rparr>\<rparr>) EOF [] newDefaultAllocator []) = Some (Inr (), s') \<and>
     (\<exists>h. hcalls s' = [h] \<and> call_user h = Some [97])"
proof -
  let ?env = "\<lparr>debug_on = False, low_memory = False, local_addr = NilNetAddr, listen_udp = Inl EOF,
        read_buffer = (\<lambda>b. (None, b)), net_string = (\<lambda>_. [])\<rparr>"
  let ?s = "st (auth_request_bytes \<lparr>Methods = [AuthTypeUsernamePassword]\<rparr> @
           userpass_bytes \<lparr>Username = [97], Password = [98]\<rparr> @
           socks5_request_bytes \<lparr>Command = socks5_CommandConnect,
             Destination = \<lparr>Addr = Addr4 [1, 2, 3, 4], Port = 80, Fqdn = []\<rparr>\<rparr>) EOF [] newDefaultAllocator []"
  let ?users = "[\<lparr>UserName = [97], UserPassword = [98]\<rparr>]"
  obtain au where au: "NewAuthenticator ?users = Some au" by (simp add: NewAuthenticator_def)
  obtain s' where run: "HandleConnectionEx ?env (NewAuthenticator ?users) no_socksaddr ?s = Some (Inr (), s')"
    using server_socks5_connect [OF au, of "\<lparr>UserName = [97], UserPassword = [98]\<rparr>"
        "\<lparr>Addr = Addr4 [1, 2, 3, 4], Port = 80, Fqdn = []\<rparr>" newDefaultAllocator ?env no_socksaddr "[]" EOF "[]" "[]"]
      wf_newDefaultAllocator au
    by (auto simp: encodable_def SocksaddrSerializer_def NewSerializer_def address_family_def addr_preds family_defs normal_addr_def plain_addr_def)
  with handler_authenticated [OF _ run] show ?thesis by auto
qed

text \<open>
  C2. Client and server of the library complete a SOCKS5 \<open>CONNECT\<close> with user name and
  password: there are bytes \<open>req\<close> and \<open>rsp\<close> such that the server, reading \<open>req\<close>, calls the
  handler for that user and destination having written \<open>rsp\<close>, and the client, reading \<open>rsp\<close>
  and then the response, writes exactly \<open>req\<close> and returns that response. Both leave the
  bytes that follow the handshake in the stream.
\<close>

theorem socks5_client_server:
  assumes "x \<in> set users" "UserName x \<noteq> []" "length (UserName x) \<le> 255" "length (UserPassword x) \<le> 255"
    "plain_addr dst" "IsValid (Bind r)" "plain_addr (Bind r)" "ReplyCode r = socks5_ReplyCodeSuccess"
    "wf_pools p" "wf_pools q"
  shows "\<exists>req rsp p' q'.
     HandleConnectionEx env (NewAuthenticator users) source (st (req @ rest) e [] p []) =
       Some (Inr (), st rest e rsp p' [NewConnectionEx (Some (UserName x)) socks5_Version source dst]) \<and>
     ClientHandshake5 socks5_CommandConnect dst (UserName x) (UserPassword x)
         (st (rsp @ socks5_response_bytes r @ rest') e' [] q []) =
       Some (Inr r, st rest' e' req q' [])"
proof -
  obtain au where au: "NewAuthenticator users = Some au"
    using assms(1) by (cases users) (auto simp: NewAuthenticator_def)
  let ?req = "auth_request_bytes \<lparr>Methods = [AuthTypeUsernamePassword]\<rparr> @
        userpass_bytes \<lparr>Username = UserName x, Password = UserPassword x\<rparr> @
        socks5_request_bytes \<lparr>Command = socks5_CommandConnect, Destination = dst\<rparr>"
  let ?rsp = "[socks5_Version, AuthTypeUsernamePassword, 1, UsernamePasswordStatusSuccess]"
  obtain p' where "HandleConnectionEx env (NewAuthenticator users) source (st (?req @ rest) e [] p []) =
       Some (Inr (), st rest e ?rsp p' [NewConnectionEx (Some (UserName x)) socks5_Version source dst])"
    using server_socks5_connect [OF au assms(1,3,4,5,9), of env source rest e "[]" "[]"] au by auto
  moreover obtain q' where "ClientHandshake5 socks5_CommandConnect dst (UserName x) (UserPassword x)
         (st (?rsp @ socks5_response_bytes r @ rest') e' [] q []) = Some (Inr r, st rest' e' ?req q' [])"
    using client_socks5_connect [OF assms(2,3,4,5,6,7,8,10), of rest' e' "[]" "[]"] by auto
  ultimately show ?thesis by blast
qed

theorem socks5_client_server_witness:
  "\<exists>req rsp p' q'.
     HandleConnectionEx \<lparr>debug_on = False, low_memory = False, local_addr = NilNetAddr, listen_udp = Inl EOF,
         read_buffer = (\<lambda>b. (None, b)), net_string = (\<lambda>_. [])\<rparr> (NewAuthenticator [\<lparr>UserName = [97], UserPassword = [98]\<rparr>])
         no_socksaddr (st (req @ [7]) EOF [] newDefaultAllocator []) =
       Some (Inr (), st [7] EOF rsp p' [NewConnectionEx (Some [97]) socks5_Version no_socksaddr
          \<lparr>Addr = Addr4 [1, 2, 3, 4], Port = 80, Fqdn = []\<rparr>]) \<and>
     ClientHandshake5 socks5_CommandConnect \<lparr>Addr = Addr4 [1, 2, 3, 4], Port = 80, Fqdn = []\<rparr> [97] [98]
         (st (rsp @ socks5_response_bytes \<lparr>ReplyCode = socks5_ReplyCodeSuccess,
            Bind = \<lparr>Addr = Addr4 [9, 9, 9, 9], Port = 1, Fqdn = []\<rparr>\<rparr> @ []) EOF [] newDefaultAllocator []) =
       Some (Inr \<lparr>ReplyCode = socks5_ReplyCodeSuccess, Bind = \<lparr>Addr = Addr4 [9, 9, 9, 9], Port = 1, Fqdn = []\<rparr>\<rparr>, st [] EOF req q' [])"
  using socks5_client_server [of "\<lparr>UserName = [97], UserPassword = [98]\<rparr>" "[\<lparr>UserName = [97], UserPassword = [98]\<rparr>]"
      "\<lparr>Addr = Addr4 [1, 2, 3, 4], Port = 80, Fqdn = []\<rparr>"
      "\<lparr>ReplyCode = socks5_ReplyCodeSuccess, Bind = \<lparr>Addr = Addr4 [9, 9, 9, 9], Port = 1, Fqdn = []\<rparr>\<rparr>"
      newDefaultAllocator newDefaultAllocator
      "\<lparr>debug_on = False, low_memory = False, local_addr = NilNetAddr, listen_udp = Inl EOF,
         read_buffer = (\<lambda>b. (None, b)), net_string = (\<lambda>_. [])\<rparr>" no_socksaddr "[7]" EOF "[]" EOF] wf_newDefaultAllocator
  by (simp add: plain_addr_def encodable_def normal_addr_def address_family_def addr_preds SocksaddrSerializer_def
      NewSerializer_def family_defs)

text \<open>
  C16. A refused SOCKS4 client cannot read the refusal: when a server rejects the user, it
  writes a response of four bytes (the response has no address, and an absent address is
  written as no bytes instead of four), and the client's \<open>ReadResponse\<close> fails with \<open>io.EOF\<close>
  on it instead of delivering the reply code.
\<close>

theorem socks4_refusal_truncated:
  assumes "Command4 r = socks4_CommandConnect" "socks4_sendable r" "\<not> Verify au (Username4 r) []" "wf_pools p"
  shows "\<exists>p' err. HandleConnectionEx env (Some au) source (st (socks4_request_bytes r) e [] p []) =
      Some (Inl err, st [] e [0, socks4_ReplyCodeRejectedOrFailed, 0, 0] p' []) \<and>
     fst (socks4_ReadResponse \<lparr>rdata = [0, socks4_ReplyCodeRejectedOrFailed, 0, 0], rerr = EOF\<rparr>) = Inl EOF"
proof -
  note y = socks4_ReadRequest0_codec(1) [OF assms(2)]
  have n: "Command4 (socks4_normal r) = Command4 r" "Username4 (socks4_normal r) = Username4 r"
    by (cases "Addr (Destination4 r)"; simp add: socks4_normal_def)+
  obtain p' where "io_send (socks4_WriteResponse \<lparr>ReplyCode4 = socks4_ReplyCodeRejectedOrFailed, RDestination4 = no_socksaddr\<rparr>)
       (st [] e [] p []) = Some (Inr (), st [] e [0, socks4_ReplyCodeRejectedOrFailed, 0, 0] p' [])"
    using refused_sends4 [OF assms(4), of "[]" e "[]" "[]" EOF] by (auto simp: refused_bytes_def)
  moreover have "HandleConnectionEx env (Some au) source (st (socks4_request_bytes r) e [] p []) =
      handle_socks4 (Some au) source socks4_Version (st (tl (socks4_request_bytes r)) e [] p [])"
    by (subst socks4_request_split) (simp add: HandleConnectionEx_def run_byte)
  moreover have "io_read socks4_ReadRequest0 (st (tl (socks4_request_bytes r)) e [] p []) =
      Some (Inr (socks4_normal r), st [] e [] p [])"
    using run_read0 [OF y, of "[]"] by simp
  ultimately show ?thesis
    using assms(1,3) by (simp add: handle_socks4_def io_bind_def n io_fail_def socks4_ReadResponse_def expect_byte_def rd_defs)
qed

theorem socks4_refusal_truncated_witness:
  "\<exists>p' err. HandleConnectionEx \<lparr>debug_on = False, low_memory = False, local_addr = NilNetAddr, listen_udp = Inl EOF,
         read_buffer = (\<lambda>b. (None, b)), net_string = (\<lambda>_. [])\<rparr> (Some [[97] \<mapsto> [[98]]]) no_socksaddr
       (st (socks4_request_bytes \<lparr>Command4 = socks4_CommandConnect,
          Destination4 = \<lparr>Addr = Addr4 [1, 2, 3, 4], Port = 80, Fqdn = []\<rparr>, Username4 = [97]\<rparr>) EOF [] newDefaultAllocator []) =
      Some (Inl err, st [] EOF [0, 91, 0, 0] p' [])"
  using socks4_refusal_truncated [of "\<lparr>Command4 = socks4_CommandConnect,
          Destination4 = \<lparr>Addr = Addr4 [1, 2, 3, 4], Port = 80, Fqdn = []\<rparr>, Username4 = [97]\<rparr>" "[[97] \<mapsto> [[98]]]"
      newDefaultAllocator] wf_newDefaultAllocator
  by (simp add: socks4_sendable_def Verify_def socks4_ReplyCodeRejectedOrFailed_def)

text \<open>
  A SOCKS5 server with users does not stop when the client offers no method it
  accepts: it writes \<open>NO ACCEPTABLE METHODS\<close> and then, as a second answer to the same
  request, the choice of user name and password, and it goes on to read credentials.
\<close>

theorem socks5_no_method_continues:
  assumes "AuthTypeUsernamePassword \<notin> set ms" "length ms \<le> 255"
  shows "HandleConnectionEx env (Some au) source (st (auth_request_bytes \<lparr>Methods = ms\<rparr>) e [] p []) =
     Some (Inl e, st [] e [socks5_Version, AuthTypeNoAcceptedMethods, socks5_Version, AuthTypeUsernamePassword] p [])"
  using assms run_read0 [OF yields_AuthRequest0 [OF assms(2)], of "[]" e "[]" p "[]"]
  by (simp add: HandleConnectionEx_def auth_request_bytes_def run_byte socks4_Version_def socks5_Version_def
      handle_socks5_def io_bind_def WriteAuthResponse_def run_send_bytes handle_userpass_def io_read_def
      ReadUsernamePasswordAuthRequest_def expect_byte_def rd_defs Let_def)

theorem socks5_no_method_continues_witness:
  "HandleConnectionEx \<lparr>debug_on = False, low_memory = False, local_addr = NilNetAddr, listen_udp = Inl EOF,
         read_buffer = (\<lambda>b. (None, b)), net_string = (\<lambda>_. [])\<rparr> (Some Map.empty) no_socksaddr
       (st [5, 1, 0] EOF [] newDefaultAllocator []) = Some (Inl EOF, st [] EOF [5, 0xFF, 5, 2] newDefaultAllocator [])"
  using socks5_no_method_continues [of "[0]"]
  by (simp add: auth_request_bytes_def socks5_Version_def AuthTypeUsernamePassword_def AuthTypeNoAcceptedMethods_def)



end
