(* ===== verification/Scanner.thy ===== *)
theory Scanner
  imports Prelude
begin

text \<open>
  The JSON scanner of \<open>common/json/internal/contextjson/scanner.go\<close>: a state machine fed one
  byte at a time, extended over the original by comments (\<open>#\<close>, \<open>//\<close>, \<open>/* */\<close>) and trailing
  commas. A state function of the source is a constructor of \<open>state\<close>; \<open>scan_step\<close> is the
  call \<open>scan.step(scan, c)\<close>. The stack \<open>parseState\<close> has its top at the head. A call of a nil
  step and an index out of range are \<open>None\<close>.
\<close>

section \<open>Data\<close>

datatype scan_op =
    scanContinue | scanBeginLiteral | scanBeginObject | scanObjectKey | scanObjectValue
  | scanEndObject | scanBeginArray | scanArrayValue | scanEndArray | scanSkipSpace
  | scanEnd | scanError

datatype parse_state = parseObjectKey | parseObjectValue | parseArrayValue

datatype comment_mode = scannerNoComment | scannerLineComment | scannerBlockComment

datatype state =
    sBeginValueOrEmpty | sBeginValue | sBeginStringOrEmpty | sBeginString | sEndValue | sEndTop
  | sMaybeComment | sInLineComment | sInBlockComment | sInBlockCommentStar
  | sInString | sInStringEsc | sInStringEscU | sInStringEscU1 | sInStringEscU12 | sInStringEscU123
  | sNeg | sState1 | sState0 | sDot | sDot0 | sE | sESign | sE0
  | sT | sTr | sTru | sF | sFa | sFal | sFals | sN | sNu | sNul | sError

text \<open>A \<open>SyntaxError\<close>: the offending byte with its context, or the text of a premature end;
  and the offset.\<close>

datatype syntax_error = InvalidCharacter byte string int | UnexpectedEnd string int

record scanner =
  sstep :: "state option"
  endTop :: bool
  parseState :: "parse_state list"
  serr :: "syntax_error option"
  sbytes :: int
  commentStep :: "state option"
  commentMode :: comment_mode

definition maxNestingDepth :: nat where "maxNestingDepth = 10000"

definition zero_scanner :: scanner where
  "zero_scanner = \<lparr>sstep = None, endTop = False, parseState = [], serr = None, sbytes = 0,
     commentStep = None, commentMode = scannerNoComment\<rparr>"

definition scan_reset :: "scanner \<Rightarrow> scanner" where
  "scan_reset s = s\<lparr>sstep := Some sBeginValue, parseState := [], serr := None, endTop := False,
     commentStep := None, commentMode := scannerNoComment\<rparr>"

text \<open>\<open>newScanner\<close> takes any scanner the pool may hold.\<close>

definition newScanner :: "scanner \<Rightarrow> scanner" where
  "newScanner pooled = scan_reset (pooled\<lparr>sbytes := 0\<rparr>)"

definition freeScanner :: "scanner \<Rightarrow> scanner" where
  "freeScanner s = (if length (parseState s) > 1024 then s\<lparr>parseState := []\<rparr> else s)"

section \<open>State functions\<close>

definition goto :: "state \<Rightarrow> scan_op \<Rightarrow> scanner \<Rightarrow> scan_op \<times> scanner" where
  "goto st op s = (op, s\<lparr>sstep := Some st\<rparr>)"

definition scan_error :: "byte \<Rightarrow> string \<Rightarrow> scanner \<Rightarrow> scan_op \<times> scanner" where
  "scan_error c ctxt s = (scanError, s\<lparr>sstep := Some sError, serr := Some (InvalidCharacter c ctxt (sbytes s))\<rparr>)"

definition pushParseState :: "byte \<Rightarrow> parse_state \<Rightarrow> scan_op \<Rightarrow> scanner \<Rightarrow> scan_op \<times> scanner" where
  "pushParseState c p success s =
     (let s' = s\<lparr>parseState := p # parseState s\<rparr> in
      if length (parseState s') \<le> maxNestingDepth then (success, s')
      else scan_error c ''exceeded max depth'' s')"

text \<open>The two calls of \<open>popParseState\<close> are made under a test that the stack is not empty.\<close>

definition popParseState :: "scanner \<Rightarrow> scanner" where
  "popParseState s =
     (let s' = s\<lparr>parseState := tl (parseState s)\<rparr> in
      if parseState s' = [] then s'\<lparr>sstep := Some sEndTop, endTop := True\<rparr>
      else s'\<lparr>sstep := Some sEndValue\<rparr>)"

definition isSpace :: "byte \<Rightarrow> bool" where
  "isSpace c \<longleftrightarrow> c \<le> 32 \<and> (c = 32 \<or> c = 9 \<or> c = 13 \<or> c = 10)"

definition isDigit :: "byte \<Rightarrow> bool" where
  "isDigit c \<longleftrightarrow> 48 \<le> c \<and> c \<le> 57"

definition isHex :: "byte \<Rightarrow> bool" where
  "isHex c \<longleftrightarrow> 48 \<le> c \<and> c \<le> 57 \<or> 97 \<le> c \<and> c \<le> 102 \<or> 65 \<le> c \<and> c \<le> 70"

text \<open>\<open>stateBeginComment\<close>: \<open>None\<close> is the result -1, the byte begins no comment.\<close>

definition stateBeginComment :: "scanner \<Rightarrow> byte \<Rightarrow> state \<Rightarrow> (scan_op \<times> scanner) option" where
  "stateBeginComment s c next =
     (if c = 35 then Some (goto sInLineComment scanSkipSpace (s\<lparr>commentStep := Some next, commentMode := scannerLineComment\<rparr>))
      else if c = 47 then Some (goto sMaybeComment scanSkipSpace (s\<lparr>commentStep := Some next\<rparr>))
      else None)"

definition stateMaybeComment :: "scanner \<Rightarrow> byte \<Rightarrow> scan_op \<times> scanner" where
  "stateMaybeComment s c =
     (if c = 47 then goto sInLineComment scanSkipSpace (s\<lparr>commentMode := scannerLineComment\<rparr>)
      else if c = 42 then goto sInBlockComment scanSkipSpace (s\<lparr>commentMode := scannerBlockComment\<rparr>)
      else scan_error 47 ''looking for beginning of comment'' s)"

definition endComment :: "scanner \<Rightarrow> scanner" where
  "endComment s = s\<lparr>sstep := commentStep s, commentStep := None, commentMode := scannerNoComment\<rparr>"

definition stateInLineComment :: "scanner \<Rightarrow> byte \<Rightarrow> scan_op \<times> scanner" where
  "stateInLineComment s c = (scanSkipSpace, (if c = 10 \<or> c = 13 then endComment s else s))"

definition stateInBlockComment :: "scanner \<Rightarrow> byte \<Rightarrow> scan_op \<times> scanner" where
  "stateInBlockComment s c = (scanSkipSpace, (if c = 42 then s\<lparr>sstep := Some sInBlockCommentStar\<rparr> else s))"

definition stateInBlockCommentStar :: "scanner \<Rightarrow> byte \<Rightarrow> scan_op \<times> scanner" where
  "stateInBlockCommentStar s c =
     (scanSkipSpace, (if c = 47 then endComment s else if c = 42 then s else s\<lparr>sstep := Some sInBlockComment\<rparr>))"

definition stateEndTop :: "scanner \<Rightarrow> byte \<Rightarrow> scan_op \<times> scanner" where
  "stateEndTop s c =
     (if isSpace c then (scanEnd, s)
      else case stateBeginComment s c sEndTop of
          Some r \<Rightarrow> r
        | None \<Rightarrow> (scanEnd, (if \<not> isSpace c then snd (scan_error c ''after top-level value'' s) else s)))"

definition stateEndValue :: "scanner \<Rightarrow> byte \<Rightarrow> scan_op \<times> scanner" where
  "stateEndValue s c =
     (case parseState s of
        [] \<Rightarrow> stateEndTop (s\<lparr>sstep := Some sEndTop, endTop := True\<rparr>) c
      | ps # rest \<Rightarrow>
          if isSpace c then goto sEndValue scanSkipSpace s
          else case stateBeginComment s c sEndValue of
              Some r \<Rightarrow> r
            | None \<Rightarrow>
                (case ps of
                   parseObjectKey \<Rightarrow>
                     if c = 58 then goto sBeginValue scanObjectKey (s\<lparr>parseState := parseObjectValue # rest\<rparr>)
                     else scan_error c ''after object key'' s
                 | parseObjectValue \<Rightarrow>
                     if c = 44 then goto sBeginStringOrEmpty scanObjectValue (s\<lparr>parseState := parseObjectKey # rest\<rparr>)
                     else if c = 125 then (scanEndObject, popParseState s)
                     else scan_error c ''after object key:value pair'' s
                 | parseArrayValue \<Rightarrow>
                     if c = 44 then goto sBeginValueOrEmpty scanArrayValue s
                     else if c = 93 then (scanEndArray, popParseState s)
                     else scan_error c ''after array element'' s))"

definition stateBeginValue :: "scanner \<Rightarrow> byte \<Rightarrow> scan_op \<times> scanner" where
  "stateBeginValue s c =
     (if isSpace c then (scanSkipSpace, s)
      else case stateBeginComment s c sBeginValue of
          Some r \<Rightarrow> r
        | None \<Rightarrow>
            if c = 123 then pushParseState c parseObjectKey scanBeginObject (s\<lparr>sstep := Some sBeginStringOrEmpty\<rparr>)
            else if c = 91 then pushParseState c parseArrayValue scanBeginArray (s\<lparr>sstep := Some sBeginValueOrEmpty\<rparr>)
            else if c = 34 then goto sInString scanBeginLiteral s
            else if c = 45 then goto sNeg scanBeginLiteral s
            else if c = 48 then goto sState0 scanBeginLiteral s
            else if c = 116 then goto sT scanBeginLiteral s
            else if c = 102 then goto sF scanBeginLiteral s
            else if c = 110 then goto sN scanBeginLiteral s
            else if 49 \<le> c \<and> c \<le> 57 then goto sState1 scanBeginLiteral s
            else scan_error c ''looking for beginning of value'' s)"

definition stateBeginValueOrEmpty :: "scanner \<Rightarrow> byte \<Rightarrow> scan_op \<times> scanner" where
  "stateBeginValueOrEmpty s c =
     (if isSpace c then (scanSkipSpace, s)
      else case stateBeginComment s c sBeginValueOrEmpty of
          Some r \<Rightarrow> r
        | None \<Rightarrow> if c = 93 then stateEndValue s c else stateBeginValue s c)"

definition stateBeginString :: "scanner \<Rightarrow> byte \<Rightarrow> scan_op \<times> scanner" where
  "stateBeginString s c =
     (if isSpace c then (scanSkipSpace, s)
      else case stateBeginComment s c sBeginString of
          Some r \<Rightarrow> r
        | None \<Rightarrow>
            if c = 34 then goto sInString scanBeginLiteral s
            else scan_error c ''looking for beginning of object key string'' s)"

definition stateBeginStringOrEmpty :: "scanner \<Rightarrow> byte \<Rightarrow> (scan_op \<times> scanner) option" where
  "stateBeginStringOrEmpty s c =
     (if isSpace c then Some (scanSkipSpace, s)
      else case stateBeginComment s c sBeginStringOrEmpty of
          Some r \<Rightarrow> Some r
        | None \<Rightarrow>
            if c = 125 then
              (case parseState s of
                 [] \<Rightarrow> None
               | _ # rest \<Rightarrow> Some (stateEndValue (s\<lparr>parseState := parseObjectValue # rest\<rparr>) c))
            else Some (stateBeginString s c))"

definition stateInString :: "scanner \<Rightarrow> byte \<Rightarrow> scan_op \<times> scanner" where
  "stateInString s c =
     (if c = 34 then goto sEndValue scanContinue s
      else if c = 92 then goto sInStringEsc scanContinue s
      else if c < 0x20 then scan_error c ''in string literal'' s
      else (scanContinue, s))"

definition stateInStringEsc :: "scanner \<Rightarrow> byte \<Rightarrow> scan_op \<times> scanner" where
  "stateInStringEsc s c =
     (if c \<in> {98, 102, 110, 114, 116, 92, 47, 34} then goto sInString scanContinue s
      else if c = 117 then goto sInStringEscU scanContinue s
      else scan_error c ''in string escape code'' s)"

definition stateInStringEscU :: "scanner \<Rightarrow> byte \<Rightarrow> scan_op \<times> scanner" where
  "stateInStringEscU s c =
     (if isHex c then goto sInStringEscU1 scanContinue s
      else scan_error c ''in u hexadecimal character escape'' s)"

definition stateInStringEscU1 :: "scanner \<Rightarrow> byte \<Rightarrow> scan_op \<times> scanner" where
  "stateInStringEscU1 s c =
     (if isHex c then goto sInStringEscU12 scanContinue s
      else scan_error c ''in u hexadecimal character escape'' s)"

definition stateInStringEscU12 :: "scanner \<Rightarrow> byte \<Rightarrow> scan_op \<times> scanner" where
  "stateInStringEscU12 s c =
     (if isHex c then goto sInStringEscU123 scanContinue s
      else scan_error c ''in u hexadecimal character escape'' s)"

definition stateInStringEscU123 :: "scanner \<Rightarrow> byte \<Rightarrow> scan_op \<times> scanner" where
  "stateInStringEscU123 s c =
     (if isHex c then goto sInString scanContinue s
      else scan_error c ''in u hexadecimal character escape'' s)"

definition stateNeg :: "scanner \<Rightarrow> byte \<Rightarrow> scan_op \<times> scanner" where
  "stateNeg s c =
     (if c = 48 then goto sState0 scanContinue s
      else if 49 \<le> c \<and> c \<le> 57 then goto sState1 scanContinue s
      else scan_error c ''in numeric literal'' s)"

definition state0 :: "scanner \<Rightarrow> byte \<Rightarrow> scan_op \<times> scanner" where
  "state0 s c =
     (if c = 46 then goto sDot scanContinue s
      else if c = 101 \<or> c = 69 then goto sE scanContinue s
      else stateEndValue s c)"

definition state1 :: "scanner \<Rightarrow> byte \<Rightarrow> scan_op \<times> scanner" where
  "state1 s c = (if isDigit c then goto sState1 scanContinue s else state0 s c)"

definition stateDot :: "scanner \<Rightarrow> byte \<Rightarrow> scan_op \<times> scanner" where
  "stateDot s c =
     (if isDigit c then goto sDot0 scanContinue s
      else scan_error c ''after decimal point in numeric literal'' s)"

definition stateDot0 :: "scanner \<Rightarrow> byte \<Rightarrow> scan_op \<times> scanner" where
  "stateDot0 s c =
     (if isDigit c then (scanContinue, s)
      else if c = 101 \<or> c = 69 then goto sE scanContinue s
      else stateEndValue s c)"

definition stateESign :: "scanner \<Rightarrow> byte \<Rightarrow> scan_op \<times> scanner" where
  "stateESign s c =
     (if isDigit c then goto sE0 scanContinue s
      else scan_error c ''in exponent of numeric literal'' s)"

definition stateE :: "scanner \<Rightarrow> byte \<Rightarrow> scan_op \<times> scanner" where
  "stateE s c = (if c = 43 \<or> c = 45 then goto sESign scanContinue s else stateESign s c)"

definition stateE0 :: "scanner \<Rightarrow> byte \<Rightarrow> scan_op \<times> scanner" where
  "stateE0 s c = (if isDigit c then (scanContinue, s) else stateEndValue s c)"

definition stateT :: "scanner \<Rightarrow> byte \<Rightarrow> scan_op \<times> scanner" where
  "stateT s c = (if c = 114 then goto sTr scanContinue s else scan_error c ''in literal true (expecting r)'' s)"

definition stateTr :: "scanner \<Rightarrow> byte \<Rightarrow> scan_op \<times> scanner" where
  "stateTr s c = (if c = 117 then goto sTru scanContinue s else scan_error c ''in literal true (expecting u)'' s)"

definition stateTru :: "scanner \<Rightarrow> byte \<Rightarrow> scan_op \<times> scanner" where
  "stateTru s c = (if c = 101 then goto sEndValue scanContinue s else scan_error c ''in literal true (expecting e)'' s)"

definition stateF :: "scanner \<Rightarrow> byte \<Rightarrow> scan_op \<times> scanner" where
  "stateF s c = (if c = 97 then goto sFa scanContinue s else scan_error c ''in literal false (expecting a)'' s)"

definition stateFa :: "scanner \<Rightarrow> byte \<Rightarrow> scan_op \<times> scanner" where
  "stateFa s c = (if c = 108 then goto sFal scanContinue s else scan_error c ''in literal false (expecting l)'' s)"

definition stateFal :: "scanner \<Rightarrow> byte \<Rightarrow> scan_op \<times> scanner" where
  "stateFal s c = (if c = 115 then goto sFals scanContinue s else scan_error c ''in literal false (expecting s)'' s)"

definition stateFals :: "scanner \<Rightarrow> byte \<Rightarrow> scan_op \<times> scanner" where
  "stateFals s c = (if c = 101 then goto sEndValue scanContinue s else scan_error c ''in literal false (expecting e)'' s)"

definition stateN :: "scanner \<Rightarrow> byte \<Rightarrow> scan_op \<times> scanner" where
  "stateN s c = (if c = 117 then goto sNu scanContinue s else scan_error c ''in literal null (expecting u)'' s)"

definition stateNu :: "scanner \<Rightarrow> byte \<Rightarrow> scan_op \<times> scanner" where
  "stateNu s c = (if c = 108 then goto sNul scanContinue s else scan_error c ''in literal null (expecting l)'' s)"

definition stateNul :: "scanner \<Rightarrow> byte \<Rightarrow> scan_op \<times> scanner" where
  "stateNul s c = (if c = 108 then goto sEndValue scanContinue s else scan_error c ''in literal null (expecting l)'' s)"

definition stateError :: "scanner \<Rightarrow> byte \<Rightarrow> scan_op \<times> scanner" where
  "stateError s c = (scanError, s)"

fun run_state :: "state \<Rightarrow> scanner \<Rightarrow> byte \<Rightarrow> (scan_op \<times> scanner) option" where
  "run_state sBeginStringOrEmpty s c = stateBeginStringOrEmpty s c"
| "run_state sBeginValueOrEmpty s c = Some (stateBeginValueOrEmpty s c)"
| "run_state sBeginValue s c = Some (stateBeginValue s c)"
| "run_state sBeginString s c = Some (stateBeginString s c)"
| "run_state sEndValue s c = Some (stateEndValue s c)"
| "run_state sEndTop s c = Some (stateEndTop s c)"
| "run_state sMaybeComment s c = Some (stateMaybeComment s c)"
| "run_state sInLineComment s c = Some (stateInLineComment s c)"
| "run_state sInBlockComment s c = Some (stateInBlockComment s c)"
| "run_state sInBlockCommentStar s c = Some (stateInBlockCommentStar s c)"
| "run_state sInString s c = Some (stateInString s c)"
| "run_state sInStringEsc s c = Some (stateInStringEsc s c)"
| "run_state sInStringEscU s c = Some (stateInStringEscU s c)"
| "run_state sInStringEscU1 s c = Some (stateInStringEscU1 s c)"
| "run_state sInStringEscU12 s c = Some (stateInStringEscU12 s c)"
| "run_state sInStringEscU123 s c = Some (stateInStringEscU123 s c)"
| "run_state sNeg s c = Some (stateNeg s c)"
| "run_state sState1 s c = Some (state1 s c)"
| "run_state sState0 s c = Some (state0 s c)"
| "run_state sDot s c = Some (stateDot s c)"
| "run_state sDot0 s c = Some (stateDot0 s c)"
| "run_state sE s c = Some (stateE s c)"
| "run_state sESign s c = Some (stateESign s c)"
| "run_state sE0 s c = Some (stateE0 s c)"
| "run_state sT s c = Some (stateT s c)"
| "run_state sTr s c = Some (stateTr s c)"
| "run_state sTru s c = Some (stateTru s c)"
| "run_state sF s c = Some (stateF s c)"
| "run_state sFa s c = Some (stateFa s c)"
| "run_state sFal s c = Some (stateFal s c)"
| "run_state sFals s c = Some (stateFals s c)"
| "run_state sN s c = Some (stateN s c)"
| "run_state sNu s c = Some (stateNu s c)"
| "run_state sNul s c = Some (stateNul s c)"
| "run_state sError s c = Some (stateError s c)"

definition scan_step :: "scanner \<Rightarrow> byte \<Rightarrow> (scan_op \<times> scanner) option" where
  "scan_step s c = (case sstep s of None \<Rightarrow> None | Some st \<Rightarrow> run_state st s c)"

section \<open>Whole inputs\<close>

definition eof_comment :: "scanner \<Rightarrow> scanner" where
  "eof_comment s = (if commentMode s = scannerLineComment then endComment s else s)"

definition scan_eof :: "scanner \<Rightarrow> (scan_op \<times> scanner) option" where
  "scan_eof s =
     (if serr s \<noteq> None then Some (scanError, s)
      else if commentMode s = scannerBlockComment
      then Some (scanError, s\<lparr>serr := Some (UnexpectedEnd ''unexpected end of JSON comment'' (sbytes s))\<rparr>)
      else
        let s1 = eof_comment s in
        if endTop s1 then Some (scanEnd, s1)
        else do {
          (_, s2) \<leftarrow> scan_step s1 32;
          if endTop s2 then Some (scanEnd, s2)
          else Some (scanError,
            (if serr s2 = None then s2\<lparr>serr := Some (UnexpectedEnd ''unexpected end of JSON input'' (sbytes s2))\<rparr> else s2)) })"

text \<open>The loop of \<open>checkValid\<close>: \<open>Inl\<close> is the early return of the error.\<close>

fun scan_loop :: "scanner \<Rightarrow> bytes \<Rightarrow> (syntax_error option + scanner) option" where
  "scan_loop s [] = Some (Inr s)"
| "scan_loop s (c # cs) = do {
     (op, s') \<leftarrow> scan_step (s\<lparr>sbytes := sbytes s + 1\<rparr>) c;
     if op = scanError then Some (Inl (serr s')) else scan_loop s' cs }"

definition checkValid :: "bytes \<Rightarrow> scanner \<Rightarrow> syntax_error option option" where
  "checkValid data scan = do {
     r \<leftarrow> scan_loop (scan_reset scan) data;
     case r of
       Inl err \<Rightarrow> Some err
     | Inr s \<Rightarrow> do { (op, s') \<leftarrow> scan_eof s; Some (if op = scanError then serr s' else None) } }"

definition Valid :: "scanner \<Rightarrow> bytes \<Rightarrow> bool option" where
  "Valid pooled data = map_option (\<lambda>err. err = None) (checkValid data (newScanner pooled))"

end
