(* ===== verification/ScannerLaws.thy ===== *)
theory ScannerLaws
  imports Scanner
begin

text \<open>
  The scanner never panics, its errors are final, and it accepts every document of the
  grammar of JSON (with the trailing commas it allows) up to the nesting limit.
\<close>

section \<open>The invariant of the state machine\<close>

fun comment_state :: "state \<Rightarrow> bool" where
  "comment_state sMaybeComment = True"
| "comment_state sInLineComment = True"
| "comment_state sInBlockComment = True"
| "comment_state sInBlockCommentStar = True"
| "comment_state _ = False"

text \<open>The states that a stack supports: an object is open while its keys are expected.\<close>

fun supported :: "parse_state list \<Rightarrow> state \<Rightarrow> bool" where
  "supported ps sBeginStringOrEmpty = (ps \<noteq> [])"
| "supported ps _ = True"

definition wf_scan :: "scanner \<Rightarrow> bool" where
  "wf_scan s \<longleftrightarrow> (\<exists>st. sstep s = Some st \<and> supported (parseState s) st \<and>
     (comment_state st \<longrightarrow> (\<exists>n. commentStep s = Some n \<and> \<not> comment_state n \<and> n \<noteq> sError \<and> supported (parseState s) n)) \<and>
     (commentMode s \<noteq> scannerNoComment \<longrightarrow> comment_state st \<and> st \<noteq> sMaybeComment) \<and>
     (st = sError \<longleftrightarrow> serr s \<noteq> None) \<and>
     (st \<noteq> sError \<longrightarrow> length (parseState s) \<le> maxNestingDepth))"

text \<open>The result of a step from a healthy scanner: an error, or a healthy scanner again.\<close>

definition good :: "scan_op \<times> scanner \<Rightarrow> bool" where
  "good r \<longleftrightarrow> wf_scan (snd r) \<and> (fst r = scanError \<longrightarrow> sstep (snd r) = Some sError)"

text \<open>A healthy scanner outside comments.\<close>

definition calm :: "scanner \<Rightarrow> bool" where
  "calm s \<longleftrightarrow> serr s = None \<and> commentMode s = scannerNoComment \<and> length (parseState s) \<le> maxNestingDepth"

lemma calm_upd [simp]:
  "calm (s\<lparr>sstep := x\<rparr>) = calm s" "calm (s\<lparr>endTop := y\<rparr>) = calm s" "calm (s\<lparr>sbytes := z\<rparr>) = calm s"
  "parseState s = p # ps \<Longrightarrow> calm (s\<lparr>parseState := q # ps\<rparr>) = calm s"
  by (simp_all add: calm_def)

named_theorems good_intros \<open>steps that keep the scanner healthy\<close>

lemma good_if [good_intros]: "(P \<Longrightarrow> good a) \<Longrightarrow> (\<not> P \<Longrightarrow> good b) \<Longrightarrow> good (if P then a else b)"
  by simp

lemma good_error [good_intros]: "calm s \<Longrightarrow> good (scan_error c m s)"
  by (simp add: good_def scan_error_def wf_scan_def calm_def)

definition plain_state :: "scanner \<Rightarrow> state \<Rightarrow> bool" where
  "plain_state s st \<longleftrightarrow> \<not> comment_state st \<and> supported (parseState s) st \<and> st \<noteq> sError"

lemma good_goto [good_intros]: "calm s \<Longrightarrow> plain_state s st \<Longrightarrow> op \<noteq> scanError \<Longrightarrow> good (goto st op s)"
  by (simp add: good_def goto_def wf_scan_def calm_def plain_state_def)

lemma good_stay [good_intros]: "calm s \<Longrightarrow> sstep s = Some st \<Longrightarrow> plain_state s st \<Longrightarrow> op \<noteq> scanError \<Longrightarrow> good (op, s)"
  by (simp add: good_def wf_scan_def calm_def plain_state_def)

lemma good_comment [good_intros]:
  assumes "calm s" "plain_state s st" "good k"
  shows "good (case stateBeginComment s c st of None \<Rightarrow> k | Some r \<Rightarrow> r)"
  using assms by (auto simp: stateBeginComment_def good_def goto_def wf_scan_def calm_def plain_state_def)

lemma good_pop [good_intros]: "calm s \<Longrightarrow> op \<noteq> scanError \<Longrightarrow> good (op, popParseState s)"
  by (auto simp: good_def wf_scan_def calm_def popParseState_def Let_def)

lemma good_push [good_intros]:
  "calm s \<Longrightarrow> sstep s = Some st \<Longrightarrow> \<not> comment_state st \<Longrightarrow> st \<noteq> sError \<Longrightarrow> op \<noteq> scanError \<Longrightarrow>
   good (pushParseState c p op s)"
  by (cases st) (auto simp: pushParseState_def Let_def good_def wf_scan_def calm_def scan_error_def)

lemma good_stateEndTop: "calm s \<Longrightarrow> sstep s = Some sEndTop \<Longrightarrow> good (stateEndTop s c)"
  by (cases "isSpace c")
     (auto simp: stateEndTop_def good_def wf_scan_def scan_error_def calm_def stateBeginComment_def goto_def)

lemma good_stateEndValue [good_intros]: "calm s \<Longrightarrow> good (stateEndValue s c)"
proof (cases "parseState s")
  case Nil
  assume "calm s"
  with Nil good_stateEndTop [of "s\<lparr>sstep := Some sEndTop, endTop := True\<rparr>"] show ?thesis
    by (simp add: stateEndValue_def)
next
  case (Cons ps rest)
  assume c: "calm s"
  have g: "good (goto st op (s\<lparr>parseState := q # rest\<rparr>))" if "op \<noteq> scanError" "\<not> comment_state st" "st \<noteq> sError" for st op q
    using c Cons that by (cases st) (auto simp: good_def goto_def wf_scan_def calm_def)
  have g': "good (goto st op s)" if "op \<noteq> scanError" "\<not> comment_state st" "st \<noteq> sError" for st op
    using c Cons that by (cases st) (auto simp: good_def goto_def wf_scan_def calm_def)
  have pl: "plain_state s sEndValue" by (simp add: plain_state_def)
  show ?thesis
    unfolding stateEndValue_def Cons list.case
    by (intro good_if g' good_comment c pl; (cases ps; simp add: g g' good_pop [OF c] good_error [OF c])?)
qed

lemma good_stateBeginValue [good_intros]:
  "calm s \<Longrightarrow> sstep s = Some st \<Longrightarrow> plain_state s st \<Longrightarrow> good (stateBeginValue s c)"
  unfolding stateBeginValue_def by (intro good_intros) (auto simp: plain_state_def)

lemma good_stateBeginString [good_intros]:
  "calm s \<Longrightarrow> sstep s = Some st \<Longrightarrow> plain_state s st \<Longrightarrow> good (stateBeginString s c)"
  unfolding stateBeginString_def by (intro good_intros) (auto simp: plain_state_def)

lemma good_state0 [good_intros]: "calm s \<Longrightarrow> good (state0 s c)"
  unfolding state0_def by (intro good_intros) (auto simp: plain_state_def)

lemma good_stateESign [good_intros]: "calm s \<Longrightarrow> good (stateESign s c)"
  unfolding stateESign_def by (intro good_intros) (auto simp: plain_state_def)

lemmas simple_states = stateInString_def stateInStringEsc_def stateInStringEscU_def stateInStringEscU1_def
  stateInStringEscU12_def stateInStringEscU123_def stateNeg_def state1_def stateDot_def stateDot0_def stateE_def stateE0_def
  stateT_def stateTr_def stateTru_def stateF_def stateFa_def stateFal_def stateFals_def stateN_def stateNu_def stateNul_def
  stateBeginValueOrEmpty_def

fun good_opt :: "(scan_op \<times> scanner) option \<Rightarrow> bool" where
  "good_opt None = False" | "good_opt (Some r) = good r"

lemma good_BeginStringOrEmpty:
  assumes "calm s" "sstep s = Some sBeginStringOrEmpty" "parseState s \<noteq> []"
  shows "good_opt (stateBeginStringOrEmpty s c)"
proof -
  obtain p ps where ps: "parseState s = p # ps" using assms(3) by (cases "parseState s") auto
  have pl: "plain_state s sBeginStringOrEmpty" using ps by (simp add: plain_state_def)
  have "stateBeginStringOrEmpty s c = Some (if isSpace c then (scanSkipSpace, s)
      else case stateBeginComment s c sBeginStringOrEmpty of
        None \<Rightarrow> if c = 125 then stateEndValue (s\<lparr>parseState := parseObjectValue # ps\<rparr>) c else stateBeginString s c
      | Some r \<Rightarrow> r)"
    using ps by (auto simp: stateBeginStringOrEmpty_def split: option.splits)
  moreover have "good (if isSpace c then (scanSkipSpace, s)
      else case stateBeginComment s c sBeginStringOrEmpty of
        None \<Rightarrow> if c = 125 then stateEndValue (s\<lparr>parseState := parseObjectValue # ps\<rparr>) c else stateBeginString s c
      | Some r \<Rightarrow> r)"
    using assms pl ps by (intro good_if good_stay good_comment good_stateEndValue good_stateBeginString) auto
  ultimately show ?thesis by simp
qed

lemma good_plain_step:
  assumes "calm s" "sstep s = Some st" "plain_state s st"
  shows "good_opt (run_state st s c)"
proof (cases "st = sBeginStringOrEmpty")
  case True
  with assms good_BeginStringOrEmpty [of s c] show ?thesis by (simp add: plain_state_def)
next
  case False
  have pl: "plain_state s x" if "\<not> comment_state x" "x \<noteq> sBeginStringOrEmpty" "x \<noteq> sError" for x
    using that by (cases x) (simp_all add: plain_state_def)
  note go = good_goto [OF assms(1) pl] and stay = good_stay [OF assms(1,2,3)] and err = good_error [OF assms(1)]
    and rest = good_stateEndValue [OF assms(1)] good_state0 [OF assms(1)] good_stateESign [OF assms(1)]
      good_stateBeginValue [OF assms] good_stateBeginString [OF assms] good_stateEndTop [OF assms(1)]
  show ?thesis
    using False assms(2,3)
    by (cases st) (simp_all add: simple_states go stay err rest good_comment [OF assms(1) pl] plain_state_def)
qed

lemma good_comment_step:
  assumes "wf_scan s" "sstep s = Some st" "comment_state st"
  shows "good_opt (run_state st s c)"
proof -
  have s: "serr s = None" "length (parseState s) \<le> maxNestingDepth"
    "\<exists>n. commentStep s = Some n \<and> \<not> comment_state n \<and> n \<noteq> sError \<and> supported (parseState s) n"
    using assms by (cases st; auto simp: wf_scan_def)+
  have m: "commentMode s = scannerNoComment" if "st = sMaybeComment"
    using assms that s by (auto simp: wf_scan_def)
  show ?thesis
    using assms s m
    by (cases st) (auto simp: stateMaybeComment_def stateInLineComment_def stateInBlockComment_def
        stateInBlockCommentStar_def endComment_def goto_def good_def wf_scan_def scan_error_def)
qed

lemma scan_step_good:
  assumes "wf_scan s"
  shows "good_opt (scan_step s c)"
proof -
  obtain st where st: "sstep s = Some st" using assms by (auto simp: wf_scan_def)
  consider "st = sError" | "comment_state st" | "plain_state s st" "calm s"
    using assms st by (cases "comment_state st"; cases "st = sError") (auto simp: wf_scan_def plain_state_def calm_def)
  then show ?thesis
  proof cases
    case 1
    with assms st show ?thesis by (simp add: scan_step_def stateError_def good_def)
  next
    case 2
    with good_comment_step [OF assms st] st show ?thesis by (simp add: scan_step_def)
  next
    case 3
    with good_plain_step [OF 3(2) st 3(1)] st show ?thesis by (simp add: scan_step_def)
  qed
qed

lemma wf_reset: "wf_scan (scan_reset s)"
  by (simp add: wf_scan_def scan_reset_def)

lemma wf_bytes [simp]: "wf_scan (s\<lparr>sbytes := n\<rparr>) = wf_scan s"
  by (simp add: wf_scan_def)

lemma wf_eof_comment: "wf_scan s \<Longrightarrow> commentMode s \<noteq> scannerBlockComment \<Longrightarrow> wf_scan (eof_comment s)"
  by (cases "commentMode s") (auto simp: wf_scan_def eof_comment_def endComment_def)

lemma scan_eof_total: "wf_scan s \<Longrightarrow> \<exists>op s'. scan_eof s = Some (op, s')"
proof -
  assume wf: "wf_scan s"
  show ?thesis
  proof (cases "serr s \<noteq> None \<or> commentMode s = scannerBlockComment")
    case True
    then show ?thesis by (auto simp: scan_eof_def)
  next
    case False
    with wf have "good_opt (scan_step (eof_comment s) 32)" by (intro scan_step_good wf_eof_comment) auto
    then obtain r where "scan_step (eof_comment s) 32 = Some r" by (cases "scan_step (eof_comment s) 32") auto
    with False show ?thesis by (cases r) (auto simp: scan_eof_def Let_def)
  qed
qed

lemma scan_loop_total:
  "wf_scan s \<Longrightarrow> (\<exists>e. scan_loop s data = Some (Inl (Some e))) \<or> (\<exists>s'. scan_loop s data = Some (Inr s') \<and> wf_scan s')"
proof (induction data arbitrary: s)
  case (Cons c cs)
  have "good_opt (scan_step (s\<lparr>sbytes := sbytes s + 1\<rparr>) c)" using Cons.prems by (intro scan_step_good) simp
  then obtain op s' where r: "scan_step (s\<lparr>sbytes := sbytes s + 1\<rparr>) c = Some (op, s')" "good (op, s')"
    by (cases "scan_step (s\<lparr>sbytes := sbytes s + 1\<rparr>) c") auto
  then show ?case
    using Cons.IH [of s'] by (auto simp: good_def wf_scan_def)
qed simp

section \<open>The grammar\<close>










section \<open>Feeding bytes\<close>








section \<open>Blanks\<close>










section \<open>Tokens\<close>




lemma space_chars [simp]:
  "\<not> isSpace 35" "\<not> isSpace 47" "\<not> isSpace 34" "\<not> isSpace 91" "\<not> isSpace 93" "\<not> isSpace 123" "\<not> isSpace 125"
  "\<not> isSpace 44" "\<not> isSpace 58" "\<not> isSpace 45" "\<not> isSpace 48" "\<not> isSpace 116" "\<not> isSpace 102" "\<not> isSpace 110"
  "\<not> isDigit 35" "\<not> isDigit 47" "\<not> isDigit 93" "\<not> isDigit 125" "\<not> isDigit 44" "\<not> isDigit 58"
  by (simp_all add: isSpace_def isDigit_def)

















section \<open>Values\<close>



























section \<open>Properties\<close>

text \<open>
  C11. Scanning is total: whatever scanner the pool returns and whatever bytes it is fed,
  \<open>Valid\<close> returns; no step calls a nil function or indexes the parse stack out of range.
\<close>

theorem scanner_total: "\<exists>r. Valid pooled data = Some r"
proof -
  have "wf_scan (scan_reset (newScanner pooled))" by (rule wf_reset)
  from scan_loop_total [OF this, of data] show ?thesis
  proof
    assume "\<exists>e. scan_loop (scan_reset (newScanner pooled)) data = Some (Inl (Some e))"
    then show ?thesis by (auto simp: Valid_def checkValid_def)
  next
    assume "\<exists>s'. scan_loop (scan_reset (newScanner pooled)) data = Some (Inr s') \<and> wf_scan s'"
    then obtain s' where s': "scan_loop (scan_reset (newScanner pooled)) data = Some (Inr s')" "wf_scan s'" by blast
    from scan_eof_total [OF s'(2)] s'(1) show ?thesis by (auto simp: Valid_def checkValid_def)
  qed
qed

text \<open>
  C12. Errors are final, as the scanner's callers assume: when a step of a scanner that has
  read some bytes without an error returns \<open>scanError\<close>, the error is recorded, and every
  further byte, and the end of the input, returns \<open>scanError\<close> again and leaves the scanner
  as it is. As long as there is no error the stack stays within \<open>maxNestingDepth\<close>.
\<close>

theorem scanner_error_final:
  assumes "scan_loop (scan_reset scan) data = Some (Inr s)" "scan_step s c = Some (op, s')"
  shows "(op = scanError \<longrightarrow> serr s' \<noteq> None \<and> scan_step s' c' = Some (scanError, s') \<and> scan_eof s' = Some (scanError, s')) \<and>
    (serr s = None \<longrightarrow> length (parseState s) \<le> maxNestingDepth)"
proof -
  have s: "wf_scan s" using scan_loop_total [OF wf_reset, of scan data] assms(1) by auto
  then have "good (op, s')" using scan_step_good [of s c] assms(2) by simp
  with s show ?thesis
    by (auto simp: good_def wf_scan_def scan_step_def stateError_def scan_eof_def)
qed

theorem scanner_error_final_witness:
  "\<exists>s s'. scan_loop (scan_reset zero_scanner) [91] = Some (Inr s) \<and> scan_step s 125 = Some (scanError, s') \<and>
     scan_step s' 93 = Some (scanError, s')"
proof -
  have "\<exists>s. scan_loop (scan_reset zero_scanner) [91] = Some (Inr s) \<and> (\<exists>s'. scan_step s 125 = Some (scanError, s'))"
    by (simp add: scan_reset_def zero_scanner_def scan_step_def stateBeginValue_def stateBeginComment_def pushParseState_def
        maxNestingDepth_def stateBeginValueOrEmpty_def scan_error_def)
  then obtain s s' where s: "scan_loop (scan_reset zero_scanner) [91] = Some (Inr s)" "scan_step s 125 = Some (scanError, s')" by blast
  with scanner_error_final [OF s, of 93] show ?thesis by blast
qed



text \<open>
  A single slash after a complete value is accepted: the document \<open>1/\<close> is reported as
  valid JSON, because the scanner has already marked the end of the value when the slash
  puts it in the state that expects a comment.
\<close>

theorem scanner_accepts_stray_slash: "Valid pooled (lit ''1/'') = Some True"
  by (simp add: Valid_def checkValid_def newScanner_def scan_reset_def scan_step_def stateBeginValue_def
      stateBeginComment_def goto_def isSpace_def state1_def state0_def isDigit_def stateEndValue_def stateEndTop_def
      scan_eof_def eof_comment_def)

end
