(* ===== verification/LinkedList.thy ===== *)
theory LinkedList
  imports Prelude
begin

text \<open>
  The doubly linked list of \<open>common/x/list/list.go\<close>, over an explicit store of elements.

  The ring of a list runs through the sentinel \<open>root\<close> inside the \<open>List\<close> value itself, so a
  pointer is the root of a list or an element made by \<open>insertValue\<close>. The functions
  dereference pointers exactly as the code does; a nil dereference is \<open>None\<close>. Several lists
  live in one store, since the code compares and shares their elements.
\<close>

section \<open>The store\<close>

datatype ptr = Root nat | Elem nat

text \<open>The \<open>Value\<close> of a root is never set; \<open>None\<close> is the zero value of the element type.\<close>

record 'v element =
  enext :: "ptr option"
  eprev :: "ptr option"
  elist :: "nat option"
  Value :: "'v option"

definition zero_element :: "'v element" where
  "zero_element = \<lparr>enext = None, eprev = None, elist = None, Value = None\<rparr>"

text \<open>The elements, the \<open>len\<close> field of each list, and the next unused element.\<close>

record 'v lheap =
  cells :: "ptr \<Rightarrow> 'v element"
  llen :: "nat \<Rightarrow> int"
  brk :: nat

definition empty_lheap :: "'v lheap" where
  "empty_lheap = \<lparr>cells = (\<lambda>_. zero_element), llen = (\<lambda>_. 0), brk = 0\<rparr>"

definition set_next :: "ptr \<Rightarrow> ptr option \<Rightarrow> 'v lheap \<Rightarrow> 'v lheap" where
  "set_next p v h = h\<lparr>cells := (cells h)(p := (cells h p)\<lparr>enext := v\<rparr>)\<rparr>"

definition set_prev :: "ptr \<Rightarrow> ptr option \<Rightarrow> 'v lheap \<Rightarrow> 'v lheap" where
  "set_prev p v h = h\<lparr>cells := (cells h)(p := (cells h p)\<lparr>eprev := v\<rparr>)\<rparr>"

definition set_list :: "ptr \<Rightarrow> nat option \<Rightarrow> 'v lheap \<Rightarrow> 'v lheap" where
  "set_list p v h = h\<lparr>cells := (cells h)(p := (cells h p)\<lparr>elist := v\<rparr>)\<rparr>"

definition set_len :: "nat \<Rightarrow> int \<Rightarrow> 'v lheap \<Rightarrow> 'v lheap" where
  "set_len l n h = h\<lparr>llen := (llen h)(l := n)\<rparr>"

abbreviation nx :: "'v lheap \<Rightarrow> ptr \<Rightarrow> ptr option" where "nx h p \<equiv> enext (cells h p)"
abbreviation pv :: "'v lheap \<Rightarrow> ptr \<Rightarrow> ptr option" where "pv h p \<equiv> eprev (cells h p)"

lemmas store_defs = set_next_def set_prev_def set_list_def set_len_def

section \<open>Operations\<close>

definition list_Next :: "ptr \<Rightarrow> 'v lheap \<Rightarrow> ptr option" where
  "list_Next e h =
     (case elist (cells h e) of None \<Rightarrow> None | Some l \<Rightarrow> if nx h e \<noteq> Some (Root l) then nx h e else None)"

definition list_Prev :: "ptr \<Rightarrow> 'v lheap \<Rightarrow> ptr option" where
  "list_Prev e h =
     (case elist (cells h e) of None \<Rightarrow> None | Some l \<Rightarrow> if pv h e \<noteq> Some (Root l) then pv h e else None)"

definition list_Init :: "nat \<Rightarrow> 'v lheap \<Rightarrow> 'v lheap" where
  "list_Init l h = set_len l 0 (set_prev (Root l) (Some (Root l)) (set_next (Root l) (Some (Root l)) h))"

definition list_Len :: "nat \<Rightarrow> 'v lheap \<Rightarrow> int" where
  "list_Len l h = llen h l"

definition Front :: "nat \<Rightarrow> 'v lheap \<Rightarrow> ptr option" where
  "Front l h = (if llen h l = 0 then None else nx h (Root l))"

definition Back :: "nat \<Rightarrow> 'v lheap \<Rightarrow> ptr option" where
  "Back l h = (if llen h l = 0 then None else pv h (Root l))"

definition lazyInit :: "nat \<Rightarrow> 'v lheap \<Rightarrow> 'v lheap" where
  "lazyInit l h = (if nx h (Root l) = None then list_Init l h else h)"

text \<open>The two halves \<open>insert\<close>, \<open>remove\<close> and \<open>move\<close> are made of: taking an element out of its
  ring, and putting it into a ring after \<open>at\<close>.\<close>

definition unlink :: "ptr \<Rightarrow> 'v lheap \<Rightarrow> 'v lheap option" where
  "unlink e h = do {
     p \<leftarrow> pv h e;
     let h = set_next p (nx h e) h;
     n \<leftarrow> nx h e;
     Some (set_prev n (pv h e) h)
   }"

definition link :: "ptr \<Rightarrow> ptr option \<Rightarrow> 'v lheap \<Rightarrow> 'v lheap option" where
  "link e at h = do {
     let h = set_prev e at h;
     a \<leftarrow> at;
     let h = set_next e (nx h a) h;
     p \<leftarrow> pv h e;
     let h = set_next p (Some e) h;
     n \<leftarrow> nx h e;
     Some (set_prev n (Some e) h)
   }"

definition list_insert :: "nat \<Rightarrow> ptr \<Rightarrow> ptr option \<Rightarrow> 'v lheap \<Rightarrow> (ptr \<times> 'v lheap) option" where
  "list_insert l e at h = do {
     h \<leftarrow> link e at h;
     let h = set_list e (Some l) h;
     Some (e, set_len l (llen h l + 1) h)
   }"

text \<open>\<open>new(Element[T])\<close> takes an unused element, and sets its value.\<close>

definition insertValue :: "nat \<Rightarrow> 'v \<Rightarrow> ptr option \<Rightarrow> 'v lheap \<Rightarrow> (ptr \<times> 'v lheap) option" where
  "insertValue l v at h =
     (let e = Elem (brk h);
          h = h\<lparr>brk := brk h + 1, cells := (cells h)(e := zero_element\<lparr>Value := Some v\<rparr>)\<rparr>
      in list_insert l e at h)"

definition list_remove :: "nat \<Rightarrow> ptr \<Rightarrow> 'v lheap \<Rightarrow> 'v lheap option" where
  "list_remove l e h = do {
     h \<leftarrow> unlink e h;
     let h = set_list e None (set_prev e None (set_next e None h));
     Some (set_len l (llen h l - 1) h)
   }"

definition list_move :: "ptr \<Rightarrow> ptr option \<Rightarrow> 'v lheap \<Rightarrow> 'v lheap option" where
  "list_move e at h = (if Some e = at then Some h else do { h \<leftarrow> unlink e h; link e at h })"

definition list_Remove :: "nat \<Rightarrow> ptr \<Rightarrow> 'v lheap \<Rightarrow> ('v option \<times> 'v lheap) option" where
  "list_Remove l e h = do {
     h \<leftarrow> (if elist (cells h e) = Some l then list_remove l e h else Some h);
     Some (Value (cells h e), h)
   }"

definition PushFront :: "nat \<Rightarrow> 'v \<Rightarrow> 'v lheap \<Rightarrow> (ptr \<times> 'v lheap) option" where
  "PushFront l v h = insertValue l v (Some (Root l)) (lazyInit l h)"

definition PushBack :: "nat \<Rightarrow> 'v \<Rightarrow> 'v lheap \<Rightarrow> (ptr \<times> 'v lheap) option" where
  "PushBack l v h = (let h = lazyInit l h in insertValue l v (pv h (Root l)) h)"

definition InsertBefore :: "nat \<Rightarrow> 'v \<Rightarrow> ptr \<Rightarrow> 'v lheap \<Rightarrow> (ptr option \<times> 'v lheap) option" where
  "InsertBefore l v mark h =
     (if elist (cells h mark) \<noteq> Some l then Some (None, h)
      else map_option (apfst Some) (insertValue l v (pv h mark) h))"

definition InsertAfter :: "nat \<Rightarrow> 'v \<Rightarrow> ptr \<Rightarrow> 'v lheap \<Rightarrow> (ptr option \<times> 'v lheap) option" where
  "InsertAfter l v mark h =
     (if elist (cells h mark) \<noteq> Some l then Some (None, h)
      else map_option (apfst Some) (insertValue l v (Some mark) h))"

definition MoveToFront :: "nat \<Rightarrow> ptr \<Rightarrow> 'v lheap \<Rightarrow> 'v lheap option" where
  "MoveToFront l e h =
     (if elist (cells h e) \<noteq> Some l \<or> nx h (Root l) = Some e then Some h
      else list_move e (Some (Root l)) h)"

definition MoveToBack :: "nat \<Rightarrow> ptr \<Rightarrow> 'v lheap \<Rightarrow> 'v lheap option" where
  "MoveToBack l e h =
     (if elist (cells h e) \<noteq> Some l \<or> pv h (Root l) = Some e then Some h
      else list_move e (pv h (Root l)) h)"

definition MoveBefore :: "nat \<Rightarrow> ptr \<Rightarrow> ptr \<Rightarrow> 'v lheap \<Rightarrow> 'v lheap option" where
  "MoveBefore l e mark h =
     (if elist (cells h e) \<noteq> Some l \<or> e = mark \<or> elist (cells h mark) \<noteq> Some l then Some h
      else list_move e (pv h mark) h)"

definition MoveAfter :: "nat \<Rightarrow> ptr \<Rightarrow> ptr \<Rightarrow> 'v lheap \<Rightarrow> 'v lheap option" where
  "MoveAfter l e mark h =
     (if elist (cells h e) \<noteq> Some l \<or> e = mark \<or> elist (cells h mark) \<noteq> Some l then Some h
      else list_move e (Some mark) h)"

text \<open>The loops over the other list, counting its length down. The list holds the values of
  its elements, so \<open>the\<close> is applied to \<open>Some\<close> only.\<close>

fun PushBackList_loop :: "nat \<Rightarrow> nat \<Rightarrow> ptr option \<Rightarrow> 'v lheap \<Rightarrow> 'v lheap option" where
  "PushBackList_loop l 0 e h = Some h"
| "PushBackList_loop l (Suc i) e h = do {
     p \<leftarrow> e;
     v \<leftarrow> Value (cells h p);
     (_, h) \<leftarrow> insertValue l v (pv h (Root l)) h;
     PushBackList_loop l i (list_Next p h) h
   }"

definition PushBackList :: "nat \<Rightarrow> nat \<Rightarrow> 'v lheap \<Rightarrow> 'v lheap option" where
  "PushBackList l other h =
     (let h = lazyInit l h in PushBackList_loop l (nat (list_Len other h)) (Front other h) h)"

fun PushFrontList_loop :: "nat \<Rightarrow> nat \<Rightarrow> ptr option \<Rightarrow> 'v lheap \<Rightarrow> 'v lheap option" where
  "PushFrontList_loop l 0 e h = Some h"
| "PushFrontList_loop l (Suc i) e h = do {
     p \<leftarrow> e;
     v \<leftarrow> Value (cells h p);
     (_, h) \<leftarrow> insertValue l v (Some (Root l)) h;
     PushFrontList_loop l i (list_Prev p h) h
   }"

definition PushFrontList :: "nat \<Rightarrow> nat \<Rightarrow> 'v lheap \<Rightarrow> 'v lheap option" where
  "PushFrontList l other h =
     (let h = lazyInit l h in PushFrontList_loop l (nat (list_Len other h)) (Back other h) h)"

section \<open>Rings\<close>

text \<open>Consecutive pointers of a path are linked in both directions.\<close>

fun path :: "'v lheap \<Rightarrow> ptr list \<Rightarrow> bool" where
  "path h (a # b # ps) \<longleftrightarrow> nx h a = Some b \<and> pv h b = Some a \<and> path h (b # ps)"
| "path h _ \<longleftrightarrow> True"

lemma path_append: "path h (xs @ a # ys) \<longleftrightarrow> path h (xs @ [a]) \<and> path h (a # ys)"
  by (induction xs rule: induct_list012) auto

lemma path_unique:
  "path h (a # ps @ [z]) \<Longrightarrow> path h (a # qs @ [z]) \<Longrightarrow> z \<notin> set ps \<Longrightarrow> z \<notin> set qs \<Longrightarrow> ps = qs"
proof (induction ps arbitrary: a qs)
  case Nil
  then show ?case by (cases qs) auto
next
  case (Cons p ps)
  then show ?case by (cases qs) auto
qed

lemma path_cong:
  assumes "\<And>p. p \<in> set (butlast ps) \<Longrightarrow> nx h' p = nx h p" "\<And>p. p \<in> set (tl ps) \<Longrightarrow> pv h' p = pv h p"
  shows "path h' ps = path h ps"
  using assms
proof (induction h ps rule: path.induct)
  case (1 h a b ps)
  have "path h' (b # ps) = path h (b # ps)"
    by (rule 1(1)) (use 1(2,3) in \<open>auto split: if_splits dest: list.set_sel(2) [rotated]\<close>)
  with 1(2) [of a] 1(3) [of b] show ?case by simp
qed auto

lemma path_cong_cells:
  assumes "\<And>p. p \<in> set ps \<Longrightarrow> cells h' p = cells h p"
  shows "path h' ps = path h ps"
proof (rule path_cong)
  fix p assume "p \<in> set (tl ps)"
  then have "p \<in> set ps" by (cases ps) auto
  then show "pv h' p = pv h p" by (simp add: assms)
qed (simp add: assms in_set_butlastD)

text \<open>
  \<open>lst h l ps\<close>: the list \<open>l\<close> of the store \<open>h\<close> is initialised and consists of the elements \<open>ps\<close>.
  A zero \<open>List\<close> is empty too; \<open>is_list\<close> covers both.
\<close>

definition lst :: "'v lheap \<Rightarrow> nat \<Rightarrow> ptr list \<Rightarrow> bool" where
  "lst h l ps \<longleftrightarrow> distinct ps \<and> path h (Root l # ps @ [Root l]) \<and> llen h l = int (length ps) \<and>
     (\<forall>p \<in> set ps. \<exists>i < brk h. p = Elem i \<and> elist (cells h p) = Some l \<and> Value (cells h p) \<noteq> None)"

definition is_list :: "'v lheap \<Rightarrow> nat \<Rightarrow> ptr list \<Rightarrow> bool" where
  "is_list h l ps \<longleftrightarrow> lst h l ps \<or> ps = [] \<and> nx h (Root l) = None \<and> llen h l = 0"

definition list_values :: "'v lheap \<Rightarrow> ptr list \<Rightarrow> 'v list" where
  "list_values h ps = map (\<lambda>p. the (Value (cells h p))) ps"

lemma store_simps [simp]:
  "brk (set_next p v h) = brk h" "brk (set_prev p v h) = brk h" "brk (set_list p w h) = brk h" "brk (set_len l n h) = brk h"
  "llen (set_next p v h) = llen h" "llen (set_prev p v h) = llen h" "llen (set_list p w h) = llen h"
  "llen (set_len l n h) = (llen h)(l := n)" "cells (set_len l n h) = cells h"
  "cells (set_next p v h) = (cells h)(p := (cells h p)\<lparr>enext := v\<rparr>)"
  "cells (set_prev p v h) = (cells h)(p := (cells h p)\<lparr>eprev := v\<rparr>)"
  "cells (set_list p w h) = (cells h)(p := (cells h p)\<lparr>elist := w\<rparr>)"
  by (simp_all add: store_defs)

text \<open>Relinking changes the pointers of a few elements and nothing else.\<close>

definition relinked :: "ptr set \<Rightarrow> 'v lheap \<Rightarrow> 'v lheap \<Rightarrow> bool" where
  "relinked S h h' \<longleftrightarrow> brk h' = brk h \<and> llen h' = llen h \<and>
     (\<forall>p. elist (cells h' p) = elist (cells h p) \<and> Value (cells h' p) = Value (cells h p)) \<and>
     (\<forall>p. p \<notin> S \<longrightarrow> cells h' p = cells h p)"

lemma link_path:
  assumes "path h (us @ a # b # vs)" "e \<notin> set (us @ a # b # vs)"
    "distinct (us @ a # butlast (b # vs))" "distinct (tl (us @ [a]) @ b # vs)"
  obtains h' where "link e (Some a) h = Some h'" "path h' (us @ a # e # b # vs)" "relinked {a, b, e} h h'"
proof -
  from assms(1) have p: "path h (us @ [a])" "nx h a = Some b" "pv h b = Some a" "path h (b # vs)"
    using path_append [of h us a "b # vs"] by auto
  have ne: "e \<noteq> a" "e \<noteq> b" using assms(2) by auto
  obtain h' where h': "link e (Some a) h = Some h'" "relinked {a, b, e} h h'"
    "\<And>q. nx h' q = (if q = e then Some b else if q = a then Some e else nx h q)"
    "\<And>q. pv h' q = (if q = b then Some e else if q = e then Some a else pv h q)"
    using ne p by (simp add: link_def relinked_def)
  have "e \<notin> set (tl (us @ [a]))" using assms(2) by (cases us) auto
  then have "path h' (us @ [a]) = path h (us @ [a])" "path h' (b # vs) = path h (b # vs)"
    using assms(2-4) by (auto intro!: path_cong simp: h'(3,4) butlast_append dest: in_set_butlastD list.set_sel(2) [rotated] split: if_splits)
  with p h' ne show ?thesis using that path_append [of h' us a "e # b # vs"] by auto
qed

lemma unlink_path:
  assumes "path h (us @ a # e # b # vs)" "e \<notin> set (us @ a # b # vs)"
    "distinct (us @ a # butlast (b # vs))" "distinct (tl (us @ [a]) @ b # vs)"
  obtains h' where "unlink e h = Some h'" "path h' (us @ a # b # vs)" "relinked {a, b} h h'"
proof -
  from assms(1) have p: "path h (us @ [a])" "nx h a = Some e" "pv h e = Some a" "nx h e = Some b" "pv h b = Some e" "path h (b # vs)"
    using path_append [of h us a "e # b # vs"] by auto
  have ne: "e \<noteq> a" "e \<noteq> b" using assms(2) by auto
  obtain h' where h': "unlink e h = Some h'" "relinked {a, b} h h'"
    "\<And>q. nx h' q = (if q = a then Some b else nx h q)" "\<And>q. pv h' q = (if q = b then Some a else pv h q)"
    using ne p by (simp add: unlink_def relinked_def)
  have "path h' (us @ [a]) = path h (us @ [a])" "path h' (b # vs) = path h (b # vs)"
    using assms(2-4) by (auto intro!: path_cong simp: h'(3,4) butlast_append dest: in_set_butlastD list.set_sel(2) [rotated] split: if_splits)
  with p h' show ?thesis using that path_append [of h' us a "b # vs"] by auto
qed

section \<open>Operations on rings\<close>

lemma ring_split:
  assumes "distinct (xs @ ys)" "Root l \<notin> set (xs @ ys)"
  obtains us a b vs where "Root l # xs = us @ [a]" "ys @ [Root l] = b # vs" "a = last (Root l # xs)"
    "distinct (us @ a # butlast (b # vs))" "distinct (tl (us @ [a]) @ b # vs)" "\<And>zs. Root l # xs @ zs @ ys @ [Root l] = us @ a # zs @ b # vs"
    "{a, b} \<subseteq> insert (Root l) (set (xs @ ys))"
proof -
  define us a where "us = butlast (Root l # xs)" and "a = last (Root l # xs)"
  define b vs where "b = hd (ys @ [Root l])" and "vs = tl (ys @ [Root l])"
  have 1: "Root l # xs = us @ [a]" unfolding us_def a_def by (rule append_butlast_last_id [symmetric]) simp
  have 2: "ys @ [Root l] = b # vs" unfolding b_def vs_def by simp
  have zs: "Root l # xs @ zs @ ys @ [Root l] = us @ a # zs @ b # vs" for zs
  proof -
    have "Root l # xs @ zs @ ys @ [Root l] = (Root l # xs) @ zs @ (ys @ [Root l])" by simp
    then show ?thesis unfolding 1 2 by simp
  qed
  have "distinct ((us @ [a]) @ butlast (b # vs))" "distinct (tl (us @ [a]) @ b # vs)"
    unfolding 1 [symmetric] 2 [symmetric] using assms by auto
  moreover have "a \<in> set (Root l # xs)" "b \<in> set (ys @ [Root l])" unfolding 1 2 by simp_all
  then have "{a, b} \<subseteq> insert (Root l) (set (xs @ ys))" by auto
  ultimately show ?thesis using that [OF 1 2 a_def _ _ zs] by simp
qed

definition frame :: "nat \<Rightarrow> 'v lheap \<Rightarrow> 'v lheap \<Rightarrow> bool" where
  "frame l h h' \<longleftrightarrow> brk h \<le> brk h' \<and>
     (\<forall>l'. l' \<noteq> l \<longrightarrow> llen h' l' = llen h l' \<and> cells h' (Root l') = cells h (Root l')) \<and>
     (\<forall>i < brk h. Value (cells h' (Elem i)) = Value (cells h (Elem i)) \<and>
        (elist (cells h (Elem i)) \<noteq> Some l \<longrightarrow> cells h' (Elem i) = cells h (Elem i))) \<and>
     (\<forall>i \<ge> brk h'. cells h' (Elem i) = cells h (Elem i))"

lemma frame_refl [simp]: "frame l h h"
  by (simp add: frame_def)

lemma frame_trans: "frame l h h1 \<Longrightarrow> frame l h1 h2 \<Longrightarrow> frame l h h2"
proof -
  assume a: "frame l h h1" "frame l h1 h2"
  then have b: "brk h \<le> brk h1" "brk h1 \<le> brk h2" by (simp_all add: frame_def)
  have "Value (cells h2 (Elem i)) = Value (cells h (Elem i)) \<and>
      (elist (cells h (Elem i)) \<noteq> Some l \<longrightarrow> cells h2 (Elem i) = cells h (Elem i))" if "i < brk h" for i
  proof -
    have "i < brk h1" using that b by simp
    with a that show ?thesis unfolding frame_def by simp
  qed
  with a b show ?thesis unfolding frame_def by simp
qed

lemma lst_Root: "lst h l ps \<Longrightarrow> Root l' \<notin> set ps"
  by (auto simp: lst_def)

lemma lst_unique: "lst h l ps \<Longrightarrow> lst h l qs \<Longrightarrow> ps = qs"
  using path_unique [of h "Root l" ps "Root l" qs] lst_Root [of h l ps l] lst_Root [of h l qs l] by (simp add: lst_def)

lemma lst_distinct: "lst h l ps \<Longrightarrow> distinct ps"
  by (simp add: lst_def)

lemma lst_allocated: "lst h l ps \<Longrightarrow> brk h \<le> i \<Longrightarrow> Elem i \<notin> set ps"
  by (auto simp: lst_def)

lemma frame_lst:
  assumes "frame l h h'" "l' \<noteq> l" "is_list h l' qs"
  shows "is_list h' l' qs"
proof -
  have c: "cells h' p = cells h p" if "lst h l' qs" "p \<in> set (Root l' # qs @ [Root l'])" for p
  proof (cases "p = Root l'")
    case True
    with assms(1,2) show ?thesis by (auto simp: frame_def)
  next
    case False
    with that obtain i where "i < brk h" "p = Elem i" "elist (cells h p) = Some l'" by (auto simp: lst_def)
    with assms(1,2) show ?thesis by (auto simp: frame_def)
  qed
  have "lst h' l' qs" if "lst h l' qs"
  proof -
    have "path h' (Root l' # qs @ [Root l']) = path h (Root l' # qs @ [Root l'])"
      by (rule path_cong_cells [OF c [OF that]])
    moreover have "llen h' l' = llen h l'" "brk h \<le> brk h'" using assms by (auto simp: frame_def)
    ultimately show ?thesis using that c [OF that] by (fastforce simp: lst_def)
  qed
  with assms show ?thesis by (auto simp: is_list_def frame_def)
qed

lemma frame_values: "frame l h h' \<Longrightarrow> is_list h l' qs \<Longrightarrow> list_values h' qs = list_values h qs"
  by (fastforce simp: frame_def is_list_def lst_def list_values_def)

lemma frame_Value: "frame l h h' \<Longrightarrow> is_list h l' qs \<Longrightarrow> p \<in> set qs \<Longrightarrow> Value (cells h' p) = Value (cells h p)"
  by (fastforce simp: frame_def is_list_def lst_def)

lemma lst_is_list [simp]: "lst h l ps \<Longrightarrow> is_list h l ps"
  by (simp add: is_list_def)

lemma insertValue_lst:
  assumes "lst h l (xs @ ys)"
  obtains h' where "insertValue l v (Some (last (Root l # xs))) h = Some (Elem (brk h), h')"
    "lst h' l (xs @ Elem (brk h) # ys)" "frame l h h'" "Value (cells h' (Elem (brk h))) = Some v" "brk h' = brk h + 1"
proof -
  let ?e = "Elem (brk h)"
  let ?h = "h\<lparr>brk := brk h + 1, cells := (cells h)(?e := zero_element\<lparr>Value := Some v\<rparr>)\<rparr>"
  have in_lst: "\<exists>i < brk h. p = Elem i \<and> elist (cells h p) = Some l \<and> Value (cells h p) \<noteq> None" if "p \<in> set (xs @ ys)" for p
    using assms that by (auto simp: lst_def)
  then have e: "?e \<notin> set (xs @ ys)" by blast
  obtain us a b vs where s: "Root l # xs = us @ [a]" "ys @ [Root l] = b # vs" "a = last (Root l # xs)"
    "distinct (us @ a # butlast (b # vs))" "distinct (tl (us @ [a]) @ b # vs)" "\<And>zs. Root l # xs @ zs @ ys @ [Root l] = us @ a # zs @ b # vs"
    "{a, b} \<subseteq> insert (Root l) (set (xs @ ys))"
    using ring_split [OF lst_distinct [OF assms] lst_Root [OF assms]] by metis
  have set: "set (us @ a # b # vs) = insert (Root l) (set (xs @ ys))" using s(6) [of "[]", symmetric] by auto
  have e': "?e \<notin> set (us @ a # b # vs)" using e unfolding set by simp
  have "path ?h (us @ a # b # vs) = path h (us @ a # b # vs)"
    by (rule path_cong_cells) (use e' in auto)
  with assms s(6) [of "[]"] have p: "path ?h (us @ a # b # vs)" by (simp add: lst_def)
  obtain h' where h': "link ?e (Some a) ?h = Some h'" "path h' (us @ a # ?e # b # vs)" "relinked {a, b, ?e} ?h h'"
    by (rule link_path [OF p e' s(4,5)])
  let ?h' = "set_len l (llen h' l + 1) (set_list ?e (Some l) h')"
  have "path ?h' (us @ a # ?e # b # vs) = path h' (us @ a # ?e # b # vs)" by (rule path_cong) auto
  then have "path ?h' (Root l # (xs @ ?e # ys) @ [Root l])" using h'(2) s(6) [of "[?e]"] by simp
  note p' = this
  have r: "brk h' = brk h + 1" "llen h' = llen h"
    "elist (cells h' p) = elist (cells ?h p)" "Value (cells h' p) = Value (cells ?h p)"
    "p \<notin> {a, b, ?e} \<Longrightarrow> cells h' p = cells h p" for p
    using h'(3) by (auto simp: relinked_def)
  have "\<exists>i < brk ?h'. p = Elem i \<and> elist (cells ?h' p) = Some l \<and> Value (cells ?h' p) \<noteq> None"
    if "p \<in> set (xs @ ?e # ys)" for p
    using that in_lst [of p] e by (cases "p = ?e") (auto simp: r(1,3,4))
  then have "lst ?h' l (xs @ ?e # ys)"
    using p' assms e unfolding lst_def by (auto simp: r(2))
  have "cells ?h' p = cells h p" if "p \<noteq> ?e" "p \<noteq> Root l" "p \<notin> set (xs @ ys)" for p
    using that s(7) r(5) [of p] by auto
  moreover have "elist (cells h p) \<noteq> Some l \<Longrightarrow> p \<notin> set (xs @ ys)" for p using in_lst [of p] by auto
  ultimately have "frame l h ?h'"
    using lst_allocated [OF assms] lst_Root [OF assms] unfolding frame_def by (auto simp: r(1,2,4))
  have "insertValue l v (Some a) h = Some (?e, ?h')" using h'(1) by (simp add: insertValue_def list_insert_def Let_def)
  moreover have "Value (cells ?h' ?e) = Some v" "brk ?h' = brk h + 1" using h'(3) by (simp_all add: relinked_def zero_element_def)
  ultimately show ?thesis using that s(3) \<open>lst ?h' l (xs @ ?e # ys)\<close> \<open>frame l h ?h'\<close> by metis
qed

lemma relinked_trans: "relinked S h h1 \<Longrightarrow> relinked T h1 h2 \<Longrightarrow> relinked (S \<union> T) h h2"
  by (auto simp: relinked_def)

lemma relinked_lst:
  assumes "lst h l ps" "relinked S h h'" "S \<subseteq> insert (Root l) (set ps)" "path h' (Root l # ps' @ [Root l])"
    "distinct ps'" "set ps' = set ps"
  shows "lst h' l ps'" "frame l h h'"
proof -
  have "length ps' = length ps" using assms(1,5,6) by (metis distinct_card lst_distinct)
  then show "lst h' l ps'" using assms unfolding lst_def relinked_def by auto
  show "frame l h h'" using assms(1-3) lst_allocated [OF assms(1)] unfolding lst_def relinked_def frame_def by auto
qed

lemma unlink_lst:
  assumes "lst h l (xs @ e # ys)"
  obtains h' where "unlink e h = Some h'" "path h' (Root l # (xs @ ys) @ [Root l])"
    "relinked (insert (Root l) (set (xs @ ys))) h h'"
proof -
  have d: "distinct (xs @ ys)" "Root l \<notin> set (xs @ ys)" "e \<notin> insert (Root l) (set (xs @ ys))"
    using lst_distinct [OF assms] lst_Root [OF assms] by auto
  obtain us a b vs where s: "distinct (us @ a # butlast (b # vs))" "distinct (tl (us @ [a]) @ b # vs)"
    "\<And>zs. Root l # xs @ zs @ ys @ [Root l] = us @ a # zs @ b # vs" "{a, b} \<subseteq> insert (Root l) (set (xs @ ys))"
    using ring_split [OF d(1,2)] by metis
  have "set (us @ a # b # vs) = insert (Root l) (set (xs @ ys))" using s(3) [of "[]", symmetric] by auto
  with d(3) have e: "e \<notin> set (us @ a # b # vs)" by simp
  have "path h (us @ a # e # b # vs)" using assms s(3) [of "[e]"] by (simp add: lst_def)
  from unlink_path [OF this e s(1,2)] obtain h' where
    "unlink e h = Some h'" "path h' (us @ a # b # vs)" "relinked {a, b} h h'" by blast
  moreover from this(3) s(4) have "relinked (insert (Root l) (set (xs @ ys))) h h'" by (auto simp: relinked_def)
  ultimately show ?thesis using that s(3) [of "[]"] by simp
qed

lemma list_Remove_lst:
  assumes "lst h l (xs @ e # ys)"
  obtains h' where "list_Remove l e h = Some (Value (cells h e), h')" "lst h' l (xs @ ys)" "frame l h h'" "elist (cells h' e) = None"
    "brk h' = brk h"
proof -
  obtain h1 where h1: "unlink e h = Some h1" "path h1 (Root l # (xs @ ys) @ [Root l])"
    "relinked (insert (Root l) (set (xs @ ys))) h h1" by (rule unlink_lst [OF assms])
  let ?h2 = "set_list e None (set_prev e None (set_next e None h1))"
  let ?h' = "set_len l (llen ?h2 l - 1) ?h2"
  have e: "e \<notin> set (Root l # (xs @ ys) @ [Root l])" "elist (cells h e) = Some l" "\<exists>i < brk h. e = Elem i"
    using assms by (auto simp: lst_def)
  have "path ?h' (Root l # (xs @ ys) @ [Root l]) = path h1 (Root l # (xs @ ys) @ [Root l])"
    by (rule path_cong_cells) (use e(1) in auto)
  then have "lst ?h' l (xs @ ys)"
    using h1(2,3) assms e(1) unfolding lst_def relinked_def by auto
  moreover have "frame l h ?h'"
    using h1(3) assms e lst_allocated [OF assms] unfolding lst_def relinked_def frame_def by auto
  moreover have "list_Remove l e h = Some (Value (cells h e), ?h')"
    using h1(1,3) e(2) by (simp add: list_Remove_def list_remove_def Let_def relinked_def)
  moreover have "brk ?h' = brk h" using h1(3) by (simp add: relinked_def)
  ultimately show ?thesis using that by simp
qed

lemma list_move_lst:
  assumes "lst h l (xs @ e # ys)" "xs @ ys = xs' @ ys'"
  obtains h' where "list_move e (Some (last (Root l # xs'))) h = Some h'" "lst h' l (xs' @ e # ys')" "frame l h h'" "brk h' = brk h"
proof -
  obtain h1 where h1: "unlink e h = Some h1" "path h1 (Root l # (xs @ ys) @ [Root l])"
    "relinked (insert (Root l) (set (xs @ ys))) h h1" by (rule unlink_lst [OF assms(1)])
  have d: "distinct (xs' @ ys')" "Root l \<notin> set (xs' @ ys')" "e \<notin> insert (Root l) (set (xs' @ ys'))"
    using lst_distinct [OF assms(1)] lst_Root [OF assms(1), of l] unfolding assms(2) [symmetric] by auto
  obtain us a b vs where s: "a = last (Root l # xs')" "distinct (us @ a # butlast (b # vs))" "distinct (tl (us @ [a]) @ b # vs)"
    "\<And>zs. Root l # xs' @ zs @ ys' @ [Root l] = us @ a # zs @ b # vs" "{a, b} \<subseteq> insert (Root l) (set (xs' @ ys'))"
    using ring_split [OF d(1,2)] by metis
  have "set (us @ a # b # vs) = insert (Root l) (set (xs' @ ys'))" using s(4) [of "[]", symmetric] by auto
  with d(3) have e: "e \<notin> set (us @ a # b # vs)" by simp
  have "path h1 (us @ a # b # vs)" using h1(2) s(4) [of "[]"] unfolding assms(2) by simp
  from link_path [OF this e s(2,3)] obtain h' where
    h': "link e (Some a) h1 = Some h'" "path h' (us @ a # e # b # vs)" "relinked {a, b, e} h1 h'" by blast
  have r: "relinked (insert (Root l) (set (xs @ ys)) \<union> {a, b, e}) h h'" by (rule relinked_trans [OF h1(3) h'(3)])
  have p: "path h' (Root l # (xs' @ e # ys') @ [Root l])" using h'(2) s(4) [of "[e]"] by simp
  have "a \<noteq> e" using e by auto
  with h1(1) h'(1) have "list_move e (Some a) h = Some h'" by (simp add: list_move_def)
  moreover have "set (xs @ ys) = set (xs' @ ys')" using assms(2) by simp
  then have "lst h' l (xs' @ e # ys')" "frame l h h'"
    using relinked_lst [OF assms(1) r _ p] s(5) d by auto
  moreover have "brk h' = brk h" using r by (simp add: relinked_def)
  ultimately show ?thesis using that s(1) by simp
qed

section \<open>What each operation does to the sequence\<close>

lemma lst_ends:
  assumes "lst h l ps"
  shows "nx h (Root l) = Some (hd (ps @ [Root l]))" "pv h (Root l) = Some (last (Root l # ps))"
proof -
  have p: "path h (Root l # ps @ [Root l])" using assms by (simp add: lst_def)
  show "nx h (Root l) = Some (hd (ps @ [Root l]))" using p by (cases ps) auto
  show "pv h (Root l) = Some (last (Root l # ps))"
  proof (cases ps rule: rev_cases)
    case (snoc qs q)
    then show ?thesis using p path_append [of h "Root l # qs" q "[Root l]"] by simp
  qed (use p in auto)
qed

lemma lst_neighbours:
  assumes "lst h l (xs @ e # ys)"
  shows "nx h e = Some (hd (ys @ [Root l]))" "pv h e = Some (last (Root l # xs))"
proof -
  have p: "path h (Root l # (xs @ e # ys) @ [Root l])" using assms by (simp add: lst_def)
  then show "nx h e = Some (hd (ys @ [Root l]))"
    using path_append [of h "Root l # xs" e "ys @ [Root l]"] by (cases ys) auto
  show "pv h e = Some (last (Root l # xs))"
  proof (cases xs rule: rev_cases)
    case (snoc qs q)
    then show ?thesis using p path_append [of h "Root l # qs" q "e # ys @ [Root l]"] by simp
  qed (use p in auto)
qed

lemma lst_Next: "lst h l (xs @ e # ys) \<Longrightarrow> list_Next e h = (case ys of [] \<Rightarrow> None | y # _ \<Rightarrow> Some y)"
  using lst_neighbours(1) [of h l xs e ys] lst_Root [of h l "xs @ e # ys" l]
  by (auto simp: list_Next_def lst_def split: list.splits)

lemma lst_Prev:
  assumes "lst h l (xs @ e # ys)"
  shows "list_Prev e h = (if xs = [] then None else Some (last xs))"
proof -
  have "elist (cells h e) = Some l" using assms by (auto simp: lst_def)
  moreover have "xs \<noteq> [] \<Longrightarrow> last xs \<noteq> Root l" using lst_Root [OF assms, of l] by (metis UnCI last_in_set set_append)
  ultimately show ?thesis using lst_neighbours(2) [OF assms] by (simp add: list_Prev_def)
qed

lemma is_list_Front: "is_list h l ps \<Longrightarrow> Front l h = (case ps of [] \<Rightarrow> None | p # _ \<Rightarrow> Some p)"
  using lst_ends(1) [of h l ps] by (auto simp: Front_def is_list_def lst_def split: list.splits)

lemma is_list_Back: "is_list h l ps \<Longrightarrow> Back l h = (if ps = [] then None else Some (last ps))"
  using lst_ends(2) [of h l ps] by (auto simp: Back_def is_list_def lst_def)

lemma is_list_Len: "is_list h l ps \<Longrightarrow> list_Len l h = int (length ps)"
  by (auto simp: list_Len_def is_list_def lst_def)

lemma lazyInit_lst:
  assumes "is_list h l ps"
  shows "lst (lazyInit l h) l ps" "frame l h (lazyInit l h)" "brk (lazyInit l h) = brk h"
    "\<And>p. p \<noteq> Root l \<Longrightarrow> cells (lazyInit l h) p = cells h p"
  using assms lst_ends(1) [of h l ps]
  by (auto simp: is_list_def lazyInit_def list_Init_def lst_def frame_def)

lemma PushBack_lst:
  assumes "is_list h l ps"
  obtains h' where "PushBack l v h = Some (Elem (brk h), h')" "lst h' l (ps @ [Elem (brk h)])" "frame l h h'"
    "Value (cells h' (Elem (brk h))) = Some v" "brk h' = brk h + 1"
proof -
  note z = lazyInit_lst [OF assms]
  from z(1) have "lst (lazyInit l h) l (ps @ [])" by simp
  from insertValue_lst [OF this, of v] z(2,3) lst_ends(2) [OF z(1)] show ?thesis
    using that by (auto simp: PushBack_def Let_def intro: frame_trans)
qed

lemma PushFront_lst:
  assumes "is_list h l ps"
  obtains h' where "PushFront l v h = Some (Elem (brk h), h')" "lst h' l (Elem (brk h) # ps)" "frame l h h'"
    "Value (cells h' (Elem (brk h))) = Some v" "brk h' = brk h + 1"
proof -
  note z = lazyInit_lst [OF assms]
  from z(1) have "lst (lazyInit l h) l ([] @ ps)" by simp
  from insertValue_lst [OF this, of v] z(2,3) show ?thesis
    using that by (auto simp: PushFront_def intro: frame_trans)
qed

lemma lst_elist: "lst h l ps \<Longrightarrow> p \<in> set ps \<Longrightarrow> elist (cells h p) = Some l"
  by (auto simp: lst_def)

lemma InsertBefore_lst:
  assumes "lst h l (xs @ e # ys)"
  obtains h' where "InsertBefore l v e h = Some (Some (Elem (brk h)), h')" "lst h' l (xs @ Elem (brk h) # e # ys)" "frame l h h'"
    "Value (cells h' (Elem (brk h))) = Some v" "brk h' = brk h + 1"
  using insertValue_lst [OF assms, of v] lst_neighbours(2) [OF assms] lst_elist [OF assms, of e]
  by (auto simp: InsertBefore_def)

lemma InsertAfter_lst:
  assumes "lst h l (xs @ e # ys)"
  obtains h' where "InsertAfter l v e h = Some (Some (Elem (brk h)), h')" "lst h' l (xs @ e # Elem (brk h) # ys)" "frame l h h'"
    "Value (cells h' (Elem (brk h))) = Some v" "brk h' = brk h + 1"
proof -
  have "lst h l ((xs @ [e]) @ ys)" using assms by simp
  from insertValue_lst [OF this, of v] lst_elist [OF assms, of e] show ?thesis
    using that by (auto simp: InsertAfter_def)
qed

lemma MoveToFront_lst:
  assumes "lst h l (xs @ e # ys)"
  obtains h' where "MoveToFront l e h = Some h'" "lst h' l (e # xs @ ys)" "frame l h h'" "brk h' = brk h"
proof (cases "xs = []")
  case True
  with assms that [of h] lst_ends(1) [OF assms] show ?thesis by (simp add: MoveToFront_def)
next
  case False
  have "hd xs \<noteq> e" using lst_distinct [OF assms] False by (cases xs) auto
  with list_move_lst [OF assms, of "[]" "xs @ ys"] lst_ends(1) [OF assms] lst_elist [OF assms, of e] False show ?thesis
    using that by (auto simp: MoveToFront_def)
qed

lemma MoveToBack_lst:
  assumes "lst h l (xs @ e # ys)"
  obtains h' where "MoveToBack l e h = Some h'" "lst h' l (xs @ ys @ [e])" "frame l h h'" "brk h' = brk h"
proof (cases "ys = []")
  case True
  with assms that [of h] lst_ends(2) [OF assms] show ?thesis by (simp add: MoveToBack_def)
next
  case False
  have ne: "last ys \<noteq> e" using lst_distinct [OF assms] False by auto
  obtain h' where "list_move e (Some (last (Root l # xs @ ys))) h = Some h'" "lst h' l (xs @ ys @ [e])" "frame l h h'" "brk h' = brk h"
    using list_move_lst [OF assms, of "xs @ ys" "[]"] by auto
  with that ne lst_ends(2) [OF assms] lst_elist [OF assms, of e] False show ?thesis by (auto simp: MoveToBack_def)
qed

lemma move_args:
  assumes "lst h l (xs @ e # ys)" "xs @ ys = as @ m # bs"
  shows "m \<noteq> e" "elist (cells h e) = Some l" "elist (cells h m) = Some l"
proof -
  have m: "m \<in> set (xs @ ys)" unfolding assms(2) by simp
  with lst_distinct [OF assms(1)] show "m \<noteq> e" by auto
  from m show "elist (cells h e) = Some l" "elist (cells h m) = Some l" by (auto intro!: lst_elist [OF assms(1)])
qed

lemma MoveAfter_lst:
  assumes "lst h l (xs @ e # ys)" "xs @ ys = as @ m # bs"
  obtains h' where "MoveAfter l e m h = Some h'" "lst h' l (as @ m # e # bs)" "frame l h h'" "brk h' = brk h"
proof -
  have "xs @ ys = (as @ [m]) @ bs" using assms(2) by simp
  from list_move_lst [OF assms(1) this] move_args [OF assms] show ?thesis
    using that by (auto simp: MoveAfter_def)
qed

lemma MoveBefore_lst:
  assumes "lst h l (xs @ e # ys)" "xs @ ys = as @ m # bs"
  obtains h' where "MoveBefore l e m h = Some h'" "lst h' l (as @ e # m # bs)" "frame l h h'" "brk h' = brk h"
proof -
  note a = move_args [OF assms]
  obtain h' where h': "list_move e (Some (last (Root l # as))) h = Some h'" "lst h' l (as @ e # m # bs)" "frame l h h'" "brk h' = brk h"
    by (rule list_move_lst [OF assms])
  from assms(2) consider us where "xs = as @ m # us" | us where "as = xs @ us" "ys = us @ m # bs"
    by (auto simp: append_eq_append_conv2 append_eq_Cons_conv)
  then show ?thesis
  proof cases
    case 1
    then have "pv h m = Some (last (Root l # as))" using lst_neighbours(2) [of h l as m "us @ e # ys"] assms(1) by simp
    with h' a that show ?thesis by (auto simp: MoveBefore_def)
  next
    case 2
    then have pv: "pv h m = Some (last (e # us))" using lst_neighbours(2) [of h l "xs @ e # us" m bs] assms(1) by simp
    show ?thesis
    proof (cases "us = []")
      case True
      with pv 2 a that [of h] assms(1) show ?thesis by (simp add: MoveBefore_def list_move_def)
    next
      case False
      with pv 2 h' a that show ?thesis by (auto simp: MoveBefore_def)
    qed
  qed
qed

end
