(* ===== verification/LinkedListLaws.thy ===== *)
theory LinkedListLaws
  imports LinkedList
begin

text \<open>
  What the linked list promises to its users: it is a sequence of handles and values, and
  every operation does to that sequence what its comment in \<open>list.go\<close> says, whatever
  handles it is given. The sequence is what a traversal sees in either direction.
\<close>

section \<open>Copying a list to the end of another, or of itself\<close>

lemma list_values_append [simp]: "list_values h (ps @ qs) = list_values h ps @ list_values h qs"
  by (simp add: list_values_def)

lemma is_list_lazyInit: "is_list h l' ps \<Longrightarrow> is_list h l qs \<Longrightarrow> is_list (lazyInit l h) l' ps"
  using lazyInit_lst [of h l ps] lazyInit_lst(2) [of h l qs] by (cases "l' = l") (auto intro: frame_lst)

lemma PushBackList_loop_lst:
  assumes "lst h l ps" "lst h l' (us @ qs @ ws)" "l' = l \<Longrightarrow> ps = us @ qs @ ws"
  shows "\<exists>h' ns. PushBackList_loop l (length qs) (case qs of [] \<Rightarrow> e | q # _ \<Rightarrow> Some q) h = Some h' \<and> lst h' l (ps @ ns) \<and>
     ns = map Elem [brk h ..< brk h + length qs] \<and> list_values h' ns = list_values h qs \<and> frame l h h' \<and> brk h' = brk h + length qs"
  using assms
proof (induction qs arbitrary: h ps us ws e)
  case Nil
  then show ?case by (auto simp: list_values_def intro: exI [of _ "[]"])
next
  case (Cons q qs)
  from Cons.prems(2) obtain v where v: "Value (cells h q) = Some v" by (auto simp: lst_def)
  from Cons.prems(1) have "lst h l (ps @ [])" by simp
  from insertValue_lst [OF this, of v] obtain h1 where h1:
    "insertValue l v (Some (last (Root l # ps))) h = Some (Elem (brk h), h1)" "lst h1 l (ps @ [Elem (brk h)])" "frame l h h1"
    "Value (cells h1 (Elem (brk h))) = Some v" "brk h1 = brk h + 1" by auto
  define ws' where "ws' = (if l' = l then ws @ [Elem (brk h)] else ws)"
  have o: "lst h1 l' ((us @ [q]) @ qs @ ws')"
  proof (cases "l' = l")
    case True
    with h1(2) Cons.prems(3) show ?thesis by (simp add: ws'_def)
  next
    case False
    with frame_lst [OF h1(3) False, of "us @ (q # qs) @ ws"] Cons.prems(2) show ?thesis by (auto simp: ws'_def is_list_def)
  qed
  then have nxt: "list_Next q h1 = (case qs @ ws' of [] \<Rightarrow> None | y # _ \<Rightarrow> Some y)" using lst_Next [of h1 l' us q "qs @ ws'"] by simp
  have "l' = l \<Longrightarrow> ps @ [Elem (brk h)] = (us @ [q]) @ qs @ ws'" using Cons.prems(3) by (simp add: ws'_def)
  note IH = Cons.IH [OF h1(2) o this, of "list_Next q h1"]
  have "(case qs of [] \<Rightarrow> list_Next q h1 | q' # _ \<Rightarrow> Some q') = list_Next q h1" using nxt by (cases qs) simp_all
  with IH obtain h' ns where h':
    "PushBackList_loop l (length qs) (list_Next q h1) h1 = Some h'" "lst h' l ((ps @ [Elem (brk h)]) @ ns)"
    "ns = map Elem [brk h1 ..< brk h1 + length qs]" "list_values h' ns = list_values h1 qs" "frame l h1 h'" "brk h' = brk h1 + length qs"
    by (simp only:) blast
  have "list_values h1 qs = list_values h qs"
    using frame_Value [OF h1(3) lst_is_list [OF Cons.prems(2)]] by (simp add: list_values_def)
  moreover have "Value (cells h' (Elem (brk h))) = Some v"
    using frame_Value [OF h'(5) lst_is_list [OF h1(2)], of "Elem (brk h)"] h1(4) by simp
  moreover have "Elem (brk h) # ns = map Elem [brk h ..< brk h + length (q # qs)]"
    using h'(3) h1(5) by (simp add: upt_conv_Cons del: upt_Suc)
  moreover have "PushBackList_loop l (length (q # qs)) (Some q) h = Some h'"
    using v h1(1) h'(1) lst_ends(2) [OF Cons.prems(1)] by simp
  moreover from calculation(1,2) have "list_values h' (Elem (brk h) # ns) = list_values h (q # qs)"
    using h'(4) v by (simp add: list_values_def)
  ultimately show ?case
    using h'(2,6) h1(5) frame_trans [OF h1(3) h'(5)]
    by (intro exI [of _ h'] exI [of _ "Elem (brk h) # ns"] conjI) (simp_all del: upt_Suc PushBackList_loop.simps)
qed

lemma PushBackList_lst:
  assumes "is_list h l ps" "is_list h l' qs"
  obtains h' where "PushBackList l l' h = Some h'" "lst h' l (ps @ map Elem [brk h ..< brk h + length qs])"
    "list_values h' (map Elem [brk h ..< brk h + length qs]) = list_values h qs" "frame l h h'" "brk h' = brk h + length qs"
proof -
  note z = lazyInit_lst [OF assms(1)]
  have o: "is_list (lazyInit l h) l' qs" by (rule is_list_lazyInit [OF assms(2,1)])
  show ?thesis
  proof (cases "qs = []")
    case True
    then show ?thesis using that z is_list_Len [OF o] by (auto simp: PushBackList_def Let_def list_values_def)
  next
    case False
    with o have o': "lst (lazyInit l h) l' ([] @ qs @ [])" by (simp add: is_list_def)
    have "l' = l \<Longrightarrow> ps = [] @ qs @ []" using lst_unique [OF z(1)] o' by simp
    from PushBackList_loop_lst [OF z(1) o' this, of None] obtain h' where h':
      "PushBackList_loop l (length qs) (case qs of [] \<Rightarrow> None | q # _ \<Rightarrow> Some q) (lazyInit l h) = Some h'"
      "lst h' l (ps @ map Elem [brk h ..< brk h + length qs])"
      "list_values h' (map Elem [brk h ..< brk h + length qs]) = list_values (lazyInit l h) qs"
      "frame l (lazyInit l h) h'" "brk h' = brk h + length qs"
      unfolding z(3) by blast
    have "PushBackList l l' h = Some h'"
      using h'(1) is_list_Len [OF o] is_list_Front [OF o] by (simp add: PushBackList_def Let_def)
    moreover have "list_values (lazyInit l h) qs = list_values h qs"
      using frame_values [OF z(2) assms(2)] .
    ultimately show ?thesis using that h' frame_trans [OF z(2) h'(4)] by simp
  qed
qed

lemma PushFrontList_loop_lst:
  assumes "lst h l ps" "lst h l' (ws @ qs @ us)" "l' = l \<Longrightarrow> ps = ws @ qs @ us"
  shows "\<exists>h' ns. PushFrontList_loop l (length qs) (if qs = [] then e else Some (last qs)) h = Some h' \<and> lst h' l (ns @ ps) \<and>
     ns = map Elem (rev [brk h ..< brk h + length qs]) \<and> list_values h' ns = list_values h qs \<and> frame l h h' \<and> brk h' = brk h + length qs"
  using assms
proof (induction qs arbitrary: h ps us ws e rule: rev_induct)
  case Nil
  then show ?case by (auto simp: list_values_def intro: exI [of _ "[]"])
next
  case (snoc q qs)
  from snoc.prems(2) obtain v where v: "Value (cells h q) = Some v" by (auto simp: lst_def)
  from snoc.prems(1) have "lst h l ([] @ ps)" by simp
  from insertValue_lst [OF this, of v] obtain h1 where h1:
    "insertValue l v (Some (Root l)) h = Some (Elem (brk h), h1)" "lst h1 l (Elem (brk h) # ps)" "frame l h h1"
    "Value (cells h1 (Elem (brk h))) = Some v" "brk h1 = brk h + 1" by auto
  define ws' where "ws' = (if l' = l then Elem (brk h) # ws else ws)"
  have o: "lst h1 l' (ws' @ qs @ (q # us))"
  proof (cases "l' = l")
    case True
    with h1(2) snoc.prems(3) show ?thesis by (simp add: ws'_def)
  next
    case False
    with frame_lst [OF h1(3) False, of "ws @ (qs @ [q]) @ us"] snoc.prems(2) show ?thesis by (auto simp: ws'_def is_list_def)
  qed
  then have prv: "list_Prev q h1 = (if ws' @ qs = [] then None else Some (last (ws' @ qs)))"
    using lst_Prev [of h1 l' "ws' @ qs" q us] by simp
  have "l' = l \<Longrightarrow> Elem (brk h) # ps = ws' @ qs @ (q # us)" using snoc.prems(3) by (simp add: ws'_def)
  note IH = snoc.IH [OF h1(2) o this, of "list_Prev q h1"]
  have "(if qs = [] then list_Prev q h1 else Some (last qs)) = list_Prev q h1" using prv by (cases qs) simp_all
  with IH obtain h' ns where h':
    "PushFrontList_loop l (length qs) (list_Prev q h1) h1 = Some h'" "lst h' l (ns @ Elem (brk h) # ps)"
    "ns = map Elem (rev [brk h1 ..< brk h1 + length qs])" "list_values h' ns = list_values h1 qs" "frame l h1 h'" "brk h' = brk h1 + length qs"
    by (simp only:) blast
  have "list_values h1 qs = list_values h qs"
    using frame_Value [OF h1(3) lst_is_list [OF snoc.prems(2)]] by (simp add: list_values_def)
  moreover have "Value (cells h' (Elem (brk h))) = Some v"
    using frame_Value [OF h'(5) lst_is_list [OF h1(2)], of "Elem (brk h)"] h1(4) by simp
  moreover have "ns @ [Elem (brk h)] = map Elem (rev [brk h ..< brk h + length (qs @ [q])])"
    using h'(3) h1(5) by (simp add: upt_conv_Cons del: upt_Suc)
  moreover have "PushFrontList_loop l (length (qs @ [q])) (Some q) h = Some h'"
    using v h1(1) h'(1) by simp
  moreover from calculation(1,2) have "list_values h' (ns @ [Elem (brk h)]) = list_values h (qs @ [q])"
    using h'(4) v by (simp add: list_values_def)
  moreover have L: "lst h' l ((ns @ [Elem (brk h)]) @ ps)" using h'(2) by simp
  ultimately show ?case
    using h'(6) h1(5) frame_trans [OF h1(3) h'(5)]
    by (intro exI [of _ h'] exI [of _ "ns @ [Elem (brk h)]"] conjI) (rule L | simp del: upt_Suc PushFrontList_loop.simps)+
qed

lemma PushFrontList_lst:
  assumes "is_list h l ps" "is_list h l' qs"
  obtains h' where "PushFrontList l l' h = Some h'" "lst h' l (map Elem (rev [brk h ..< brk h + length qs]) @ ps)"
    "list_values h' (map Elem (rev [brk h ..< brk h + length qs])) = list_values h qs" "frame l h h'" "brk h' = brk h + length qs"
proof -
  note z = lazyInit_lst [OF assms(1)]
  have o: "is_list (lazyInit l h) l' qs" by (rule is_list_lazyInit [OF assms(2,1)])
  show ?thesis
  proof (cases "qs = []")
    case True
    then show ?thesis using that z is_list_Len [OF o] by (auto simp: PushFrontList_def Let_def list_values_def)
  next
    case False
    with o have o': "lst (lazyInit l h) l' ([] @ qs @ [])" by (simp add: is_list_def)
    have "l' = l \<Longrightarrow> ps = [] @ qs @ []" using lst_unique [OF z(1)] o' by simp
    from PushFrontList_loop_lst [OF z(1) o' this, of None] obtain h' where h':
      "PushFrontList_loop l (length qs) (if qs = [] then None else Some (last qs)) (lazyInit l h) = Some h'"
      "lst h' l (map Elem (rev [brk h ..< brk h + length qs]) @ ps)"
      "list_values h' (map Elem (rev [brk h ..< brk h + length qs])) = list_values (lazyInit l h) qs"
      "frame l (lazyInit l h) h'" "brk h' = brk h + length qs"
      unfolding z(3) by blast
    have "PushFrontList l l' h = Some h'"
      using h'(1) is_list_Len [OF o] is_list_Back [OF o] by (simp add: PushFrontList_def Let_def)
    moreover have "list_values (lazyInit l h) qs = list_values h qs"
      using frame_values [OF z(2) assms(2)] .
    ultimately show ?thesis using that h' frame_trans [OF z(2) h'(4)] by simp
  qed
qed

section \<open>The list as a sequence\<close>

text \<open>Calls on one list, with handles that need not belong to it (any more).\<close>

datatype 'v list_op =
    DoPushFront 'v | DoPushBack 'v | DoInsertBefore 'v nat | DoInsertAfter 'v nat | DoRemove nat
  | DoMoveToFront nat | DoMoveToBack nat | DoMoveBefore nat nat | DoMoveAfter nat nat
  | DoPushBackSelf | DoPushFrontSelf

fun list_step :: "nat \<Rightarrow> 'v list_op \<Rightarrow> 'v lheap \<Rightarrow> 'v lheap option" where
  "list_step l (DoPushFront v) h = map_option snd (PushFront l v h)"
| "list_step l (DoPushBack v) h = map_option snd (PushBack l v h)"
| "list_step l (DoInsertBefore v m) h = map_option snd (InsertBefore l v (Elem m) h)"
| "list_step l (DoInsertAfter v m) h = map_option snd (InsertAfter l v (Elem m) h)"
| "list_step l (DoRemove e) h = map_option snd (list_Remove l (Elem e) h)"
| "list_step l (DoMoveToFront e) h = MoveToFront l (Elem e) h"
| "list_step l (DoMoveToBack e) h = MoveToBack l (Elem e) h"
| "list_step l (DoMoveBefore e m) h = MoveBefore l (Elem e) (Elem m) h"
| "list_step l (DoMoveAfter e m) h = MoveAfter l (Elem e) (Elem m) h"
| "list_step l DoPushBackSelf h = PushBackList l l h"
| "list_step l DoPushFrontSelf h = PushFrontList l l h"

fun list_run :: "nat \<Rightarrow> 'v list_op list \<Rightarrow> 'v lheap \<Rightarrow> 'v lheap option" where
  "list_run l [] h = Some h"
| "list_run l (op # ops) h = Option.bind (list_step l op h) (list_run l ops)"

text \<open>The specification: a sequence of handles with their values, and the next new handle.\<close>

type_synonym 'v items = "(nat \<times> 'v) list"

definition only :: "nat \<Rightarrow> 'v items \<Rightarrow> 'v items" where
  "only e xs = filter (\<lambda>p. fst p = e) xs"

definition without :: "nat \<Rightarrow> 'v items \<Rightarrow> 'v items" where
  "without e xs = filter (\<lambda>p. fst p \<noteq> e) xs"

definition put_before :: "nat \<Rightarrow> 'v items \<Rightarrow> 'v items \<Rightarrow> 'v items" where
  "put_before m ys xs = takeWhile (\<lambda>p. fst p \<noteq> m) xs @ ys @ dropWhile (\<lambda>p. fst p \<noteq> m) xs"

definition put_after :: "nat \<Rightarrow> 'v items \<Rightarrow> 'v items \<Rightarrow> 'v items" where
  "put_after m ys xs =
     takeWhile (\<lambda>p. fst p \<noteq> m) xs @
     (case dropWhile (\<lambda>p. fst p \<noteq> m) xs of [] \<Rightarrow> [] | p # ps \<Rightarrow> p # ys @ ps)"

fun seq_step :: "'v list_op \<Rightarrow> nat \<times> 'v items \<Rightarrow> nat \<times> 'v items" where
  "seq_step (DoPushFront v) (n, xs) = (n + 1, (n, v) # xs)"
| "seq_step (DoPushBack v) (n, xs) = (n + 1, xs @ [(n, v)])"
| "seq_step (DoInsertBefore v m) (n, xs) =
     (if m \<in> fst ` set xs then (n + 1, put_before m [(n, v)] xs) else (n, xs))"
| "seq_step (DoInsertAfter v m) (n, xs) =
     (if m \<in> fst ` set xs then (n + 1, put_after m [(n, v)] xs) else (n, xs))"
| "seq_step (DoRemove e) (n, xs) = (n, without e xs)"
| "seq_step (DoMoveToFront e) (n, xs) = (n, only e xs @ without e xs)"
| "seq_step (DoMoveToBack e) (n, xs) = (n, without e xs @ only e xs)"
| "seq_step (DoMoveBefore e m) (n, xs) =
     (n, if e \<noteq> m \<and> m \<in> fst ` set xs then put_before m (only e xs) (without e xs) else xs)"
| "seq_step (DoMoveAfter e m) (n, xs) =
     (n, if e \<noteq> m \<and> m \<in> fst ` set xs then put_after m (only e xs) (without e xs) else xs)"
| "seq_step DoPushBackSelf (n, xs) = (n + length xs, xs @ zip [n ..< n + length xs] (map snd xs))"
| "seq_step DoPushFrontSelf (n, xs) = (n + length xs, zip (rev [n ..< n + length xs]) (map snd xs) @ xs)"

definition seq_run :: "'v list_op list \<Rightarrow> nat \<times> 'v items" where
  "seq_run ops = fold seq_step ops (0, [])"

text \<open>The loop \<open>for e := l.Front(); e != nil; e = e.Next()\<close> and its mirror image, with
  fuel: the handles and values they visit.\<close>

fun forward :: "nat \<Rightarrow> ptr option \<Rightarrow> 'v lheap \<Rightarrow> (ptr \<times> 'v option) list option" where
  "forward fuel None h = Some []"
| "forward 0 (Some e) h = None"
| "forward (Suc fuel) (Some e) h = map_option (Cons (e, Value (cells h e))) (forward fuel (list_Next e h) h)"

fun backward :: "nat \<Rightarrow> ptr option \<Rightarrow> 'v lheap \<Rightarrow> (ptr \<times> 'v option) list option" where
  "backward fuel None h = Some []"
| "backward 0 (Some e) h = None"
| "backward (Suc fuel) (Some e) h = map_option (Cons (e, Value (cells h e))) (backward fuel (list_Prev e h) h)"

lemma forward_lst:
  assumes "lst h l (us @ qs)"
  shows "forward (Suc (length qs)) (case qs of [] \<Rightarrow> None | q # _ \<Rightarrow> Some q) h = Some (map (\<lambda>p. (p, Value (cells h p))) qs)"
  using assms
proof (induction qs arbitrary: us)
  case (Cons q qs)
  have "lst h l ((us @ [q]) @ qs)" using Cons.prems by simp
  from Cons.IH [OF this] lst_Next [OF Cons.prems] show ?case by simp
qed simp

lemma backward_lst:
  assumes "lst h l (qs @ us)"
  shows "backward (Suc (length qs)) (if qs = [] then None else Some (last qs)) h = Some (map (\<lambda>p. (p, Value (cells h p))) (rev qs))"
  using assms
proof (induction qs arbitrary: us rule: rev_induct)
  case (snoc q qs)
  have "lst h l (qs @ q # us)" using snoc.prems by simp
  from snoc.IH [OF this] lst_Prev [OF this] show ?case by simp
qed simp

text \<open>The simulation relation between a store and the sequence.\<close>

definition rep :: "nat \<Rightarrow> 'v lheap \<Rightarrow> nat \<times> 'v items \<Rightarrow> bool" where
  "rep l h s \<longleftrightarrow> is_list h l (map (\<lambda>p. Elem (fst p)) (snd s)) \<and> brk h = fst s \<and>
     (\<forall>p \<in> set (snd s). Value (cells h (Elem (fst p))) = Some (snd p)) \<and>
     (\<forall>i. elist (cells h (Elem i)) = Some l \<longrightarrow> i \<in> fst ` set (snd s))"

lemma rep_keys: "rep l h (n, xs) \<Longrightarrow> distinct (map fst xs) \<and> (\<forall>p \<in> set xs. fst p < n)"
  by (fastforce simp: rep_def is_list_def lst_def distinct_map comp_def inj_on_def)

lemma rep_intro:
  assumes "rep l h (n, xs)" "frame l h h'" "lst h' l (map (\<lambda>p. Elem (fst p)) ys)" "brk h' = m"
    "\<And>p. p \<in> set ys \<Longrightarrow> p \<in> set xs \<or> Value (cells h' (Elem (fst p))) = Some (snd p)"
    "\<And>i. n \<le> i \<Longrightarrow> i < m \<Longrightarrow> i \<in> fst ` set ys"
    "\<And>i. i \<in> fst ` set xs \<Longrightarrow> elist (cells h' (Elem i)) = Some l \<Longrightarrow> i \<in> fst ` set ys"
  shows "rep l h' (m, ys)"
proof -
  have "Value (cells h' (Elem (fst p))) = Some (snd p)" if "p \<in> set ys" for p
    using assms(5) [OF that]
  proof
    assume "p \<in> set xs"
    with assms(1,2) rep_keys [OF assms(1)] show ?thesis by (auto simp: rep_def frame_def)
  qed
  moreover have "i \<in> fst ` set ys" if "elist (cells h' (Elem i)) = Some l" for i
  proof -
    consider "i < n" | "n \<le> i" "i < m" | "m \<le> i" by linarith
    then show ?thesis
    proof cases
      case 1
      with that assms(1,2) have "i \<in> fst ` set xs" by (auto simp: rep_def frame_def)
      then show ?thesis using assms(7) that by blast
    next
      case 3
      with that assms(1,2,4) have "elist (cells h (Elem i)) = Some l" by (auto simp: frame_def)
      then have "i \<in> fst ` set xs" using assms(1) by (auto simp: rep_def)
      then show ?thesis using assms(7) that by blast
    qed (use assms(6) in blast)
  qed
  ultimately show ?thesis using assms(3,4) by (simp add: rep_def)
qed

lemma key_split:
  assumes "i \<in> fst ` set xs" "distinct (map fst xs)"
  obtains as v bs where "xs = as @ (i, v) # bs" "only i xs = [(i, v)]" "without i xs = as @ bs"
    "\<And>ys. put_before i ys xs = as @ ys @ (i, v) # bs" "\<And>ys. put_after i ys xs = as @ (i, v) # ys @ bs"
proof -
  from assms(1) obtain as v bs where xs: "xs = as @ (i, v) # bs" by (metis imageE prod.collapse split_list)
  with assms(2) have n: "\<forall>p \<in> set as. fst p \<noteq> i" "\<forall>p \<in> set bs. fst p \<noteq> i" by auto
  then have "only i xs = [(i, v)]" "without i xs = as @ bs" by (auto simp: xs only_def without_def filter_empty_conv)
  moreover have "takeWhile (\<lambda>p. fst p \<noteq> i) xs = as" "dropWhile (\<lambda>p. fst p \<noteq> i) xs = (i, v) # bs"
    using n by (simp_all add: xs)
  ultimately show ?thesis using that [OF xs] by (simp add: put_before_def put_after_def)
qed

lemma put_Nil [simp]: "put_before m [] xs = xs" "put_after m [] xs = xs"
proof -
  show "put_before m [] xs = xs" by (simp add: put_before_def)
  have "(case ys of [] \<Rightarrow> [] | p # ps \<Rightarrow> p # [] @ ps) = ys" for ys :: "(nat \<times> 'a) list" by (cases ys) simp_all
  then show "put_after m [] xs = xs" unfolding put_after_def by simp
qed

lemma only_absent: "i \<notin> fst ` set xs \<Longrightarrow> only i xs = [] \<and> without i xs = xs"
  by (auto simp: only_def without_def filter_empty_conv filter_id_conv)

lemma rep_absent: "rep l h (n, xs) \<Longrightarrow> i \<notin> fst ` set xs \<Longrightarrow> elist (cells h (Elem i)) \<noteq> Some l"
  by (auto simp: rep_def)

lemma rep_lst: "rep l h (n, as @ (i, v) # bs) \<Longrightarrow>
    lst h l (map (\<lambda>p. Elem (fst p)) as @ Elem i # map (\<lambda>p. Elem (fst p)) bs)"
  by (auto simp: rep_def is_list_def)

text \<open>The operations that add one element, and those that only rearrange.\<close>

lemma rep_add:
  assumes "rep l h (n, as @ bs)" "frame l h h'" "lst h' l (map (\<lambda>p. Elem (fst p)) as @ Elem n # map (\<lambda>p. Elem (fst p)) bs)"
    "Value (cells h' (Elem n)) = Some v" "brk h' = n + 1"
  shows "rep l h' (n + 1, as @ (n, v) # bs)"
  by (rule rep_intro [OF assms(1,2)]) (use assms(3-5) in auto)

lemma rep_permute:
  assumes "rep l h (n, xs)" "frame l h h'" "lst h' l (map (\<lambda>p. Elem (fst p)) ys)" "brk h' = brk h" "set ys = set xs"
  shows "rep l h' (n, ys)"
  by (rule rep_intro [OF assms(1,2,3)]) (use assms in \<open>auto simp: rep_def\<close>)

lemma step_add:
  assumes "rep l h (n, xs)"
  shows "\<exists>h'. list_step l (DoPushFront v) h = Some h' \<and> rep l h' (n + 1, (n, v) # xs)"
    "\<exists>h'. list_step l (DoPushBack v) h = Some h' \<and> rep l h' (n + 1, xs @ [(n, v)])"
proof -
  have l: "is_list h l (map (\<lambda>p. Elem (fst p)) xs)" "brk h = n" using assms by (simp_all add: rep_def)
  show "\<exists>h'. list_step l (DoPushFront v) h = Some h' \<and> rep l h' (n + 1, (n, v) # xs)"
    by (rule PushFront_lst [OF l(1), of v]) (use l(2) rep_add [of l h n "[]" xs] assms in auto)
  show "\<exists>h'. list_step l (DoPushBack v) h = Some h' \<and> rep l h' (n + 1, xs @ [(n, v)])"
    by (rule PushBack_lst [OF l(1), of v]) (use l(2) rep_add [of l h n xs "[]"] assms in auto)
qed

lemma step_insert:
  assumes "rep l h (n, as @ (m, w) # bs)"
  shows "\<exists>h'. list_step l (DoInsertBefore v m) h = Some h' \<and> rep l h' (n + 1, as @ (n, v) # (m, w) # bs)"
    "\<exists>h'. list_step l (DoInsertAfter v m) h = Some h' \<and> rep l h' (n + 1, as @ (m, w) # (n, v) # bs)"
proof -
  have n: "brk h = n" using assms by (simp add: rep_def)
  show "\<exists>h'. list_step l (DoInsertBefore v m) h = Some h' \<and> rep l h' (n + 1, as @ (n, v) # (m, w) # bs)"
    by (rule InsertBefore_lst [OF rep_lst [OF assms], of v]) (use n rep_add [of l h n as "(m, w) # bs"] assms in auto)
  show "\<exists>h'. list_step l (DoInsertAfter v m) h = Some h' \<and> rep l h' (n + 1, as @ (m, w) # (n, v) # bs)"
    by (rule InsertAfter_lst [OF rep_lst [OF assms], of v]) (use n rep_add [of l h n "as @ [(m, w)]" bs] assms in auto)
qed

lemma step_move_ends:
  assumes "rep l h (n, as @ (e, w) # bs)"
  shows "\<exists>h'. list_step l (DoRemove e) h = Some h' \<and> rep l h' (n, as @ bs)"
    "\<exists>h'. list_step l (DoMoveToFront e) h = Some h' \<and> rep l h' (n, (e, w) # as @ bs)"
    "\<exists>h'. list_step l (DoMoveToBack e) h = Some h' \<and> rep l h' (n, as @ bs @ [(e, w)])"
proof -
  note L = rep_lst [OF assms]
  obtain h' where h': "list_Remove l (Elem e) h = Some (Value (cells h (Elem e)), h')"
    "lst h' l (map (\<lambda>p. Elem (fst p)) (as @ bs))" "frame l h h'" "elist (cells h' (Elem e)) = None" "brk h' = brk h"
    by (rule list_Remove_lst [OF L]) auto
  have "rep l h' (n, as @ bs)"
    by (rule rep_intro [OF assms h'(3,2)])
       (use h' assms in \<open>auto simp: rep_def\<close>)
  with h' show "\<exists>h'. list_step l (DoRemove e) h = Some h' \<and> rep l h' (n, as @ bs)" by simp
  obtain h1 where "MoveToFront l (Elem e) h = Some h1" "frame l h h1" "brk h1 = brk h" "lst h1 l (map (\<lambda>p. Elem (fst p)) ((e, w) # as @ bs))"
    by (rule MoveToFront_lst [OF L]) auto
  then show "\<exists>h'. list_step l (DoMoveToFront e) h = Some h' \<and> rep l h' (n, (e, w) # as @ bs)"
    using rep_permute [OF assms] by simp
  obtain h2 where "MoveToBack l (Elem e) h = Some h2" "frame l h h2" "brk h2 = brk h" "lst h2 l (map (\<lambda>p. Elem (fst p)) (as @ bs @ [(e, w)]))"
    by (rule MoveToBack_lst [OF L]) auto
  then show "\<exists>h'. list_step l (DoMoveToBack e) h = Some h' \<and> rep l h' (n, as @ bs @ [(e, w)])"
    using rep_permute [OF assms] by simp
qed

lemma step_move_mark:
  assumes "rep l h (n, xs @ (e, w) # ys)" "xs @ ys = as @ (m, u) # bs"
  shows "\<exists>h'. list_step l (DoMoveBefore e m) h = Some h' \<and> rep l h' (n, as @ (e, w) # (m, u) # bs)"
    "\<exists>h'. list_step l (DoMoveAfter e m) h = Some h' \<and> rep l h' (n, as @ (m, u) # (e, w) # bs)"
proof -
  note L = rep_lst [OF assms(1)]
  have eq: "map (\<lambda>p. Elem (fst p)) xs @ map (\<lambda>p. Elem (fst p)) ys = map (\<lambda>p. Elem (fst p)) as @ Elem m # map (\<lambda>p. Elem (fst p)) bs"
    using assms(2) [THEN arg_cong, of "map (\<lambda>p. Elem (fst p))"] by simp
  have set: "set (as @ (e, w) # (m, u) # bs) = set (xs @ (e, w) # ys)" "set (as @ (m, u) # (e, w) # bs) = set (xs @ (e, w) # ys)"
    using assms(2) [THEN arg_cong, of set] by auto
  obtain h1 where "MoveBefore l (Elem e) (Elem m) h = Some h1" "frame l h h1" "brk h1 = brk h"
    "lst h1 l (map (\<lambda>p. Elem (fst p)) (as @ (e, w) # (m, u) # bs))"
    by (rule MoveBefore_lst [OF L eq]) auto
  then show "\<exists>h'. list_step l (DoMoveBefore e m) h = Some h' \<and> rep l h' (n, as @ (e, w) # (m, u) # bs)"
    using rep_permute [OF assms(1) _ _ _ set(1)] by simp
  obtain h2 where "MoveAfter l (Elem e) (Elem m) h = Some h2" "frame l h h2" "brk h2 = brk h"
    "lst h2 l (map (\<lambda>p. Elem (fst p)) (as @ (m, u) # (e, w) # bs))"
    by (rule MoveAfter_lst [OF L eq]) auto
  then show "\<exists>h'. list_step l (DoMoveAfter e m) h = Some h' \<and> rep l h' (n, as @ (m, u) # (e, w) # bs)"
    using rep_permute [OF assms(1) _ _ _ set(2)] by simp
qed

lemma rep_copies:
  assumes "rep l h (n, xs)" "frame l h h'" "lst h' l (us @ map Elem is @ vs)" "list_values h' (map Elem is) = list_values h (map (\<lambda>p. Elem (fst p)) xs)"
    "length is = length xs" "p \<in> set (zip is (map snd xs))"
  shows "Value (cells h' (Elem (fst p))) = Some (snd p)"
proof -
  obtain k where k: "k < length xs" "p = (is ! k, snd (xs ! k))"
    using assms(5,6) by (auto simp: set_zip)
  have "the (Value (cells h' (Elem (is ! k)))) = snd (xs ! k)"
    using arg_cong [OF assms(4), of "\<lambda>vs. vs ! k"] k(1) assms(1,5) by (simp add: list_values_def rep_def)
  moreover have "Elem (is ! k) \<in> set (us @ map Elem is @ vs)" using k(1) assms(5) by simp
  then have "Value (cells h' (Elem (is ! k))) \<noteq> None" using assms(3) unfolding lst_def by blast
  ultimately show ?thesis using k(2) by auto
qed

lemma step_self:
  assumes "rep l h (n, xs)"
  shows "\<exists>h'. list_step l DoPushBackSelf h = Some h' \<and> rep l h' (n + length xs, xs @ zip [n ..< n + length xs] (map snd xs))"
    "\<exists>h'. list_step l DoPushFrontSelf h = Some h' \<and> rep l h' (n + length xs, zip (rev [n ..< n + length xs]) (map snd xs) @ xs)"
proof -
  let ?ps = "map (\<lambda>p. Elem (fst p)) xs"
  have l: "is_list h l ?ps" "brk h = n" using assms by (simp_all add: rep_def)
  have keys: "map (\<lambda>p. Elem (fst p)) (zip is (map snd xs)) = map Elem is" "fst ` set (zip is (map snd xs)) = set is"
    if "length is = length xs" for "is"
    using that by (simp_all flip: list.map_comp [unfolded comp_def] set_map)
  obtain h' where h': "PushBackList l l h = Some h'" "lst h' l (?ps @ map Elem [n ..< n + length xs])"
    "list_values h' (map Elem [n ..< n + length xs]) = list_values h ?ps" "frame l h h'" "brk h' = n + length xs"
    by (rule PushBackList_lst [OF l(1) l(1)]) (simp add: l(2))
  have "rep l h' (n + length xs, xs @ zip [n ..< n + length xs] (map snd xs))"
    by (rule rep_intro [OF assms h'(4)])
       (use h'(2,5) keys [of "[n ..< n + length xs]"] rep_copies [OF assms h'(4) _ h'(3), of ?ps "[]"] in \<open>auto simp: image_Un\<close>)
  with h' show "\<exists>h'. list_step l DoPushBackSelf h = Some h' \<and> rep l h' (n + length xs, xs @ zip [n ..< n + length xs] (map snd xs))"
    by simp
  obtain h' where h': "PushFrontList l l h = Some h'" "lst h' l (map Elem (rev [n ..< n + length xs]) @ ?ps)"
    "list_values h' (map Elem (rev [n ..< n + length xs])) = list_values h ?ps" "frame l h h'" "brk h' = n + length xs"
    by (rule PushFrontList_lst [OF l(1) l(1)]) (simp add: l(2))
  have "rep l h' (n + length xs, zip (rev [n ..< n + length xs]) (map snd xs) @ xs)"
    by (rule rep_intro [OF assms h'(4)])
       (use h'(2,5) keys [of "rev [n ..< n + length xs]"] rep_copies [OF assms h'(4) _ h'(3), of "[]" ?ps] in \<open>auto simp: image_Un\<close>)
  with h' show "\<exists>h'. list_step l DoPushFrontSelf h = Some h' \<and> rep l h' (n + length xs, zip (rev [n ..< n + length xs]) (map snd xs) @ xs)"
    by simp
qed

lemma step_absent:
  assumes "rep l h (n, xs)" "i \<notin> fst ` set xs"
    "op \<in> {DoInsertBefore v i, DoInsertAfter v i, DoRemove i, DoMoveToFront i, DoMoveToBack i}"
  shows "list_step l op h = Some h"
  using rep_absent [OF assms(1,2)] assms(3)
  by (auto simp: InsertBefore_def InsertAfter_def list_Remove_def MoveToFront_def MoveToBack_def)

lemma list_step_seq:
  assumes "rep l h (n, xs)"
  shows "\<exists>h'. list_step l op h = Some h' \<and> rep l h' (seq_step op (n, xs))"
proof -
  note keys = rep_keys [OF assms, THEN conjunct1]
  have one: "\<exists>h'. list_step l op h = Some h' \<and> rep l h' (seq_step op (n, xs))"
    if "op \<in> {DoInsertBefore v i, DoInsertAfter v i, DoRemove i, DoMoveToFront i, DoMoveToBack i}" for v i
  proof (cases "i \<in> fst ` set xs")
    case True
    from key_split [OF this keys] obtain as w bs where xs: "xs = as @ (i, w) # bs" "only i xs = [(i, w)]" "without i xs = as @ bs"
      "\<And>ys. put_before i ys xs = as @ ys @ (i, w) # bs" "\<And>ys. put_after i ys xs = as @ (i, w) # ys @ bs" by metis
    have "rep l h (n, as @ (i, w) # bs)" using assms xs(1) by simp
    from step_insert [OF this, of v] step_move_ends [OF this] that show ?thesis
      by (elim insertE emptyE) (simp_all add: True xs(2-))
  next
    case False
    with step_absent [OF assms False, of op v] only_absent [OF False] that assms show ?thesis by auto
  qed
  have two: "\<exists>h'. list_step l op h = Some h' \<and> rep l h' (seq_step op (n, xs))"
    if op: "op \<in> {DoMoveBefore e m, DoMoveAfter e m}" for e m
  proof (cases "e \<noteq> m \<and> m \<in> fst ` set xs \<and> e \<in> fst ` set xs")
    case True
    from key_split [OF _ keys, of e] True obtain as w bs where
      xs: "xs = as @ (e, w) # bs" "only e xs = [(e, w)]" "without e xs = as @ bs" by metis
    have "m \<in> fst ` set (as @ bs)" "distinct (map fst (as @ bs))" using True xs(1) keys by auto
    from key_split [OF this] obtain cs u ds where ys: "as @ bs = cs @ (m, u) # ds"
      "\<And>ys. put_before m ys (as @ bs) = cs @ ys @ (m, u) # ds" "\<And>ys. put_after m ys (as @ bs) = cs @ (m, u) # ys @ ds" by metis
    have "rep l h (n, as @ (e, w) # bs)" using assms xs(1) by simp
    from step_move_mark [OF this ys(1)] op show ?thesis
      by (elim insertE emptyE) (simp_all add: True xs(2,3) ys(2,3))
  next
    case False
    then have "list_step l op h = Some h"
      using rep_absent [OF assms, of e] rep_absent [OF assms, of m] op by (auto simp: MoveBefore_def MoveAfter_def)
    moreover have "snd (seq_step op (n, xs)) = xs"
    proof (cases "e \<noteq> m \<and> m \<in> fst ` set xs")
      case True
      with False have "e \<notin> fst ` set xs" by simp
      with op only_absent [of e xs] show ?thesis by auto
    qed (use op in auto)
    ultimately show ?thesis using assms op by auto
  qed
  show ?thesis
    using step_add [OF assms] step_self [OF assms] one two by (cases op) auto
qed

section \<open>Property\<close>

text \<open>
  C20. The list is a sequence. After any calls of its operations on an empty list, with any
  handles, none of them has panicked, \<open>Len\<close> is the length of the sequence the calls
  specify, and the loops over \<open>Front\<close>/\<open>Next\<close> and \<open>Back\<close>/\<open>Prev\<close> end and see exactly that
  sequence of handles and values, in order and in reverse.
\<close>

theorem list_is_sequence:
  "\<exists>h. list_run l ops empty_lheap = Some h \<and>
     (let xs = snd (seq_run ops) in
      list_Len l h = int (length xs) \<and>
      forward (Suc (length xs)) (Front l h) h = Some (map (\<lambda>p. (Elem (fst p), Some (snd p))) xs) \<and>
      backward (Suc (length xs)) (Back l h) h = Some (map (\<lambda>p. (Elem (fst p), Some (snd p))) (rev xs)))"
proof -
  have run: "\<exists>h'. list_run l ops h = Some h' \<and> rep l h' (fold seq_step ops (n, xs))" if "rep l h (n, xs)" for h n xs
    using that
  proof (induction ops arbitrary: h n xs)
    case (Cons op ops)
    from list_step_seq [OF Cons.prems] obtain h1 where
      "list_step l op h = Some h1" "rep l h1 (seq_step op (n, xs))" by blast
    then show ?case using Cons.IH by (cases "seq_step op (n, xs)") auto
  qed simp
  have "rep l empty_lheap (0, [])" by (simp add: rep_def is_list_def empty_lheap_def zero_element_def)
  from run [OF this] obtain h where h: "list_run l ops empty_lheap = Some h" "rep l h (seq_run ops)"
    by (auto simp: seq_run_def)
  obtain n xs where s: "seq_run ops = (n, xs)" by fastforce
  let ?ps = "map (\<lambda>p. Elem (fst p)) xs"
  have L: "is_list h l ?ps" and vals: "\<And>p. p \<in> set xs \<Longrightarrow> Value (cells h (Elem (fst p))) = Some (snd p)"
    using h(2) by (auto simp: s rep_def)
  have "forward (Suc (length xs)) (Front l h) h = Some (map (\<lambda>p. (Elem (fst p), Some (snd p))) xs) \<and>
      backward (Suc (length xs)) (Back l h) h = Some (map (\<lambda>p. (Elem (fst p), Some (snd p))) (rev xs))"
  proof (cases "xs = []")
    case False
    with L have l: "lst h l ?ps" by (simp add: is_list_def)
    from forward_lst [of h l "[]" ?ps] backward_lst [of h l ?ps "[]"] l vals is_list_Front [OF L] is_list_Back [OF L] show ?thesis
      by (simp add: comp_def rev_map)
  qed (use is_list_Front [OF L] is_list_Back [OF L] in simp)
  with h(1) s is_list_Len [OF L] show ?thesis by simp
qed

end
