(* ===== verification/LruCache.thy ===== *)
theory LruCache
  imports LinkedList
begin

text \<open>
  The cache of \<open>common/cache/lrucache.go\<close>: a map from keys to the elements of a linked list
  whose front is the least recently used entry.

  Every method runs under the mutex of the cache from start to end (\<open>Store\<close> reads the clock
  before it takes it), so a call is one atomic step. List elements hold pointers to entries,
  and \<open>CloneTo\<close> shares the entries between two caches; entries live in a store of their own.
  The clock is a parameter: the sequence of readings of \<open>time.Now().Unix()\<close>. Calls of the
  eviction callback are recorded.
\<close>

section \<open>State\<close>

type_synonym int64 = "64 word"

record ('k, 'v) lentry =
  ekey :: 'k
  evalue :: 'v
  expires :: int64

record 'k lru_cache =
  maxAge :: int64
  maxSize :: int
  cache :: "'k \<Rightarrow> ptr option"
  lru :: nat
  updateAgeOnGet :: bool
  staleReturn :: bool
  onEvict :: bool

record ('k, 'v) lru_world =
  listmem :: "nat lheap"
  entries :: "nat \<Rightarrow> ('k, 'v) lentry option"
  nentries :: nat
  clock :: "nat \<Rightarrow> int64"
  tick :: nat
  evicted :: "('k \<times> 'v) list"

type_synonym ('k, 'v) lru_state = "'k lru_cache \<times> ('k, 'v) lru_world"

datatype lru_option = WithEvict | WithUpdateAgeOnGet | WithAge int64 | WithSize int | WithStale bool

fun lru_option_apply :: "lru_option \<Rightarrow> 'k lru_cache \<Rightarrow> 'k lru_cache" where
  "lru_option_apply WithEvict l = l\<lparr>onEvict := True\<rparr>"
| "lru_option_apply WithUpdateAgeOnGet l = l\<lparr>updateAgeOnGet := True\<rparr>"
| "lru_option_apply (WithAge a) l = l\<lparr>maxAge := a\<rparr>"
| "lru_option_apply (WithSize n) l = l\<lparr>maxSize := n\<rparr>"
| "lru_option_apply (WithStale b) l = l\<lparr>staleReturn := b\<rparr>"

text \<open>The list of the new cache is \<open>l\<close>.\<close>

definition lru_New :: "nat \<Rightarrow> lru_option list \<Rightarrow> 'k lru_cache" where
  "lru_New l options =
     fold lru_option_apply options
       \<lparr>maxAge = 0, maxSize = 0, cache = Map.empty, lru = l, updateAgeOnGet = False, staleReturn = False, onEvict = False\<rparr>"

definition new_world :: "(nat \<Rightarrow> int64) \<Rightarrow> ('k, 'v) lru_world" where
  "new_world t = \<lparr>listmem = empty_lheap, entries = Map.empty, nentries = 0, clock = t, tick = 0, evicted = []\<rparr>"

definition Now :: "('k, 'v) lru_world \<Rightarrow> int64 \<times> ('k, 'v) lru_world" where
  "Now w = (clock w (tick w), w\<lparr>tick := tick w + 1\<rparr>)"

abbreviation sle :: "int64 \<Rightarrow> int64 \<Rightarrow> bool" where "sle a b \<equiv> sint a \<le> sint b"

text \<open>\<open>le.Value\<close>, dereferenced.\<close>

definition entry_of :: "ptr \<Rightarrow> ('k, 'v) lru_world \<Rightarrow> ('k, 'v) lentry option" where
  "entry_of le w = do { a \<leftarrow> Value (cells (listmem w) le); entries w a }"

definition set_entry :: "ptr \<Rightarrow> (('k, 'v) lentry \<Rightarrow> ('k, 'v) lentry) \<Rightarrow> ('k, 'v) lru_world \<Rightarrow> ('k, 'v) lru_world option" where
  "set_entry le f w = do {
     a \<leftarrow> Value (cells (listmem w) le);
     e \<leftarrow> entries w a;
     Some (w\<lparr>entries := (entries w)(a \<mapsto> f e)\<rparr>)
   }"

definition lru_MoveToBack :: "ptr \<Rightarrow> ('k, 'v) lru_state \<Rightarrow> ('k, 'v) lru_state option" where
  "lru_MoveToBack le s = (case s of (c, w) \<Rightarrow> do { h \<leftarrow> MoveToBack (lru c) le (listmem w); Some (c, w\<lparr>listmem := h\<rparr>) })"

section \<open>Operations\<close>

definition deleteElement :: "ptr \<Rightarrow> ('k, 'v) lru_state \<Rightarrow> ('k, 'v) lru_state option" where
  "deleteElement le s = (case s of (c, w) \<Rightarrow> do {
     (_, h) \<leftarrow> list_Remove (lru c) le (listmem w);
     let w = w\<lparr>listmem := h\<rparr>;
     e \<leftarrow> entry_of le w;
     let c = c\<lparr>cache := (cache c)(ekey e := None)\<rparr>;
     Some (c, if onEvict c then w\<lparr>evicted := evicted w @ [(ekey e, evalue e)]\<rparr> else w)
   })"

text \<open>The loop that deletes expired entries from the front.\<close>

partial_function (option) delete_expired :: "int64 \<Rightarrow> ('k, 'v) lru_state \<Rightarrow> ('k, 'v) lru_state option" where
  "delete_expired now s =
     (case Front (lru (fst s)) (listmem (snd s)) of
        None \<Rightarrow> Some s
      | Some le \<Rightarrow> do {
          e \<leftarrow> entry_of le (snd s);
          if sle (expires e) now
          then do { s \<leftarrow> deleteElement le s; delete_expired now s }
          else Some s
        })"

definition maybeDeleteOldest :: "('k, 'v) lru_state \<Rightarrow> ('k, 'v) lru_state option" where
  "maybeDeleteOldest s = do {
     s \<leftarrow> (if \<not> staleReturn (fst s) \<and> sint (maxAge (fst s)) > 0
           then (case Now (snd s) of (now, w) \<Rightarrow> delete_expired now (fst s, w))
           else Some s);
     if maxSize (fst s) > 0 \<and> list_Len (lru (fst s)) (listmem (snd s)) > maxSize (fst s)
     then do { le \<leftarrow> Front (lru (fst s)) (listmem (snd s)); deleteElement le s }
     else Some s
   }"

text \<open>A new entry at the back of the list and in the map.\<close>

definition push_entry :: "('k, 'v) lentry \<Rightarrow> ('k, 'v) lru_state \<Rightarrow> ('k, 'v) lru_state option" where
  "push_entry e s = (case s of (c, w) \<Rightarrow>
     let a = nentries w; w = w\<lparr>entries := (entries w)(a \<mapsto> e), nentries := a + 1\<rparr> in do {
     (le, h) \<leftarrow> PushBack (lru c) a (listmem w);
     Some (c\<lparr>cache := (cache c)(ekey e \<mapsto> le)\<rparr>, w\<lparr>listmem := h\<rparr>)
   })"

definition lru_get :: "'k \<Rightarrow> ('k, 'v) lru_state \<Rightarrow> (ptr option \<times> ('k, 'v) lru_state) option" where
  "lru_get key s = (case s of (c, w) \<Rightarrow>
     case cache c key of
       None \<Rightarrow> Some (None, s)
     | Some le \<Rightarrow> do {
         (old, w) \<leftarrow> (if \<not> staleReturn c \<and> sint (maxAge c) > 0
            then do { e \<leftarrow> entry_of le w; let (now, w) = Now w; Some (sle (expires e) now, w) }
            else Some (False, w));
         if old then do {
           s \<leftarrow> deleteElement le (c, w);
           s \<leftarrow> maybeDeleteOldest s;
           Some (None, s)
         } else do {
           (c, w) \<leftarrow> lru_MoveToBack le (c, w);
           if sint (maxAge c) > 0 \<and> updateAgeOnGet c
           then (let (now, w) = Now w in do {
             w \<leftarrow> set_entry le (\<lambda>e. e\<lparr>expires := now + maxAge c\<rparr>) w;
             Some (Some le, (c, w))
           })
           else Some (Some le, (c, w))
         }
       })"

definition Load :: "'k \<Rightarrow> ('k, 'v) lru_state \<Rightarrow> ('v option \<times> ('k, 'v) lru_state) option" where
  "Load key s = do {
     (le, s) \<leftarrow> lru_get key s;
     case le of None \<Rightarrow> Some (None, s) | Some le \<Rightarrow> do { e \<leftarrow> entry_of le (snd s); Some (Some (evalue e), s) }
   }"

definition LoadWithExpire :: "'k \<Rightarrow> ('k, 'v) lru_state \<Rightarrow> (('v \<times> int64) option \<times> ('k, 'v) lru_state) option" where
  "LoadWithExpire key s = do {
     (le, s) \<leftarrow> lru_get key s;
     case le of None \<Rightarrow> Some (None, s) | Some le \<Rightarrow> do { e \<leftarrow> entry_of le (snd s); Some (Some (evalue e, expires e), s) }
   }"

definition Exist :: "'k \<Rightarrow> ('k, 'v) lru_state \<Rightarrow> bool" where
  "Exist key s = (cache (fst s) key \<noteq> None)"

definition StoreWithExpire :: "'k \<Rightarrow> 'v \<Rightarrow> int64 \<Rightarrow> ('k, 'v) lru_state \<Rightarrow> ('k, 'v) lru_state option" where
  "StoreWithExpire key v ex s = do {
     s \<leftarrow> (case cache (fst s) key of
        Some le \<Rightarrow> do {
          (c, w) \<leftarrow> lru_MoveToBack le s;
          w \<leftarrow> set_entry le (\<lambda>e. e\<lparr>evalue := v, expires := ex\<rparr>) w;
          Some (c, w)
        }
      | None \<Rightarrow> push_entry \<lparr>ekey = key, evalue = v, expires = ex\<rparr> s);
     maybeDeleteOldest s
   }"

definition Store :: "'k \<Rightarrow> 'v \<Rightarrow> ('k, 'v) lru_state \<Rightarrow> ('k, 'v) lru_state option" where
  "Store key v s = (case s of (c, w) \<Rightarrow>
     if sint (maxAge c) > 0
     then (let (now, w) = Now w in StoreWithExpire key v (now + maxAge c) (c, w))
     else StoreWithExpire key v 0 s)"

text \<open>The \<open>create\<close> label of \<open>LoadOrStore\<close> and \<open>LoadOrStoreWithAge\<close>: \<open>age\<close> is what an existing
  entry gets, \<open>age'\<close> what a new one gets.\<close>

definition lru_create :: "int64 \<Rightarrow> int64 \<Rightarrow> 'k \<Rightarrow> 'v \<Rightarrow> ('k, 'v) lru_state \<Rightarrow> (('v \<times> bool) \<times> ('k, 'v) lru_state) option" where
  "lru_create age age' key v s = do {
     s \<leftarrow> (case cache (fst s) key of
        Some le \<Rightarrow> do {
          (c, w) \<leftarrow> lru_MoveToBack le s;
          let (now, w) = Now w;
          w \<leftarrow> set_entry le (\<lambda>e. e\<lparr>evalue := v, expires := now + age\<rparr>) w;
          Some (c, w)
        }
      | None \<Rightarrow> (let (now, w) = Now (snd s) in push_entry \<lparr>ekey = key, evalue = v, expires = now + age'\<rparr> (fst s, w)));
     s \<leftarrow> maybeDeleteOldest s;
     Some ((v, False), s)
   }"

text \<open>\<open>v\<close> is the result of the constructor, which runs at most once.\<close>

definition load_or_store :: "int64 \<Rightarrow> int64 \<Rightarrow> 'k \<Rightarrow> 'v \<Rightarrow> ('k, 'v) lru_state \<Rightarrow> (('v \<times> bool) \<times> ('k, 'v) lru_state) option" where
  "load_or_store age age' key v s = (case s of (c, w) \<Rightarrow>
     case cache c key of
       None \<Rightarrow> lru_create age age' key v s
     | Some le \<Rightarrow> do {
         (old, w) \<leftarrow> (if sint (maxAge c) > 0
            then do { e \<leftarrow> entry_of le w; let (now, w) = Now w; Some (sle (expires e) now, w) }
            else Some (False, w));
         if old then do {
           s \<leftarrow> deleteElement le (c, w);
           lru_create age age' key v s
         } else do {
           (c, w) \<leftarrow> lru_MoveToBack le (c, w);
           w \<leftarrow> (if sint (maxAge c) > 0 \<and> updateAgeOnGet c
             then (let (now, w) = Now w in set_entry le (\<lambda>e. e\<lparr>expires := now + age\<rparr>) w)
             else Some w);
           e \<leftarrow> entry_of le w;
           Some ((evalue e, True), (c, w))
         }
       })"

definition LoadOrStore :: "'k \<Rightarrow> 'v \<Rightarrow> ('k, 'v) lru_state \<Rightarrow> (('v \<times> bool) \<times> ('k, 'v) lru_state) option" where
  "LoadOrStore key v s = load_or_store (maxAge (fst s)) (maxAge (fst s)) key v s"

definition LoadOrStoreWithAge :: "'k \<Rightarrow> int64 \<Rightarrow> 'v \<Rightarrow> ('k, 'v) lru_state \<Rightarrow> (('v \<times> bool) \<times> ('k, 'v) lru_state) option" where
  "LoadOrStoreWithAge key age v s =
     (let age = (if age = 0 then maxAge (fst s) else age) in load_or_store age (maxAge (fst s)) key v s)"

definition lru_Delete :: "'k \<Rightarrow> ('k, 'v) lru_state \<Rightarrow> ('k, 'v) lru_state option" where
  "lru_Delete key s = (case cache (fst s) key of Some le \<Rightarrow> deleteElement le s | None \<Rightarrow> Some s)"

partial_function (option) clear_loop :: "ptr option \<Rightarrow> ('k, 'v) lru_state \<Rightarrow> ('k, 'v) lru_state option" where
  "clear_loop element s =
     (case element of
        None \<Rightarrow> Some s
      | Some e \<Rightarrow> do { s \<leftarrow> deleteElement e s; clear_loop (list_Next e (listmem (snd s))) s })"

definition lru_Clear :: "('k, 'v) lru_state \<Rightarrow> ('k, 'v) lru_state option" where
  "lru_Clear s = clear_loop (Front (lru (fst s)) (listmem (snd s))) s"

partial_function (option) range_loop :: "ptr option \<Rightarrow> ('k, 'v) lru_world \<Rightarrow> ('k \<times> 'v) list option" where
  "range_loop le w =
     (case le of
        None \<Rightarrow> Some []
      | Some le \<Rightarrow> do { e \<leftarrow> entry_of le w; r \<leftarrow> range_loop (list_Next le (listmem w)) w; Some ((ekey e, evalue e) # r) })"

text \<open>The calls \<open>Range\<close> makes of its argument.\<close>

definition lru_Range :: "('k, 'v) lru_state \<Rightarrow> ('k \<times> 'v) list option" where
  "lru_Range s = range_loop (Front (lru (fst s)) (listmem (snd s))) (snd s)"

text \<open>\<open>n.lru = list.List{}\<close> resets the root in place.\<close>

definition zero_list :: "nat \<Rightarrow> 'v lheap \<Rightarrow> 'v lheap" where
  "zero_list l h = set_len l 0 (h\<lparr>cells := (cells h)(Root l := zero_element)\<rparr>)"

partial_function (option) clone_loop ::
  "ptr option \<Rightarrow> 'k lru_cache \<Rightarrow> ('k, 'v) lru_world \<Rightarrow> ('k lru_cache \<times> ('k, 'v) lru_world) option" where
  "clone_loop e n w =
     (case e of
        None \<Rightarrow> Some (n, w)
      | Some p \<Rightarrow> do {
          a \<leftarrow> Value (cells (listmem w) p);
          elm \<leftarrow> entries w a;
          (le, h) \<leftarrow> PushBack (lru n) a (listmem w);
          clone_loop (list_Next p h) (n\<lparr>cache := (cache n)(ekey elm \<mapsto> le)\<rparr>) (w\<lparr>listmem := h\<rparr>)
        })"

definition CloneTo ::
  "'k lru_cache \<Rightarrow> 'k lru_cache \<Rightarrow> ('k, 'v) lru_world \<Rightarrow> ('k lru_cache \<times> ('k, 'v) lru_world) option" where
  "CloneTo c n w =
     (let w = w\<lparr>listmem := zero_list (lru n) (listmem w)\<rparr>; n = n\<lparr>cache := Map.empty\<rparr> in
      clone_loop (Front (lru c) (listmem w)) n w)"

declare delete_expired.simps [code] clear_loop.simps [code] range_loop.simps [code] clone_loop.simps [code]

end
