(* ===== verification/LruCacheLaws.thy ===== *)
theory LruCacheLaws
  imports LruCache
begin

text \<open>
  The cache against its specification: a list of entries, least recently used first, with
  distinct keys. The specification follows the methods, not the comments around them, so it
  also says what \<open>Clear\<close> and \<open>LoadOrStoreWithAge\<close> really do.
\<close>

section \<open>Invariant\<close>

definition ent :: "('k, 'v) lru_world \<Rightarrow> ptr \<Rightarrow> ('k, 'v) lentry" where
  "ent w p = the (entry_of p w)"

definition lru_inv :: "ptr list \<Rightarrow> ('k, 'v) lru_state \<Rightarrow> bool" where
  "lru_inv ps s \<longleftrightarrow> is_list (listmem (snd s)) (lru (fst s)) ps \<and>
     (\<forall>p \<in> set ps. \<exists>a < nentries (snd s). Value (cells (listmem (snd s)) p) = Some a \<and> entries (snd s) a \<noteq> None) \<and>
     (\<forall>k p. cache (fst s) k = Some p \<longleftrightarrow> p \<in> set ps \<and> ekey (ent (snd s) p) = k)"

lemma inv_iff:
  "lru_inv ps (c, w) \<longleftrightarrow> is_list (listmem w) (lru c) ps \<and>
     (\<forall>p \<in> set ps. \<exists>a < nentries w. Value (cells (listmem w) p) = Some a \<and> entries w a \<noteq> None) \<and>
     (\<forall>k p. cache c k = Some p \<longleftrightarrow> p \<in> set ps \<and> ekey (ent w p) = k)"
  by (simp add: lru_inv_def)

lemma inv_entry: "lru_inv ps (c, w) \<Longrightarrow> p \<in> set ps \<Longrightarrow> entry_of p w = Some (ent w p)"
  by (fastforce simp: lru_inv_def entry_of_def ent_def)

lemma inv_inj: "lru_inv ps (c, w) \<Longrightarrow> p \<in> set ps \<Longrightarrow> q \<in> set ps \<Longrightarrow> ekey (ent w p) = ekey (ent w q) \<Longrightarrow> p = q"
  unfolding lru_inv_def by (metis fst_conv option.inject snd_conv)

lemma inv_lst: "lru_inv ps (c, w) \<Longrightarrow> ps \<noteq> [] \<Longrightarrow> lst (listmem w) (lru c) ps"
  by (auto simp: lru_inv_def is_list_def)

lemma inv_cache: "lru_inv ps (c, w) \<Longrightarrow> cache c k = Some p \<longleftrightarrow> p \<in> set ps \<and> ekey (ent w p) = k"
  by (simp add: lru_inv_def)

lemma entry_of_frame:
  "frame l (listmem w) h \<Longrightarrow> is_list (listmem w) l' ps \<Longrightarrow> p \<in> set ps \<Longrightarrow> entry_of p (w\<lparr>listmem := h\<rparr>) = entry_of p w"
  by (simp add: entry_of_def frame_Value)

definition evictions :: "'k lru_cache \<Rightarrow> ('k, 'v) lentry list \<Rightarrow> ('k \<times> 'v) list" where
  "evictions c es = (if onEvict c then map (\<lambda>e. (ekey e, evalue e)) es else [])"

lemma evictions_append [simp]: "evictions c (es @ fs) = evictions c es @ evictions c fs"
  by (simp add: evictions_def)

lemma evictions_Nil [simp]: "evictions c [] = []"
  by (simp add: evictions_def)

section \<open>What the steps do to the elements\<close>

lemma deleteElement_inv:
  assumes "lru_inv (as @ p # bs) (c, w)"
  obtains w' where "deleteElement p (c, w) = Some (c\<lparr>cache := (cache c)(ekey (ent w p) := None)\<rparr>, w')"
    "lru_inv (as @ bs) (c\<lparr>cache := (cache c)(ekey (ent w p) := None)\<rparr>, w')"
    "map (ent w') (as @ bs) = map (ent w) (as @ bs)" "evicted w' = evicted w @ evictions c [ent w p]"
    "tick w' = tick w" "clock w' = clock w" "elist (cells (listmem w') p) = None"
proof -
  let ?ps = "as @ p # bs"
  from inv_lst [OF assms] have L: "lst (listmem w) (lru c) ?ps" by simp
  obtain h where h: "list_Remove (lru c) p (listmem w) = Some (Value (cells (listmem w) p), h)" "lst h (lru c) (as @ bs)"
    "frame (lru c) (listmem w) h" "elist (cells h p) = None" by (rule list_Remove_lst [OF L])
  note f = entry_of_frame [OF h(3) lst_is_list [OF L]]
  let ?w = "w\<lparr>listmem := h\<rparr>"
  let ?w' = "?w\<lparr>evicted := evicted w @ evictions c [ent w p]\<rparr>"
  have e: "entry_of q ?w' = Some (ent w q)" if "q \<in> set ?ps" for q
    using f [OF that] inv_entry [OF assms that] by (simp add: entry_of_def)
  have ent: "ent ?w' q = ent w q" if "q \<in> set ?ps" for q using e [OF that] by (simp add: ent_def)
  have v: "Value (cells h q) = Value (cells (listmem w) q)" if "q \<in> set ?ps" for q
    using frame_Value [OF h(3) lst_is_list [OF L] that] .
  have d: "deleteElement p (c, w) = Some (c\<lparr>cache := (cache c)(ekey (ent w p) := None)\<rparr>, ?w')"
    using h(1) f [of p] inv_entry [OF assms, of p] by (simp add: deleteElement_def Let_def evictions_def)
  have p: "p \<notin> set (as @ bs)" using lst_distinct [OF L] by auto
  have inv: "lru_inv (as @ bs) (c\<lparr>cache := (cache c)(ekey (ent w p) := None)\<rparr>, ?w')"
    unfolding inv_iff
  proof (intro conjI ballI allI)
    fix q assume "q \<in> set (as @ bs)"
    then have q: "q \<in> set ?ps" by auto
    with assms have "\<exists>a < nentries w. Value (cells (listmem w) q) = Some a \<and> entries w a \<noteq> None" unfolding inv_iff by blast
    with v [OF q] show "\<exists>a < nentries ?w'. Value (cells (listmem ?w') q) = Some a \<and> entries ?w' a \<noteq> None" by simp
  next
    fix k q
    show "cache (c\<lparr>cache := (cache c)(ekey (ent w p) := None)\<rparr>) k = Some q \<longleftrightarrow> q \<in> set (as @ bs) \<and> ekey (ent ?w' q) = k"
    proof (cases "q \<in> set (as @ bs)")
      case True
      then have q: "q \<in> set ?ps" "q \<noteq> p" using p by auto
      with inv_inj [OF assms q(1), of p] have "ekey (ent w q) \<noteq> ekey (ent w p)" by auto
      with True q inv_cache [OF assms, of k q] ent [OF q(1)] show ?thesis by auto
    next
      case False
      with inv_cache [OF assms, of k q] show ?thesis by auto
    qed
  qed (use h(2) in simp)
  show ?thesis
    by (rule that [OF d inv]) (use ent h(4) in \<open>auto simp: evictions_def\<close>)
qed

lemma lru_MoveToBack_inv:
  assumes "lru_inv (as @ p # bs) (c, w)"
  obtains h where "lru_MoveToBack p (c, w) = Some (c, w\<lparr>listmem := h\<rparr>)"
    "lru_inv (as @ bs @ [p]) (c, w\<lparr>listmem := h\<rparr>)"
    "\<And>q. q \<in> set (as @ p # bs) \<Longrightarrow> ent (w\<lparr>listmem := h\<rparr>) q = ent w q"
proof -
  let ?ps = "as @ p # bs"
  from inv_lst [OF assms] have L: "lst (listmem w) (lru c) ?ps" by simp
  obtain h where h: "MoveToBack (lru c) p (listmem w) = Some h" "lst h (lru c) (as @ bs @ [p])" "frame (lru c) (listmem w) h"
    by (rule MoveToBack_lst [OF L])
  note f = entry_of_frame [OF h(3) lst_is_list [OF L]]
  have ent: "ent (w\<lparr>listmem := h\<rparr>) q = ent w q" if "q \<in> set ?ps" for q using f [OF that] by (simp add: ent_def)
  have v: "Value (cells h q) = Value (cells (listmem w) q)" if "q \<in> set ?ps" for q
    using frame_Value [OF h(3) lst_is_list [OF L] that] .
  have "lru_inv (as @ bs @ [p]) (c, w\<lparr>listmem := h\<rparr>)"
    using assms h(2) v ent unfolding lru_inv_def by (fastforce simp: is_list_def)
  with that h(1) ent show ?thesis by (simp add: lru_MoveToBack_def)
qed

lemma set_entry_inv:
  assumes "lru_inv ps (c, w)" "p \<in> set ps" "\<And>e. ekey (f e) = ekey e"
  obtains w' where "set_entry p f w = Some w'" "lru_inv ps (c, w')" "ent w' p = f (ent w p)"
    "\<And>q. q \<in> set ps \<Longrightarrow> q \<noteq> p \<Longrightarrow> ent w' q = ent w q"
    "w' = w\<lparr>entries := entries w'\<rparr>"
proof -
  obtain a e where a: "Value (cells (listmem w) p) = Some a" "entries w a = Some e" "a < nentries w"
    using assms(1,2) by (fastforce simp: lru_inv_def)
  let ?w' = "w\<lparr>entries := (entries w)(a \<mapsto> f e)\<rparr>"
  have e: "ent w p = e" "ent ?w' p = f e" using a by (simp_all add: ent_def entry_of_def)
  have o: "ent ?w' q = ent w q" if q: "q \<in> set ps" "q \<noteq> p" for q
  proof -
    obtain b where b: "Value (cells (listmem w) q) = Some b" "entries w b \<noteq> None" using assms(1) q(1) by (fastforce simp: lru_inv_def)
    have "b \<noteq> a"
    proof
      assume "b = a"
      then have "ent w q = ent w p" using a b by (simp add: ent_def entry_of_def)
      with inv_inj [OF assms(1) q(1) assms(2)] q(2) show False by simp
    qed
    with b show ?thesis by (simp add: ent_def entry_of_def)
  qed
  have k: "ekey (ent ?w' q) = ekey (ent w q)" if "q \<in> set ps" for q
    using e o [OF that] assms(3) by (cases "q = p") simp_all
  have "lru_inv ps (c, ?w')"
    using assms(1) k unfolding lru_inv_def by (fastforce simp: fun_upd_apply)
  moreover have "set_entry p f w = Some ?w'" using a by (simp add: set_entry_def)
  ultimately show ?thesis using that [of ?w'] e o by simp
qed

lemma push_entry_inv:
  assumes "lru_inv ps (c, w)" "cache c (ekey e) = None"
  obtains p w' where "push_entry e (c, w) = Some (c\<lparr>cache := (cache c)(ekey e \<mapsto> p)\<rparr>, w')"
    "lru_inv (ps @ [p]) (c\<lparr>cache := (cache c)(ekey e \<mapsto> p)\<rparr>, w')" "map (ent w') (ps @ [p]) = map (ent w) ps @ [e]"
    "evicted w' = evicted w" "tick w' = tick w" "clock w' = clock w"
proof -
  let ?a = "nentries w"
  have L: "is_list (listmem w) (lru c) ps" using assms(1) by (simp add: lru_inv_def)
  obtain h where h: "PushBack (lru c) ?a (listmem w) = Some (Elem (brk (listmem w)), h)" "lst h (lru c) (ps @ [Elem (brk (listmem w))])"
    "frame (lru c) (listmem w) h" "Value (cells h (Elem (brk (listmem w)))) = Some ?a" by (rule PushBack_lst [OF L])
  let ?p = "Elem (brk (listmem w))"
  let ?w' = "w\<lparr>entries := (entries w)(?a \<mapsto> e), nentries := ?a + 1, listmem := h\<rparr>"
  have v: "Value (cells h q) = Value (cells (listmem w) q)" if "q \<in> set ps" for q using frame_Value [OF h(3) L that] .
  have in_ps: "\<exists>a < ?a. Value (cells (listmem w) q) = Some a \<and> entries w a \<noteq> None" if "q \<in> set ps" for q
    using assms(1) that by (simp add: lru_inv_def)
  have ent: "ent ?w' q = ent w q" if "q \<in> set ps" for q
    using in_ps [OF that] v [OF that] by (auto simp: ent_def entry_of_def)
  have new: "ent ?w' ?p = e" using h(4) by (simp add: ent_def entry_of_def)
  have p: "?p \<notin> set ps" using lst_distinct [OF h(2)] by simp
  have "lru_inv (ps @ [?p]) (c\<lparr>cache := (cache c)(ekey e \<mapsto> ?p)\<rparr>, ?w')"
    unfolding inv_iff
  proof (intro conjI ballI allI)
    fix q assume q: "q \<in> set (ps @ [?p])"
    show "\<exists>a < nentries ?w'. Value (cells (listmem ?w') q) = Some a \<and> entries ?w' a \<noteq> None"
    proof (cases "q = ?p")
      case False
      with q in_ps [of q] obtain a where "a < ?a" "Value (cells (listmem w) q) = Some a" "entries w a \<noteq> None" by auto
      with v [of q] q False show ?thesis by (intro exI [of _ a]) auto
    qed (use h(4) in simp)
  next
    fix k q
    show "cache (c\<lparr>cache := (cache c)(ekey e \<mapsto> ?p)\<rparr>) k = Some q \<longleftrightarrow> q \<in> set (ps @ [?p]) \<and> ekey (ent ?w' q) = k"
      using inv_cache [OF assms(1), of k q] assms(2) ent [of q] new p by (auto simp: fun_upd_apply)
  qed (use h(2) in simp)
  moreover have "push_entry e (c, w) = Some (c\<lparr>cache := (cache c)(ekey e \<mapsto> ?p)\<rparr>, ?w')"
    using h(1) by (simp add: push_entry_def Let_def)
  ultimately show ?thesis using that [of ?p ?w'] ent new by simp
qed

section \<open>The cache as a list of entries\<close>

definition with_key :: "'k \<Rightarrow> ('k, 'v) lentry list \<Rightarrow> ('k, 'v) lentry list" where
  "with_key k xs = filter (\<lambda>e. ekey e = k) xs"

definition drop_key :: "'k \<Rightarrow> ('k, 'v) lentry list \<Rightarrow> ('k, 'v) lentry list" where
  "drop_key k xs = filter (\<lambda>e. ekey e \<noteq> k) xs"

text \<open>The specification's state: the entries, the clock readings used, the evictions.\<close>

type_synonym ('k, 'v) lru_spec = "('k, 'v) lentry list \<times> nat \<times> ('k \<times> 'v) list"

definition lru_rep ::
  "'k lru_cache \<Rightarrow> (nat \<Rightarrow> int64) \<Rightarrow> ('k, 'v) lru_state \<Rightarrow> ('k, 'v) lru_spec \<Rightarrow> bool" where
  "lru_rep c t s x \<longleftrightarrow> (\<exists>ps. lru_inv ps s \<and> map (ent (snd s)) ps = fst x) \<and> tick (snd s) = fst (snd x) \<and>
     evicted (snd s) = snd (snd x) \<and> clock (snd s) = t \<and> (fst s)\<lparr>cache := Map.empty\<rparr> = c\<lparr>cache := Map.empty\<rparr>"

lemma rep_config:
  assumes "lru_rep c t (d, w) x"
  shows "maxAge d = maxAge c" "maxSize d = maxSize c" "lru d = lru c" "updateAgeOnGet d = updateAgeOnGet c"
    "staleReturn d = staleReturn c" "onEvict d = onEvict c" "evictions d es = evictions c es"
proof -
  have eq: "d\<lparr>cache := Map.empty\<rparr> = c\<lparr>cache := Map.empty\<rparr>" using assms by (simp add: lru_rep_def)
  show "maxAge d = maxAge c" using arg_cong [OF eq, of maxAge] by simp
  show "maxSize d = maxSize c" using arg_cong [OF eq, of maxSize] by simp
  show "lru d = lru c" using arg_cong [OF eq, of lru] by simp
  show "updateAgeOnGet d = updateAgeOnGet c" using arg_cong [OF eq, of updateAgeOnGet] by simp
  show "staleReturn d = staleReturn c" using arg_cong [OF eq, of staleReturn] by simp
  show "onEvict d = onEvict c" using arg_cong [OF eq, of onEvict] by simp
  then show "evictions d es = evictions c es" by (simp add: evictions_def)
qed

lemma repI:
  "lru_inv ps (d, w) \<Longrightarrow> map (ent w) ps = xs \<Longrightarrow> tick w = n \<Longrightarrow> evicted w = ev \<Longrightarrow> clock w = t \<Longrightarrow>
   d\<lparr>cache := Map.empty\<rparr> = c\<lparr>cache := Map.empty\<rparr> \<Longrightarrow> lru_rep c t (d, w) (xs, n, ev)"
  by (auto simp: lru_rep_def)

lemma repE:
  assumes "lru_rep c t (d, w) (xs, n, ev)"
  obtains ps where "lru_inv ps (d, w)" "map (ent w) ps = xs" "tick w = n" "evicted w = ev" "clock w = t"
    "d\<lparr>cache := Map.empty\<rparr> = c\<lparr>cache := Map.empty\<rparr>"
  using assms by (auto simp: lru_rep_def)

lemma inv_distinct: "lru_inv ps (c, w) \<Longrightarrow> distinct ps"
  by (auto simp: lru_inv_def is_list_def lst_def)

lemma inv_keys:
  assumes "lru_inv ps (c, w)" "cache c k = Some p"
  obtains as bs where "ps = as @ p # bs" "with_key k (map (ent w) ps) = [ent w p]" "drop_key k (map (ent w) ps) = map (ent w) (as @ bs)"
    "ekey (ent w p) = k"
proof -
  from inv_cache [OF assms(1)] assms(2) have p: "p \<in> set ps" "ekey (ent w p) = k" by auto
  then obtain as bs where ps: "ps = as @ p # bs" by (meson split_list)
  have "ekey (ent w q) \<noteq> k" if "q \<in> set (as @ bs)" for q
    using inv_inj [OF assms(1) _ p(1), of q] that p(2) inv_distinct [OF assms(1)] by (auto simp: ps)
  then have "with_key k (map (ent w) as) = []" "with_key k (map (ent w) bs) = []"
    "drop_key k (map (ent w) as) = map (ent w) as" "drop_key k (map (ent w) bs) = map (ent w) bs"
    by (auto simp: with_key_def drop_key_def filter_empty_conv filter_id_conv)
  with that ps p(2) show ?thesis by (simp add: with_key_def drop_key_def)
qed

lemma rep_None:
  assumes "lru_rep c t (d, w) (xs, n, ev)" "cache d k = None"
  shows "with_key k xs = []" "drop_key k xs = xs"
proof -
  obtain ps where ps: "lru_inv ps (d, w)" "map (ent w) ps = xs" by (rule repE [OF assms(1)])
  have "ekey e \<noteq> k" if "e \<in> set xs" for e
  proof -
    from that ps(2) obtain p where "p \<in> set ps" "e = ent w p" by auto
    with inv_cache [OF ps(1), of "ekey e" p] assms(2) show ?thesis by auto
  qed
  then show "with_key k xs = []" "drop_key k xs = xs" by (auto simp: with_key_def drop_key_def filter_empty_conv filter_id_conv)
qed

lemma rep_Some:
  assumes "lru_rep c t (d, w) (xs, n, ev)" "cache d k = Some p"
  shows "\<exists>e. with_key k xs = [e] \<and> entry_of p w = Some e"
proof -
  obtain ps where ps: "lru_inv ps (d, w)" "map (ent w) ps = xs" by (rule repE [OF assms(1)])
  from inv_keys [OF ps(1) assms(2)] ps inv_entry [OF ps(1), of p] show ?thesis by (metis in_set_conv_decomp)
qed

lemma rep_distinct:
  assumes "lru_rep c t (d, w) (xs, n, ev)"
  shows "distinct (map ekey xs)"
proof -
  obtain ps where ps: "lru_inv ps (d, w)" "map (ent w) ps = xs" by (rule repE [OF assms])
  have "inj_on (\<lambda>p. ekey (ent w p)) (set ps)" using inv_inj [OF ps(1)] by (auto simp: inj_on_def)
  with inv_distinct [OF ps(1)] have "distinct (map (\<lambda>p. ekey (ent w p)) ps)" by (simp add: distinct_map)
  then show ?thesis by (simp flip: ps(2) add: comp_def)
qed

lemma rep_delete:
  assumes "lru_rep c t (d, w) (xs, n, ev)" "cache d k = Some p"
  obtains d' w' where "deleteElement p (d, w) = Some (d', w')" "d' = d\<lparr>cache := (cache d)(k := None)\<rparr>"
    "lru_rep c t (d', w') (drop_key k xs, n, ev @ evictions c (with_key k xs))" "list_Next p (listmem w') = None"
proof -
  obtain ps where ps: "lru_inv ps (d, w)" "map (ent w) ps = xs" "tick w = n" "evicted w = ev" "clock w = t"
    "d\<lparr>cache := Map.empty\<rparr> = c\<lparr>cache := Map.empty\<rparr>" by (rule repE [OF assms(1)])
  obtain as bs where s: "ps = as @ p # bs" "with_key k xs = [ent w p]" "drop_key k xs = map (ent w) (as @ bs)" "ekey (ent w p) = k"
    by (rule inv_keys [OF ps(1) assms(2), unfolded ps(2)])
  obtain w' where w': "deleteElement p (d, w) = Some (d\<lparr>cache := (cache d)(ekey (ent w p) := None)\<rparr>, w')"
    "lru_inv (as @ bs) (d\<lparr>cache := (cache d)(ekey (ent w p) := None)\<rparr>, w')"
    "map (ent w') (as @ bs) = map (ent w) (as @ bs)" "evicted w' = evicted w @ evictions d [ent w p]"
    "tick w' = tick w" "clock w' = clock w" "elist (cells (listmem w') p) = None"
    by (rule deleteElement_inv [OF ps(1) [unfolded s(1)]])
  have "lru_rep c t (d\<lparr>cache := (cache d)(k := None)\<rparr>, w') (drop_key k xs, n, ev @ evictions c (with_key k xs))"
    by (rule repI [of "as @ bs"]) (use w' ps s rep_config(7) [OF assms(1)] in auto)
  with that w'(1,7) s(4) show ?thesis by (simp add: list_Next_def)
qed

lemma rep_move:
  assumes "lru_rep c t (d, w) (xs, n, ev)" "cache d k = Some p"
  obtains w' where "lru_MoveToBack p (d, w) = Some (d, w')"
    "lru_rep c t (d, w') (drop_key k xs @ with_key k xs, n, ev)"
proof -
  obtain ps where ps: "lru_inv ps (d, w)" "map (ent w) ps = xs" "tick w = n" "evicted w = ev" "clock w = t"
    "d\<lparr>cache := Map.empty\<rparr> = c\<lparr>cache := Map.empty\<rparr>" by (rule repE [OF assms(1)])
  obtain as bs where s: "ps = as @ p # bs" "with_key k xs = [ent w p]" "drop_key k xs = map (ent w) (as @ bs)"
    by (rule inv_keys [OF ps(1) assms(2), unfolded ps(2)])
  obtain h where h: "lru_MoveToBack p (d, w) = Some (d, w\<lparr>listmem := h\<rparr>)"
    "lru_inv (as @ bs @ [p]) (d, w\<lparr>listmem := h\<rparr>)" "\<And>q. q \<in> set (as @ p # bs) \<Longrightarrow> ent (w\<lparr>listmem := h\<rparr>) q = ent w q"
    by (rule lru_MoveToBack_inv [OF ps(1) [unfolded s(1)]]) blast
  have "lru_rep c t (d, w\<lparr>listmem := h\<rparr>) (drop_key k xs @ with_key k xs, n, ev)"
    by (rule repI [of "as @ bs @ [p]"]) (use h ps s in auto)
  with that h(1) show ?thesis by blast
qed

lemma rep_set:
  assumes "lru_rep c t (d, w) (xs, n, ev)" "cache d k = Some p" "\<And>e. ekey (f e) = ekey e"
  obtains w' where "set_entry p f w = Some w'"
    "lru_rep c t (d, w') (map (\<lambda>e. if ekey e = k then f e else e) xs, n, ev)"
proof -
  obtain ps where ps: "lru_inv ps (d, w)" "map (ent w) ps = xs" "tick w = n" "evicted w = ev" "clock w = t"
    "d\<lparr>cache := Map.empty\<rparr> = c\<lparr>cache := Map.empty\<rparr>" by (rule repE [OF assms(1)])
  from inv_cache [OF ps(1)] assms(2) have p: "p \<in> set ps" "ekey (ent w p) = k" by auto
  obtain w' where w': "set_entry p f w = Some w'" "lru_inv ps (d, w')" "ent w' p = f (ent w p)"
    "\<And>q. q \<in> set ps \<Longrightarrow> q \<noteq> p \<Longrightarrow> ent w' q = ent w q" "w' = w\<lparr>entries := entries w'\<rparr>"
    by (rule set_entry_inv [OF ps(1) p(1), of f, OF assms(3)]) blast
  have "tick w' = n" "evicted w' = ev" "clock w' = t" by (subst w'(5), simp add: ps)+
  moreover have "ent w' q = (if ekey (ent w q) = k then f (ent w q) else ent w q)" if "q \<in> set ps" for q
    using w'(3,4) p inv_inj [OF ps(1) p(1) that] that by (cases "q = p") auto
  ultimately have "lru_rep c t (d, w') (map (\<lambda>e. if ekey e = k then f e else e) xs, n, ev)"
    by (intro repI [of ps]) (use w'(2) ps in auto)
  with that w'(1) show ?thesis by blast
qed

lemma rep_push:
  assumes "lru_rep c t (d, w) (xs, n, ev)" "cache d (ekey e) = None"
  obtains s' where "push_entry e (d, w) = Some s'" "lru_rep c t s' (xs @ [e], n, ev)"
proof -
  obtain ps where ps: "lru_inv ps (d, w)" "map (ent w) ps = xs" "tick w = n" "evicted w = ev" "clock w = t"
    "d\<lparr>cache := Map.empty\<rparr> = c\<lparr>cache := Map.empty\<rparr>" by (rule repE [OF assms(1)])
  obtain p w' where w': "push_entry e (d, w) = Some (d\<lparr>cache := (cache d)(ekey e \<mapsto> p)\<rparr>, w')"
    "lru_inv (ps @ [p]) (d\<lparr>cache := (cache d)(ekey e \<mapsto> p)\<rparr>, w')" "map (ent w') (ps @ [p]) = map (ent w) ps @ [e]"
    "evicted w' = evicted w" "tick w' = tick w" "clock w' = clock w" by (rule push_entry_inv [OF ps(1) assms(2)])
  have "lru_rep c t (d\<lparr>cache := (cache d)(ekey e \<mapsto> p)\<rparr>, w') (xs @ [e], n, ev)"
    by (rule repI [of "ps @ [p]"]) (use w' ps in auto)
  with that w'(1) show ?thesis by blast
qed

lemma rep_Now:
  assumes "lru_rep c t (d, w) (xs, n, ev)"
  obtains w' where "Now w = (t n, w')" "lru_rep c t (d, w') (xs, n + 1, ev)"
proof -
  have "lru_rep c t (d, w\<lparr>tick := tick w + 1\<rparr>) (xs, n + 1, ev)"
    using assms by (auto simp: lru_rep_def lru_inv_def ent_def entry_of_def)
  with that assms show ?thesis by (simp add: Now_def lru_rep_def)
qed

lemma rep_len: "lru_rep c t (d, w) (xs, n, ev) \<Longrightarrow> list_Len (lru d) (listmem w) = int (length xs)"
  by (auto simp: lru_rep_def lru_inv_def is_list_Len)

lemma rep_Front:
  assumes "lru_rep c t (d, w) (xs, n, ev)"
  shows "xs = [] \<Longrightarrow> Front (lru d) (listmem w) = None"
    "xs = e # ys \<Longrightarrow> \<exists>p. Front (lru d) (listmem w) = Some p \<and> cache d (ekey e) = Some p \<and> entry_of p w = Some e \<and>
       with_key (ekey e) xs = [e] \<and> drop_key (ekey e) xs = ys"
proof -
  obtain ps where ps: "lru_inv ps (d, w)" "map (ent w) ps = xs" by (rule repE [OF assms])
  have F: "Front (lru d) (listmem w) = (case ps of [] \<Rightarrow> None | p # _ \<Rightarrow> Some p)"
    using ps(1) by (intro is_list_Front) (simp add: lru_inv_def)
  show "xs = [] \<Longrightarrow> Front (lru d) (listmem w) = None" using F ps(2) by simp
  assume xs: "xs = e # ys"
  then have keys: "\<forall>x \<in> set ys. ekey x \<noteq> ekey e" using rep_distinct [OF assms] by simp (metis imageI)
  from xs obtain p qs where p: "ps = p # qs" "ent w p = e" using ps(2) by auto
  then have "cache d (ekey e) = Some p" using inv_cache [OF ps(1)] by simp
  moreover have "with_key (ekey e) xs = [e]" "drop_key (ekey e) xs = ys"
    using keys by (auto simp: xs with_key_def drop_key_def filter_empty_conv filter_id_conv)
  ultimately show "\<exists>p. Front (lru d) (listmem w) = Some p \<and> cache d (ekey e) = Some p \<and> entry_of p w = Some e \<and>
       with_key (ekey e) xs = [e] \<and> drop_key (ekey e) xs = ys"
    using F p inv_entry [OF ps(1), of p] by auto
qed

section \<open>Specification of the methods\<close>

definition s_trim :: "'k lru_cache \<Rightarrow> (nat \<Rightarrow> int64) \<Rightarrow> ('k, 'v) lru_spec \<Rightarrow> ('k, 'v) lru_spec" where
  "s_trim c t x = (case x of (xs, n, ev) \<Rightarrow>
     let old = (if \<not> staleReturn c \<and> sint (maxAge c) > 0 then takeWhile (\<lambda>e. sle (expires e) (t n)) xs else []);
         n = (if \<not> staleReturn c \<and> sint (maxAge c) > 0 then n + 1 else n);
         xs = drop (length old) xs;
         gone = (if maxSize c > 0 \<and> int (length xs) > maxSize c then take 1 xs else [])
     in (drop (length gone) xs, n, ev @ evictions c (old @ gone)))"

definition s_put :: "'k lru_cache \<Rightarrow> (nat \<Rightarrow> int64) \<Rightarrow> ('k, 'v) lentry \<Rightarrow> ('k, 'v) lru_spec \<Rightarrow> ('k, 'v) lru_spec" where
  "s_put c t e x = (case x of (xs, n, ev) \<Rightarrow> s_trim c t (drop_key (ekey e) xs @ [e], n, ev))"

definition s_get :: "'k lru_cache \<Rightarrow> (nat \<Rightarrow> int64) \<Rightarrow> 'k \<Rightarrow> ('k, 'v) lru_spec \<Rightarrow> ('k, 'v) lentry option \<times> ('k, 'v) lru_spec" where
  "s_get c t k x = (case x of (xs, n, ev) \<Rightarrow>
     case with_key k xs of
       [] \<Rightarrow> (None, x)
     | e # _ \<Rightarrow>
         let check = (\<not> staleReturn c \<and> sint (maxAge c) > 0); m = (if check then n + 1 else n) in
         if check \<and> sle (expires e) (t n)
         then (None, s_trim c t (drop_key k xs, m, ev @ evictions c [e]))
         else if sint (maxAge c) > 0 \<and> updateAgeOnGet c
         then (Some (e\<lparr>expires := t m + maxAge c\<rparr>), (drop_key k xs @ [e\<lparr>expires := t m + maxAge c\<rparr>], m + 1, ev))
         else (Some e, (drop_key k xs @ [e], m, ev)))"

definition s_load_or_store ::
  "'k lru_cache \<Rightarrow> (nat \<Rightarrow> int64) \<Rightarrow> int64 \<Rightarrow> 'k \<Rightarrow> 'v \<Rightarrow> ('k, 'v) lru_spec \<Rightarrow> ('v \<times> bool) \<times> ('k, 'v) lru_spec" where
  "s_load_or_store c t age k v x = (case x of (xs, n, ev) \<Rightarrow>
     case with_key k xs of
       [] \<Rightarrow> ((v, False), s_put c t \<lparr>ekey = k, evalue = v, expires = t n + maxAge c\<rparr> (xs, n + 1, ev))
     | e # _ \<Rightarrow>
         let m = (if sint (maxAge c) > 0 then n + 1 else n) in
         if sint (maxAge c) > 0 \<and> sle (expires e) (t n)
         then ((v, False), s_put c t \<lparr>ekey = k, evalue = v, expires = t m + maxAge c\<rparr> (drop_key k xs, m + 1, ev @ evictions c [e]))
         else if sint (maxAge c) > 0 \<and> updateAgeOnGet c
         then ((evalue e, True), (drop_key k xs @ [e\<lparr>expires := t m + age\<rparr>], m + 1, ev))
         else ((evalue e, True), (drop_key k xs @ [e], m, ev)))"


lemma map_key_drop [simp]: "map (\<lambda>e. if ekey e = k then f e else e) (drop_key k xs) = drop_key k xs"
  by (auto simp: drop_key_def intro: map_idI)

lemma with_key_key: "with_key k xs = e # es \<Longrightarrow> ekey e = k"
  by (auto simp: with_key_def filter_eq_Cons_iff)

lemma delete_expired_rep:
  assumes "lru_rep c t (d, w) (xs, n, ev)"
  shows "\<exists>d' w'. delete_expired now (d, w) = Some (d', w') \<and>
     lru_rep c t (d', w') (dropWhile (\<lambda>e. sle (expires e) now) xs, n, ev @ evictions c (takeWhile (\<lambda>e. sle (expires e) now) xs))"
  using assms
proof (induction xs arbitrary: d w ev)
  case Nil
  with rep_Front(1) [OF Nil] show ?case by (subst delete_expired.simps) simp
next
  case (Cons e xs)
  obtain p where p: "Front (lru d) (listmem w) = Some p" "cache d (ekey e) = Some p" "entry_of p w = Some e"
    "with_key (ekey e) (e # xs) = [e]" "drop_key (ekey e) (e # xs) = xs" using rep_Front(2) [OF Cons.prems] by blast
  show ?case
  proof (cases "sle (expires e) now")
    case True
    obtain d' w' where d': "deleteElement p (d, w) = Some (d', w')" "lru_rep c t (d', w') (xs, n, ev @ evictions c [e])"
      using rep_delete [OF Cons.prems p(2)] p(4,5) by metis
    from Cons.IH [OF d'(2)] p d'(1) True show ?thesis by (subst delete_expired.simps) (simp flip: evictions_append)
  next
    case False
    with p Cons.prems show ?thesis by (subst delete_expired.simps) simp
  qed
qed

lemma maybeDeleteOldest_rep:
  assumes "lru_rep c t (d, w) x"
  shows "\<exists>s'. maybeDeleteOldest (d, w) = Some s' \<and> lru_rep c t s' (s_trim c t x)"
proof -
  obtain xs n ev where x: "x = (xs, n, ev)" by (cases x)
  note cfg = rep_config [OF assms]
  define age where "age \<longleftrightarrow> \<not> staleReturn c \<and> sint (maxAge c) > 0"
  define old where "old = (if age then takeWhile (\<lambda>e. sle (expires e) (t n)) xs else [])"
  define m where "m = (if age then n + 1 else n)"
  have "\<exists>d1 w1. (if age then (case Now w of (now, w) \<Rightarrow> delete_expired now (d, w)) else Some (d, w)) = Some (d1, w1) \<and>
      lru_rep c t (d1, w1) (drop (length old) xs, m, ev @ evictions c old)"
  proof (cases age)
    case True
    obtain w1 where "Now w = (t n, w1)" "lru_rep c t (d, w1) (xs, n + 1, ev)" by (rule rep_Now [OF assms [unfolded x]])
    with delete_expired_rep [of c t d w1 xs "n + 1" ev "t n"] True show ?thesis
      by (auto simp: old_def m_def dropWhile_eq_drop)
  qed (use assms x in \<open>auto simp: old_def m_def\<close>)
  then obtain d1 w1 where s1: "(if age then (case Now w of (now, w) \<Rightarrow> delete_expired now (d, w)) else Some (d, w)) = Some (d1, w1)"
    "lru_rep c t (d1, w1) (drop (length old) xs, m, ev @ evictions c old)" by blast
  have run: "maybeDeleteOldest (d, w) =
      (if maxSize c > 0 \<and> int (length (drop (length old) xs)) > maxSize c
       then do { le \<leftarrow> Front (lru d1) (listmem w1); deleteElement le (d1, w1) } else Some (d1, w1))"
    unfolding maybeDeleteOldest_def fst_conv snd_conv cfg(1,2,5) age_def [symmetric] s1(1)
    using rep_config [OF s1(2)] rep_len [OF s1(2)] by simp
  have trim: "s_trim c t x = (let ys = drop (length old) xs; gone = (if maxSize c > 0 \<and> int (length ys) > maxSize c then take 1 ys else []) in
      (drop (length gone) ys, m, ev @ evictions c (old @ gone)))"
    by (simp add: s_trim_def x old_def m_def age_def Let_def)
  show ?thesis
  proof (cases "maxSize c > 0 \<and> int (length (drop (length old) xs)) > maxSize c")
    case True
    then obtain e ys where ys: "drop (length old) xs = e # ys" by (cases "drop (length old) xs") auto
    obtain p where p: "Front (lru d1) (listmem w1) = Some p" "cache d1 (ekey e) = Some p"
      "with_key (ekey e) (e # ys) = [e]" "drop_key (ekey e) (e # ys) = ys"
      using rep_Front(2) [OF s1(2) ys] by (metis ys)
    obtain d' w' where "deleteElement p (d1, w1) = Some (d', w')" "lru_rep c t (d', w') (ys, m, ev @ evictions c (old @ [e]))"
      using rep_delete [OF s1(2) p(2)] p(3,4) ys by (metis append.assoc evictions_append)
    with run True p(1) trim ys show ?thesis by (auto simp: Let_def)
  next
    case False
    with run s1(2) trim show ?thesis by (auto simp: Let_def)
  qed
qed

lemma rep_set_last:
  assumes "lru_rep c t (d, w) (drop_key k xs @ [e], n, ev)" "cache d k = Some p" "ekey e = k" "\<And>e. ekey (f e) = ekey e"
  obtains w' where "set_entry p f w = Some w'" "lru_rep c t (d, w') (drop_key k xs @ [f e], n, ev)"
proof -
  obtain w' where w': "set_entry p f w = Some w'"
    "lru_rep c t (d, w') (map (\<lambda>e. if ekey e = k then f e else e) (drop_key k xs @ [e]), n, ev)"
    by (rule rep_set [OF assms(1,2), of f, OF assms(4)])
  have "map (\<lambda>e. if ekey e = k then f e else e) (drop_key k xs @ [e]) = drop_key k xs @ [f e]" using assms(3) by simp
  with that w' show ?thesis by simp
qed

lemma rep_update:
  assumes "lru_rep c t (d, w) (xs, n, ev)" "cache d k = Some p" "with_key k xs = [e]" "\<And>e. ekey (f e) = ekey e"
  obtains w1 w2 where "lru_MoveToBack p (d, w) = Some (d, w1)"
    "set_entry p f w1 = Some w2" "lru_rep c t (d, w2) (drop_key k xs @ [f e], n, ev)"
proof -
  obtain w1 where w1: "lru_MoveToBack p (d, w) = Some (d, w1)" "lru_rep c t (d, w1) (drop_key k xs @ [e], n, ev)"
    by (rule rep_move [OF assms(1,2), unfolded assms(3)])
  obtain w2 where "set_entry p f w1 = Some w2" "lru_rep c t (d, w2) (drop_key k xs @ [f e], n, ev)"
    by (rule rep_set_last [OF w1(2) assms(2) with_key_key [OF assms(3)], of f, OF assms(4)])
  with that w1 show ?thesis by blast
qed

text \<open>\<open>MoveToBack\<close>, then a reading of the clock, then the update of the entry.\<close>

lemma rep_refresh:
  assumes "lru_rep c t (d, w) (xs, n, ev)" "cache d k = Some p" "with_key k xs = [e]" "\<And>i e. ekey (f i e) = ekey e"
  obtains w1 w2 w3 where "lru_MoveToBack p (d, w) = Some (d, w1)" "Now w1 = (t n, w2)" "set_entry p (f (t n)) w2 = Some w3"
    "lru_rep c t (d, w3) (drop_key k xs @ [f (t n) e], n + 1, ev)"
proof -
  obtain w1 where w1: "lru_MoveToBack p (d, w) = Some (d, w1)" "lru_rep c t (d, w1) (drop_key k xs @ [e], n, ev)"
    by (rule rep_move [OF assms(1,2), unfolded assms(3)])
  obtain w2 where w2: "Now w1 = (t n, w2)" "lru_rep c t (d, w2) (drop_key k xs @ [e], n + 1, ev)" by (rule rep_Now [OF w1(2)])
  obtain w3 where "set_entry p (f (t n)) w2 = Some w3" "lru_rep c t (d, w3) (drop_key k xs @ [f (t n) e], n + 1, ev)"
    by (rule rep_set_last [OF w2(2) assms(2) with_key_key [OF assms(3)], of "f (t n)", OF assms(4)])
  with that w1 w2 show ?thesis by blast
qed

lemma rep_Some_entry:
  assumes "lru_rep c t (d, w) (xs @ [e], n, ev)" "cache d (ekey e) = Some p"
  shows "entry_of p w = Some e"
  using rep_Some [OF assms] by (auto simp: with_key_def split: if_splits)

lemma lru_get_rep:
  assumes "lru_rep c t (d, w) x"
  shows "\<exists>le d' w'. lru_get k (d, w) = Some (le, (d', w')) \<and> lru_rep c t (d', w') (snd (s_get c t k x)) \<and>
     (case fst (s_get c t k x) of None \<Rightarrow> le = None | Some e \<Rightarrow> \<exists>p. le = Some p \<and> entry_of p w' = Some e)"
proof -
  obtain xs n ev where x: "x = (xs, n, ev)" by (cases x)
  note R = assms [unfolded x] and cfg = rep_config [OF assms]
  show ?thesis
  proof (cases "cache d k")
    case None
    with rep_None [OF R None] R show ?thesis by (simp add: lru_get_def s_get_def x)
  next
    case (Some p)
    obtain e where e: "with_key k xs = [e]" "entry_of p w = Some e" using rep_Some [OF R Some] by blast
    have ek: "ekey e = k" by (rule with_key_key [OF e(1)])
    define check where "check \<longleftrightarrow> \<not> staleReturn c \<and> sint (maxAge c) > 0"
    define m where "m = (if check then n + 1 else n)"
    obtain wn where wn: "Now w = (t n, wn)" "lru_rep c t (d, wn) (xs, n + 1, ev)" by (rule rep_Now [OF R])
    define w1 where "w1 = (if check then wn else w)"
    have w1: "(if check then do { e \<leftarrow> entry_of p w; let (now, w) = Now w; Some (sle (expires e) now, w) }
         else Some (False, w)) = Some (check \<and> sle (expires e) (t n), w1)" "lru_rep c t (d, w1) (xs, m, ev)"
      using wn R e(2) by (simp_all add: m_def w1_def)
    have spec: "s_get c t k x =
      (if check \<and> sle (expires e) (t n) then (None, s_trim c t (drop_key k xs, m, ev @ evictions c [e]))
       else if sint (maxAge c) > 0 \<and> updateAgeOnGet c
       then (Some (e\<lparr>expires := t m + maxAge c\<rparr>), (drop_key k xs @ [e\<lparr>expires := t m + maxAge c\<rparr>], m + 1, ev))
       else (Some e, (drop_key k xs @ [e], m, ev)))"
      by (simp add: s_get_def x e(1) Let_def check_def m_def)
    have run: "lru_get k (d, w) =
      (if check \<and> sle (expires e) (t n) then do { s \<leftarrow> deleteElement p (d, w1); s \<leftarrow> maybeDeleteOldest s; Some (None, s) }
       else do {
         (c, w) \<leftarrow> lru_MoveToBack p (d, w1);
         if sint (maxAge c) > 0 \<and> updateAgeOnGet c
         then (let (now, w) = Now w in do {
           w \<leftarrow> set_entry p (\<lambda>e. e\<lparr>expires := now + maxAge c\<rparr>) w;
           Some (Some p, (c, w)) })
         else Some (Some p, (c, w)) })"
      unfolding lru_get_def prod.case Some option.case cfg(1,5) check_def [symmetric] w1(1) by simp
    show ?thesis
    proof (cases "check \<and> sle (expires e) (t n)")
      case True
      obtain d' w' where d': "deleteElement p (d, w1) = Some (d', w')" "lru_rep c t (d', w') (drop_key k xs, m, ev @ evictions c [e])"
        using rep_delete [OF w1(2) Some] e(1) by metis
      from maybeDeleteOldest_rep [OF d'(2)] d'(1) run spec True show ?thesis by auto
    next
      case False
      show ?thesis
      proof (cases "sint (maxAge c) > 0 \<and> updateAgeOnGet c")
        case True
        obtain w2 w3 w4 where "lru_MoveToBack p (d, w1) = Some (d, w2)" "Now w2 = (t m, w3)"
          "set_entry p (\<lambda>e. e\<lparr>expires := t m + maxAge c\<rparr>) w3 = Some w4"
          "lru_rep c t (d, w4) (drop_key k xs @ [e\<lparr>expires := t m + maxAge c\<rparr>], m + 1, ev)"
          by (rule rep_refresh [OF w1(2) Some e(1), of "\<lambda>i e. e\<lparr>expires := i + maxAge c\<rparr>"]) auto
        moreover from this(4) have "entry_of p w4 = Some (e\<lparr>expires := t m + maxAge c\<rparr>)"
          by (rule rep_Some_entry) (simp add: ek Some)
        ultimately show ?thesis using run spec False True cfg by simp
      next
        case no: False
        obtain w2 where "lru_MoveToBack p (d, w1) = Some (d, w2)" "lru_rep c t (d, w2) (drop_key k xs @ [e], m, ev)"
          using rep_move [OF w1(2) Some] e(1) by metis
        moreover from this(2) have "entry_of p w2 = Some e" by (rule rep_Some_entry) (simp add: ek Some)
        ultimately show ?thesis using run spec False no cfg by auto
      qed
    qed
  qed
qed

lemma StoreWithExpire_rep:
  assumes "lru_rep c t (d, w) x"
  shows "\<exists>s'. StoreWithExpire k v ex (d, w) = Some s' \<and> lru_rep c t s' (s_put c t \<lparr>ekey = k, evalue = v, expires = ex\<rparr> x)"
proof -
  obtain xs n ev where x: "x = (xs, n, ev)" by (cases x)
  note R = assms [unfolded x]
  let ?e = "\<lparr>ekey = k, evalue = v, expires = ex\<rparr>"
  show ?thesis
  proof (cases "cache d k")
    case None
    have "cache d (ekey ?e) = None" using None by simp
    from rep_push [OF R this] obtain d' w' where d': "push_entry ?e (d, w) = Some (d', w')" "lru_rep c t (d', w') (xs @ [?e], n, ev)"
      by (metis surj_pair)
    from maybeDeleteOldest_rep [OF d'(2)] d'(1) None rep_None(2) [OF R None] show ?thesis
      by (simp add: StoreWithExpire_def s_put_def x)
  next
    case (Some p)
    obtain e where e: "with_key k xs = [e]" using rep_Some [OF R Some] by blast
    obtain w1 w2 where w: "lru_MoveToBack p (d, w) = Some (d, w1)" "set_entry p (\<lambda>e. e\<lparr>evalue := v, expires := ex\<rparr>) w1 = Some w2"
      "lru_rep c t (d, w2) (drop_key k xs @ [e\<lparr>evalue := v, expires := ex\<rparr>], n, ev)"
      by (rule rep_update [OF R Some e, of "\<lambda>e. e\<lparr>evalue := v, expires := ex\<rparr>"]) auto
    have "e\<lparr>evalue := v, expires := ex\<rparr> = ?e" using with_key_key [OF e] by simp
    with maybeDeleteOldest_rep [OF w(3)] w(1,2) Some show ?thesis by (simp add: StoreWithExpire_def s_put_def x)
  qed
qed

lemma lru_create_rep:
  assumes "lru_rep c t (d, w) (xs, n, ev)" "cache d k = None"
  shows "\<exists>s'. lru_create age age' k v (d, w) = Some ((v, False), s') \<and>
    lru_rep c t s' (s_put c t \<lparr>ekey = k, evalue = v, expires = t n + age'\<rparr> (xs, n + 1, ev))"
proof -
  let ?e = "\<lparr>ekey = k, evalue = v, expires = t n + age'\<rparr>"
  obtain w1 where w1: "Now w = (t n, w1)" "lru_rep c t (d, w1) (xs, n + 1, ev)" by (rule rep_Now [OF assms(1)])
  have "cache d (ekey ?e) = None" using assms(2) by simp
  from rep_push [OF w1(2) this] obtain d' w' where d': "push_entry ?e (d, w1) = Some (d', w')" "lru_rep c t (d', w') (xs @ [?e], n + 1, ev)"
    by (metis surj_pair)
  from maybeDeleteOldest_rep [OF d'(2)] d'(1) w1(1) assms(2) rep_None(2) [OF assms] show ?thesis
    by (auto simp: lru_create_def s_put_def)
qed

lemma load_or_store_rep:
  assumes "lru_rep c t (d, w) x"
  shows "\<exists>s'. load_or_store age (maxAge c) k v (d, w) = Some (fst (s_load_or_store c t age k v x), s') \<and>
    lru_rep c t s' (snd (s_load_or_store c t age k v x))"
proof -
  obtain xs n ev where x: "x = (xs, n, ev)" by (cases x)
  note R = assms [unfolded x] and cfg = rep_config [OF assms]
  show ?thesis
  proof (cases "cache d k")
    case None
    with lru_create_rep [OF R None, of age "maxAge c" v] rep_None [OF R None] show ?thesis
      by (auto simp: load_or_store_def s_load_or_store_def x)
  next
    case (Some p)
    obtain e where e: "with_key k xs = [e]" "entry_of p w = Some e" using rep_Some [OF R Some] by blast
    have ek: "ekey e = k" by (rule with_key_key [OF e(1)])
    define check where "check \<longleftrightarrow> sint (maxAge c) > 0"
    define m where "m = (if check then n + 1 else n)"
    obtain wn where wn: "Now w = (t n, wn)" "lru_rep c t (d, wn) (xs, n + 1, ev)" by (rule rep_Now [OF R])
    define w1 where "w1 = (if check then wn else w)"
    have w1: "(if check then do { e \<leftarrow> entry_of p w; let (now, w) = Now w; Some (sle (expires e) now, w) }
         else Some (False, w)) = Some (check \<and> sle (expires e) (t n), w1)" "lru_rep c t (d, w1) (xs, m, ev)"
      using wn R e(2) by (simp_all add: m_def w1_def)
    have spec: "s_load_or_store c t age k v x =
      (if check \<and> sle (expires e) (t n)
       then ((v, False), s_put c t \<lparr>ekey = k, evalue = v, expires = t m + maxAge c\<rparr> (drop_key k xs, m + 1, ev @ evictions c [e]))
       else if check \<and> updateAgeOnGet c
       then ((evalue e, True), (drop_key k xs @ [e\<lparr>expires := t m + age\<rparr>], m + 1, ev))
       else ((evalue e, True), (drop_key k xs @ [e], m, ev)))"
      by (simp add: s_load_or_store_def x e(1) Let_def check_def m_def)
    have run: "load_or_store age (maxAge c) k v (d, w) =
      (if check \<and> sle (expires e) (t n) then do { s \<leftarrow> deleteElement p (d, w1); lru_create age (maxAge c) k v s }
       else do {
         (c, w) \<leftarrow> lru_MoveToBack p (d, w1);
         w \<leftarrow> (if sint (maxAge c) > 0 \<and> updateAgeOnGet c
           then (let (now, w) = Now w in set_entry p (\<lambda>e. e\<lparr>expires := now + age\<rparr>) w)
           else Some w);
         e \<leftarrow> entry_of p w;
         Some ((evalue e, True), (c, w)) })"
      unfolding load_or_store_def prod.case Some option.case cfg(1) check_def [symmetric] w1(1) by simp
    show ?thesis
    proof (cases "check \<and> sle (expires e) (t n)")
      case True
      obtain d' w' where d': "deleteElement p (d, w1) = Some (d', w')" "d' = d\<lparr>cache := (cache d)(k := None)\<rparr>"
        "lru_rep c t (d', w') (drop_key k xs, m, ev @ evictions c [e])"
        by (rule rep_delete [OF w1(2) Some, unfolded e(1)])
      have "cache d' k = None" using d'(2) by simp
      from lru_create_rep [OF d'(3) this, of age "maxAge c" v] d'(1) run spec True show ?thesis by auto
    next
      case False
      show ?thesis
      proof (cases "check \<and> updateAgeOnGet c")
        case True
        obtain w2 w3 w4 where "lru_MoveToBack p (d, w1) = Some (d, w2)" "Now w2 = (t m, w3)"
          "set_entry p (\<lambda>e. e\<lparr>expires := t m + age\<rparr>) w3 = Some w4"
          "lru_rep c t (d, w4) (drop_key k xs @ [e\<lparr>expires := t m + age\<rparr>], m + 1, ev)"
          by (rule rep_refresh [OF w1(2) Some e(1), of "\<lambda>i e. e\<lparr>expires := i + age\<rparr>"]) auto
        moreover from this(4) have "entry_of p w4 = Some (e\<lparr>expires := t m + age\<rparr>)"
          by (rule rep_Some_entry) (simp add: ek Some)
        ultimately show ?thesis using run spec False True cfg by (simp add: check_def)
      next
        case no: False
        obtain w2 where "lru_MoveToBack p (d, w1) = Some (d, w2)" "lru_rep c t (d, w2) (drop_key k xs @ [e], m, ev)"
          by (rule rep_move [OF w1(2) Some, unfolded e(1)])
        moreover from this(2) have "entry_of p w2 = Some e" by (rule rep_Some_entry) (simp add: ek Some)
        ultimately show ?thesis using run spec False no cfg by (auto simp: check_def)
      qed
    qed
  qed
qed

lemma lru_Clear_rep:
  assumes "lru_rep c t (d, w) (xs, n, ev)"
  shows "\<exists>s'. lru_Clear (d, w) = Some s' \<and> lru_rep c t s' (tl xs, n, ev @ evictions c (take 1 xs))"
proof (cases xs)
  case Nil
  with rep_Front(1) [OF assms Nil] assms show ?thesis by (simp add: lru_Clear_def clear_loop.simps)
next
  case (Cons e ys)
  obtain p where p: "Front (lru d) (listmem w) = Some p" "cache d (ekey e) = Some p"
    "with_key (ekey e) xs = [e]" "drop_key (ekey e) xs = ys" using rep_Front(2) [OF assms Cons] by blast
  obtain d' w' where d': "deleteElement p (d, w) = Some (d', w')" "lru_rep c t (d', w') (ys, n, ev @ evictions c [e])"
    "list_Next p (listmem w') = None" by (rule rep_delete [OF assms p(2), unfolded p(3,4)])
  have "lru_Clear (d, w) = Some (d', w')"
    using p(1) d'(1,3) by (simp add: lru_Clear_def clear_loop.simps [of "Some p"] clear_loop.simps [of None])
  with d'(2) Cons show ?thesis by simp
qed

lemma range_loop_lst:
  assumes "is_list (listmem w) l (us @ qs)" "\<And>q. q \<in> set qs \<Longrightarrow> entry_of q w = Some (ent w q)"
  shows "range_loop (case qs of [] \<Rightarrow> None | q # _ \<Rightarrow> Some q) w = Some (map (\<lambda>p. (ekey (ent w p), evalue (ent w p))) qs)"
  using assms
proof (induction qs arbitrary: us)
  case Nil
  show ?case by (simp add: range_loop.simps)
next
  case (Cons q qs)
  have "lst (listmem w) l (us @ q # qs)" using Cons.prems(1) by (simp add: is_list_def)
  moreover have "is_list (listmem w) l ((us @ [q]) @ qs)" using Cons.prems(1) by simp
  ultimately show ?case using Cons.IH [of "us @ [q]"] Cons.prems(2) lst_Next
    by (subst range_loop.simps) (simp add: lst_Next)
qed

lemma lru_Range_rep:
  assumes "lru_rep c t (d, w) (xs, n, ev)"
  shows "lru_Range (d, w) = Some (map (\<lambda>e. (ekey e, evalue e)) xs)"
proof -
  obtain ps where ps: "lru_inv ps (d, w)" "map (ent w) ps = xs" by (rule repE [OF assms])
  then have L: "is_list (listmem w) (lru d) ([] @ ps)" by (simp add: lru_inv_def)
  from range_loop_lst [OF L] inv_entry [OF ps(1)] ps(2) is_list_Front [OF L] show ?thesis
    by (auto simp: lru_Range_def)
qed

section \<open>Sequences of calls\<close>

datatype ('k, 'v) lru_op =
    DoLoad 'k | DoLoadWithExpire 'k | DoExist 'k | DoStore 'k 'v | DoStoreWithExpire 'k 'v int64
  | DoLoadOrStore 'k 'v | DoLoadOrStoreWithAge 'k int64 'v | DoDelete 'k | DoClear | DoRange

datatype ('k, 'v) lru_result =
    Value_result "'v option" | Expire_result "('v \<times> int64) option" | Bool_result bool | Unit_result
  | Stored_result "'v \<times> bool" | Range_result "('k \<times> 'v) list"

fun lru_step :: "('k, 'v) lru_op \<Rightarrow> ('k, 'v) lru_state \<Rightarrow> (('k, 'v) lru_result \<times> ('k, 'v) lru_state) option" where
  "lru_step (DoLoad k) s = map_option (apfst Value_result) (Load k s)"
| "lru_step (DoLoadWithExpire k) s = map_option (apfst Expire_result) (LoadWithExpire k s)"
| "lru_step (DoExist k) s = Some (Bool_result (Exist k s), s)"
| "lru_step (DoStore k v) s = map_option (Pair Unit_result) (Store k v s)"
| "lru_step (DoStoreWithExpire k v ex) s = map_option (Pair Unit_result) (StoreWithExpire k v ex s)"
| "lru_step (DoLoadOrStore k v) s = map_option (apfst Stored_result) (LoadOrStore k v s)"
| "lru_step (DoLoadOrStoreWithAge k age v) s = map_option (apfst Stored_result) (LoadOrStoreWithAge k age v s)"
| "lru_step (DoDelete k) s = map_option (Pair Unit_result) (lru_Delete k s)"
| "lru_step DoClear s = map_option (Pair Unit_result) (lru_Clear s)"
| "lru_step DoRange s = map_option (\<lambda>r. (Range_result r, s)) (lru_Range s)"

fun spec_step :: "'k lru_cache \<Rightarrow> (nat \<Rightarrow> int64) \<Rightarrow> ('k, 'v) lru_op \<Rightarrow> ('k, 'v) lru_spec \<Rightarrow> ('k, 'v) lru_result \<times> ('k, 'v) lru_spec" where
  "spec_step c t (DoLoad k) x = apfst (\<lambda>r. Value_result (map_option evalue r)) (s_get c t k x)"
| "spec_step c t (DoLoadWithExpire k) x = apfst (\<lambda>r. Expire_result (map_option (\<lambda>e. (evalue e, expires e)) r)) (s_get c t k x)"
| "spec_step c t (DoExist k) x = (Bool_result (with_key k (fst x) \<noteq> []), x)"
| "spec_step c t (DoStore k v) (xs, n, ev) =
     (Unit_result,
      if sint (maxAge c) > 0 then s_put c t \<lparr>ekey = k, evalue = v, expires = t n + maxAge c\<rparr> (xs, n + 1, ev)
      else s_put c t \<lparr>ekey = k, evalue = v, expires = 0\<rparr> (xs, n, ev))"
| "spec_step c t (DoStoreWithExpire k v ex) x = (Unit_result, s_put c t \<lparr>ekey = k, evalue = v, expires = ex\<rparr> x)"
| "spec_step c t (DoLoadOrStore k v) x = apfst Stored_result (s_load_or_store c t (maxAge c) k v x)"
| "spec_step c t (DoLoadOrStoreWithAge k age v) x =
     apfst Stored_result (s_load_or_store c t (if age = 0 then maxAge c else age) k v x)"
| "spec_step c t (DoDelete k) (xs, n, ev) = (Unit_result, (drop_key k xs, n, ev @ evictions c (with_key k xs)))"
| "spec_step c t DoClear (xs, n, ev) = (Unit_result, (tl xs, n, ev @ evictions c (take 1 xs)))"
| "spec_step c t DoRange x = (Range_result (map (\<lambda>e. (ekey e, evalue e)) (fst x)), x)"

lemma Load_rep:
  assumes "lru_rep c t (d, w) x"
  shows "\<exists>s'. Load k (d, w) = Some (map_option evalue (fst (s_get c t k x)), s') \<and> lru_rep c t s' (snd (s_get c t k x))"
    "\<exists>s'. LoadWithExpire k (d, w) = Some (map_option (\<lambda>e. (evalue e, expires e)) (fst (s_get c t k x)), s') \<and>
      lru_rep c t s' (snd (s_get c t k x))"
  using lru_get_rep [OF assms, of k] by (auto simp: Load_def LoadWithExpire_def split: option.splits)

lemma Exist_rep: "lru_rep c t (d, w) (xs, n, ev) \<Longrightarrow> Exist k (d, w) \<longleftrightarrow> with_key k xs \<noteq> []"
  using rep_None [of c t d w xs n ev k] rep_Some [of c t d w xs n ev k] by (cases "cache d k") (auto simp: Exist_def)

lemma Delete_rep:
  assumes "lru_rep c t (d, w) (xs, n, ev)"
  shows "\<exists>s'. lru_Delete k (d, w) = Some s' \<and> lru_rep c t s' (drop_key k xs, n, ev @ evictions c (with_key k xs))"
proof (cases "cache d k")
  case None
  with rep_None [OF assms None] assms show ?thesis by (simp add: lru_Delete_def)
next
  case (Some p)
  obtain d' w' where "deleteElement p (d, w) = Some (d', w')"
    "lru_rep c t (d', w') (drop_key k xs, n, ev @ evictions c (with_key k xs))" by (rule rep_delete [OF assms Some])
  with Some show ?thesis by (simp add: lru_Delete_def)
qed

lemma Store_rep:
  assumes "lru_rep c t (d, w) (xs, n, ev)"
  shows "\<exists>s'. Store k v (d, w) = Some s' \<and> lru_rep c t s' (snd (spec_step c t (DoStore k v) (xs, n, ev)))"
proof (cases "sint (maxAge c) > 0")
  case True
  obtain w1 where "Now w = (t n, w1)" "lru_rep c t (d, w1) (xs, n + 1, ev)" by (rule rep_Now [OF assms])
  with StoreWithExpire_rep [of c t d w1 "(xs, n + 1, ev)" k v "t n + maxAge c"] True rep_config(1) [OF assms] show ?thesis
    by (simp add: Store_def)
next
  case False
  with StoreWithExpire_rep [OF assms, of k v 0] rep_config(1) [OF assms] show ?thesis by (simp add: Store_def)
qed

lemma lru_step_rep:
  assumes "lru_rep c t s x"
  shows "\<exists>s'. lru_step op s = Some (fst (spec_step c t op x), s') \<and> lru_rep c t s' (snd (spec_step c t op x))"
proof -
  obtain d w xs n ev where s: "s = (d, w)" and x: "x = (xs, n, ev)" by (cases s, cases x) auto
  note R = assms [unfolded s x]
  show ?thesis
  proof (cases op)
    case (DoLoad k) then show ?thesis using Load_rep(1) [OF R, of k] by (auto simp: s x)
  next
    case (DoLoadWithExpire k) then show ?thesis using Load_rep(2) [OF R, of k] by (auto simp: s x)
  next
    case (DoStore k v) then show ?thesis using Store_rep [OF R, of k v] by (auto simp: s x)
  next
    case (DoStoreWithExpire k v ex) then show ?thesis using StoreWithExpire_rep [OF R, of k v ex] by (auto simp: s x)
  next
    case (DoLoadOrStore k v)
    obtain s' where "load_or_store (maxAge c) (maxAge c) k v (d, w) = Some (fst (s_load_or_store c t (maxAge c) k v (xs, n, ev)), s')"
      "lru_rep c t s' (snd (s_load_or_store c t (maxAge c) k v (xs, n, ev)))" using load_or_store_rep [OF R] by blast
    with DoLoadOrStore rep_config(1) [OF R] show ?thesis by (intro exI [of _ s']) (simp add: s x LoadOrStore_def)
  next
    case (DoLoadOrStoreWithAge k age v)
    define a where "a = (if age = 0 then maxAge c else age)"
    obtain s' where s': "load_or_store a (maxAge c) k v (d, w) = Some (fst (s_load_or_store c t a k v (xs, n, ev)), s')"
      "lru_rep c t s' (snd (s_load_or_store c t a k v (xs, n, ev)))" using load_or_store_rep [OF R] by blast
    have "LoadOrStoreWithAge k age v (d, w) = load_or_store a (maxAge c) k v (d, w)"
      using rep_config(1) [OF R] by (simp add: LoadOrStoreWithAge_def a_def Let_def)
    moreover have "spec_step c t op x = apfst Stored_result (s_load_or_store c t a k v x)"
      using DoLoadOrStoreWithAge by (simp add: a_def)
    ultimately show ?thesis using DoLoadOrStoreWithAge s' by (intro exI [of _ s']) (simp add: s x)
  next
    case (DoDelete k) then show ?thesis using Delete_rep [OF R, of k] by (auto simp: s x)
  next
    case DoClear then show ?thesis using lru_Clear_rep [OF R] by (auto simp: s x)
  qed (use R Exist_rep [OF R] lru_Range_rep [OF R] in \<open>auto simp: s x\<close>)
qed

fun lru_run :: "('k, 'v) lru_op list \<Rightarrow> ('k, 'v) lru_state \<Rightarrow> (('k, 'v) lru_result list \<times> ('k, 'v) lru_state) option" where
  "lru_run [] s = Some ([], s)"
| "lru_run (op # ops) s = do { (r, s) \<leftarrow> lru_step op s; (rs, s) \<leftarrow> lru_run ops s; Some (r # rs, s) }"

fun spec_run :: "'k lru_cache \<Rightarrow> (nat \<Rightarrow> int64) \<Rightarrow> ('k, 'v) lru_op list \<Rightarrow> ('k, 'v) lru_spec \<Rightarrow> ('k, 'v) lru_result list \<times> ('k, 'v) lru_spec" where
  "spec_run c t [] x = ([], x)"
| "spec_run c t (op # ops) x =
     (let (r, x) = spec_step c t op x; (rs, x) = spec_run c t ops x in (r # rs, x))"

lemma spec_run_Cons:
  "spec_run c t (op # ops) x =
     (fst (spec_step c t op x) # fst (spec_run c t ops (snd (spec_step c t op x))), snd (spec_run c t ops (snd (spec_step c t op x))))"
  by (simp add: Let_def case_prod_beta)

declare spec_run.simps(2) [simp del] spec_run_Cons [simp]

lemma lru_run_rep:
  assumes "lru_rep c t s x"
  shows "\<exists>s'. lru_run ops s = Some (fst (spec_run c t ops x), s') \<and> lru_rep c t s' (snd (spec_run c t ops x))"
  using assms
proof (induction ops arbitrary: s x)
  case (Cons op ops)
  obtain s1 where s1: "lru_step op s = Some (fst (spec_step c t op x), s1)" "lru_rep c t s1 (snd (spec_step c t op x))"
    using lru_step_rep [OF Cons.prems] by blast
  from Cons.IH [OF s1(2)] s1(1) show ?case by auto
qed simp

lemma New_cache: "cache (lru_New l options) = Map.empty"
proof -
  have "cache (fold lru_option_apply os c) = cache c" for os and c :: "'a lru_cache"
  proof (induction os arbitrary: c)
    case (Cons x xs)
    then show ?case by (cases x) auto
  qed simp
  then show ?thesis by (simp add: lru_New_def)
qed

lemma New_rep: "lru_rep (lru_New l options) t (lru_New l options, new_world t) ([], 0, [])"
  by (rule repI [of "[]"]) (simp_all add: new_world_def inv_iff is_list_def empty_lheap_def zero_element_def New_cache)

lemma lru_run_New:
  obtains s where "lru_run ops (lru_New l options, new_world t) = Some (fst (spec_run (lru_New l options) t ops ([], 0, [])), s)"
    "lru_rep (lru_New l options) t s (snd (spec_run (lru_New l options) t ops ([], 0, [])))"
  using lru_run_rep [OF New_rep, where ops = ops] by blast

section \<open>Properties\<close>

text \<open>
  C17. The cache refines its specification. For any options, any clock and any sequence of
  calls on a new cache, no call panics or runs forever, every result is the one computed by
  the specification on a plain list of entries in order of use, the eviction callback has
  been called for exactly the entries the specification drops, in that order, and the
  entries of the cache (seen through \<open>Range\<close>) are the specification's.
\<close>

theorem lru_refines_spec:
  "\<exists>d w. lru_run ops (lru_New l options, new_world t) =
       Some (fst (spec_run (lru_New l options) t ops ([], 0, [])), (d, w)) \<and>
     (case snd (spec_run (lru_New l options) t ops ([], 0, [])) of (xs, n, ev) \<Rightarrow>
        evicted w = ev \<and> tick w = n \<and> lru_Range (d, w) = Some (map (\<lambda>e. (ekey e, evalue e)) xs) \<and> distinct (map ekey xs))"
proof -
  obtain s where s: "lru_run ops (lru_New l options, new_world t) = Some (fst (spec_run (lru_New l options) t ops ([], 0, [])), s)"
    "lru_rep (lru_New l options) t s (snd (spec_run (lru_New l options) t ops ([], 0, [])))" by (rule lru_run_New)
  obtain d w where dw: "s = (d, w)" by fastforce
  obtain xs n ev where x: "snd (spec_run (lru_New l options) t ops ([], 0, [])) = (xs, n, ev)" by (metis prod_cases3)
  note R = s(2) [unfolded x dw]
  from R have "evicted w = ev" "tick w = n" by (auto simp: lru_rep_def)
  with s(1) x dw lru_Range_rep [OF R] rep_distinct [OF R] show ?thesis by auto
qed

lemma s_trim_length:
  assumes "maxSize c > 0" "int (length xs) \<le> maxSize c + 1" "s_trim c t (xs, n, ev) = (ys, m, ev')"
  shows "int (length ys) \<le> maxSize c"
  using assms by (auto simp: s_trim_def Let_def split: if_splits)

lemma drop_key_length: "length (drop_key k xs) + length (with_key k xs) = length xs"
  unfolding drop_key_def with_key_def by (induction xs) auto

lemma s_put_length:
  assumes "maxSize c > 0" "int (length xs) \<le> maxSize c"
  shows "int (length (fst (s_put c t e (xs, n, ev)))) \<le> maxSize c"
proof -
  have "int (length (drop_key (ekey e) xs @ [e])) \<le> maxSize c + 1"
    using assms(2) drop_key_length [of "ekey e" xs] by simp
  from s_trim_length [OF assms(1) this] show ?thesis by (simp add: s_put_def) (metis prod.collapse)
qed

lemma s_trim_le:
  assumes "maxSize c > 0" "int (length xs) \<le> maxSize c"
  shows "int (length (fst (s_trim c t (xs, n, ev)))) \<le> maxSize c"
  using s_trim_length [OF assms(1), of xs t n ev] assms(2) by (metis add_increasing2 prod.collapse zero_le_one)

lemma spec_step_length:
  assumes "maxSize c > 0" "int (length (fst x)) \<le> maxSize c"
  shows "int (length (fst (snd (spec_step c t op x)))) \<le> maxSize c"
proof -
  obtain xs n ev where x: "x = (xs, n, ev)" by (cases x)
  have xs: "int (length xs) \<le> maxSize c" using assms(2) x by simp
  have touch: "int (length (drop_key k xs @ [f])) \<le> maxSize c" if "with_key k xs = e # es" for k e f es
    using drop_key_length [of k xs] xs that by simp
  have dropped: "int (length (drop_key k xs)) \<le> maxSize c" for k using drop_key_length [of k xs] xs by simp
  note put = s_put_length [OF assms(1)] and trim = s_trim_le [OF assms(1)]
  have get: "int (length (fst (snd (s_get c t k x)))) \<le> maxSize c" for k
  proof (cases "with_key k xs")
    case (Cons e es)
    then show ?thesis using touch [OF Cons] trim [OF dropped [of k]] by (simp add: s_get_def x Let_def)
  qed (use xs in \<open>simp add: s_get_def x\<close>)
  have los: "int (length (fst (snd (s_load_or_store c t age k v x)))) \<le> maxSize c" for age k v
  proof (cases "with_key k xs")
    case (Cons e es)
    then show ?thesis using touch [OF Cons] put [OF dropped [of k]] by (simp add: s_load_or_store_def x Let_def)
  qed (use put [OF xs] in \<open>simp add: s_load_or_store_def x\<close>)
  show ?thesis
    using get los put [OF xs] dropped xs by (cases op) (simp_all add: x)
qed

lemma spec_run_length:
  assumes "maxSize c > 0" "int (length (fst x)) \<le> maxSize c"
  shows "int (length (fst (snd (spec_run c t ops x)))) \<le> maxSize c"
  using assms(2)
proof (induction ops arbitrary: x)
  case (Cons op ops)
  from Cons.IH [OF spec_step_length [OF assms(1) Cons.prems]] show ?case by simp
qed simp

text \<open>
  C18. A cache with a size limit holds at most that many entries, under distinct keys, after
  any sequence of calls.
\<close>

theorem lru_bounded:
  fixes ops :: "('k, 'v) lru_op list"
  assumes "maxSize (lru_New l options :: 'k lru_cache) > 0"
  shows "\<exists>rs s kvs. lru_run ops (lru_New l options, new_world t) = Some (rs, s) \<and> lru_Range s = Some kvs \<and>
     int (length kvs) \<le> maxSize (lru_New l options :: 'k lru_cache) \<and> distinct (map fst kvs)"
proof -
  let ?c = "lru_New l options :: 'k lru_cache"
  obtain s where s: "lru_run ops (?c, new_world t) = Some (fst (spec_run ?c t ops ([], 0, [])), s)"
    "lru_rep ?c t s (snd (spec_run ?c t ops ([], 0, [])))" by (rule lru_run_New)
  obtain d w xs n ev where x: "s = (d, w)" "snd (spec_run ?c t ops ([], 0, [])) = (xs, n, ev)" by (metis prod_cases3 surj_pair)
  note R = s(2) [unfolded x]
  have "int (length xs) \<le> maxSize ?c" using spec_run_length [OF assms, of "([], 0, [])" t ops] assms x(2) by simp
  with s(1) x(1) lru_Range_rep [OF R] rep_distinct [OF R] show ?thesis by (auto simp: comp_def)
qed

theorem lru_bounded_witness:
  "\<exists>rs s kvs. lru_run [DoStore (1 :: nat) True, DoStore 2 False, DoStore 3 True] (lru_New 0 [WithSize 2], new_world (\<lambda>_. 0)) = Some (rs, s) \<and>
     lru_Range s = Some kvs \<and> int (length kvs) \<le> 2"
  using lru_bounded [where l = 0 and options = "[WithSize 2]" and t = "\<lambda>_. 0" and
      ops = "[DoStore (1 :: nat) True, DoStore 2 False, DoStore 3 True]"]
  by (auto simp: lru_New_def)

lemma spec_run_append:
  "spec_run c t (xs @ ys) x =
     (fst (spec_run c t xs x) @ fst (spec_run c t ys (snd (spec_run c t xs x))), snd (spec_run c t ys (snd (spec_run c t xs x))))"
  by (induction xs arbitrary: x) auto

lemma run_New:
  "\<exists>s. lru_run ops (lru_New l options, new_world t) = Some (fst (spec_run (lru_New l options) t ops ([], 0, [])), s)"
  using lru_run_New by metis



text \<open>
  \<open>Clear\<close> deletes only the least recently used entry: its loop moves on with
  \<open>element.Next()\<close> after the element has been removed from the list, where \<open>Next\<close> is nil.
  After any calls, all entries but the first are still there.
\<close>

theorem lru_Clear_keeps_rest:
  "\<exists>rs s kvs. lru_run (ops @ [DoRange, DoClear, DoRange]) (lru_New l options, new_world t) =
     Some (rs @ [Range_result kvs, Unit_result, Range_result (tl kvs)], s)"
proof -
  obtain rs xs n ev where r: "spec_run (lru_New l options) t ops ([], 0, []) = (rs, xs, n, ev)" by (metis prod_cases4)
  have "fst (spec_run (lru_New l options) t (ops @ [DoRange, DoClear, DoRange]) ([], 0, [])) =
      rs @ [Range_result (map (\<lambda>e. (ekey e, evalue e)) xs), Unit_result, Range_result (tl (map (\<lambda>e. (ekey e, evalue e)) xs))]"
    by (simp add: spec_run_append r map_tl)
  with run_New [of "ops @ [DoRange, DoClear, DoRange]" l options t] show ?thesis by auto
qed

text \<open>
  \<open>LoadOrStoreWithAge\<close> ignores the age it is given for a key that is not in the cache:
  the new entry expires after the age of the cache. As long as the entry is alive,
  \<open>LoadWithExpire\<close> returns that time, whatever \<open>age\<close> was.
\<close>

theorem lru_age_ignored:
  assumes "sint a > 0" "sint (t 0 + a) > sint (t 1)" "sint (t 0 + a) > sint (t 2)"
  shows "\<exists>s. lru_run [DoLoadOrStoreWithAge k age v, DoLoadWithExpire k] (lru_New l [WithAge a], new_world t) =
     Some ([Stored_result (v, False), Expire_result (Some (v, t 0 + a))], s)"
proof -
  have eq: "fst (spec_run (lru_New l [WithAge a]) t [DoLoadOrStoreWithAge k age v, DoLoadWithExpire k] ([], 0, [])) =
      [Stored_result (v, False), Expire_result (Some (v, t 0 + a))]"
    using assms by (simp add: lru_New_def s_load_or_store_def s_put_def s_trim_def s_get_def with_key_def drop_key_def
        evictions_def Let_def numeral_2_eq_2)
  from run_New [of "[DoLoadOrStoreWithAge k age v, DoLoadWithExpire k]" l "[WithAge a]" t] show ?thesis unfolding eq .
qed

theorem lru_age_ignored_witness:
  "\<exists>s. lru_run [DoLoadOrStoreWithAge True 5 False, DoLoadWithExpire True] (lru_New 0 [WithAge 60], new_world (\<lambda>_. 100)) =
     Some ([Stored_result (False, False), Expire_result (Some (False, 160))], s)"
  using lru_age_ignored [of 60 "\<lambda>_. 100" True 5 False 0] by simp

end
