(* ===== verification/LruClone.thy ===== *)
theory LruClone
  imports LruCacheLaws
begin

text \<open>
  \<open>CloneTo\<close> of \<open>common/cache/lrucache.go\<close>: the other cache gets the same entries in the same
  order. It gets them by reference, so a later update through one cache shows in the other.
\<close>

section \<open>Cloning\<close>

lemma zero_list_frame: "frame l h (zero_list l h)" "is_list (zero_list l h) l []"
  by (simp_all add: zero_list_def frame_def is_list_def zero_element_def)

lemma inv_frame:
  assumes "lru_inv ps (c, w)" "frame l (listmem w) h" "l \<noteq> lru c"
  shows "lru_inv ps (c, w\<lparr>listmem := h\<rparr>)" "\<And>p. p \<in> set ps \<Longrightarrow> ent (w\<lparr>listmem := h\<rparr>) p = ent w p"
proof -
  have L: "is_list (listmem w) (lru c) ps" using assms(1) by (simp add: inv_iff)
  show e: "ent (w\<lparr>listmem := h\<rparr>) p = ent w p" if "p \<in> set ps" for p
    using entry_of_frame [OF assms(2) L that] by (simp add: ent_def)
  have "is_list h (lru c) ps" using frame_lst [OF assms(2) assms(3) [symmetric] L] .
  then show "lru_inv ps (c, w\<lparr>listmem := h\<rparr>)"
    using assms(1) e frame_Value [OF assms(2) L] unfolding inv_iff by fastforce
qed

text \<open>The state of the loop: the part \<open>us\<close> of the list is copied to \<open>vs\<close>, the rest is to come.\<close>

definition cloned :: "'k lru_cache \<Rightarrow> ptr list \<Rightarrow> ptr list \<Rightarrow> ptr list \<Rightarrow> 'k lru_cache \<Rightarrow> ('k, 'v) lru_world \<Rightarrow> bool" where
  "cloned c ps us vs n w \<longleftrightarrow> lru_inv ps (c, w) \<and> is_list (listmem w) (lru n) vs \<and>
     map (\<lambda>p. Value (cells (listmem w) p)) vs = map (\<lambda>p. Value (cells (listmem w) p)) us \<and>
     (\<forall>k p. cache n k = Some p \<longleftrightarrow> p \<in> set vs \<and> ekey (ent w p) = k)"

lemma clone_loop_cloned:
  assumes "cloned c (us @ qs) us vs n w" "lru n \<noteq> lru c"
  shows "\<exists>n' h vs'. clone_loop (case qs of [] \<Rightarrow> None | q # _ \<Rightarrow> Some q) n w = Some (n', w\<lparr>listmem := h\<rparr>) \<and>
     cloned c (us @ qs) (us @ qs) vs' n' (w\<lparr>listmem := h\<rparr>) \<and> n'\<lparr>cache := cache n\<rparr> = n \<and>
     (\<forall>p \<in> set (us @ qs). ent (w\<lparr>listmem := h\<rparr>) p = ent w p)"
  using assms
proof (induction qs arbitrary: us vs n w)
  case Nil
  then have "cloned c us us vs n (w\<lparr>listmem := listmem w\<rparr>)" "n\<lparr>cache := cache n\<rparr> = n" by simp_all
  moreover have "clone_loop None n w = Some (n, w\<lparr>listmem := listmem w\<rparr>)" by (simp add: clone_loop.simps)
  moreover have "\<forall>p \<in> set us. ent (w\<lparr>listmem := listmem w\<rparr>) p = ent w p" by simp
  ultimately show ?case by (simp only: list.case append_Nil2) blast
next
  case (Cons q qs)
  let ?ps = "us @ q # qs"
  from Cons.prems(1) have inv: "lru_inv ?ps (c, w)" and L: "is_list (listmem w) (lru n) vs"
    and vals: "map (\<lambda>p. Value (cells (listmem w) p)) vs = map (\<lambda>p. Value (cells (listmem w) p)) us"
    and cch: "\<And>k p. cache n k = Some p \<longleftrightarrow> p \<in> set vs \<and> ekey (ent w p) = k" by (auto simp: cloned_def)
  obtain a where a: "Value (cells (listmem w) q) = Some a" "entries w a = Some (ent w q)"
    using inv inv_entry [OF inv, of q] by (fastforce simp: inv_iff entry_of_def)
  obtain h where h: "PushBack (lru n) a (listmem w) = Some (Elem (brk (listmem w)), h)" "lst h (lru n) (vs @ [Elem (brk (listmem w))])"
    "frame (lru n) (listmem w) h" "Value (cells h (Elem (brk (listmem w)))) = Some a" by (rule PushBack_lst [OF L])
  let ?p = "Elem (brk (listmem w))" and ?w = "w\<lparr>listmem := h\<rparr>"
  let ?n = "n\<lparr>cache := (cache n)(ekey (ent w q) \<mapsto> ?p)\<rparr>"
  note f = inv_frame [OF inv h(3) Cons.prems(2)]
  have v: "Value (cells h p) = Value (cells (listmem w) p)" if "p \<in> set vs \<union> set us \<union> {q}" for p
    using that frame_Value [OF h(3) L] frame_Value [OF h(3), of "lru c" ?ps] inv by (auto simp: inv_iff)
  have ent: "ent ?w p = ent w p" if "p \<in> set vs \<union> set us \<union> {q}" for p using v [OF that] by (simp add: ent_def entry_of_def)
  have new: "ent ?w ?p = ent w q" using h(4) a by (simp add: ent_def entry_of_def)
  have other: "ekey (ent w p) \<noteq> ekey (ent w q)" if "p \<in> set vs" for p
  proof -
    from that vals obtain u where u: "u \<in> set us" "Value (cells (listmem w) p) = Value (cells (listmem w) u)"
      by (metis (mono_tags, lifting) image_iff image_set)
    then have "ent w p = ent w u" by (simp add: ent_def entry_of_def)
    moreover have "u \<noteq> q" using u(1) inv_distinct [OF inv] by auto
    ultimately show ?thesis using inv_inj [OF inv, of u q] u(1) by auto
  qed
  have "?p \<notin> set vs" using lst_distinct [OF h(2)] by simp
  then have "cache ?n k = Some p \<longleftrightarrow> p \<in> set (vs @ [?p]) \<and> ekey (ent ?w p) = k" for k p
    using cch [of k p] other [of p] ent [of p] new by (cases "p = ?p") (auto simp: fun_upd_apply)
  moreover have "map (\<lambda>p. Value (cells h p)) (vs @ [?p]) = map (\<lambda>p. Value (cells h p)) (us @ [q])"
    using vals v a(1) h(4) by (simp cong: map_cong)
  ultimately have "cloned c ((us @ [q]) @ qs) (us @ [q]) (vs @ [?p]) ?n ?w" using f(1) h(2) by (simp add: cloned_def)
  note IH = Cons.IH [OF this]
  have "lru ?n \<noteq> lru c" "(us @ [q]) @ qs = ?ps" "?w\<lparr>listmem := h'\<rparr> = w\<lparr>listmem := h'\<rparr>" for h' using Cons.prems(2) by simp_all
  with IH obtain n' h' vs' where n':
    "clone_loop (case qs of [] \<Rightarrow> None | q # _ \<Rightarrow> Some q) ?n ?w = Some (n', w\<lparr>listmem := h'\<rparr>)"
    "cloned c ?ps ?ps vs' n' (w\<lparr>listmem := h'\<rparr>)" "n'\<lparr>cache := cache ?n\<rparr> = ?n"
    "\<forall>p \<in> set ?ps. ent (w\<lparr>listmem := h'\<rparr>) p = ent ?w p" by (simp only:) blast
  have "lst h (lru c) ?ps" using inv_lst [OF f(1)] by simp
  from lst_Next [OF this] have run: "clone_loop (Some q) n w = Some (n', w\<lparr>listmem := h'\<rparr>)"
    using a h(1) n'(1) by (subst clone_loop.simps) simp
  have "n'\<lparr>cache := cache n\<rparr> = n" using arg_cong [OF n'(3), of "\<lambda>x. x\<lparr>cache := cache n\<rparr>"] by simp
  moreover have "\<forall>p \<in> set ?ps. ent (w\<lparr>listmem := h'\<rparr>) p = ent w p" using n'(4) f(2) by auto
  ultimately show ?case using run n'(2) by auto
qed

lemma CloneTo_rep:
  assumes "lru_rep c t (d, w) (xs, n, ev)" "lru m \<noteq> lru d"
  shows "\<exists>m' w'. CloneTo d m w = Some (m', w') \<and> lru_rep c t (d, w') (xs, n, ev) \<and> lru_rep m t (m', w') (xs, n, ev)"
proof -
  obtain ps where ps: "lru_inv ps (d, w)" "map (ent w) ps = xs" "tick w = n" "evicted w = ev" "clock w = t"
    "d\<lparr>cache := Map.empty\<rparr> = c\<lparr>cache := Map.empty\<rparr>" by (rule repE [OF assms(1)])
  let ?h = "zero_list (lru m) (listmem w)" and ?m = "m\<lparr>cache := Map.empty\<rparr>"
  note f = inv_frame [OF ps(1) zero_list_frame(1) assms(2)]
  have "cloned d ([] @ ps) [] [] ?m (w\<lparr>listmem := ?h\<rparr>)"
    using f(1) zero_list_frame(2) [of "lru m"] by (simp add: cloned_def)
  from clone_loop_cloned [OF this] assms(2) obtain m' h' vs where r:
    "clone_loop (case ps of [] \<Rightarrow> None | q # _ \<Rightarrow> Some q) ?m (w\<lparr>listmem := ?h\<rparr>) = Some (m', w\<lparr>listmem := h'\<rparr>)"
    "cloned d ps ps vs m' (w\<lparr>listmem := h'\<rparr>)" "m'\<lparr>cache := cache ?m\<rparr> = ?m"
    "\<forall>p \<in> set ps. ent (w\<lparr>listmem := h'\<rparr>) p = ent (w\<lparr>listmem := ?h\<rparr>) p" by auto
  let ?w = "w\<lparr>listmem := h'\<rparr>"
  have "is_list ?h (lru d) ps" using f(1) by (simp add: inv_iff)
  then have run: "CloneTo d m w = Some (m', ?w)" using r(1) by (simp add: CloneTo_def Let_def is_list_Front)
  have lru: "lru m' = lru m" using arg_cong [OF r(3), of lru] by simp
  have inv: "lru_inv ps (d, ?w)" and vals: "map (\<lambda>p. Value (cells h' p)) vs = map (\<lambda>p. Value (cells h' p)) ps"
    using r(2) by (simp_all add: cloned_def)
  have "map (ent ?w) vs = map (\<lambda>v. the (Option.bind v (entries w))) (map (\<lambda>p. Value (cells h' p)) vs)"
    by (simp add: ent_def entry_of_def)
  also have "\<dots> = map (ent ?w) ps" unfolding vals by (simp add: ent_def entry_of_def)
  finally have ents: "map (ent ?w) vs = map (ent ?w) ps" .
  have "\<exists>a < nentries w. Value (cells h' p) = Some a \<and> entries w a \<noteq> None" if "p \<in> set vs" for p
  proof -
    from that vals obtain q where q: "q \<in> set ps" "Value (cells h' p) = Value (cells h' q)"
      by (metis (mono_tags, lifting) image_iff image_set)
    have "\<exists>a < nentries w. Value (cells h' q) = Some a \<and> entries w a \<noteq> None" using inv q(1) unfolding inv_iff by simp
    with q(2) show ?thesis by simp
  qed
  then have "lru_inv vs (m', ?w)" using r(2) lru by (simp add: inv_iff cloned_def)
  then have "lru_rep m t (m', ?w) (xs, n, ev)"
    by (rule repI) (use ents r(3,4) f(2) ps in auto)
  moreover have "lru_rep c t (d, ?w) (xs, n, ev)"
    by (rule repI [OF inv]) (use r(4) f(2) ps in auto)
  ultimately show ?thesis using run by blast
qed

lemma New_lru: "lru (lru_New l options) = l"
proof -
  have "lru (fold lru_option_apply os c) = lru c" for os and c :: "'a lru_cache"
  proof (induction os arbitrary: c)
    case (Cons x xs)
    then show ?case by (cases x) auto
  qed simp
  then show ?thesis by (simp add: lru_New_def)
qed

section \<open>Properties\<close>

text \<open>
  \<open>CloneTo\<close> copies: after any calls on a cache, cloning it to another cache succeeds,
  the clone has exactly the entries of the original in the same order, whatever it held
  before, and the original keeps them.
\<close>

theorem lru_clone_copies:
  fixes ops :: "('k, 'v) lru_op list"
  assumes "lru m \<noteq> l"
  shows "\<exists>rs d w m' w' kvs. lru_run ops (lru_New l options, new_world t) = Some (rs, (d, w)) \<and> lru_Range (d, w) = Some kvs \<and>
     CloneTo d m w = Some (m', w') \<and> lru_Range (m', w') = Some kvs \<and> lru_Range (d, w') = Some kvs"
proof -
  let ?c = "lru_New l options :: 'k lru_cache"
  obtain s where s: "lru_run ops (?c, new_world t) = Some (fst (spec_run ?c t ops ([], 0, [])), s)"
    "lru_rep ?c t s (snd (spec_run ?c t ops ([], 0, [])))" by (rule lru_run_New)
  obtain d w xs n ev where x: "s = (d, w)" "snd (spec_run ?c t ops ([], 0, [])) = (xs, n, ev)" by (metis prod_cases3 surj_pair)
  note R = s(2) [unfolded x]
  have "lru m \<noteq> lru d" using rep_config(3) [OF R] assms by (simp add: New_lru)
  from CloneTo_rep [OF R this] obtain m' w' where
    "CloneTo d m w = Some (m', w')" "lru_rep ?c t (d, w') (xs, n, ev)" "lru_rep m t (m', w') (xs, n, ev)" by blast
  with s(1) x(1) lru_Range_rep [OF R] lru_Range_rep show ?thesis by blast
qed

theorem lru_clone_copies_witness:
  "\<exists>rs d w m' w' kvs. lru_run [DoStore True 1, DoStore False (2 :: nat)] (lru_New 0 [], new_world (\<lambda>_. 0)) = Some (rs, (d, w)) \<and>
     lru_Range (d, w) = Some kvs \<and> CloneTo d (lru_New 1 [WithSize 1]) w = Some (m', w') \<and> lru_Range (m', w') = Some kvs \<and>
     lru_Range (d, w') = Some kvs"
  by (rule lru_clone_copies) (simp add: New_lru)

text \<open>
  The clone shares its entries with the original: storing a new value for a key in the
  clone changes what the original returns for it.
\<close>

theorem lru_clone_shares:
  "(do { (c, w) \<leftarrow> Store k u (lru_New 0 [], new_world t);
         (n, w) \<leftarrow> CloneTo c (lru_New 1 []) w;
         (n, w) \<leftarrow> Store k v (n, w);
         (r, s) \<leftarrow> Load k (c, w);
         Some r }) = Some (Some v)"
  by (simp add: Store_def StoreWithExpire_def lru_New_def new_world_def push_entry_def Let_def PushBack_def insertValue_def
      lazyInit_def list_Init_def link_def list_insert_def empty_lheap_def zero_element_def maybeDeleteOldest_def CloneTo_def
      clone_loop.simps zero_list_def Front_def list_Next_def Load_def lru_get_def lru_MoveToBack_def MoveToBack_def
      set_entry_def entry_of_def)

end
