(* ===== verification/FreeLru.thy ===== *)
theory FreeLru
  imports Prelude "HOL-Library.Signed_Division"
begin

text \<open>
  The fixed-size cache of \<open>contrab/freelru/lru.go\<close>: elements in one array, linked by
  positions into a ring in the order of use and into one ring per hash bucket.

  Positions, lengths and hashes are \<open>uint32\<close>, times \<open>int64\<close>. Indexing out of range is \<open>None\<close>, as
  is a walk that never ends. The readings of \<open>time.Now().UnixMilli()\<close> are a parameter, calls
  of the eviction callback are recorded, and the callbacks do not call the cache.
\<close>

section \<open>State\<close>

type_synonym duration = "64 word"

record ('k, 'v) felement =
  fkey :: 'k
  fvalue :: 'v
  nextBucket :: uint32
  prevBucket :: uint32
  bucketPos :: uint32
  fnext :: uint32
  fprev :: uint32
  fexpire :: "64 word"
  flifetime :: duration

record fmetrics =
  Inserts :: uint64
  Collisions :: uint64
  Evictions :: uint64
  Removals :: uint64
  Hits :: uint64
  Misses :: uint64

record ('k, 'v) free_lru =
  buckets :: "uint32 list"
  elements :: "('k, 'v) felement list"
  fonEvict :: bool
  fhash :: "'k \<Rightarrow> uint32"
  healthCheck :: "('k \<Rightarrow> 'v \<Rightarrow> bool) option"
  default_lifetime :: duration
  fmetric :: fmetrics
  emptyKey :: 'k
  emptyValue :: 'v
  fhead :: uint32
  flen :: uint32
  fcap :: uint32
  fsize :: uint32
  fmask :: uint32
  fclock :: "nat \<Rightarrow> 64 word"
  fticks :: nat
  fevicted :: "('k \<times> 'v) list"

definition emptyBucket :: uint32 where "emptyBucket = - 1"

definition zero_metrics :: fmetrics where
  "zero_metrics = \<lparr>Inserts = 0, Collisions = 0, Evictions = 0, Removals = 0, Hits = 0, Misses = 0\<rparr>"

section \<open>Construction\<close>

datatype new_error = CapacityZero | SizeIsEmptyBucket uint32 | SizeSmaller uint32 uint32

text \<open>\<open>initLRU\<close> with the slices \<open>NewWithSize\<close> makes; the zero values of the type parameters, the
  clock and the callbacks come from outside. A nil hash function is not a value of the model.\<close>

definition initLRU ::
  "uint32 \<Rightarrow> uint32 \<Rightarrow> ('k \<Rightarrow> uint32) \<Rightarrow> 'k \<Rightarrow> 'v \<Rightarrow> (nat \<Rightarrow> 64 word) \<Rightarrow> ('k, 'v) free_lru" where
  "initLRU capacity size' hash k0 v0 clk =
     \<lparr>buckets = replicate (unat size') emptyBucket,
      elements = replicate (unat size') \<lparr>fkey = k0, fvalue = v0, nextBucket = 0, prevBucket = 0, bucketPos = 0,
        fnext = 0, fprev = 0, fexpire = 0, flifetime = 0\<rparr>,
      fonEvict = False, fhash = hash, healthCheck = None, default_lifetime = 0, fmetric = zero_metrics,
      emptyKey = k0, emptyValue = v0, fhead = 0, flen = 0, fcap = capacity, fsize = size',
      fmask = (if length (filter (bit size') [0..<32]) = 1 then size' - 1 else 0),
      fclock = clk, fticks = 0, fevicted = []\<rparr>"

definition NewWithSize ::
  "uint32 \<Rightarrow> uint32 \<Rightarrow> ('k \<Rightarrow> uint32) \<Rightarrow> 'k \<Rightarrow> 'v \<Rightarrow> (nat \<Rightarrow> 64 word) \<Rightarrow> new_error + ('k, 'v) free_lru" where
  "NewWithSize capacity size' hash k0 v0 clk =
     (if capacity = 0 then Inl CapacityZero
      else if size' = emptyBucket then Inl (SizeIsEmptyBucket size')
      else if size' < capacity then Inl (SizeSmaller size' capacity)
      else Inr (initLRU capacity size' hash k0 v0 clk))"

definition free_New :: "uint32 \<Rightarrow> ('k \<Rightarrow> uint32) \<Rightarrow> 'k \<Rightarrow> 'v \<Rightarrow> (nat \<Rightarrow> 64 word) \<Rightarrow> new_error + ('k, 'v) free_lru" where
  "free_New capacity hash k0 v0 clk = NewWithSize capacity capacity hash k0 v0 clk"

definition SetLifetime :: "duration \<Rightarrow> ('k, 'v) free_lru \<Rightarrow> ('k, 'v) free_lru" where
  "SetLifetime d s = s\<lparr>default_lifetime := d\<rparr>"

definition SetOnEvict :: "('k, 'v) free_lru \<Rightarrow> ('k, 'v) free_lru" where
  "SetOnEvict s = s\<lparr>fonEvict := True\<rparr>"

definition SetHealthCheck :: "('k \<Rightarrow> 'v \<Rightarrow> bool) \<Rightarrow> ('k, 'v) free_lru \<Rightarrow> ('k, 'v) free_lru" where
  "SetHealthCheck f s = s\<lparr>healthCheck := Some f\<rparr>"

section \<open>Positions\<close>

definition fastModulo :: "uint32 \<Rightarrow> uint32 \<Rightarrow> uint32" where
  "fastModulo x n = ucast (drop_bit 32 ((ucast x :: uint64) * ucast n))"

definition hashToBucketPos :: "uint32 \<Rightarrow> ('k, 'v) free_lru \<Rightarrow> uint32" where
  "hashToBucketPos h s = (if fmask s \<noteq> 0 then h AND fmask s else fastModulo h (fsize s))"

definition hashToPos :: "uint32 \<Rightarrow> ('k, 'v) free_lru \<Rightarrow> (uint32 \<times> uint32) option" where
  "hashToPos h s = do {
     let bp = hashToBucketPos h s;
     ep \<leftarrow> go_index (buckets s) (uint bp);
     Some (bp, ep)
   }"

definition elem :: "uint32 \<Rightarrow> ('k, 'v) free_lru \<Rightarrow> ('k, 'v) felement option" where
  "elem pos s = go_index (elements s) (uint pos)"

definition upd :: "uint32 \<Rightarrow> (('k, 'v) felement \<Rightarrow> ('k, 'v) felement) \<Rightarrow> ('k, 'v) free_lru \<Rightarrow> ('k, 'v) free_lru option" where
  "upd pos f s = do {
     e \<leftarrow> elem pos s;
     Some (s\<lparr>elements := (elements s)[unat pos := f e]\<rparr>)
   }"

definition set_bucket :: "uint32 \<Rightarrow> uint32 \<Rightarrow> ('k, 'v) free_lru \<Rightarrow> ('k, 'v) free_lru option" where
  "set_bucket bp pos s = do {
     _ \<leftarrow> go_index (buckets s) (uint bp);
     Some (s\<lparr>buckets := (buckets s)[unat bp := pos]\<rparr>)
   }"

section \<open>Links\<close>

definition setHead :: "uint32 \<Rightarrow> ('k, 'v) free_lru \<Rightarrow> ('k, 'v) free_lru option" where
  "setHead pos s =
     (if pos = fhead s then None else do {
        s \<leftarrow> upd pos (\<lambda>e. e\<lparr>fprev := fhead s\<rparr>) s;
        h \<leftarrow> elem (fhead s) s;
        s \<leftarrow> upd pos (\<lambda>e. e\<lparr>fnext := fnext h\<rparr>) s;
        h \<leftarrow> elem (fhead s) s;
        s \<leftarrow> upd (fnext h) (\<lambda>e. e\<lparr>fprev := pos\<rparr>) s;
        s \<leftarrow> upd (fhead s) (\<lambda>e. e\<lparr>fnext := pos\<rparr>) s;
        Some (s\<lparr>fhead := pos\<rparr>)
      })"

definition unlinkElement :: "uint32 \<Rightarrow> ('k, 'v) free_lru \<Rightarrow> ('k, 'v) free_lru option" where
  "unlinkElement pos s = do {
     e \<leftarrow> elem pos s;
     s \<leftarrow> upd (fprev e) (\<lambda>p. p\<lparr>fnext := fnext e\<rparr>) s;
     e \<leftarrow> elem pos s;
     upd (fnext e) (\<lambda>n. n\<lparr>fprev := fprev e\<rparr>) s
   }"

definition unlinkBucket :: "uint32 \<Rightarrow> ('k, 'v) free_lru \<Rightarrow> ('k, 'v) free_lru option" where
  "unlinkBucket pos s = do {
     e \<leftarrow> elem pos s;
     let pb = prevBucket e;
     let nb = nextBucket e;
     if pb = nb \<and> pb = pos then set_bucket (bucketPos e) emptyBucket s
     else do {
       s \<leftarrow> upd pb (\<lambda>p. p\<lparr>nextBucket := nb\<rparr>) s;
       s \<leftarrow> upd nb (\<lambda>n. n\<lparr>prevBucket := pb\<rparr>) s;
       e \<leftarrow> elem pos s;
       set_bucket (bucketPos e) nb s
     }
   }"

definition evict :: "uint32 \<Rightarrow> ('k, 'v) free_lru \<Rightarrow> ('k, 'v) free_lru option" where
  "evict pos s = do {
     s \<leftarrow> (if pos = fhead s then do { e \<leftarrow> elem pos s; Some (s\<lparr>fhead := fprev e\<rparr>) } else Some s);
     s \<leftarrow> unlinkElement pos s;
     s \<leftarrow> unlinkBucket pos s;
     let s = s\<lparr>flen := flen s - 1\<rparr>;
     if fonEvict s then do {
       e \<leftarrow> elem pos s;
       Some (s\<lparr>fevicted := fevicted s @ [(fkey e, fvalue e)]\<rparr>)
     } else Some s
   }"

definition free_move :: "uint32 \<Rightarrow> uint32 \<Rightarrow> ('k, 'v) free_lru \<Rightarrow> ('k, 'v) free_lru option" where
  "free_move to from s =
     (if to = from then Some s else do {
        let s = (if from = fhead s then s\<lparr>fhead := to\<rparr> else s);
        e \<leftarrow> elem from s;
        s \<leftarrow> upd (fprev e) (\<lambda>p. p\<lparr>fnext := to\<rparr>) s;
        s \<leftarrow> upd (fnext e) (\<lambda>n. n\<lparr>fprev := to\<rparr>) s;
        e \<leftarrow> elem from s;
        s \<leftarrow> upd (prevBucket e) (\<lambda>p. p\<lparr>nextBucket := to\<rparr>) s;
        s \<leftarrow> upd (nextBucket e) (\<lambda>n. n\<lparr>prevBucket := to\<rparr>) s;
        e \<leftarrow> elem from s;
        s \<leftarrow> upd to (\<lambda>_. e) s;
        b \<leftarrow> go_index (buckets s) (uint (bucketPos e));
        if b = from then set_bucket (bucketPos e) to s else Some s
      })"

definition Now_ms :: "('k, 'v) free_lru \<Rightarrow> 64 word \<times> ('k, 'v) free_lru" where
  "Now_ms s = (fclock s (fticks s), s\<lparr>fticks := fticks s + 1\<rparr>)"

text \<open>\<open>lifetime.Milliseconds()\<close> divides the nanoseconds, truncating towards zero.\<close>

definition Milliseconds :: "duration \<Rightarrow> 64 word" where
  "Milliseconds d = word_of_int (sint d sdiv 1000000)"

definition expire_at :: "duration \<Rightarrow> ('k, 'v) free_lru \<Rightarrow> 64 word \<times> ('k, 'v) free_lru" where
  "expire_at d s = (if d = 0 then (0, s) else let (n, s) = Now_ms s in (n + Milliseconds d, s))"

text \<open>The linking half of \<open>insert\<close>.\<close>

definition link_newest :: "uint32 \<Rightarrow> ('k, 'v) free_lru \<Rightarrow> ('k, 'v) free_lru option" where
  "link_newest pos s =
     (if flen s = 0 then do {
        s \<leftarrow> upd pos (\<lambda>e. e\<lparr>fprev := pos, fnext := pos\<rparr>) s;
        Some (s\<lparr>fhead := pos\<rparr>)
      }
      else if pos \<noteq> fhead s then setHead pos s
      else Some s)"

definition free_insert :: "uint32 \<Rightarrow> 'k \<Rightarrow> 'v \<Rightarrow> duration \<Rightarrow> ('k, 'v) free_lru \<Rightarrow> ('k, 'v) free_lru option" where
  "free_insert pos key v d s = do {
     s \<leftarrow> upd pos (\<lambda>e. e\<lparr>fkey := key, fvalue := v\<rparr>) s;
     let (ex, s) = expire_at d s;
     s \<leftarrow> upd pos (\<lambda>e. e\<lparr>fexpire := ex, flifetime := d\<rparr>) s;
     s \<leftarrow> link_newest pos s;
     Some (s\<lparr>flen := flen s + 1, fmetric := (fmetric s)\<lparr>Inserts := Inserts (fmetric s) + 1\<rparr>\<rparr>)
   }"

definition clearKeyAndValue :: "uint32 \<Rightarrow> ('k, 'v) free_lru \<Rightarrow> ('k, 'v) free_lru option" where
  "clearKeyAndValue pos s = upd pos (\<lambda>e. e\<lparr>fkey := emptyKey s, fvalue := emptyValue s\<rparr>) s"

definition removeAt :: "uint32 \<Rightarrow> ('k, 'v) free_lru \<Rightarrow> ('k, 'v) free_lru option" where
  "removeAt pos s = do {
     s \<leftarrow> evict pos s;
     s \<leftarrow> free_move pos (flen s) s;
     let s = s\<lparr>fmetric := (fmetric s)\<lparr>Removals := Removals (fmetric s) + 1\<rparr>\<rparr>;
     clearKeyAndValue (flen s) s
   }"

section \<open>Walking a bucket\<close>

text \<open>The loop over a bucket that \<open>findKey\<close>, \<open>findKeyNoExpire\<close>, \<open>addWithLifetime\<close> and
  \<open>updateLifetime\<close> share: the position with the key, or \<open>None\<close> back at the start.\<close>

partial_function (option) walk :: "'k \<Rightarrow> uint32 \<Rightarrow> uint32 \<Rightarrow> ('k, 'v) free_lru \<Rightarrow> uint32 option option" where
  "walk key startPos pos s = do {
     e \<leftarrow> elem pos s;
     if key = fkey e then Some (Some pos)
     else if nextBucket e = startPos then Some None
     else walk key startPos (nextBucket e) s
   }"

declare walk.simps [code]

definition unhealthy :: "'k \<Rightarrow> ('k, 'v) felement \<Rightarrow> ('k, 'v) free_lru \<Rightarrow> bool" where
  "unhealthy key e s = (case healthCheck s of None \<Rightarrow> False | Some f \<Rightarrow> \<not> f key (fvalue e))"

definition findKey :: "uint32 \<Rightarrow> 'k \<Rightarrow> ('k, 'v) free_lru \<Rightarrow> (uint32 option \<times> ('k, 'v) free_lru) option" where
  "findKey h key s = do {
     (_, startPos) \<leftarrow> hashToPos h s;
     if startPos = emptyBucket then Some (None, s)
     else do {
       found \<leftarrow> walk key startPos startPos s;
       case found of
         None \<Rightarrow> Some (None, s)
       | Some pos \<Rightarrow> do {
           e \<leftarrow> elem pos s;
           let (old, s) = (if fexpire e \<noteq> 0 then let (n, s) = Now_ms s in (sint (fexpire e) \<le> sint n, s) else (False, s));
           if old \<or> unhealthy key e s
           then do { s \<leftarrow> removeAt pos s; Some (None, s) }
           else Some (Some pos, s)
         }
     }
   }"

definition findKeyNoExpire :: "uint32 \<Rightarrow> 'k \<Rightarrow> ('k, 'v) free_lru \<Rightarrow> (uint32 option \<times> ('k, 'v) free_lru) option" where
  "findKeyNoExpire h key s = do {
     (_, startPos) \<leftarrow> hashToPos h s;
     if startPos = emptyBucket then Some (None, s)
     else do {
       found \<leftarrow> walk key startPos startPos s;
       case found of
         None \<Rightarrow> Some (None, s)
       | Some pos \<Rightarrow> do {
           e \<leftarrow> elem pos s;
           if unhealthy key e s
           then do { s \<leftarrow> removeAt pos s; Some (None, s) }
           else Some (Some pos, s)
         }
     }
   }"

section \<open>Operations\<close>

definition free_Len :: "('k, 'v) free_lru \<Rightarrow> int" where
  "free_Len s = uint (flen s)"

text \<open>\<open>if pos != lru.head\<close>, relink as the head.\<close>

definition touch :: "uint32 \<Rightarrow> ('k, 'v) free_lru \<Rightarrow> ('k, 'v) free_lru option" where
  "touch pos s = (if pos \<noteq> fhead s then do { s \<leftarrow> unlinkElement pos s; setHead pos s } else Some s)"

definition count_insert :: "('k, 'v) free_lru \<Rightarrow> ('k, 'v) free_lru" where
  "count_insert s = s\<lparr>fmetric := (fmetric s)\<lparr>Inserts := Inserts (fmetric s) + 1\<rparr>\<rparr>"

definition count_hit :: "('k, 'v) free_lru \<Rightarrow> ('k, 'v) free_lru" where
  "count_hit s = s\<lparr>fmetric := (fmetric s)\<lparr>Hits := Hits (fmetric s) + 1\<rparr>\<rparr>"

definition count_miss :: "('k, 'v) free_lru \<Rightarrow> ('k, 'v) free_lru" where
  "count_miss s = s\<lparr>fmetric := (fmetric s)\<lparr>Misses := Misses (fmetric s) + 1\<rparr>\<rparr>"

text \<open>The position of a new element: behind the others, or, when the cache is full, that of the
  oldest, which is evicted.\<close>

definition claim_pos :: "('k, 'v) free_lru \<Rightarrow> (uint32 \<times> bool \<times> ('k, 'v) free_lru) option" where
  "claim_pos s =
     (if flen s = fcap s then do {
        h \<leftarrow> elem (fhead s) s;
        s \<leftarrow> evict (fnext h) s;
        Some (fnext h, True, s\<lparr>fmetric := (fmetric s)\<lparr>Evictions := Evictions (fmetric s) + 1\<rparr>\<rparr>)
      } else Some (flen s, False, s))"

text \<open>Linking a position into a bucket: as its first entry, or before \<open>startPos\<close>.\<close>

definition link_first :: "uint32 \<Rightarrow> uint32 \<Rightarrow> ('k, 'v) free_lru \<Rightarrow> ('k, 'v) free_lru option" where
  "link_first bp pos s = do {
     s \<leftarrow> set_bucket bp pos s;
     upd pos (\<lambda>e. e\<lparr>bucketPos := bp, nextBucket := pos, prevBucket := pos\<rparr>) s
   }"

definition link_before :: "uint32 \<Rightarrow> uint32 \<Rightarrow> uint32 \<Rightarrow> ('k, 'v) free_lru \<Rightarrow> ('k, 'v) free_lru option" where
  "link_before bp pos startPos s = do {
     s \<leftarrow> set_bucket bp pos s;
     s \<leftarrow> upd pos (\<lambda>e. e\<lparr>bucketPos := bp, nextBucket := startPos\<rparr>) s;
     st \<leftarrow> elem startPos s;
     s \<leftarrow> upd pos (\<lambda>e. e\<lparr>prevBucket := prevBucket st\<rparr>) s;
     st \<leftarrow> elem startPos s;
     s \<leftarrow> upd (prevBucket st) (\<lambda>e. e\<lparr>nextBucket := pos\<rparr>) s;
     upd startPos (\<lambda>e. e\<lparr>prevBucket := pos\<rparr>) s
   }"

definition addWithLifetime :: "uint32 \<Rightarrow> 'k \<Rightarrow> 'v \<Rightarrow> duration \<Rightarrow> ('k, 'v) free_lru \<Rightarrow> (bool \<times> ('k, 'v) free_lru) option" where
  "addWithLifetime h key v d s = do {
     (bp, startPos) \<leftarrow> hashToPos h s;
     if startPos = emptyBucket then do {
       (pos, ev, s) \<leftarrow> claim_pos s;
       s \<leftarrow> link_first bp pos s;
       s \<leftarrow> free_insert pos key v d s;
       Some (ev, s)
     } else do {
       found \<leftarrow> walk key startPos startPos s;
       case found of
         Some pos \<Rightarrow> do {
           s \<leftarrow> upd pos (\<lambda>e. e\<lparr>fvalue := v\<rparr>) s;
           let (ex, s) = expire_at d s;
           s \<leftarrow> upd pos (\<lambda>e. e\<lparr>fexpire := ex, flifetime := d\<rparr>) s;
           s \<leftarrow> touch pos s;
           Some (False, count_insert s)
         }
       | None \<Rightarrow> do {
           (pos, ev, s) \<leftarrow> claim_pos s;
           startPos \<leftarrow> (if ev then do {
               b \<leftarrow> go_index (buckets s) (uint bp);
               Some (if b = emptyBucket then pos else b)
             } else Some startPos);
           s \<leftarrow> link_before bp pos startPos s;
           s \<leftarrow> free_insert pos key v d s;
           e \<leftarrow> elem pos s;
           Some (ev, if prevBucket e \<noteq> pos
             then s\<lparr>fmetric := (fmetric s)\<lparr>Collisions := Collisions (fmetric s) + 1\<rparr>\<rparr> else s)
         }
     }
   }"

definition AddWithLifetime :: "'k \<Rightarrow> 'v \<Rightarrow> duration \<Rightarrow> ('k, 'v) free_lru \<Rightarrow> (bool \<times> ('k, 'v) free_lru) option" where
  "AddWithLifetime key v d s = addWithLifetime (fhash s key) key v d s"

definition free_Add :: "'k \<Rightarrow> 'v \<Rightarrow> ('k, 'v) free_lru \<Rightarrow> (bool \<times> ('k, 'v) free_lru) option" where
  "free_Add key v s = addWithLifetime (fhash s key) key v (default_lifetime s) s"

text \<open>\<open>Get\<close> and \<open>GetWithLifetime\<close>: the value and the time of expiry.\<close>

definition free_Get :: "'k \<Rightarrow> ('k, 'v) free_lru \<Rightarrow> (('v \<times> 64 word) option \<times> ('k, 'v) free_lru) option" where
  "free_Get key s = do {
     (found, s) \<leftarrow> findKey (fhash s key) key s;
     case found of
       Some pos \<Rightarrow> do { s \<leftarrow> touch pos s; e \<leftarrow> elem pos s; Some (Some (fvalue e, fexpire e), count_hit s) }
     | None \<Rightarrow> Some (None, count_miss s)
   }"

definition GetWithLifetimeNoExpire :: "'k \<Rightarrow> ('k, 'v) free_lru \<Rightarrow> (('v \<times> 64 word) option \<times> ('k, 'v) free_lru) option" where
  "GetWithLifetimeNoExpire key s = do {
     (found, s) \<leftarrow> findKeyNoExpire (fhash s key) key s;
     case found of
       Some pos \<Rightarrow> do { s \<leftarrow> touch pos s; e \<leftarrow> elem pos s; Some (Some (fvalue e, fexpire e), count_hit s) }
     | None \<Rightarrow> Some (None, count_miss s)
   }"

definition GetAndRefresh :: "'k \<Rightarrow> ('k, 'v) free_lru \<Rightarrow> ('v option \<times> ('k, 'v) free_lru) option" where
  "GetAndRefresh key s = do {
     (found, s) \<leftarrow> findKeyNoExpire (fhash s key) key s;
     case found of
       Some pos \<Rightarrow> do {
         s \<leftarrow> touch pos s;
         let s = count_hit s;
         e \<leftarrow> elem pos s;
         let (ex, s) = expire_at (flifetime e) s;
         s \<leftarrow> upd pos (\<lambda>e. e\<lparr>fexpire := ex\<rparr>) s;
         Some (Some (fvalue e), s)
       }
     | None \<Rightarrow> Some (None, count_miss s)
   }"

text \<open>\<open>Peek\<close> and \<open>PeekWithLifetime\<close>.\<close>

definition free_Peek :: "'k \<Rightarrow> ('k, 'v) free_lru \<Rightarrow> (('v \<times> 64 word) option \<times> ('k, 'v) free_lru) option" where
  "free_Peek key s = do {
     (found, s) \<leftarrow> findKey (fhash s key) key s;
     case found of
       Some pos \<Rightarrow> do { e \<leftarrow> elem pos s; Some (Some (fvalue e, fexpire e), s) }
     | None \<Rightarrow> Some (None, s)
   }"

definition free_Contains :: "'k \<Rightarrow> ('k, 'v) free_lru \<Rightarrow> (bool \<times> ('k, 'v) free_lru) option" where
  "free_Contains key s = do { (r, s) \<leftarrow> free_Peek key s; Some (r \<noteq> None, s) }"

definition UpdateLifetime :: "'k \<Rightarrow> 'v \<Rightarrow> duration \<Rightarrow> ('k, 'v) free_lru \<Rightarrow> (bool \<times> ('k, 'v) free_lru) option" where
  "UpdateLifetime key v d s = do {
     (_, startPos) \<leftarrow> hashToPos (fhash s key) s;
     if startPos = emptyBucket then Some (False, s)
     else do {
       found \<leftarrow> walk key startPos startPos s;
       case found of
         None \<Rightarrow> Some (False, s)
       | Some pos \<Rightarrow> do {
           e \<leftarrow> elem pos s;
           if fvalue e \<noteq> v then Some (False, s)
           else do {
             s \<leftarrow> upd pos (\<lambda>e. e\<lparr>flifetime := d\<rparr>) s;
             let (ex, s) = expire_at d s;
             s \<leftarrow> upd pos (\<lambda>e. e\<lparr>fexpire := ex\<rparr>) s;
             s \<leftarrow> touch pos s;
             Some (True, count_insert s)
           }
         }
     }
   }"

definition free_Remove :: "'k \<Rightarrow> ('k, 'v) free_lru \<Rightarrow> (bool \<times> ('k, 'v) free_lru) option" where
  "free_Remove key s = do {
     (found, s) \<leftarrow> findKeyNoExpire (fhash s key) key s;
     case found of
       Some pos \<Rightarrow> do { s \<leftarrow> removeAt pos s; Some (True, s) }
     | None \<Rightarrow> Some (False, s)
   }"

definition RemoveOldest :: "('k, 'v) free_lru \<Rightarrow> (('k \<times> 'v) option \<times> ('k, 'v) free_lru) option" where
  "RemoveOldest s =
     (if flen s = 0 then Some (None, s) else do {
        h \<leftarrow> elem (fhead s) s;
        let pos = fnext h;
        e \<leftarrow> elem pos s;
        s \<leftarrow> removeAt pos s;
        Some (Some (fkey e, fvalue e), s)
      })"

text \<open>The scan of \<open>PurgeExpired\<close> over \<open>n\<close> elements from \<open>pos\<close>: the first that is expired.\<close>

fun purge_scan :: "nat \<Rightarrow> 64 word \<Rightarrow> uint32 \<Rightarrow> ('k, 'v) free_lru \<Rightarrow> uint32 option option" where
  "purge_scan 0 n pos s = Some None"
| "purge_scan (Suc i) n pos s = do {
     e \<leftarrow> elem pos s;
     if fexpire e \<noteq> 0 \<and> sint (fexpire e) \<le> sint n then Some (Some pos)
     else purge_scan i n (fnext e) s
   }"

partial_function (option) purge_loop :: "64 word \<Rightarrow> ('k, 'v) free_lru \<Rightarrow> ('k, 'v) free_lru option" where
  "purge_loop n s =
     (if flen s = 0 then Some s else do {
        h \<leftarrow> elem (fhead s) s;
        found \<leftarrow> purge_scan (unat (flen s)) n (fnext h) s;
        case found of
          None \<Rightarrow> Some s
        | Some pos \<Rightarrow> do { s \<leftarrow> removeAt pos s; purge_loop n s }
      })"

declare purge_loop.simps [code]

definition PurgeExpired :: "('k, 'v) free_lru \<Rightarrow> ('k, 'v) free_lru option" where
  "PurgeExpired s = (let (n, s) = Now_ms s in purge_loop n s)"

text \<open>\<open>constructor()\<close> returns \<open>made\<close>; it is called only for a missing key.\<close>

definition GetAndRefreshOrAdd :: "'k \<Rightarrow> 'v option \<Rightarrow> ('k, 'v) free_lru \<Rightarrow> (('v \<times> bool) option \<times> ('k, 'v) free_lru) option" where
  "GetAndRefreshOrAdd key made s = do {
     (r, s) \<leftarrow> GetAndRefresh key s;
     case r of
       Some v \<Rightarrow> Some (Some (v, True), s)
     | None \<Rightarrow>
         (case made of
            None \<Rightarrow> Some (None, s)
          | Some v \<Rightarrow> do {
              (_, s) \<leftarrow> addWithLifetime (fhash s key) key v (default_lifetime s) s;
              s \<leftarrow> PurgeExpired s;
              Some (Some (v, False), s)
            })
   }"

fun keys_loop :: "nat \<Rightarrow> uint32 \<Rightarrow> ('k, 'v) free_lru \<Rightarrow> 'k list option" where
  "keys_loop 0 pos s = Some []"
| "keys_loop (Suc i) pos s = do { e \<leftarrow> elem pos s; ks \<leftarrow> keys_loop i (fnext e) s; Some (fkey e # ks) }"

definition free_Keys :: "('k, 'v) free_lru \<Rightarrow> ('k list \<times> ('k, 'v) free_lru) option" where
  "free_Keys s = do {
     s \<leftarrow> PurgeExpired s;
     h \<leftarrow> elem (fhead s) s;
     ks \<leftarrow> keys_loop (unat (flen s)) (fnext h) s;
     Some (ks, s)
   }"

fun removeOldest_times :: "nat \<Rightarrow> ('k, 'v) free_lru \<Rightarrow> ('k, 'v) free_lru option" where
  "removeOldest_times 0 s = Some s"
| "removeOldest_times (Suc i) s = do { (_, s) \<leftarrow> RemoveOldest s; removeOldest_times i s }"

definition free_Purge :: "('k, 'v) free_lru \<Rightarrow> ('k, 'v) free_lru option" where
  "free_Purge s = do { s \<leftarrow> removeOldest_times (unat (flen s)) s; Some (s\<lparr>fmetric := zero_metrics\<rparr>) }"

definition ResetMetrics :: "('k, 'v) free_lru \<Rightarrow> fmetrics \<times> ('k, 'v) free_lru" where
  "ResetMetrics s = (fmetric s, s\<lparr>fmetric := zero_metrics\<rparr>)"

end
