(* ===== verification/FreeLruRings.thy ===== *)
theory FreeLruRings
  imports FreeLru
begin

text \<open>
  Rings of positions, and what the primitive steps of the cache do to the links. A ring is a
  list of distinct positions, each linked to the next and the last to the first, in both
  directions.
\<close>

section \<open>Rings\<close>

fun chain :: "('p \<Rightarrow> 'p) \<Rightarrow> ('p \<Rightarrow> 'p) \<Rightarrow> 'p list \<Rightarrow> bool" where
  "chain nx pv (a # b # ps) \<longleftrightarrow> nx a = b \<and> pv b = a \<and> chain nx pv (b # ps)"
| "chain nx pv _ \<longleftrightarrow> True"

definition ring :: "('p \<Rightarrow> 'p) \<Rightarrow> ('p \<Rightarrow> 'p) \<Rightarrow> 'p list \<Rightarrow> bool" where
  "ring nx pv ps \<longleftrightarrow> distinct ps \<and> (ps \<noteq> [] \<longrightarrow> chain nx pv (ps @ [hd ps]))"

lemma chain_append: "chain nx pv (xs @ a # ys) \<longleftrightarrow> chain nx pv (xs @ [a]) \<and> chain nx pv (a # ys)"
  by (induction xs rule: induct_list012) auto

lemma ring_Nil [simp]: "ring nx pv []"
  by (simp add: ring_def)

lemma ring_single [simp]: "ring nx pv [p] \<longleftrightarrow> nx p = p \<and> pv p = p"
  by (simp add: ring_def)

lemma ring_distinct: "ring nx pv ps \<Longrightarrow> distinct ps"
  by (simp add: ring_def)

lemma ring_rotate1:
  assumes "ring nx pv (xs @ ys)" "xs \<noteq> []" "ys \<noteq> []"
  shows "ring nx pv (ys @ xs)"
proof -
  obtain x xs' y ys' where eq: "xs = x # xs'" "ys = y # ys'" using assms(2,3) by (meson list.exhaust)
  have "chain nx pv ((x # xs') @ y # (ys' @ [x]))" using assms(1) by (simp add: ring_def eq)
  then have "chain nx pv ((x # xs') @ [y])" "chain nx pv (y # ys' @ [x])"
    using chain_append [of nx pv "x # xs'" y "ys' @ [x]"] by simp_all
  then have "chain nx pv ((y # ys') @ x # (xs' @ [y]))"
    using chain_append [of nx pv "y # ys'" x "xs' @ [y]"] by simp
  then show ?thesis using assms(1) by (auto simp: ring_def eq)
qed

lemma ring_rotate: "ring nx pv (xs @ ys) \<longleftrightarrow> ring nx pv (ys @ xs)"
  by (cases "xs = [] \<or> ys = []") (auto intro: ring_rotate1)

lemma chain_cong:
  "(\<And>p. p \<in> set (butlast ps) \<Longrightarrow> nx' p = nx p) \<Longrightarrow> (\<And>p. p \<in> set (tl ps) \<Longrightarrow> pv' p = pv p) \<Longrightarrow>
   chain nx' pv' ps = chain nx pv ps"
proof (induction ps)
  case (Cons a ps)
  show ?case
  proof (cases ps)
    case (Cons b qs)
    have "chain nx' pv' ps = chain nx pv ps"
      by (rule Cons.IH) (use Cons Cons.prems in \<open>auto split: if_splits\<close>)
    then show ?thesis using Cons Cons.prems by simp
  qed simp
qed simp

lemma ring_cong: "(\<And>p. p \<in> set ps \<Longrightarrow> nx' p = nx p \<and> pv' p = pv p) \<Longrightarrow> ring nx' pv' ps = ring nx pv ps"
proof -
  assume a: "\<And>p. p \<in> set ps \<Longrightarrow> nx' p = nx p \<and> pv' p = pv p"
  have "chain nx' pv' (ps @ [hd ps]) = chain nx pv (ps @ [hd ps])" if "ps \<noteq> []"
  proof (rule chain_cong)
    fix p assume "p \<in> set (tl (ps @ [hd ps]))"
    then have "p \<in> set ps" using that by (cases ps) auto
    then show "pv' p = pv p" using a by blast
  qed (use a that in \<open>auto simp: butlast_append\<close>)
  then show ?thesis by (auto simp: ring_def)
qed

text \<open>The neighbours of a member.\<close>

lemma ring_neighbours:
  assumes "ring nx pv (p # q # qs)"
  shows "nx p = q" "pv q = p" "pv p = last (q # qs)" "nx (last (q # qs)) = p"
proof -
  obtain rs r where eq: "q # qs = rs @ [r]" by (metis append_butlast_last_id list.distinct(1))
  have "chain nx pv (p # (q # qs) @ [p])" using assms by (simp add: ring_def)
  then have "chain nx pv ((p # rs) @ r # [p])" unfolding eq by simp
  then have "chain nx pv (r # [p])" using chain_append [of nx pv "p # rs" r "[p]"] by simp
  then show "pv p = last (q # qs)" "nx (last (q # qs)) = p" unfolding eq by simp_all
qed (use assms in \<open>simp_all add: ring_def\<close>)

lemma ring_ends:
  assumes "ring nx pv ps" "ps \<noteq> []"
  shows "nx (last ps) = hd ps" "pv (hd ps) = last ps"
proof -
  consider p where "ps = [p]" | p q qs where "ps = p # q # qs" using assms(2) by (metis list.exhaust)
  then have "nx (last ps) = hd ps \<and> pv (hd ps) = last ps"
    by cases (use assms(1) ring_neighbours [of nx pv] in auto)
  then show "nx (last ps) = hd ps" "pv (hd ps) = last ps" by simp_all
qed

lemma ring_closed:
  assumes "ring nx pv ps" "p \<in> set ps"
  shows "nx p \<in> set ps" "pv p \<in> set ps"
proof -
  obtain as bs where eq: "ps = as @ p # bs" using assms(2) by (auto dest: split_list)
  have r: "ring nx pv (p # bs @ as)" using assms(1) ring_rotate [of nx pv as "p # bs"] by (simp add: eq)
  have "nx p \<in> set (p # bs @ as) \<and> pv p \<in> set (p # bs @ as)"
  proof (cases "bs @ as")
    case Nil
    with r show ?thesis by simp
  next
    case (Cons q qs)
    with ring_neighbours(1,3) [OF r [unfolded Cons]] show ?thesis by (auto simp: Cons)
  qed
  then show "nx p \<in> set ps" "pv p \<in> set ps" by (auto simp: eq)
qed

section \<open>Changing rings\<close>

lemma ring_unlink:
  assumes "ring nx pv (as @ p # bs)" "as @ bs \<noteq> []"
  shows "ring (nx(pv p := nx p)) (pv(nx p := pv p)) (as @ bs)" "pv p \<noteq> p" "nx p \<noteq> p"
proof -
  have r: "ring nx pv (p # bs @ as)" using assms(1) ring_rotate [of nx pv as "p # bs"] by simp
  obtain q qs where eq: "bs @ as = q # qs" using assms(2) by (cases "bs @ as") auto
  note n = ring_neighbours [OF r [unfolded eq]]
  have d: "distinct (p # q # qs)" using ring_distinct [OF r] by (simp add: eq)
  have "last (q # qs) \<in> set (q # qs)" by (rule last_in_set) simp
  then show "pv p \<noteq> p" unfolding n(3) using d by (metis distinct.simps(2))
  show "nx p \<noteq> p" unfolding n(1) using d by auto
  obtain rs r' where eq2: "q # qs = rs @ [r']" by (metis append_butlast_last_id list.distinct(1))
  have "chain nx pv (p # (q # qs) @ [p])" using r by (simp add: ring_def eq)
  then have c: "chain nx pv (q # qs)" unfolding eq2 using chain_append [of nx pv "p # rs" r' "[p]"] by (cases rs) auto
  let ?nx = "nx(pv p := nx p)" and ?pv = "pv(nx p := pv p)"
  have "chain ?nx ?pv (q # qs) = chain nx pv (q # qs)"
  proof (rule chain_cong)
    fix x assume "x \<in> set (butlast (q # qs))"
    then have "x \<noteq> last (q # qs)" using d unfolding eq2 by auto
    then show "?nx x = nx x" using n(3) by simp
  next
    fix x assume "x \<in> set (tl (q # qs))"
    then show "?pv x = pv x" using n(1) d by auto
  qed
  moreover have "?nx (last (q # qs)) = q" "?pv q = last (q # qs)" using n by auto
  ultimately have "chain ?nx ?pv ((q # qs) @ [q])"
    using c chain_append [of ?nx ?pv rs r' "[q]"] unfolding eq2 by simp
  then have "ring ?nx ?pv (bs @ as)" using d by (simp add: ring_def eq)
  then show "ring ?nx ?pv (as @ bs)" using ring_rotate [of ?nx ?pv as bs] by simp
qed

lemma ring_insert:
  assumes "ring nx pv qs" "qs \<noteq> []" "p \<notin> set qs"
    "\<And>x. x \<in> set (qs @ [p]) \<Longrightarrow> nx' x = (if x = last qs then p else if x = p then hd qs else nx x)"
    "\<And>x. x \<in> set (qs @ [p]) \<Longrightarrow> pv' x = (if x = hd qs then p else if x = p then last qs else pv x)"
  shows "ring nx' pv' (qs @ [p])"
proof -
  obtain q qs' where q: "qs = q # qs'" using assms(2) by (cases qs) auto
  obtain rs r where r: "qs = rs @ [r]" using assms(2) by (metis append_butlast_last_id)
  have d: "distinct qs" using assms(1) by (rule ring_distinct)
  have "chain nx pv (qs @ [q])" using assms(1) q by (simp add: ring_def)
  then have "chain nx pv (rs @ r # [q])" by (simp add: r)
  then have "chain nx pv (rs @ [r])" using chain_append [of nx pv rs r "[q]"] by simp
  then have c: "chain nx pv qs" by (simp add: r)
  have "chain nx' pv' qs = chain nx pv qs"
  proof (rule chain_cong)
    fix x assume x: "x \<in> set (butlast qs)"
    then have "x \<in> set qs" "x \<noteq> last qs" using d by (auto simp: r)
    then show "nx' x = nx x" using assms(3,4) by auto
  next
    fix x assume "x \<in> set (tl qs)"
    then have "x \<in> set qs" "x \<noteq> hd qs" using d by (auto simp: q)
    then show "pv' x = pv x" using assms(3,5) by auto
  qed
  then have "chain nx' pv' (rs @ [r])" using c by (simp add: r)
  moreover have "chain nx' pv' [r, p, q]"
  proof -
    have e: "hd qs = q" "last qs = r" "q \<in> set qs" "r \<in> set qs" 
      by (simp add: q, simp add: r, simp add: q, simp add: r)
    then have "nx' r = p" "nx' p = q" "pv' q = p" "pv' p = r"
      using assms(3) assms(4) [of r] assms(4) [of p] assms(5) [of q] assms(5) [of p] by auto
    then show ?thesis by simp
  qed
  ultimately have "chain nx' pv' (rs @ r # [p, q])" using chain_append [of nx' pv' rs r "[p, q]"] by simp
  moreover have "(qs @ [p]) @ [hd (qs @ [p])] = qs @ [p, q]" by (simp add: q)
  then have "(qs @ [p]) @ [hd (qs @ [p])] = rs @ r # [p, q]" by (simp add: r)
  ultimately have "chain nx' pv' ((qs @ [p]) @ [hd (qs @ [p])])" by (simp only:)
  then show ?thesis using d assms(3) by (simp add: ring_def)
qed

text \<open>Renaming a member to a position outside of the ring.\<close>

lemma chain_map:
  "chain nx pv ps \<Longrightarrow> (\<And>a b. a \<in> set ps \<Longrightarrow> b \<in> set ps \<Longrightarrow> nx a = b \<Longrightarrow> pv b = a \<Longrightarrow> nx' (f a) = f b \<and> pv' (f b) = f a) \<Longrightarrow>
   chain nx' pv' (map f ps)"
proof (induction nx pv ps rule: chain.induct)
  case (1 nx pv a b ps)
  have "chain nx' pv' (map f (b # ps))" by (rule 1(1)) (use 1(2,3) in auto)
  with 1(2) 1(3) [of a b] show ?case by simp
qed auto

lemma ring_rename:
  assumes "ring nx pv ps" "from \<in> set ps" "to \<notin> set ps"
    "\<And>x. x \<in> set ps \<Longrightarrow> nx' ((id(from := to)) x) = (id(from := to)) (nx x)"
    "\<And>x. x \<in> set ps \<Longrightarrow> pv' ((id(from := to)) x) = (id(from := to)) (pv x)"
  shows "ring nx' pv' (map (id(from := to)) ps)"
proof -
  have ne: "ps \<noteq> []" using assms(2) by auto
  have "chain nx' pv' (map (id(from := to)) (ps @ [hd ps]))"
  proof (rule chain_map)
    show "chain nx pv (ps @ [hd ps])" using assms(1) ne by (simp add: ring_def)
    fix a b assume "a \<in> set (ps @ [hd ps])" "b \<in> set (ps @ [hd ps])" "nx a = b" "pv b = a"
    moreover from this have "a \<in> set ps" "b \<in> set ps" using ne by auto
    ultimately show "nx' ((id(from := to)) a) = (id(from := to)) b \<and> pv' ((id(from := to)) b) = (id(from := to)) a"
      using assms(4) [of a] assms(5) [of b] by simp
  qed
  moreover have "distinct (map (id(from := to)) ps)"
    using ring_distinct [OF assms(1)] assms(3) by (auto simp: distinct_map inj_on_def)
  ultimately show ?thesis using ne by (simp add: ring_def hd_map del: fun_upd_apply)
qed

section \<open>Accessing the arrays\<close>

definition at :: "('k, 'v) free_lru \<Rightarrow> uint32 \<Rightarrow> ('k, 'v) felement" where
  "at s p = elements s ! unat p"

definition bk :: "('k, 'v) free_lru \<Rightarrow> uint32 \<Rightarrow> uint32" where
  "bk s b = buckets s ! unat b"

definition valid :: "('k, 'v) free_lru \<Rightarrow> uint32 \<Rightarrow> bool" where
  "valid s p \<longleftrightarrow> unat p < length (elements s)"

definition bvalid :: "('k, 'v) free_lru \<Rightarrow> uint32 \<Rightarrow> bool" where
  "bvalid s b \<longleftrightarrow> unat b < length (buckets s)"

definition put :: "uint32 \<Rightarrow> ('k, 'v) felement \<Rightarrow> ('k, 'v) free_lru \<Rightarrow> ('k, 'v) free_lru" where
  "put p e s = s\<lparr>elements := (elements s)[unat p := e]\<rparr>"

definition bput :: "uint32 \<Rightarrow> uint32 \<Rightarrow> ('k, 'v) free_lru \<Rightarrow> ('k, 'v) free_lru" where
  "bput b p s = s\<lparr>buckets := (buckets s)[unat b := p]\<rparr>"

lemma unat_int_nth: "go_index xs (uint p) = (if unat p < length xs then Some (xs ! unat p) else None)" for p :: "32 word"
  using go_index_int [of xs "unat p"] by simp

lemma elem_at: "valid s p \<Longrightarrow> elem p s = Some (at s p)"
  by (simp add: elem_def unat_int_nth at_def valid_def)

lemma upd_put: "valid s p \<Longrightarrow> upd p f s = Some (put p (f (at s p)) s)"
  by (simp add: upd_def elem_at put_def)

lemma set_bucket_bput: "bvalid s b \<Longrightarrow> set_bucket b p s = Some (bput b p s)"
  by (simp add: set_bucket_def unat_int_nth bput_def bvalid_def)

lemma get_bucket: "bvalid s b \<Longrightarrow> go_index (buckets s) (uint b) = Some (bk s b)"
  by (simp add: unat_int_nth bk_def bvalid_def)

lemma at_put [simp]: "valid s p \<Longrightarrow> at (put p e s) = (at s)(p := e)"
  by (auto simp: at_def put_def valid_def fun_eq_iff nth_list_update word_unat_eq_iff)

lemma bk_bput [simp]: "bvalid s b \<Longrightarrow> bk (bput b p s) = (bk s)(b := p)"
  by (auto simp: bk_def bput_def bvalid_def fun_eq_iff nth_list_update word_unat_eq_iff)

lemma put_simps [simp]:
  "valid (put p e s) q = valid s q" "bvalid (put p e s) b = bvalid s b" "bk (put p e s) = bk s" "at (bput b q s) = at s"
  "valid (bput b q s) r = valid s r" "bvalid (bput b q s) c = bvalid s c"
  "fhead (put p e s) = fhead s" "flen (put p e s) = flen s" "fhead (bput b q s) = fhead s" "flen (bput b q s) = flen s"
  by (simp_all add: put_def bput_def valid_def bvalid_def bk_def at_def fun_eq_iff)

lemma access_fields [simp]:
  "at (s\<lparr>fhead := x\<rparr>) = at s" "at (s\<lparr>flen := x\<rparr>) = at s" "at (s\<lparr>fmetric := m\<rparr>) = at s" "at (s\<lparr>fticks := n\<rparr>) = at s" "at (s\<lparr>fevicted := ev\<rparr>) = at s"
  "bk (s\<lparr>fhead := x\<rparr>) = bk s" "bk (s\<lparr>flen := x\<rparr>) = bk s" "bk (s\<lparr>fmetric := m\<rparr>) = bk s" "bk (s\<lparr>fticks := n\<rparr>) = bk s" "bk (s\<lparr>fevicted := ev\<rparr>) = bk s"
  "valid (s\<lparr>fhead := x\<rparr>) = valid s" "valid (s\<lparr>flen := x\<rparr>) = valid s" "valid (s\<lparr>fmetric := m\<rparr>) = valid s" "valid (s\<lparr>fticks := n\<rparr>) = valid s" "valid (s\<lparr>fevicted := ev\<rparr>) = valid s"
  "bvalid (s\<lparr>fhead := x\<rparr>) = bvalid s" "bvalid (s\<lparr>flen := x\<rparr>) = bvalid s" "bvalid (s\<lparr>fmetric := m\<rparr>) = bvalid s" "bvalid (s\<lparr>fticks := n\<rparr>) = bvalid s" "bvalid (s\<lparr>fevicted := ev\<rparr>) = bvalid s"
  by (simp_all add: at_def bk_def valid_def bvalid_def fun_eq_iff)

end
