(* ===== verification/FreeLruSteps.thy ===== *)
theory FreeLruSteps
  imports FreeLruRings
begin

text \<open>
  What each primitive step of the cache does to the two kinds of rings. The time part of the
  invariant concerns \<open>next\<close>, \<open>prev\<close>, \<open>head\<close> and \<open>len\<close>, the bucket part \<open>nextBucket\<close>, \<open>prevBucket\<close>,
  \<open>bucketPos\<close> and the array \<open>buckets\<close>; steps on one part keep the other.
\<close>

section \<open>Frames\<close>

definition config :: "('k, 'v) free_lru \<Rightarrow> ('k, 'v) free_lru" where
  "config s = s\<lparr>buckets := [], elements := [], fmetric := zero_metrics, fhead := 0, flen := 0, fticks := 0, fevicted := []\<rparr>"

definition env_same :: "('k, 'v) free_lru \<Rightarrow> ('k, 'v) free_lru \<Rightarrow> bool" where
  "env_same s s' \<longleftrightarrow> config s' = config s \<and> length (elements s') = length (elements s) \<and>
     length (buckets s') = length (buckets s) \<and> fticks s' = fticks s \<and> fevicted s' = fevicted s"

text \<open>Nothing but the time links and the metrics has changed; nothing but the bucket links.\<close>

definition time_frame :: "('k, 'v) free_lru \<Rightarrow> ('k, 'v) free_lru \<Rightarrow> bool" where
  "time_frame s s' \<longleftrightarrow> env_same s s' \<and> bk s' = bk s \<and>
     (\<forall>x. fkey (at s' x) = fkey (at s x) \<and> fvalue (at s' x) = fvalue (at s x) \<and> fexpire (at s' x) = fexpire (at s x) \<and>
        flifetime (at s' x) = flifetime (at s x) \<and> nextBucket (at s' x) = nextBucket (at s x) \<and>
        prevBucket (at s' x) = prevBucket (at s x) \<and> bucketPos (at s' x) = bucketPos (at s x))"

definition bucket_frame :: "('k, 'v) free_lru \<Rightarrow> ('k, 'v) free_lru \<Rightarrow> bool" where
  "bucket_frame s s' \<longleftrightarrow> env_same s s' \<and> fhead s' = fhead s \<and> flen s' = flen s \<and>
     (\<forall>x. fkey (at s' x) = fkey (at s x) \<and> fvalue (at s' x) = fvalue (at s x) \<and> fexpire (at s' x) = fexpire (at s x) \<and>
        flifetime (at s' x) = flifetime (at s x) \<and> fnext (at s' x) = fnext (at s x) \<and> fprev (at s' x) = fprev (at s x))"

lemma env_simps [simp]:
  "env_same s (put p e s') = env_same s s'" "env_same s (bput b q s') = env_same s s'" "env_same s (s'\<lparr>fhead := x\<rparr>) = env_same s s'"
  "env_same s (s'\<lparr>flen := x\<rparr>) = env_same s s'" "env_same s (s'\<lparr>fmetric := m\<rparr>) = env_same s s'" "env_same s s"
  by (simp_all add: env_same_def config_def put_def bput_def)

lemma config_simps [simp]:
  "config (put p e s) = config s" "config (bput b q s) = config s" "config (s\<lparr>fhead := x\<rparr>) = config s"
  "config (s\<lparr>flen := x\<rparr>) = config s" "config (s\<lparr>fmetric := m\<rparr>) = config s" "config (s\<lparr>fticks := n\<rparr>) = config s"
  "config (s\<lparr>fevicted := ev\<rparr>) = config s"
  by (simp_all add: config_def put_def bput_def)

lemma env_trans: "env_same s s1 \<Longrightarrow> env_same s1 s2 \<Longrightarrow> env_same s s2"
  by (simp add: env_same_def)

lemma env_valid: "env_same s s' \<Longrightarrow> valid s' = valid s" "env_same s s' \<Longrightarrow> bvalid s' = bvalid s"
  by (simp_all add: env_same_def valid_def bvalid_def fun_eq_iff)

lemma time_frame_trans: "time_frame s s1 \<Longrightarrow> time_frame s1 s2 \<Longrightarrow> time_frame s s2"
  by (simp add: time_frame_def env_same_def)

lemma time_frame_simps [simp]:
  "time_frame s s" "time_frame s (s'\<lparr>fhead := x\<rparr>) = time_frame s s'" "time_frame s (s'\<lparr>flen := x\<rparr>) = time_frame s s'"
  "time_frame s (s'\<lparr>fmetric := m\<rparr>) = time_frame s s'"
  by (simp_all add: time_frame_def)

lemma time_frame_at:
  assumes "time_frame s s'"
  shows "fkey (at s' x) = fkey (at s x)" "fvalue (at s' x) = fvalue (at s x)" "fexpire (at s' x) = fexpire (at s x)"
    "flifetime (at s' x) = flifetime (at s x)" "nextBucket (at s' x) = nextBucket (at s x)"
    "prevBucket (at s' x) = prevBucket (at s x)" "bucketPos (at s' x) = bucketPos (at s x)" "bk s' = bk s" "env_same s s'"
  using assms by (simp_all add: time_frame_def)

lemma bucket_frame_at:
  assumes "bucket_frame s s'"
  shows "fkey (at s' x) = fkey (at s x)" "fvalue (at s' x) = fvalue (at s x)" "fexpire (at s' x) = fexpire (at s x)"
    "flifetime (at s' x) = flifetime (at s x)" "fnext (at s' x) = fnext (at s x)"
    "fprev (at s' x) = fprev (at s x)" "fhead s' = fhead s" "flen s' = flen s" "env_same s s'"
  using assms by (simp_all add: bucket_frame_def)

lemma put_same: "valid s p \<Longrightarrow> put p (at s p) s = s"
  by (simp add: put_def at_def valid_def)

abbreviation time_ring :: "('k, 'v) free_lru \<Rightarrow> uint32 list \<Rightarrow> bool" where
  "time_ring s \<equiv> ring (\<lambda>p. fnext (at s p)) (\<lambda>p. fprev (at s p))"

abbreviation bucket_ring :: "('k, 'v) free_lru \<Rightarrow> uint32 list \<Rightarrow> bool" where
  "bucket_ring s \<equiv> ring (\<lambda>p. nextBucket (at s p)) (\<lambda>p. prevBucket (at s p))"

section \<open>Time links\<close>

lemma unlinkElement_run:
  assumes "valid s p" "valid s (fprev (at s p))" "valid s (fnext (at s p))"
  obtains s' where "unlinkElement p s = Some s'" "time_frame s s'" "fhead s' = fhead s" "flen s' = flen s"
    "(\<lambda>x. fnext (at s' x)) = (\<lambda>x. fnext (at s x))(fprev (at s p) := fnext (at s p))"
    "(\<lambda>x. fprev (at s' x)) = (\<lambda>x. fprev (at s x))(fnext (at s p) := fprev (at s p))"
proof -
  let ?e = "at s p"
  let ?s1 = "put (fprev ?e) ((at s (fprev ?e))\<lparr>fnext := fnext ?e\<rparr>) s"
  let ?s2 = "put (fnext ?e) ((at ?s1 (fnext ?e))\<lparr>fprev := fprev ?e\<rparr>) ?s1"
  have e: "fnext (at ?s1 p) = fnext ?e" "fprev (at ?s1 p) = fprev ?e" using assms by auto
  have "unlinkElement p s = Some ?s2" using assms e by (simp add: unlinkElement_def elem_at upd_put del: at_put)
  moreover have "time_frame s ?s2" using assms by (auto simp: time_frame_def)
  ultimately show ?thesis using that [of ?s2] assms by (auto simp: fun_eq_iff)
qed

lemma unlinkElement_ring:
  assumes "time_ring s (as @ p # bs)" "\<forall>x \<in> set (as @ p # bs). valid s x"
  obtains s' where "unlinkElement p s = Some s'" "time_frame s s'" "fhead s' = fhead s" "flen s' = flen s" "time_ring s' (as @ bs)"
proof -
  have v: "valid s p" "valid s (fprev (at s p))" "valid s (fnext (at s p))"
    using assms ring_closed [OF assms(1), of p] by auto
  obtain s' where s': "unlinkElement p s = Some s'" "time_frame s s'" "fhead s' = fhead s" "flen s' = flen s"
    "(\<lambda>x. fnext (at s' x)) = (\<lambda>x. fnext (at s x))(fprev (at s p) := fnext (at s p))"
    "(\<lambda>x. fprev (at s' x)) = (\<lambda>x. fprev (at s x))(fnext (at s p) := fprev (at s p))"
    by (rule unlinkElement_run [OF v])
  have "time_ring s' (as @ bs)"
  proof (cases "as @ bs = []")
    case False
    from ring_unlink(1) [OF assms(1) False] show ?thesis unfolding s'(5,6) .
  qed simp
  with that s'(1-4) show ?thesis by blast
qed

lemma setHead_ring:
  assumes "time_ring s qs" "qs \<noteq> []" "fhead s = last qs" "p \<notin> set qs" "\<forall>x \<in> set (p # qs). valid s x"
  obtains s' where "setHead p s = Some s'" "time_frame s s'" "fhead s' = p" "flen s' = flen s" "time_ring s' (qs @ [p])"
proof -
  let ?h = "fhead s"
  have hn: "fnext (at s ?h) = hd qs" using ring_ends(1) [OF assms(1,2)] assms(3) by simp
  have in_qs: "?h \<in> set qs" "hd qs \<in> set qs" using assms(2,3) by simp_all
  then have ne: "p \<noteq> ?h" "p \<noteq> hd qs" using assms(4) by auto
  have v: "valid s p" "valid s ?h" "valid s (hd qs)" using assms(5) in_qs by auto
  let ?s1 = "put p ((at s p)\<lparr>fprev := ?h\<rparr>) s"
  let ?s2 = "put p ((at ?s1 p)\<lparr>fnext := hd qs\<rparr>) ?s1"
  let ?s3 = "put (hd qs) ((at ?s2 (hd qs))\<lparr>fprev := p\<rparr>) ?s2"
  let ?s4 = "put ?h ((at ?s3 ?h)\<lparr>fnext := p\<rparr>) ?s3"
  have h: "fnext (at ?s1 ?h) = hd qs" "fnext (at ?s2 ?h) = hd qs" using v ne hn by simp_all
  have "setHead p s = Some (?s4\<lparr>fhead := p\<rparr>)"
    using v ne h by (simp add: setHead_def elem_at upd_put del: at_put)
  moreover have "time_frame s ?s4" using v by (auto simp: time_frame_def)
  moreover have "time_ring ?s4 (qs @ [p])"
    by (rule ring_insert [OF assms(1,2,4)]) (use v ne assms(3) in auto)
  ultimately show ?thesis using that [of "?s4\<lparr>fhead := p\<rparr>"] by simp
qed

lemma touch_ring:
  assumes "time_ring s (as @ p # bs)" "\<forall>x \<in> set (as @ p # bs). valid s x" "fhead s = last (as @ p # bs)"
  obtains s' where "touch p s = Some s'" "time_frame s s'" "fhead s' = p" "flen s' = flen s" "time_ring s' (as @ bs @ [p])"
proof (cases "bs = []")
  case True
  with that [of s] assms show ?thesis by (simp add: touch_def)
next
  case False
  have d: "p \<notin> set (as @ bs)" using ring_distinct [OF assms(1)] by auto
  have ne: "p \<noteq> fhead s" using False d assms(3) by auto
  obtain s1 where s1: "unlinkElement p s = Some s1" "time_frame s s1" "fhead s1 = fhead s" "flen s1 = flen s" "time_ring s1 (as @ bs)"
    by (rule unlinkElement_ring [OF assms(1,2)])
  have v: "\<forall>x \<in> set (p # as @ bs). valid s1 x" using assms(2) env_valid(1) [OF time_frame_at(9) [OF s1(2)]] by auto
  obtain s2 where "setHead p s1 = Some s2" "time_frame s1 s2" "fhead s2 = p" "flen s2 = flen s1" "time_ring s2 ((as @ bs) @ [p])"
    by (rule setHead_ring [OF s1(5) _ _ d v]) (use False s1(3) assms(3) in auto)
  with that [of s2] s1 ne show ?thesis by (auto simp: touch_def intro: time_frame_trans)
qed

end
