(* ===== verification/FreeLruBuckets.thy ===== *)
theory FreeLruBuckets
  imports FreeLruSteps
begin

text \<open>
  The bucket part of the invariant of the cache, and the steps that link and unlink a position.
\<close>

definition bucket_first :: "uint32 list \<Rightarrow> uint32" where
  "bucket_first qs = (if qs = [] then emptyBucket else hd qs)"

definition bucket_inv :: "uint32 set \<Rightarrow> (uint32 \<Rightarrow> uint32 list) \<Rightarrow> ('k, 'v) free_lru \<Rightarrow> bool" where
  "bucket_inv P B s \<longleftrightarrow>
     (\<forall>b. bucket_ring s (B b) \<and> set (B b) = {p \<in> P. bucketPos (at s p) = b} \<and> (bvalid s b \<longrightarrow> bk s b = bucket_first (B b))) \<and>
     (\<forall>p \<in> P. valid s p \<and> bvalid s (bucketPos (at s p)))"

lemma bucket_first_simps [simp]: "bucket_first [] = emptyBucket" "bucket_first (q # qs) = q"
  by (simp_all add: bucket_first_def)

lemma bucket_inv_ring: "bucket_inv P B s \<Longrightarrow> bucket_ring s (B b)"
  and bucket_inv_set: "bucket_inv P B s \<Longrightarrow> set (B b) = {p \<in> P. bucketPos (at s p) = b}"
  and bucket_inv_first: "bucket_inv P B s \<Longrightarrow> bvalid s b \<Longrightarrow> bk s b = bucket_first (B b)"
  and bucket_inv_valid: "bucket_inv P B s \<Longrightarrow> p \<in> P \<Longrightarrow> valid s p"
  and bucket_inv_bvalid: "bucket_inv P B s \<Longrightarrow> p \<in> P \<Longrightarrow> bvalid s (bucketPos (at s p))"
  by (simp_all add: bucket_inv_def)

lemma bucket_inv_cong:
  assumes "bucket_inv P B s" "env_same s s'" "bk s' = bk s"
    "\<And>p. p \<in> P \<Longrightarrow> nextBucket (at s' p) = nextBucket (at s p) \<and> prevBucket (at s' p) = prevBucket (at s p) \<and> bucketPos (at s' p) = bucketPos (at s p)"
  shows "bucket_inv P B s'"
proof -
  have "bucket_ring s' (B b)" for b
  proof -
    have "bucket_ring s' (B b) = bucket_ring s (B b)"
      by (rule ring_cong) (use assms(4) bucket_inv_set [OF assms(1), of b] in auto)
    then show ?thesis using bucket_inv_ring [OF assms(1)] by simp
  qed
  then show ?thesis using assms env_valid [OF assms(2)] by (auto simp: bucket_inv_def)
qed

text \<open>Changing one bucket, where the positions outside of it keep their links.\<close>

lemma bucket_inv_update:
  assumes inv: "bucket_inv P B s" and env: "env_same s s'"
    and ring: "bucket_ring s' qs" and first: "bvalid s b \<Longrightarrow> bk s' = (bk s)(b := bucket_first qs)"
    and dom: "set qs = {p \<in> P'. bucketPos (at s' p) = b}"
    and others: "{p \<in> P'. bucketPos (at s' p) \<noteq> b} = {p \<in> P. bucketPos (at s p) \<noteq> b}"
    and keep: "\<And>p. p \<in> P \<Longrightarrow> bucketPos (at s p) \<noteq> b \<Longrightarrow> nextBucket (at s' p) = nextBucket (at s p) \<and>
      prevBucket (at s' p) = prevBucket (at s p) \<and> bucketPos (at s' p) = bucketPos (at s p)"
    and ok: "bvalid s b" "\<And>p. p \<in> P' \<Longrightarrow> valid s p"
  shows "bucket_inv P' (B(b := qs)) s'"
proof -
  note v = env_valid [OF env]
  have "bucket_ring s' (B c) \<and> set (B c) = {p \<in> P'. bucketPos (at s' p) = c}" if "c \<noteq> b" for c
  proof
    have "bucket_ring s' (B c) = bucket_ring s (B c)"
      by (rule ring_cong) (use keep that bucket_inv_set [OF inv, of c] in auto)
    then show "bucket_ring s' (B c)" using bucket_inv_ring [OF inv] by simp
    have "{p \<in> P'. bucketPos (at s' p) = c} = {p \<in> {p \<in> P'. bucketPos (at s' p) \<noteq> b}. bucketPos (at s' p) = c}" using that by auto
    also have "\<dots> = {p \<in> {p \<in> P. bucketPos (at s p) \<noteq> b}. bucketPos (at s p) = c}" using others keep by auto
    also have "\<dots> = set (B c)" using that bucket_inv_set [OF inv, of c] by auto
    finally show "set (B c) = {p \<in> P'. bucketPos (at s' p) = c}" by simp
  qed
  moreover have "bvalid s (bucketPos (at s' p))" if "p \<in> P'" for p
  proof (cases "bucketPos (at s' p) = b")
    case False
    then have "p \<in> P" "bucketPos (at s p) \<noteq> b" using that others by auto
    then show ?thesis using keep bucket_inv_bvalid [OF inv] by auto
  qed (use ok in simp)
  moreover have "bk s' c = bucket_first (B c)" if "c \<noteq> b" "bvalid s c" for c
    using that first ok(1) bucket_inv_first [OF inv] by simp
  ultimately show ?thesis using ring dom ok first v by (simp add: bucket_inv_def)
qed

lemma unlinkBucket_inv:
  assumes inv: "bucket_inv P B s" and p: "p \<in> P"
  obtains s' B' where "unlinkBucket p s = Some s'" "bucket_frame s s'" "bucket_inv (P - {p}) B' s'"
    "\<And>x. bucketPos (at s' x) = bucketPos (at s x)" "\<And>b. B' b = [] \<Longrightarrow> B b \<noteq> [] \<Longrightarrow> prevBucket (at s' p) = p"
proof -
  let ?b = "bucketPos (at s p)"
  have set: "set (B ?b) = {x \<in> P. bucketPos (at s x) = ?b}" by (rule bucket_inv_set [OF inv])
  obtain as bs where eq: "B ?b = as @ p # bs" using p set by (metis (mono_tags, lifting) mem_Collect_eq split_list)
  note r = bucket_inv_ring [OF inv, of ?b, unfolded eq]
  have d: "p \<notin> set as" "p \<notin> set bs" using ring_distinct [OF r] by auto
  have v: "valid s p" "bvalid s ?b" "\<And>x. x \<in> set (B ?b) \<Longrightarrow> valid s x"
    using bucket_inv_valid [OF inv] bucket_inv_bvalid [OF inv] p set by auto
  show ?thesis
  proof (cases "as @ bs = []")
    case True
    then have self: "nextBucket (at s p) = p" "prevBucket (at s p) = p" using r by simp_all
    then have "unlinkBucket p s = Some (bput ?b emptyBucket s)"
      using v by (simp add: unlinkBucket_def elem_at set_bucket_bput)
    moreover have "bucket_frame s (bput ?b emptyBucket s)" by (simp add: bucket_frame_def)
    moreover have "bucket_inv (P - {p}) (B(?b := [])) (bput ?b emptyBucket s)"
      by (rule bucket_inv_update [OF inv]) (use v set eq True bucket_inv_valid [OF inv] in auto)
    ultimately show ?thesis by (rule that) (use self v in \<open>auto split: if_splits\<close>)
  next
    case False
    let ?e = "at s p"
    let ?nb = "nextBucket ?e" and ?pb = "prevBucket ?e"
    note u = ring_unlink [OF r False]
    have in_b: "?nb \<in> set (B ?b)" "?pb \<in> set (B ?b)" using ring_closed [OF r, of p] eq by auto
    then have vn: "valid s ?nb" "valid s ?pb" and bn: "bucketPos (at s ?nb) = ?b" "bucketPos (at s ?pb) = ?b"
      using v(3) set by auto
    let ?s1 = "put ?pb ((at s ?pb)\<lparr>nextBucket := ?nb\<rparr>) s"
    let ?s2 = "put ?nb ((at ?s1 ?nb)\<lparr>prevBucket := ?pb\<rparr>) ?s1"
    have bp: "bucketPos (at ?s2 x) = bucketPos (at s x)" for x using vn by simp
    have "unlinkBucket p s = Some (bput ?b ?nb ?s2)"
      using v vn u(2,3) bp [of p] by (auto simp add: unlinkBucket_def elem_at set_bucket_bput upd_put Let_def simp del: at_put)
    moreover have "bucket_frame s (bput ?b ?nb ?s2)" using vn by (auto simp: bucket_frame_def)
    moreover have "bucket_inv (P - {p}) (B(?b := bs @ as)) (bput ?b ?nb ?s2)"
    proof (rule bucket_inv_update [OF inv])
      have "(\<lambda>x. nextBucket (at (bput ?b ?nb ?s2) x)) = (\<lambda>x. nextBucket (at s x))(?pb := ?nb)"
        "(\<lambda>x. prevBucket (at (bput ?b ?nb ?s2) x)) = (\<lambda>x. prevBucket (at s x))(?nb := ?pb)"
        using vn by (auto simp: fun_eq_iff)
      then have "bucket_ring (bput ?b ?nb ?s2) (as @ bs)" using u(1) by simp
      then show "bucket_ring (bput ?b ?nb ?s2) (bs @ as)" using ring_rotate by blast
      have "ring (\<lambda>x. nextBucket (at s x)) (\<lambda>x. prevBucket (at s x)) (p # bs @ as)" using r ring_rotate [of _ _ as "p # bs"] by simp
      moreover obtain q qs where "bs @ as = q # qs" using False by (cases "bs @ as") auto
      ultimately have "?nb = bucket_first (bs @ as)" using ring_neighbours(1) [of "\<lambda>x. nextBucket (at s x)" "\<lambda>x. prevBucket (at s x)" p q qs] by simp
      then show "bk (bput ?b ?nb ?s2) = (bk s)(?b := bucket_first (bs @ as))" using v(2) by simp
      have "set (bs @ as) = set (B ?b) - {p}" using d eq by auto
      then show "set (bs @ as) = {x \<in> P - {p}. bucketPos (at (bput ?b ?nb ?s2) x) = ?b}" using set bp by auto
      show "{x \<in> P - {p}. bucketPos (at (bput ?b ?nb ?s2) x) \<noteq> ?b} = {x \<in> P. bucketPos (at s x) \<noteq> ?b}" using bp by auto
    qed (use v(2) vn bn bucket_inv_valid [OF inv] in auto)
    ultimately show ?thesis by (rule that) (use bp False in \<open>auto split: if_splits\<close>)
  qed
qed

lemma link_first_inv:
  assumes inv: "bucket_inv P B s" and p: "p \<notin> P" "valid s p" and b: "bvalid s b" "B b = []"
  obtains s' B' where "link_first b p s = Some s'" "bucket_frame s s'" "bucket_inv (insert p P) B' s'"
    "\<And>x. bucketPos (at s' x) = (if x = p then b else bucketPos (at s x))"
proof -
  let ?s = "put p ((at s p)\<lparr>bucketPos := b, nextBucket := p, prevBucket := p\<rparr>) (bput b p s)"
  have "link_first b p s = Some ?s" using p b by (simp add: link_first_def set_bucket_bput upd_put)
  moreover have "bucket_frame s ?s" using p by (auto simp: bucket_frame_def)
  moreover have "bucket_inv (insert p P) (B(b := [p])) ?s"
    by (rule bucket_inv_update [OF inv]) (use p b bucket_inv_set [OF inv, of b] bucket_inv_valid [OF inv] in auto)
  ultimately show ?thesis by (rule that) (use p in auto)
qed

lemma link_before_inv:
  assumes inv: "bucket_inv P B s" and p: "p \<notin> P" "valid s p" and b: "bvalid s b"
    and st: "st = (if B b = [] then p else hd (B b))" and self: "B b = [] \<Longrightarrow> prevBucket (at s p) = p"
  obtains s' B' where "link_before b p st s = Some s'" "bucket_frame s s'" "bucket_inv (insert p P) B' s'"
    "\<And>x. bucketPos (at s' x) = (if x = p then b else bucketPos (at s x))"
proof -
  let ?pv = "prevBucket (at s st)"
  let ?s1 = "put p ((at s p)\<lparr>bucketPos := b, nextBucket := st\<rparr>) (bput b p s)"
  let ?s2 = "put p ((at ?s1 p)\<lparr>prevBucket := ?pv\<rparr>) ?s1"
  let ?s3 = "put ?pv ((at ?s2 ?pv)\<lparr>nextBucket := p\<rparr>) ?s2"
  let ?s4 = "put st ((at ?s3 st)\<lparr>prevBucket := p\<rparr>) ?s3"
  have set: "set (B b) = {x \<in> P. bucketPos (at s x) = b}" by (rule bucket_inv_set [OF inv])
  have pn: "p \<notin> set (B b)" using set p by auto
  have st_in: "st \<in> set (p # B b)" "?pv \<in> set (p # B b)" "B b \<noteq> [] \<Longrightarrow> ?pv = last (B b)"
    using st self ring_ends(2) [OF bucket_inv_ring [OF inv, of b]] by auto
  then have v: "valid s st" "valid s ?pv" using p set bucket_inv_valid [OF inv] by auto
  have pv: "prevBucket (at ?s1 st) = ?pv" "prevBucket (at ?s2 st) = ?pv" using p by auto
  have "link_before b p st s = Some ?s4"
    using p v b pv by (simp add: link_before_def set_bucket_bput upd_put elem_at del: at_put)
  moreover have "bucket_frame s ?s4" using p v by (auto simp: bucket_frame_def)
  moreover have bp: "bucketPos (at ?s4 x) = (if x = p then b else bucketPos (at s x))" for x using p v by auto
  moreover have "bucket_inv (insert p P) (B(b := p # B b)) ?s4"
  proof (rule bucket_inv_update [OF inv])
    show "bucket_ring ?s4 (p # B b)"
    proof (cases "B b = []")
      case True
      then show ?thesis using st self p by simp
    next
      case False
      have "bucket_ring ?s4 (B b @ [p])"
        by (rule ring_insert [OF bucket_inv_ring [OF inv, of b] False pn]) (use p v st st_in(3) False pn in auto)
      then show ?thesis using ring_rotate [of _ _ "B b" "[p]"] by simp
    qed
    show "set (p # B b) = {x \<in> insert p P. bucketPos (at ?s4 x) = b}" unfolding bp using set p by auto
    show "{x \<in> insert p P. bucketPos (at ?s4 x) \<noteq> b} = {x \<in> P. bucketPos (at s x) \<noteq> b}" unfolding bp using p by auto
    show "env_same s ?s4" "bvalid s b" using b by simp_all
    show "bk ?s4 = (bk s)(b := bucket_first (p # B b))" using b by simp
    show "\<And>x. x \<in> insert p P \<Longrightarrow> valid s x" using p bucket_inv_valid [OF inv] by auto
    fix x assume x: "x \<in> P" "bucketPos (at s x) \<noteq> b"
    then have "x \<noteq> p" "x \<notin> set (B b)" using p set by auto
    then have "x \<noteq> p" "x \<noteq> st" "x \<noteq> ?pv" using st_in by auto
    then show "nextBucket (at ?s4 x) = nextBucket (at s x) \<and> prevBucket (at ?s4 x) = prevBucket (at s x) \<and> bucketPos (at ?s4 x) = bucketPos (at s x)"
      using p v by simp
  qed
  ultimately show ?thesis using that by blast
qed

end
