(* ===== verification/FreeLruInv.thy ===== *)
theory FreeLruInv
  imports FreeLruBuckets
begin

text \<open>
  The invariant of the cache: one ring of all positions in use from the oldest to the newest,
  one ring per bucket, every element in the bucket of its key, and no key twice. The steps
  \<open>evict\<close>, \<open>move\<close>, \<open>insert\<close> and \<open>removeAt\<close> keep it.
\<close>

section \<open>Positions\<close>

definition slot :: "('k, 'v) free_lru \<Rightarrow> 'k \<Rightarrow> uint32" where
  "slot s k = hashToBucketPos (fhash s k) s"

definition sizes_ok :: "('k, 'v) free_lru \<Rightarrow> bool" where
  "sizes_ok s \<longleftrightarrow> length (elements s) = unat (fsize s) \<and> length (buckets s) = unat (fsize s) \<and> fsize s \<noteq> emptyBucket \<and>
     (fmask s = 0 \<or> fmask s = fsize s - 1) \<and> 0 < fcap s \<and> fcap s \<le> fsize s \<and> valid s (fhead s)"

lemma fastModulo_less: "0 < n \<Longrightarrow> fastModulo x n < n"
proof -
  assume n: "0 < n"
  have x: "unat x \<le> 2 ^ 32 - 1" and nb: "unat n < 2 ^ 32" and np: "0 < unat n"
    using unsigned_less [of x, where 'a = nat] unsigned_less [of n, where 'a = nat] n by (simp_all add: word_less_nat_alt)
  have le: "unat x * unat n \<le> (2 ^ 32 - 1) * unat n" using x by simp
  have lt: "unat x * unat n < 2 ^ 32 * unat n" by (rule le_less_trans [OF le]) (use np in simp)
  have "2 ^ 32 * unat n < 2 ^ 32 * 2 ^ 32" using nb by simp
  with lt have "unat x * unat n < 2 ^ 32 * 2 ^ 32" by (rule less_trans)
  then have "unat x * unat n < 2 ^ 64" by (simp only: power_add [symmetric]) simp
  moreover have "unat (ucast y :: uint64) = unat y" for y :: uint32
    using unsigned_less [of y, where 'a = nat] by (simp add: unsigned_ucast_eq take_bit_nat_eq_self)
  ultimately have m: "unat ((ucast x :: uint64) * ucast n) = unat x * unat n" and b: "unat x * unat n < 2 ^ 64"
    by (simp_all add: unat_word_ariths)
  have d: "unat (drop_bit 32 ((ucast x :: uint64) * ucast n)) = unat x * unat n div 2 ^ 32"
    unfolding unsigned_drop_bit_eq m using b by (simp add: drop_bit_eq_div take_bit_nat_eq_self)
  have q: "unat x * unat n div 2 ^ 32 < unat n" using lt by (simp add: div_less_iff_less_mult mult.commute)
  have "unat (fastModulo x n) = unat x * unat n div 2 ^ 32"
    unfolding fastModulo_def unsigned_ucast_eq d using q nb by (simp add: take_bit_nat_eq_self)
  then show ?thesis using q by (simp add: word_less_nat_alt)
qed

lemma slot_bvalid:
  assumes "sizes_ok s"
  shows "bvalid s (slot s k)"
proof -
  have p: "0 < fsize s" using assms by (auto simp: sizes_ok_def)
  have "slot s k < fsize s"
  proof (cases "fmask s = 0")
    case True
    then show ?thesis using fastModulo_less [OF p] by (simp add: slot_def hashToBucketPos_def)
  next
    case False
    then have "slot s k \<le> fsize s - 1" using assms by (auto simp: slot_def hashToBucketPos_def sizes_ok_def word_and_le1)
    also have "\<dots> < fsize s" using p by (simp add: word_less_nat_alt unat_sub word_le_nat_alt)
    finally show ?thesis .
  qed
  then show ?thesis using assms by (simp add: bvalid_def sizes_ok_def word_less_nat_alt)
qed

lemma valid_not_empty: "sizes_ok s \<Longrightarrow> valid s p \<Longrightarrow> p \<noteq> emptyBucket"
proof
  assume a: "sizes_ok s" "valid s p" "p = emptyBucket"
  then have "emptyBucket < fsize s" by (simp add: valid_def sizes_ok_def word_less_nat_alt)
  then show False by (simp add: emptyBucket_def)
qed

lemma config_fields:
  assumes "config s' = config s"
  shows "fhash s' = fhash s" "fmask s' = fmask s" "fsize s' = fsize s" "fcap s' = fcap s" "fonEvict s' = fonEvict s"
    "healthCheck s' = healthCheck s" "default_lifetime s' = default_lifetime s" "fclock s' = fclock s"
    "emptyKey s' = emptyKey s" "emptyValue s' = emptyValue s" "slot s' = slot s"
proof -
  show f: "fhash s' = fhash s" "fmask s' = fmask s" "fsize s' = fsize s" "fcap s' = fcap s" "fonEvict s' = fonEvict s"
    "healthCheck s' = healthCheck s" "default_lifetime s' = default_lifetime s" "fclock s' = fclock s"
    "emptyKey s' = emptyKey s" "emptyValue s' = emptyValue s"
    using assms by (cases s, cases s', simp add: config_def)+
  show "slot s' = slot s" by (simp add: fun_eq_iff slot_def hashToBucketPos_def f)
qed

section \<open>Linked states\<close>

type_synonym ('k, 'v) entry = "'k \<times> 'v \<times> 64 word \<times> duration"

definition ent :: "('k, 'v) felement \<Rightarrow> ('k, 'v) entry" where
  "ent e = (fkey e, fvalue e, fexpire e, flifetime e)"

definition time_inv :: "uint32 list \<Rightarrow> ('k, 'v) free_lru \<Rightarrow> bool" where
  "time_inv ps s \<longleftrightarrow> time_ring s ps \<and> (ps \<noteq> [] \<longrightarrow> fhead s = last ps) \<and> (\<forall>p \<in> set ps. valid s p)"

definition keys_inv :: "uint32 list \<Rightarrow> ('k, 'v) free_lru \<Rightarrow> bool" where
  "keys_inv ps s \<longleftrightarrow> distinct (map (\<lambda>p. fkey (at s p)) ps) \<and> (\<forall>p \<in> set ps. bucketPos (at s p) = slot s (fkey (at s p)))"

definition linked :: "uint32 list \<Rightarrow> ('k, 'v) free_lru \<Rightarrow> bool" where
  "linked ps s \<longleftrightarrow> sizes_ok s \<and> time_inv ps s \<and> (\<exists>B. bucket_inv (set ps) B s) \<and> keys_inv ps s"

text \<open>The positions in use are those below \<open>len\<close>.\<close>

definition compact :: "uint32 list \<Rightarrow> ('k, 'v) free_lru \<Rightarrow> bool" where
  "compact ps s \<longleftrightarrow> set ps = {p. p < flen s} \<and> flen s \<le> fcap s"

lemma ent_iff: "ent e' = ent e \<longleftrightarrow> fkey e' = fkey e \<and> fvalue e' = fvalue e \<and> fexpire e' = fexpire e \<and> flifetime e' = flifetime e"
  by (simp add: ent_def)

lemma sizes_env: "sizes_ok s \<Longrightarrow> env_same s s' \<Longrightarrow> valid s (fhead s') \<Longrightarrow> sizes_ok s'"
  using config_fields [of s' s] by (auto simp: sizes_ok_def env_same_def valid_def)

lemma keys_inv_cong:
  assumes "keys_inv ps s" "config s' = config s" "\<And>p. p \<in> set ps \<Longrightarrow> fkey (at s' p) = fkey (at s p)"
    "\<And>p. p \<in> set ps \<Longrightarrow> bucketPos (at s' p) = bucketPos (at s p)"
  shows "keys_inv ps s'"
proof -
  have "map (\<lambda>p. fkey (at s' p)) ps = map (\<lambda>p. fkey (at s p)) ps" using assms(3) by simp
  then have "distinct (map (\<lambda>p. fkey (at s' p)) ps)" using assms(1) by (simp only: keys_inv_def)
  then show ?thesis using assms config_fields(11) [OF assms(2)] by (simp add: keys_inv_def)
qed

lemma time_inv_cong:
  assumes "time_inv ps s" "valid s' = valid s" "fhead s' = fhead s"
    "\<And>p. p \<in> set ps \<Longrightarrow> fnext (at s' p) = fnext (at s p) \<and> fprev (at s' p) = fprev (at s p)"
  shows "time_inv ps s'"
proof -
  have "time_ring s' ps = time_ring s ps" by (rule ring_cong) (use assms(4) in auto)
  then show ?thesis using assms by (simp add: time_inv_def)
qed

lemma compact_length: "compact ps s \<Longrightarrow> distinct ps \<Longrightarrow> length ps = unat (flen s)"
proof -
  assume a: "compact ps s" "distinct ps"
  have "bij_betw unat {p. p < flen s} {n. n < unat (flen s)}"
  proof (rule bij_betw_imageI)
    show "unat ` {p. p < flen s} = {n. n < unat (flen s)}"
    proof (rule set_eqI, rule iffI)
      fix n assume "n \<in> {n. n < unat (flen s)}"
      then have lt: "n < unat (flen s)" by simp
      then have "n < 2 ^ 32" using unsigned_less [of "flen s", where 'a = nat] by simp
      then have "unat (of_nat n :: uint32) = n" by (simp add: unat_of_nat take_bit_nat_eq_self)
      then show "n \<in> unat ` {p. p < flen s}" using lt by (metis (mono_tags) image_eqI mem_Collect_eq word_less_nat_alt)
    qed (auto simp: word_less_nat_alt)
  qed (auto intro: inj_onI simp: word_unat_eq_iff)
  then have "card {p. p < flen s} = unat (flen s)" using bij_betw_same_card by fastforce
  then show ?thesis using a distinct_card [of ps] by (simp add: compact_def)
qed

lemma linked_distinct: "linked ps s \<Longrightarrow> distinct ps"
  by (auto simp: linked_def time_inv_def dest: ring_distinct)

section \<open>Eviction\<close>

lemma ring_inverse:
  assumes "ring nx pv ps" "x \<in> set ps"
  shows "pv (nx x) = x" "nx (pv x) = x"
proof -
  obtain as bs where eq: "ps = as @ x # bs" using assms(2) by (auto dest: split_list)
  have r: "ring nx pv (x # bs @ as)" using assms(1) ring_rotate [of nx pv as "x # bs"] by (simp add: eq)
  have "pv (nx x) = x \<and> nx (pv x) = x"
  proof (cases "bs @ as")
    case Nil
    with r show ?thesis by simp
  next
    case (Cons q qs)
    with ring_neighbours [OF r [unfolded Cons]] show ?thesis by simp
  qed
  then show "pv (nx x) = x" "nx (pv x) = x" by simp_all
qed

lemma ring_last_prev: "ring nx pv (as @ [p]) \<Longrightarrow> as \<noteq> [] \<Longrightarrow> pv p = last as"
proof -
  assume a: "ring nx pv (as @ [p])" "as \<noteq> []"
  then have "ring nx pv (p # as)" using ring_rotate [of nx pv as "[p]"] by simp
  then show "pv p = last as" using a(2) ring_neighbours(3) [of nx pv p] by (cases as) auto
qed

lemma evict_linked:
  assumes l: "linked (as @ p # bs) s"
  obtains s' where "evict p s = Some s'" "linked (as @ bs) s'" "flen s' = flen s - 1" "config s' = config s" "fticks s' = fticks s"
    "fevicted s' = fevicted s @ (if fonEvict s then [(fkey (at s p), fvalue (at s p))] else [])"
    "\<And>x. ent (at s' x) = ent (at s x)" "valid s' = valid s" "bvalid s' = bvalid s"
    "\<And>b. bvalid s b \<Longrightarrow> bk s b \<noteq> emptyBucket \<Longrightarrow> bk s' b = emptyBucket \<Longrightarrow> prevBucket (at s' p) = p"
proof -
  let ?h = "if p = fhead s then fprev (at s p) else fhead s"
  let ?s0 = "s\<lparr>fhead := ?h\<rparr>"
  obtain B where sz: "sizes_ok s" and t: "time_inv (as @ p # bs) s" and B: "bucket_inv (set (as @ p # bs)) B s" and k: "keys_inv (as @ p # bs) s"
    using l by (auto simp: linked_def)
  have ring: "time_ring s (as @ p # bs)" and hd: "fhead s = last (as @ p # bs)" and v: "\<forall>x \<in> set (as @ p # bs). valid s x"
    using t by (simp_all add: time_inv_def)
  have d: "p \<notin> set as" "p \<notin> set bs" using ring_distinct [OF ring] by auto
  have h: "as @ bs \<noteq> [] \<Longrightarrow> ?h = last (as @ bs)"
  proof (cases "bs = []")
    case True
    moreover assume "as @ bs \<noteq> []"
    ultimately show ?thesis using hd ring_last_prev [of _ _ as p] ring by simp
  qed (use d hd in auto)
  have hv: "valid s ?h" using v sz ring_closed [OF ring, of p] by (auto simp: sizes_ok_def)
  have ps0: "fprev (at ?s0 p) = fprev (at s p)" by simp
  obtain s1 where s1: "unlinkElement p ?s0 = Some s1" "time_frame ?s0 s1" "fhead s1 = fhead ?s0" "flen s1 = flen ?s0" "time_ring s1 (as @ bs)"
    by (rule unlinkElement_ring [of ?s0 as p bs]) (use ring v in auto)
  note f1 = time_frame_at [OF s1(2)]
  have e1: "env_same s s1" using f1(9) by (simp add: env_same_def config_def)
  have B1: "bucket_inv (set (as @ p # bs)) B s1"
    by (rule bucket_inv_cong [OF B e1]) (use f1 in auto)
  obtain s2 B2 where s2: "unlinkBucket p s1 = Some s2" "bucket_frame s1 s2" "bucket_inv (set (as @ p # bs) - {p}) B2 s2"
    "\<And>x. bucketPos (at s2 x) = bucketPos (at s1 x)" "\<And>b. B2 b = [] \<Longrightarrow> B b \<noteq> [] \<Longrightarrow> prevBucket (at s2 p) = p"
    by (rule unlinkBucket_inv [OF B1]) auto
  note f2 = bucket_frame_at [OF s2(2)]
  have e2: "env_same s s2" using env_trans [OF e1 f2(9)] .
  note c2 = config_fields [of s2 s]
  have cfg: "config s2 = config s" using e2 by (simp add: env_same_def)
  let ?ev = "fevicted s @ (if fonEvict s then [(fkey (at s p), fvalue (at s p))] else [])"
  let ?s3 = "s2\<lparr>flen := flen s2 - 1, fevicted := ?ev\<rparr>"
  have vp: "valid s2 p" using v env_valid(1) [OF e2] by simp
  have ev: "fevicted s2 = fevicted s" "fonEvict s2 = fonEvict s" using e2 c2(5) [OF cfg] by (simp_all add: env_same_def)
  have bindp: "(if p = fhead s then do { e \<leftarrow> elem p s; Some (s\<lparr>fhead := fprev e\<rparr>) } else Some s) = Some ?s0"
    using v by (cases "p = fhead s") (auto simp: elem_at)
  have run: "evict p s = Some ?s3"
    unfolding evict_def bindp using s1(1) s2(1) vp ev f1 f2 by (auto simp: elem_at)
  have ents: "ent (at ?s3 x) = ent (at s x)" for x using f1 f2 by (simp add: ent_def)
  have bps: "bucketPos (at ?s3 x) = bucketPos (at s x)" for x using s2(4) f1 by simp
  have diff: "set (as @ p # bs) - {p} = set (as @ bs)" using d by auto
  have bi: "bucket_inv (set (as @ bs)) B2 ?s3"
  proof -
    have "bucket_inv (set (as @ bs)) B2 s2" using s2(3) diff by simp
    then show ?thesis by (simp add: bucket_inv_def)
  qed
  have lk: "linked (as @ bs) ?s3"
    unfolding linked_def
  proof (intro conjI)
    show "sizes_ok ?s3" using sizes_env [OF sz e2] hv f2(7) s1(3) by (simp add: sizes_ok_def)
    have "time_ring ?s3 (as @ bs) = time_ring s1 (as @ bs)" by (rule ring_cong) (use f2 in simp)
    then show "time_inv (as @ bs) ?s3" using s1(3,5) h f2(7) v env_valid(1) [OF e2] by (auto simp: time_inv_def)
    show "\<exists>B. bucket_inv (set (as @ bs)) B ?s3" using bi by blast
    have "keys_inv (as @ bs) s" using k by (auto simp: keys_inv_def)
    then show "keys_inv (as @ bs) ?s3"
      by (rule keys_inv_cong) (use cfg f1 f2 bps in \<open>auto simp: config_def\<close>)
  qed
  have last: "prevBucket (at ?s3 p) = p" if "bvalid s b" "bk s b \<noteq> emptyBucket" "bk ?s3 b = emptyBucket" for b
  proof -
    have "B b \<noteq> []" using that(2) bucket_inv_first [OF B that(1)] by auto
    moreover have "B2 b = []"
    proof (rule ccontr)
      assume ne: "B2 b \<noteq> []"
      have "bvalid ?s3 b" using that(1) env_valid(2) [OF e2] by simp
      then have "bk ?s3 b = hd (B2 b)" using bucket_inv_first [OF bi] ne by (simp add: bucket_first_def)
      moreover have "hd (B2 b) \<in> set (as @ bs)" using ne bucket_inv_set [OF bi, of b] hd_in_set [OF ne] by auto
      then have "valid s (hd (B2 b))" using v by auto
      ultimately show False using that(3) valid_not_empty [OF sz] by auto
    qed
    ultimately show ?thesis using s2(5) by simp
  qed
  show ?thesis
    by (rule that [OF run lk]) (use f2 s1(4) e2 cfg ents last env_valid [OF e2] in \<open>auto simp: env_same_def config_def\<close>)
qed

end
