(* ===== verification/FreeLruMoves.thy ===== *)
theory FreeLruMoves
  imports FreeLruInv
begin

text \<open>
  Moving the last element into a gap, storing a new one, and removing one.
\<close>

section \<open>Moving an element\<close>

lemma ring_move:
  assumes "ring nx pv ps" "from \<in> set ps" "to \<notin> set ps"
    "\<And>x. x \<in> set ps \<Longrightarrow> nx' ((id(from := to)) x) = (if x = pv from then to else nx x)"
    "\<And>x. x \<in> set ps \<Longrightarrow> pv' ((id(from := to)) x) = (if x = nx from then to else pv x)"
  shows "ring nx' pv' (map (id(from := to)) ps)"
proof (rule ring_rename [OF assms(1-3)])
  fix x assume x: "x \<in> set ps"
  have "nx x = from \<longleftrightarrow> x = pv from" "pv x = from \<longleftrightarrow> x = nx from"
    using ring_inverse [OF assms(1) x] ring_inverse [OF assms(1,2)] by auto
  then show "nx' ((id(from := to)) x) = (id(from := to)) (nx x)" "pv' ((id(from := to)) x) = (id(from := to)) (pv x)"
    using assms(4,5) [OF x] by auto
qed

text \<open>The state after \<open>move\<close>, element by element.\<close>

lemma free_move_run:
  assumes v: "valid s from" "valid s to" "valid s (fprev (at s from))" "valid s (fnext (at s from))"
      "valid s (prevBucket (at s from))" "valid s (nextBucket (at s from))" "bvalid s (bucketPos (at s from))"
    and ne: "to \<noteq> from"
  obtains s' where "free_move to from s = Some s'" "env_same s s'" "flen s' = flen s"
    "fhead s' = (if from = fhead s then to else fhead s)"
    "bk s' = (if bk s (bucketPos (at s from)) = from then (bk s)(bucketPos (at s from) := to) else bk s)"
    "\<And>x. x \<noteq> to \<Longrightarrow> ent (at s' ((id(from := to)) x)) = ent (at s x)"
    "\<And>x. x \<noteq> to \<Longrightarrow> bucketPos (at s' ((id(from := to)) x)) = bucketPos (at s x)"
    "\<And>x. x \<noteq> to \<Longrightarrow> fnext (at s' ((id(from := to)) x)) = (if x = fprev (at s from) then to else fnext (at s x))"
    "\<And>x. x \<noteq> to \<Longrightarrow> fprev (at s' ((id(from := to)) x)) = (if x = fnext (at s from) then to else fprev (at s x))"
    "\<And>x. x \<noteq> to \<Longrightarrow> nextBucket (at s' ((id(from := to)) x)) = (if x = prevBucket (at s from) then to else nextBucket (at s x))"
    "\<And>x. x \<noteq> to \<Longrightarrow> prevBucket (at s' ((id(from := to)) x)) = (if x = nextBucket (at s from) then to else prevBucket (at s x))"
proof -
  let ?e = "at s from"
  let ?s0 = "if from = fhead s then s\<lparr>fhead := to\<rparr> else s"
  let ?s1 = "put (fprev ?e) ((at s (fprev ?e))\<lparr>fnext := to\<rparr>) ?s0"
  let ?s2 = "put (fnext ?e) ((at ?s1 (fnext ?e))\<lparr>fprev := to\<rparr>) ?s1"
  let ?s3 = "put (prevBucket ?e) ((at ?s2 (prevBucket ?e))\<lparr>nextBucket := to\<rparr>) ?s2"
  let ?s4 = "put (nextBucket ?e) ((at ?s3 (nextBucket ?e))\<lparr>prevBucket := to\<rparr>) ?s3"
  let ?s5 = "put to (at ?s4 from) ?s4"
  let ?s6 = "if bk s (bucketPos ?e) = from then bput (bucketPos ?e) to ?s5 else ?s5"
  have same: "at ?s0 = at s" "bk ?s0 = bk s" "valid ?s0 = valid s" "bvalid ?s0 = bvalid s" by simp_all
  have vs: "valid ?s4 = valid s" "bvalid ?s4 = bvalid s" "valid ?s3 = valid s" "valid ?s2 = valid s" "valid ?s1 = valid s"
    using same by (simp_all add: fun_eq_iff)
  have keep: "prevBucket (at ?s2 from) = prevBucket ?e" "nextBucket (at ?s2 from) = nextBucket ?e" "bucketPos (at ?s4 from) = bucketPos ?e"
    using v same by auto
  have run: "free_move to from s = Some ?s6"
    unfolding free_move_def using ne v same vs keep
    by (auto simp add: Let_def elem_at upd_put set_bucket_bput get_bucket simp del: at_put)
  have at6: "at ?s6 = (at ?s4)(to := at ?s4 from)" using v vs by simp
  have at4: "ent (at ?s4 x) = ent (at s x)" "bucketPos (at ?s4 x) = bucketPos (at s x)"
    "fnext (at ?s4 x) = (if x = fprev ?e then to else fnext (at s x))"
    "fprev (at ?s4 x) = (if x = fnext ?e then to else fprev (at s x))"
    "nextBucket (at ?s4 x) = (if x = prevBucket ?e then to else nextBucket (at s x))"
    "prevBucket (at ?s4 x) = (if x = nextBucket ?e then to else prevBucket (at s x))" for x
    using v same by (auto simp: ent_def)
  have moved: "at ?s6 ((id(from := to)) x) = at ?s4 x" if "x \<noteq> to" for x using that unfolding at6 by auto
  have bk6: "bk ?s6 = (if bk s (bucketPos (at s from)) = from then (bk s)(bucketPos (at s from) := to) else bk s)"
    using v by (cases "from = fhead s") auto
  have env: "env_same s ?s6" by simp
  show ?thesis by (rule that [OF run env _ _ bk6]) (simp_all add: moved at4 del: fun_upd_apply)
qed

lemma free_move_linked:
  assumes l: "linked ps s" and "from": "from \<in> set ps" and to: "to \<notin> set ps" "valid s to"
  obtains s' where "free_move to from s = Some s'" "linked (map (id(from := to)) ps) s'" "flen s' = flen s" "env_same s s'"
    "\<And>x. x \<in> set ps \<Longrightarrow> ent (at s' ((id(from := to)) x)) = ent (at s x)"
proof -
  let ?f = "id(from := to)"
  obtain B where sz: "sizes_ok s" and t: "time_inv ps s" and B: "bucket_inv (set ps) B s" and k: "keys_inv ps s"
    using l by (auto simp: linked_def)
  let ?b = "bucketPos (at s from)"
  have tr: "time_ring s ps" and hd: "fhead s = last ps" and v: "\<forall>x \<in> set ps. valid s x" and ne: "ps \<noteq> []"
    using t "from" by (auto simp: time_inv_def)
  have in_b: "from \<in> set (B ?b)" using bucket_inv_set [OF B, of ?b] "from" by auto
  have sub: "set (B b) \<subseteq> set ps" for b using bucket_inv_set [OF B, of b] by auto
  note br = bucket_inv_ring [OF B]
  have vv: "valid s from" "valid s (fprev (at s from))" "valid s (fnext (at s from))" "valid s (prevBucket (at s from))"
    "valid s (nextBucket (at s from))" "bvalid s ?b"
    using v "from" ring_closed [OF tr "from"] ring_closed [OF br in_b] sub bucket_inv_bvalid [OF B "from"] by auto
  have nf: "to \<noteq> from" using to "from" by auto
  obtain s' where s': "free_move to from s = Some s'" and env: "env_same s s'" and len: "flen s' = flen s"
    and hd': "fhead s' = (if from = fhead s then to else fhead s)"
    and bk': "bk s' = (if bk s ?b = from then (bk s)(?b := to) else bk s)"
    and en: "\<And>x. x \<noteq> to \<Longrightarrow> ent (at s' (?f x)) = ent (at s x)"
    and bp: "\<And>x. x \<noteq> to \<Longrightarrow> bucketPos (at s' (?f x)) = bucketPos (at s x)"
    and nx: "\<And>x. x \<noteq> to \<Longrightarrow> fnext (at s' (?f x)) = (if x = fprev (at s from) then to else fnext (at s x))"
    and pv: "\<And>x. x \<noteq> to \<Longrightarrow> fprev (at s' (?f x)) = (if x = fnext (at s from) then to else fprev (at s x))"
    and nb: "\<And>x. x \<noteq> to \<Longrightarrow> nextBucket (at s' (?f x)) = (if x = prevBucket (at s from) then to else nextBucket (at s x))"
    and pb: "\<And>x. x \<noteq> to \<Longrightarrow> prevBucket (at s' (?f x)) = (if x = nextBucket (at s from) then to else prevBucket (at s x))"
    by (rule free_move_run [of s "from" to]) (use vv to(2) nf in auto)
  have x_to: "x \<in> set ps \<Longrightarrow> x \<noteq> to" for x using to by auto
  have cfg: "config s' = config s" using env by (simp add: env_same_def)
  have fkeys: "fkey (at s' (?f x)) = fkey (at s x)" if "x \<in> set ps" for x using en [OF x_to [OF that]] by (simp add: ent_def del: fun_upd_apply)
  have "time_ring s' (map ?f ps)" by (rule ring_move [OF tr "from" to(1)]) (erule nx [OF x_to], erule pv [OF x_to])
  moreover have "fhead s' = last (map ?f ps)" using hd hd' ne by (auto simp: last_map)
  moreover have vm: "\<forall>x \<in> set (map ?f ps). valid s' x" using v to(2) env_valid(1) [OF env] by auto
  ultimately have ti: "time_inv (map ?f ps) s'" by (simp add: time_inv_def)
  have "keys_inv (map ?f ps) s'"
  proof -
    have "map (\<lambda>p. fkey (at s' p)) (map ?f ps) = map (\<lambda>p. fkey (at s p)) ps" using fkeys by (simp del: fun_upd_apply)
    then have "distinct (map (\<lambda>p. fkey (at s' p)) (map ?f ps))" using k by (simp only: keys_inv_def)
    moreover have "bucketPos (at s' (?f p)) = slot s' (fkey (at s' (?f p)))" if "p \<in> set ps" for p
      using k that bp [OF x_to [OF that]] fkeys [OF that] config_fields(11) [OF cfg] by (simp add: keys_inv_def del: fun_upd_apply)
    ultimately show ?thesis by (simp add: keys_inv_def del: fun_upd_apply)
  qed
  moreover have "bucket_inv (set (map ?f ps)) (\<lambda>b. map ?f (B b)) s'"
    unfolding bucket_inv_def
  proof (intro conjI allI ballI impI)
    fix b
    have other: "b \<noteq> ?b \<Longrightarrow> map ?f (B b) = B b" using bucket_inv_set [OF B, of b] by (auto intro: map_idI)
    have sb: "\<And>x. x \<in> set (B b) \<Longrightarrow> x \<noteq> to" using sub x_to by blast
    show "bucket_ring s' (map ?f (B b))"
    proof (cases "b = ?b")
      case True
      show ?thesis unfolding True
      proof (rule ring_move [OF br in_b])
        show "to \<notin> set (B ?b)" using sub to(1) by blast
      qed (use nb pb sub x_to in blast)+
    next
      case False
      have "bucket_ring s' (B b) = bucket_ring s (B b)"
      proof (rule ring_cong)
        fix x assume x: "x \<in> set (B b)"
        then have nb_x: "x \<noteq> from" "x \<noteq> prevBucket (at s from)" "x \<noteq> nextBucket (at s from)"
          using False bucket_inv_set [OF B] ring_closed [OF br in_b] by auto
        then show "nextBucket (at s' x) = nextBucket (at s x) \<and> prevBucket (at s' x) = prevBucket (at s x)"
          using nb [OF sb [OF x]] pb [OF sb [OF x]] by simp
      qed
      then show ?thesis using br other [OF False] by simp
    qed
    have inj: "?f x = ?f y \<longleftrightarrow> x = y" if "x \<in> set ps" "y \<in> set ps" for x y using that to(1) by auto
    show "set (map ?f (B b)) = {p \<in> set (map ?f ps). bucketPos (at s' p) = b}"
      using bucket_inv_set [OF B, of b] bp x_to by (auto simp del: fun_upd_apply)
    assume "bvalid s' b"
    then have bv: "bvalid s b" using env_valid(2) [OF env] by simp
    show "bk s' b = bucket_first (map ?f (B b))"
    proof (cases "B b")
      case Nil
      then have "b \<noteq> ?b" using in_b by auto
      then show ?thesis using Nil bk' bucket_inv_first [OF B bv] by simp
    next
      case (Cons q qs)
      have "b = ?b" if "q = from" using Cons that bucket_inv_set [OF B, of b] by auto
      moreover have "bk s b = q" using Cons bucket_inv_first [OF B bv] by simp
      ultimately show ?thesis using Cons bk' by auto
    qed
  next
    fix p assume p: "p \<in> set (map ?f ps)"
    then show "valid s' p" using vm by blast
    from p obtain x where "x \<in> set ps" "p = ?f x" by auto
    then show "bvalid s' (bucketPos (at s' p))"
      using bp [OF x_to] bucket_inv_bvalid [OF B] env_valid(2) [OF env] by (simp del: fun_upd_apply)
  qed
  ultimately have "linked (map ?f ps) s'"
    unfolding linked_def using ti sizes_env [OF sz env] hd' to(2) sz by (auto simp: sizes_ok_def)
  then show ?thesis by (rule that [OF s' _ len env]) (use en x_to in blast)
qed

section \<open>Removing an element\<close>

lemma sizes_len: "sizes_ok s \<Longrightarrow> flen s \<le> fcap s \<Longrightarrow> p < flen s \<Longrightarrow> valid s p"
  by (simp add: sizes_ok_def valid_def word_less_nat_alt word_le_nat_alt)

lemma compact_flen:
  assumes "compact ps s" "distinct ps" "p \<in> set ps"
  shows "0 < flen s" "flen s - 1 < flen s" "\<And>x. x < flen s - 1 \<longleftrightarrow> x < flen s \<and> x \<noteq> flen s - 1"
proof -
  have "p \<in> {p. p < flen s}" using assms(1,3) by (simp add: compact_def)
  then have "p < flen s" by simp
  then show pos: "0 < flen s" by (rule le_less_trans [OF word_zero_le])
  then have "1 \<le> flen s" using inc_le [of 0 "flen s"] by simp
  then have e: "unat (flen s - 1) = unat (flen s) - 1" using unat_sub [of 1 "flen s"] by simp
  have p: "0 < unat (flen s)" using pos by (simp add: word_less_nat_alt)
  show "flen s - 1 < flen s" using e p by (simp add: word_less_nat_alt)
  fix x
  have "x = flen s - 1 \<longleftrightarrow> unat x = unat (flen s) - 1" using e word_unat_eq_iff [of x "flen s - 1"] by simp
  then show "x < flen s - 1 \<longleftrightarrow> x < flen s \<and> x \<noteq> flen s - 1" using e p unfolding word_less_nat_alt by linarith
qed

lemma gap_image: "p \<in> S \<Longrightarrow> q \<in> S \<Longrightarrow> (id(q := p)) ` (S - {p}) = S - {q}"
  by (cases "q = p") (auto simp: image_iff)

lemma linked_put_free:
  assumes "linked ps s" "q \<notin> set ps" "valid s q"
  shows "linked ps (put q e s)"
proof -
  obtain B where "bucket_inv (set ps) B s" using assms(1) by (auto simp: linked_def)
  then have "bucket_inv (set ps) B (put q e s)" by (rule bucket_inv_cong) (use assms in auto)
  moreover have "time_inv ps (put q e s)"
    by (rule time_inv_cong [of _ s]) (use assms in \<open>auto simp: linked_def fun_eq_iff\<close>)
  moreover have "keys_inv ps (put q e s)"
    by (rule keys_inv_cong [of _ s]) (use assms in \<open>auto simp: linked_def\<close>)
  moreover have "sizes_ok (put q e s)" using assms by (simp add: linked_def sizes_ok_def put_def valid_def)
  ultimately show ?thesis by (auto simp: linked_def)
qed

lemma linked_metric: "linked ps (s\<lparr>fmetric := m\<rparr>) = linked ps s"
  by (simp add: linked_def sizes_ok_def time_inv_def keys_inv_def bucket_inv_def slot_def hashToBucketPos_def)

lemma removeAt_linked:
  assumes l: "linked (as @ p # bs) s" and c: "compact (as @ p # bs) s"
  obtains s' ps where "removeAt p s = Some s'" "linked ps s'" "compact ps s'" "config s' = config s" "fticks s' = fticks s"
    "fevicted s' = fevicted s @ (if fonEvict s then [(fkey (at s p), fvalue (at s p))] else [])"
    "map (\<lambda>x. ent (at s' x)) ps = map (\<lambda>x. ent (at s x)) (as @ bs)"
proof -
  obtain s1 where s1: "evict p s = Some s1" "linked (as @ bs) s1" "flen s1 = flen s - 1" "config s1 = config s" "fticks s1 = fticks s"
    "fevicted s1 = fevicted s @ (if fonEvict s then [(fkey (at s p), fvalue (at s p))] else [])"
    "\<And>x. ent (at s1 x) = ent (at s x)" "valid s1 = valid s" "bvalid s1 = bvalid s"
    using evict_linked [OF l] by metis
  note d = linked_distinct [OF l]
  have sz: "sizes_ok s" using l by (simp add: linked_def)
  note fl = compact_flen [OF c d, of p, simplified]
  have pset: "set (as @ bs) = {x. x < flen s} - {p}" using c d by (auto simp: compact_def)
  let ?q = "flen s - 1"
  have "p \<in> {x. x < flen s}" and le: "flen s \<le> fcap s" using c unfolding compact_def by (metis in_set_conv_decomp, simp)
  then have pl: "p < flen s" by simp
  have vq: "valid s ?q" "valid s p" using sizes_len [OF sz le] fl(2) pl by blast+
  have cap: "flen s - 1 \<le> fcap s" using fl(2) le by (rule order.trans [OF less_imp_le])
  let ?ps = "map (id(?q := p)) (as @ bs)"
  have setps: "set ?ps = {x. x < flen s - 1}"
  proof -
    have "{x. x < ?q} = {x. x < flen s} - {?q}" using fl(3) by blast
    then show ?thesis unfolding set_map pset using gap_image [of p "{x. x < flen s}" ?q] pl fl(2) by simp
  qed
  obtain s2 where s2: "free_move p ?q s1 = Some s2" "linked ?ps s2" "flen s2 = flen s1" "env_same s1 s2"
    "\<And>x. x \<in> set (as @ bs) \<Longrightarrow> ent (at s2 ((id(?q := p)) x)) = ent (at s1 x)"
  proof (cases "?q = p")
    case True
    then have "?ps = as @ bs" by (simp add: fun_upd_idem id_def)
    with that [of s1] s1(2) True show ?thesis by (simp add: free_move_def fun_upd_idem id_def)
  next
    case False
    then have "?q \<in> set (as @ bs)" "p \<notin> set (as @ bs)" using pset fl by auto
    with that free_move_linked [OF s1(2), of ?q p] vq s1(8) show ?thesis by metis
  qed
  let ?m = "s2\<lparr>fmetric := (fmetric s2)\<lparr>Removals := Removals (fmetric s2) + 1\<rparr>\<rparr>"
  let ?s3 = "put ?q ((at s2 ?q)\<lparr>fkey := emptyKey s2, fvalue := emptyValue s2\<rparr>) ?m"
  have v2: "valid ?m ?q" using vq(1) s1(8) env_valid(1) [OF s2(4)] by simp
  have q: "?q \<notin> set ?ps" unfolding setps by simp
  have run: "removeAt p s = Some ?s3"
    unfolding removeAt_def using s1(1,3) s2(1,3) v2 by (simp add: clearKeyAndValue_def upd_put Let_def)
  have lk: "linked ?ps ?s3" using linked_put_free [OF _ q v2] s2(2) linked_metric by blast
  have cf: "config ?s3 = config s" using s2(4) s1(4) by (simp add: env_same_def)
  have cp: "compact ?ps ?s3" unfolding compact_def setps using s2(3) s1(3) cap config_fields(4) [OF cf] by simp
  have "ent (at ?s3 ((id(?q := p)) x)) = ent (at s x)" if "x \<in> set (as @ bs)" for x
  proof -
    have "(id(?q := p)) x \<in> set ?ps" using that by auto
    then have "(id(?q := p)) x \<noteq> ?q" using q by metis
    then show ?thesis using s2(5) [OF that] s1(7) v2 by (simp del: fun_upd_apply add: fun_upd_other)
  qed
  then have ents: "map (\<lambda>x. ent (at ?s3 x)) ?ps = map (\<lambda>x. ent (at s x)) (as @ bs)" unfolding map_map o_def by (simp only: map_eq_conv) blast
  show ?thesis by (rule that [OF run lk cp cf _ _ ents]) (use s2(4) s1(5,6) in \<open>simp_all add: env_same_def put_def\<close>)
qed

end
