(* ===== verification/FreeLruSpec.thy ===== *)
theory FreeLruSpec
  imports FreeLruMoves
begin

text \<open>
  What the cache promises: a list of entries from the least to the most recently used, one per
  key, at most \<open>cap\<close> of them. \<open>models\<close> relates a state of the cache to such a list, and the
  steps that all operations are made of follow it.
\<close>

section \<open>Specification\<close>

record ('k, 'v) cache_spec =
  sp_entries :: "('k, 'v) entry list"
  sp_ticks :: nat
  sp_evicted :: "('k \<times> 'v) list"
  sp_cap :: nat
  sp_clock :: "nat \<Rightarrow> 64 word"
  sp_notify :: bool
  sp_health :: "('k \<Rightarrow> 'v \<Rightarrow> bool) option"
  sp_lifetime :: duration

definition sp_expiry :: "duration \<Rightarrow> ('k, 'v) cache_spec \<Rightarrow> 64 word" where
  "sp_expiry d a = (if d = 0 then 0 else sp_clock a (sp_ticks a) + Milliseconds d)"

definition sp_tick :: "duration \<Rightarrow> ('k, 'v) cache_spec \<Rightarrow> ('k, 'v) cache_spec" where
  "sp_tick d a = (if d = 0 then a else a\<lparr>sp_ticks := sp_ticks a + 1\<rparr>)"

definition sp_lookup :: "'k \<Rightarrow> ('k, 'v) cache_spec \<Rightarrow> ('k, 'v) entry option" where
  "sp_lookup k a = find (\<lambda>e. fst e = k) (sp_entries a)"

definition sp_push :: "('k, 'v) entry \<Rightarrow> ('k, 'v) cache_spec \<Rightarrow> ('k, 'v) cache_spec" where
  "sp_push e a = a\<lparr>sp_entries := filter (\<lambda>x. fst x \<noteq> fst e) (sp_entries a) @ [e]\<rparr>"

definition sp_set :: "('k, 'v) entry \<Rightarrow> ('k, 'v) cache_spec \<Rightarrow> ('k, 'v) cache_spec" where
  "sp_set e a = a\<lparr>sp_entries := map (\<lambda>x. if fst x = fst e then e else x) (sp_entries a)\<rparr>"

definition sp_drop :: "('k, 'v) entry \<Rightarrow> ('k, 'v) cache_spec \<Rightarrow> ('k, 'v) cache_spec" where
  "sp_drop e a = a\<lparr>sp_entries := filter (\<lambda>x. fst x \<noteq> fst e) (sp_entries a),
     sp_evicted := sp_evicted a @ (if sp_notify a then [(fst e, fst (snd e))] else [])\<rparr>"

section \<open>The relation\<close>

definition abs_spec :: "uint32 list \<Rightarrow> ('k, 'v) free_lru \<Rightarrow> ('k, 'v) cache_spec" where
  "abs_spec ps s = \<lparr>sp_entries = map (\<lambda>p. ent (at s p)) ps, sp_ticks = fticks s, sp_evicted = fevicted s,
     sp_cap = unat (fcap s), sp_clock = fclock s, sp_notify = fonEvict s, sp_health = healthCheck s,
     sp_lifetime = default_lifetime s\<rparr>"

definition models :: "uint32 list \<Rightarrow> ('k, 'v) free_lru \<Rightarrow> ('k, 'v) cache_spec \<Rightarrow> bool" where
  "models ps s a \<longleftrightarrow> linked ps s \<and> compact ps s \<and> a = abs_spec ps s"

lemma abs_spec_eq:
  "config s' = config s \<Longrightarrow> abs_spec ps' s' = (abs_spec ps s)\<lparr>sp_entries := map (\<lambda>p. ent (at s' p)) ps', sp_ticks := fticks s', sp_evicted := fevicted s'\<rparr>"
  using config_fields [of s' s] by (simp add: abs_spec_def)

lemma abs_spec_fields [simp]:
  "sp_entries (abs_spec ps s) = map (\<lambda>p. ent (at s p)) ps" "sp_ticks (abs_spec ps s) = fticks s" "sp_evicted (abs_spec ps s) = fevicted s"
  "sp_cap (abs_spec ps s) = unat (fcap s)" "sp_clock (abs_spec ps s) = fclock s" "sp_notify (abs_spec ps s) = fonEvict s"
  "sp_health (abs_spec ps s) = healthCheck s" "sp_lifetime (abs_spec ps s) = default_lifetime s"
  by (simp_all add: abs_spec_def)

lemma fst_ent [simp]: "fst (ent e) = fkey e"
  by (simp add: ent_def)

lemma models_distinct: "models ps s a \<Longrightarrow> distinct (map (\<lambda>p. fkey (at s p)) ps)"
  by (simp add: models_def linked_def keys_inv_def)

lemma models_entries: "models ps s a \<Longrightarrow> sp_entries a = map (\<lambda>p. ent (at s p)) ps"
  by (simp add: models_def)

lemma models_valid: "models ps s a \<Longrightarrow> p \<in> set ps \<Longrightarrow> valid s p"
  by (simp add: models_def linked_def time_inv_def)

lemma linked_same:
  assumes "linked ps s" "elements s' = elements s" "buckets s' = buckets s" "fhead s' = fhead s"
    "fhash s' = fhash s" "fmask s' = fmask s" "fsize s' = fsize s" "fcap s' = fcap s"
  shows "linked ps s'"
proof -
  have "at s' = at s" "bk s' = bk s" "valid s' = valid s" "bvalid s' = bvalid s" "slot s' = slot s"
    using assms by (simp_all add: at_def bk_def valid_def bvalid_def fun_eq_iff slot_def hashToBucketPos_def)
  note same = this assms(2-8)
  have "sizes_ok s' = sizes_ok s" "time_inv ps s' = time_inv ps s" "keys_inv ps s' = keys_inv ps s"
    "\<And>B. bucket_inv (set ps) B s' = bucket_inv (set ps) B s"
    by (simp_all only: sizes_ok_def time_inv_def keys_inv_def bucket_inv_def same)
  then show ?thesis using assms(1) by (simp only: linked_def)
qed

lemma models_same:
  assumes "models ps s a" "elements s' = elements s" "buckets s' = buckets s" "fhead s' = fhead s" "flen s' = flen s"
    "config s' = config s" "fevicted s' = fevicted s"
  shows "models ps s' (a\<lparr>sp_ticks := fticks s'\<rparr>)"
proof -
  have "at s' = at s" using assms(2) by (simp add: at_def fun_eq_iff)
  then show ?thesis using assms linked_same [of ps s s'] config_fields [OF assms(6)]
    by (simp add: models_def compact_def abs_spec_def)
qed

lemma models_ticks: "models ps s a \<Longrightarrow> a\<lparr>sp_ticks := fticks s\<rparr> = a"
  by (simp add: models_def abs_spec_def)

lemma models_metric [simp]: "models ps (s\<lparr>fmetric := m\<rparr>) a = models ps s a"
proof
  assume a: "models ps s a"
  have "models ps (s\<lparr>fmetric := m\<rparr>) (a\<lparr>sp_ticks := fticks (s\<lparr>fmetric := m\<rparr>)\<rparr>)" by (rule models_same [OF a]) simp_all
  then show "models ps (s\<lparr>fmetric := m\<rparr>) a" using models_ticks [OF a] by simp
next
  assume a: "models ps (s\<lparr>fmetric := m\<rparr>) a"
  have "models ps s (a\<lparr>sp_ticks := fticks s\<rparr>)" by (rule models_same [OF a]) simp_all
  then show "models ps s a" using models_ticks [OF a] by simp
qed

lemma expire_at_models:
  assumes "models ps s a"
  obtains s' where "expire_at d s = (sp_expiry d a, s')" "models ps s' (sp_tick d a)" "at s' = at s" "valid s' = valid s"
    "bvalid s' = bvalid s" "bk s' = bk s" "fhead s' = fhead s" "flen s' = flen s"
proof (cases "d = 0")
  case True
  with that [of s] assms show ?thesis by (simp add: expire_at_def sp_expiry_def sp_tick_def)
next
  case False
  let ?s = "s\<lparr>fticks := fticks s + 1\<rparr>"
  have "models ps ?s (a\<lparr>sp_ticks := fticks ?s\<rparr>)" by (rule models_same [OF assms]) simp_all
  with that [of ?s] False assms show ?thesis by (simp add: expire_at_def sp_expiry_def sp_tick_def Now_ms_def models_def)
qed

section \<open>Splitting at a key\<close>

lemma filter_other_key:
  assumes "distinct (map g (as @ p # bs))"
  shows "filter (\<lambda>x. g x \<noteq> g p) (as @ p # bs) = as @ bs"
proof -
  have "g p \<notin> g ` set as" "g p \<notin> g ` set bs" using assms by auto
  then have "\<forall>x \<in> set as. g x \<noteq> g p" "\<forall>x \<in> set bs. g x \<noteq> g p" by (metis image_eqI)+
  then show ?thesis by (simp add: filter_id_conv)
qed

lemma filter_entries:
  assumes "distinct (map (\<lambda>p. fkey (at s p)) (as @ p # bs))"
  shows "filter (\<lambda>x. fst x \<noteq> fkey (at s p)) (map (\<lambda>p. ent (at s p)) (as @ p # bs)) = map (\<lambda>p. ent (at s p)) (as @ bs)"
  unfolding filter_map o_def fst_ent using filter_other_key [OF assms] by (simp only:)

lemma removeAt_models:
  assumes m: "models ps s a" and p: "p \<in> set ps"
  obtains s' ps' where "removeAt p s = Some s'" "models ps' s' (sp_drop (ent (at s p)) a)"
proof -
  obtain as bs where eq: "ps = as @ p # bs" using p by (auto dest: split_list)
  obtain s' ps' where s': "removeAt p s = Some s'" "linked ps' s'" "compact ps' s'" "config s' = config s" "fticks s' = fticks s"
    "fevicted s' = fevicted s @ (if fonEvict s then [(fkey (at s p), fvalue (at s p))] else [])"
    "map (\<lambda>x. ent (at s' x)) ps' = map (\<lambda>x. ent (at s x)) (as @ bs)"
    using removeAt_linked [of as p bs s] m by (auto simp: models_def eq)
  have "models ps' s' (sp_drop (ent (at s p)) a)"
    using s' m filter_entries [OF models_distinct [OF m, unfolded eq]]
    by (simp add: models_def abs_spec_eq [OF s'(4), of ps' ps] sp_drop_def eq) (simp add: ent_def abs_spec_def)
  with that s'(1) show ?thesis by blast
qed

lemma linked_time_frame:
  assumes l: "linked ps s" and f: "time_frame s s'" and t: "time_inv ps' s'" "set ps' = set ps" "valid s (fhead s')"
  shows "linked ps' s'"
proof -
  note at = time_frame_at [OF f]
  obtain B where B: "bucket_inv (set ps) B s" using l by (auto simp: linked_def)
  have cfg: "config s' = config s" using at(9) by (simp add: env_same_def)
  have "bucket_inv (set ps) B s'" by (rule bucket_inv_cong [OF B at(9,8)]) (simp add: at)
  moreover have "sizes_ok s'" using sizes_env [OF _ at(9) t(3)] l by (simp add: linked_def)
  moreover have "keys_inv ps s'" by (rule keys_inv_cong [OF _ cfg]) (use l at in \<open>simp_all add: linked_def\<close>)
  moreover have "distinct ps'" "distinct ps" using t(1) l by (auto simp: time_inv_def linked_def dest: ring_distinct)
  ultimately show ?thesis using t unfolding linked_def keys_inv_def distinct_map by auto
qed

lemma touch_models:
  assumes m: "models ps s a" and p: "p \<in> set ps"
  obtains s' ps' where "touch p s = Some s'" "models ps' s' (sp_push (ent (at s p)) a)" "\<forall>x. ent (at s' x) = ent (at s x)" "p \<in> set ps'"
proof -
  obtain as bs where eq: "ps = as @ p # bs" using p by (auto dest: split_list)
  have l: "linked ps s" and t: "time_inv ps s" and c: "compact ps s" using m by (simp_all add: models_def linked_def)
  obtain s' where s': "touch p s = Some s'" "time_frame s s'" "fhead s' = p" "flen s' = flen s" "time_ring s' (as @ bs @ [p])"
    by (rule touch_ring [of s as p bs]) (use t in \<open>simp_all add: time_inv_def eq\<close>)
  note at = time_frame_at [OF s'(2)]
  have cfg: "config s' = config s" "fticks s' = fticks s" "fevicted s' = fevicted s" using at(9) by (simp_all add: env_same_def)
  have ents: "ent (at s' x) = ent (at s x)" for x by (simp add: ent_def at)
  let ?ps = "as @ bs @ [p]"
  have vp: "valid s p" using models_valid [OF m p] .
  have "time_inv ?ps s'" using s'(3,5) t env_valid(1) [OF at(9)] by (auto simp: time_inv_def eq)
  then have "linked ?ps s'" by (rule linked_time_frame [OF l s'(2)]) (use vp s'(3) in \<open>auto simp: eq\<close>)
  moreover have "compact ?ps s'" using c s'(4) config_fields(4) [OF cfg(1)] by (auto simp: compact_def eq)
  moreover have "sp_push (ent (at s p)) a = abs_spec ?ps s'"
    using m filter_entries [OF models_distinct [OF m, unfolded eq]] cfg
    by (simp add: models_def abs_spec_eq [OF cfg(1), of ?ps ps] sp_push_def eq ents)
  ultimately show ?thesis using that [OF s'(1), of ?ps] ents by (simp add: models_def)
qed

text \<open>Overwriting the value, the expiry or the lifetime of an entry.\<close>

lemma put_models:
  assumes m: "models ps s a" and p: "p \<in> set ps"
    and same: "fkey e = fkey (at s p)" "nextBucket e = nextBucket (at s p)" "prevBucket e = prevBucket (at s p)"
      "bucketPos e = bucketPos (at s p)" "fnext e = fnext (at s p)" "fprev e = fprev (at s p)"
  shows "models ps (put p e s) (sp_set (ent e) a)"
proof -
  have v: "valid s p" using models_valid [OF m p] .
  let ?s = "put p e s"
  obtain B where B: "bucket_inv (set ps) B s" using m by (auto simp: models_def linked_def)
  have "bucket_inv (set ps) B ?s" by (rule bucket_inv_cong [OF B]) (use v same in auto)
  moreover have "time_inv ps ?s"
    by (rule time_inv_cong [of _ s]) (use m v same in \<open>auto simp: models_def linked_def fun_eq_iff\<close>)
  moreover have "keys_inv ps ?s" by (rule keys_inv_cong [of _ s]) (use m v same in \<open>auto simp: models_def linked_def\<close>)
  moreover have "sizes_ok ?s" using m by (auto simp: models_def linked_def sizes_ok_def put_def valid_def)
  ultimately have "linked ps ?s" by (auto simp: linked_def)
  moreover have "compact ps ?s" using m by (simp add: models_def compact_def put_def)
  moreover have "map (\<lambda>x. ent (at ?s x)) ps = map (\<lambda>x. if fst x = fkey (at s p) then ent e else x) (map (\<lambda>x. ent (at s x)) ps)"
    using models_distinct [OF m] p v by (auto simp: distinct_map inj_on_def)
  then have "sp_set (ent e) a = abs_spec ps ?s"
    using m same(1) by (simp add: models_def sp_set_def abs_spec_def put_def) 
  ultimately show ?thesis by (simp add: models_def)
qed

lemma sp_push_set: "fst e' = fst e \<Longrightarrow> sp_push e' (sp_set e a) = sp_push e' a"
proof -
  assume "fst e' = fst e"
  then have "filter (\<lambda>x. fst x \<noteq> fst e') (map (\<lambda>x. if fst x = fst e then e else x) l) = filter (\<lambda>x. fst x \<noteq> fst e') l" for l
    by (induction l) auto
  then show ?thesis by (simp add: sp_push_def sp_set_def)
qed

lemma sp_set_push: "fst e' = fst e \<Longrightarrow> sp_set e' (sp_push e a) = sp_push e' a"
proof -
  assume "fst e' = fst e"
  then have "map (\<lambda>x. if fst x = fst e' then e' else x) (filter (\<lambda>x. fst x \<noteq> fst e) l @ [e]) = filter (\<lambda>x. fst x \<noteq> fst e') l @ [e']" for l
    by (induction l) auto
  then show ?thesis by (simp add: sp_push_def sp_set_def)
qed

lemma sp_tick_commute: "sp_tick d (sp_push e a) = sp_push e (sp_tick d a)" "sp_tick d (sp_set e a) = sp_set e (sp_tick d a)"
  "sp_expiry d (sp_push e a) = sp_expiry d a" "sp_expiry d (sp_set e a) = sp_expiry d a"
  by (simp_all add: sp_tick_def sp_push_def sp_set_def sp_expiry_def)

end
