(* ===== verification/FreeLruInsert.thy ===== *)
theory FreeLruInsert
  imports FreeLruSpec
begin

text \<open>
  Finding the element of a key in its bucket, and adding a new one.
\<close>

section \<open>Finding a key\<close>

lemma ring_next: "ring nx pv (as @ p # q # bs) \<Longrightarrow> nx p = q"
proof -
  assume "ring nx pv (as @ p # q # bs)"
  then have "ring nx pv (p # q # bs @ as)" using ring_rotate [of nx pv as "p # q # bs"] by simp
  then show ?thesis by (rule ring_neighbours(1))
qed

lemma walk_suffix:
  "bucket_ring s (pre @ pos # suf) \<Longrightarrow> \<forall>x \<in> set (pos # suf). valid s x \<Longrightarrow> start = hd (pre @ pos # suf) \<Longrightarrow>
   walk k start pos s = Some (find (\<lambda>p. fkey (at s p) = k) (pos # suf))"
proof (induction suf arbitrary: pre pos)
  case Nil
  have "nextBucket (at s pos) = start" using ring_ends(1) [OF Nil(1)] Nil(3) by simp
  then show ?case using Nil(2) by (subst walk.simps) (simp add: elem_at eq_commute)
next
  case (Cons q suf)
  have n: "nextBucket (at s pos) = q" by (rule ring_next [OF Cons.prems(1)])
  have "q \<noteq> start" using ring_distinct [OF Cons.prems(1)] Cons.prems(3) by (cases pre) auto
  moreover have "walk k start q s = Some (find (\<lambda>p. fkey (at s p) = k) (q # suf))"
    by (rule Cons.IH [of "pre @ [pos]"]) (use Cons.prems in \<open>auto simp: hd_append\<close>)
  ultimately show ?case using n Cons.prems(2) by (subst walk.simps) (simp add: elem_at eq_commute)
qed

lemma find_same:
  assumes "\<And>x. P x \<Longrightarrow> x \<in> set xs \<longleftrightarrow> x \<in> set ys" "\<And>x y. x \<in> set ys \<Longrightarrow> P x \<Longrightarrow> y \<in> set ys \<Longrightarrow> P y \<Longrightarrow> x = y"
  shows "find P xs = find P ys"
proof (cases "find P xs")
  case None
  then have "find P ys = None" using assms(1) by (auto simp: find_None_iff)
  with None show ?thesis by simp
next
  case (Some x)
  then have x: "x \<in> set xs" "P x" by (auto simp: find_Some_iff)
  then have "find P ys \<noteq> None" using assms(1) by (auto simp: find_None_iff)
  then obtain y where y: "find P ys = Some y" by auto
  then have "y \<in> set ys" "P y" by (auto simp: find_Some_iff)
  then show ?thesis using assms x y Some by auto
qed

definition pos_of :: "'k \<Rightarrow> uint32 list \<Rightarrow> ('k, 'v) free_lru \<Rightarrow> uint32 option" where
  "pos_of k ps s = find (\<lambda>p. fkey (at s p) = k) ps"

lemma pos_of_Some: "pos_of k ps s = Some p \<Longrightarrow> p \<in> set ps \<and> fkey (at s p) = k"
  by (auto simp: pos_of_def find_Some_iff)

lemma sp_lookup_pos: "models ps s a \<Longrightarrow> sp_lookup k a = map_option (\<lambda>p. ent (at s p)) (pos_of k ps s)"
proof -
  assume "models ps s a"
  then have "sp_lookup k a = find (\<lambda>e. fst e = k) (map (\<lambda>p. ent (at s p)) ps)" by (simp add: sp_lookup_def models_def)
  also have "\<dots> = map_option (\<lambda>p. ent (at s p)) (pos_of k ps s)" unfolding pos_of_def by (induction ps) auto
  finally show ?thesis .
qed

lemma bucket_of_key:
  assumes l: "linked ps s" and B: "bucket_inv (set ps) B s"
  shows "find (\<lambda>p. fkey (at s p) = k) (B (slot s k)) = pos_of k ps s"
  unfolding pos_of_def
proof (rule find_same)
  fix x assume "fkey (at s x) = k"
  then show "x \<in> set (B (slot s k)) \<longleftrightarrow> x \<in> set ps"
    using bucket_inv_set [OF B, of "slot s k"] l by (auto simp: linked_def keys_inv_def)
qed (use l in \<open>auto simp: linked_def keys_inv_def distinct_map inj_on_def\<close>)

lemma hashToPos_slot: "sizes_ok s \<Longrightarrow> hashToPos (fhash s k) s = Some (slot s k, bk s (slot s k))"
  using slot_bvalid [of s k] by (simp add: hashToPos_def slot_def get_bucket Let_def)

lemma first_empty: "sizes_ok s \<Longrightarrow> bucket_inv P B s \<Longrightarrow> bvalid s b \<Longrightarrow> bk s b = emptyBucket \<longleftrightarrow> B b = []"
proof -
  assume a: "sizes_ok s" "bucket_inv P B s" "bvalid s b"
  have "hd (B b) \<noteq> emptyBucket" if "B b \<noteq> []"
    using valid_not_empty [OF a(1) bucket_inv_valid [OF a(2)]] hd_in_set [OF that] bucket_inv_set [OF a(2), of b] by auto
  then show ?thesis using bucket_inv_first [OF a(2,3)] by (auto simp: bucket_first_def)
qed

text \<open>The search of all operations, in terms of the positions in use.\<close>

lemma search_models:
  assumes m: "models ps s a"
  shows "hashToPos (fhash s k) s = Some (slot s k, bk s (slot s k))"
    and "bk s (slot s k) = emptyBucket \<Longrightarrow> pos_of k ps s = None"
    and "bk s (slot s k) \<noteq> emptyBucket \<Longrightarrow> walk k (bk s (slot s k)) (bk s (slot s k)) s = Some (pos_of k ps s)"
proof -
  have l: "linked ps s" and sz: "sizes_ok s" using m by (simp_all add: models_def linked_def)
  obtain B where B: "bucket_inv (set ps) B s" using l by (auto simp: linked_def)
  let ?b = "slot s k"
  have bv: "bvalid s ?b" by (rule slot_bvalid [OF sz])
  show "hashToPos (fhash s k) s = Some (?b, bk s ?b)" by (rule hashToPos_slot [OF sz])
  show "pos_of k ps s = None" if "bk s ?b = emptyBucket"
    using bucket_of_key [OF l B, of k] first_empty [OF sz B bv] that by simp
  show "walk k (bk s ?b) (bk s ?b) s = Some (pos_of k ps s)" if ne: "bk s ?b \<noteq> emptyBucket"
  proof -
    obtain q qs where q: "B ?b = q # qs" using ne first_empty [OF sz B bv] by (cases "B ?b") auto
    then have "bk s ?b = q" using bucket_inv_first [OF B bv] by simp
    moreover have "walk k q q s = Some (find (\<lambda>p. fkey (at s p) = k) (q # qs))"
      by (rule walk_suffix [of _ "[]"])
        (use bucket_inv_ring [OF B, of ?b] bucket_inv_valid [OF B] bucket_inv_set [OF B, of ?b] q in auto)
    ultimately show ?thesis using bucket_of_key [OF l B, of k] q by simp
  qed
qed

section \<open>Adding an element\<close>

text \<open>A state with a free position that makes the positions in use a full prefix again.\<close>

definition gap :: "uint32 \<Rightarrow> uint32 list \<Rightarrow> ('k, 'v) free_lru \<Rightarrow> bool" where
  "gap p qs s \<longleftrightarrow> linked qs s \<and> p \<notin> set qs \<and> valid s p \<and> insert p (set qs) = {x. x < flen s + 1} \<and>
     flen s + 1 \<le> fcap s \<and> (flen s = 0 \<longleftrightarrow> qs = [])"

lemma succ_below:
  fixes n m :: uint32
  assumes "n < m"
  shows "n + 1 \<le> m" "x < n + 1 \<longleftrightarrow> x < n \<or> x = n"
proof -
  show "n + 1 \<le> m" using assms by (rule inc_le)
  have "unat n < unat m" "unat m < 2 ^ 32" using assms unsigned_less [of m, where 'a = nat] by (simp_all add: word_less_nat_alt)
  then have "unat n + 1 < 2 ^ 32" by simp
  then have u: "unat (n + 1) = unat n + 1" by (simp add: unat_word_ariths)
  have "x = n \<longleftrightarrow> unat x = unat n" by (rule word_unat_eq_iff)
  then show "x < n + 1 \<longleftrightarrow> x < n \<or> x = n" unfolding word_less_nat_alt u by linarith
qed

lemma claim_pos_gap:
  assumes m: "models ps s a"
  obtains p ev s1 qs where "claim_pos s = Some (p, ev, s1)" "gap p qs s1" "ev \<longleftrightarrow> length (sp_entries a) = sp_cap a"
    "abs_spec qs s1 = (if ev then sp_drop (hd (sp_entries a)) a else a)" "config s1 = config s" "bvalid s1 = bvalid s"
    "\<forall>x \<in> set qs. x \<in> set ps \<and> fkey (at s1 x) = fkey (at s x)" "\<not> ev \<longrightarrow> s1 = s"
    "\<forall>b. ev \<longrightarrow> bvalid s b \<longrightarrow> bk s b \<noteq> emptyBucket \<longrightarrow> bk s1 b = emptyBucket \<longrightarrow> prevBucket (at s1 p) = p"
proof -
  have l: "linked ps s" and c: "compact ps s" and a: "a = abs_spec ps s" and sz: "sizes_ok s" and t: "time_inv ps s"
    using m by (simp_all add: models_def linked_def)
  have len: "length ps = unat (flen s)" by (rule compact_length [OF c linked_distinct [OF l]])
  have full: "length (sp_entries a) = sp_cap a \<longleftrightarrow> flen s = fcap s" using len word_unat_eq_iff [of "flen s" "fcap s"] by (simp add: a)
  have cap: "flen s \<le> fcap s" "fcap s \<le> fsize s" "0 < fcap s" using c sz by (simp_all add: compact_def sizes_ok_def)
  have elems: "set ps = {x. x < flen s}" using c by (simp add: compact_def)
  show ?thesis
  proof (cases "flen s = fcap s")
    case False
    then have lt: "flen s < fcap s" using cap by simp
    then have "valid s (flen s)" using cap sz by (simp add: valid_def sizes_ok_def word_less_nat_alt word_le_nat_alt)
    moreover have "insert (flen s) (set ps) = {x. x < flen s + 1}" unfolding elems using succ_below(2) [OF lt] by blast
    moreover have "flen s = 0 \<longleftrightarrow> ps = []" using len word_unat_eq_iff [of "flen s" 0] by auto
    ultimately have "gap (flen s) ps s" using l succ_below(1) [OF lt] elems unfolding gap_def by blast
    moreover have "claim_pos s = Some (flen s, False, s)" using False by (simp add: claim_pos_def)
    ultimately show ?thesis by (intro that [of "flen s" False s ps]) (use False full a in simp_all)
  next
    case True
    have "0 < unat (flen s)" using True cap(3) by (simp add: word_less_nat_alt)
    then obtain p qs where ps: "ps = p # qs" using len by (cases ps) auto
    have h: "valid s (fhead s)" "fnext (at s (fhead s)) = p"
      using t ring_ends(1) [of _ _ ps] sz by (auto simp: time_inv_def ps sizes_ok_def)
    obtain s1 where s1: "evict p s = Some s1" "linked qs s1" "flen s1 = flen s - 1" "config s1 = config s" "fticks s1 = fticks s"
      "fevicted s1 = fevicted s @ (if fonEvict s then [(fkey (at s p), fvalue (at s p))] else [])"
      "\<And>x. ent (at s1 x) = ent (at s x)" "valid s1 = valid s" "bvalid s1 = bvalid s"
      "\<And>b. bvalid s b \<Longrightarrow> bk s b \<noteq> emptyBucket \<Longrightarrow> bk s1 b = emptyBucket \<Longrightarrow> prevBucket (at s1 p) = p"
      using evict_linked [of "[]" p qs s] l ps by auto
    let ?s1 = "s1\<lparr>fmetric := (fmetric s1)\<lparr>Evictions := Evictions (fmetric s1) + 1\<rparr>\<rparr>"
    have "length qs = unat (flen s) - 1" using len ps by simp
    moreover have "unat (flen s - 1) = unat (flen s) - 1"
    proof -
      have "1 \<le> flen s" using inc_le [of 0 "flen s"] cap(3) True by simp
      then show ?thesis using unat_sub [of 1 "flen s"] by simp
    qed
    ultimately have z: "flen s - 1 = 0 \<longleftrightarrow> qs = []" using word_unat_eq_iff [of "flen s - 1" 0] by (cases qs) simp_all
    have g: "gap p qs ?s1"
      unfolding gap_def linked_metric using s1(2,3,8) models_valid [OF m, of p] linked_distinct [OF l] ps elems True z config_fields(4) [OF s1(4)] by simp
    have keys: "fkey (at s1 x) = fkey (at s x)" for x using s1(7) [of x] by (simp add: ent_def)
    have "abs_spec qs ?s1 = sp_drop (hd (sp_entries a)) a"
    proof -
      have f: "filter (\<lambda>x. fst x \<noteq> fkey (at s p)) (map (\<lambda>p. ent (at s p)) (p # qs)) = map (\<lambda>p. ent (at s p)) qs"
        using filter_entries [of s "[]" p qs] models_distinct [OF m] ps by simp
      have c1: "config ?s1 = config s" using s1(4) by simp
      show ?thesis unfolding abs_spec_eq [OF c1, of qs ps] a
        using f s1(5,6,7) by (simp add: sp_drop_def ps) (simp add: ent_def)
    qed
    moreover have "claim_pos s = Some (p, True, ?s1)" using True h s1(1) by (simp add: claim_pos_def elem_at)
    ultimately show ?thesis
      by (intro that [of p True ?s1 qs]) (use g full True s1(4,9,10) ps keys in auto)
  qed
qed

lemma expire_at_raw:
  "expire_at d s = (if d = 0 then 0 else fclock s (fticks s) + Milliseconds d, s\<lparr>fticks := if d = 0 then fticks s else fticks s + 1\<rparr>)"
  by (simp add: expire_at_def Now_ms_def)

lemma put_env [simp]: "fticks (put p e s) = fticks s" "fclock (put p e s) = fclock s" "fmetric (put p e s) = fmetric s"
  by (simp_all add: put_def)

lemma put_put: "put p e (put p e' s) = put p e s"
  by (simp add: put_def)

lemma put_ticks: "(put p e s)\<lparr>fticks := n\<rparr> = put p e (s\<lparr>fticks := n\<rparr>)"
  by (simp add: put_def)

lemma insert_models:
  assumes g: "gap p qs s" and fr: "bucket_frame s s1" and B: "bucket_inv (insert p (set qs)) B s1"
    and bp: "\<And>x. bucketPos (at s1 x) = (if x = p then slot s k else bucketPos (at s x))"
    and new: "\<And>x. x \<in> set qs \<Longrightarrow> fkey (at s x) \<noteq> k"
  obtains s3 where "free_insert p k v d s1 = Some s3"
    "models (qs @ [p]) s3 (sp_push (k, v, sp_expiry d (abs_spec qs s), d) (sp_tick d (abs_spec qs s)))"
proof -
  note at1 = bucket_frame_at [OF fr]
  have l: "linked qs s" and pq: "p \<notin> set qs" and vp: "valid s p" and pos: "insert p (set qs) = {x. x < flen s + 1}"
    and cap: "flen s + 1 \<le> fcap s" and z: "flen s = 0 \<longleftrightarrow> qs = []" using g by (simp_all add: gap_def)
  have t: "time_inv qs s" and k: "keys_inv qs s" and sz: "sizes_ok s" using l by (simp_all add: linked_def)
  let ?ex = "sp_expiry d (abs_spec qs s)" and ?t = "if d = 0 then fticks s else fticks s + 1"
  let ?s0 = "s1\<lparr>fticks := ?t\<rparr>"
  let ?e = "(at s1 p)\<lparr>fkey := k, fvalue := v, fexpire := ?ex, flifetime := d\<rparr>"
  let ?s2 = "put p ?e ?s0"
  have cfg: "config s1 = config s" "fticks s1 = fticks s" "fevicted s1 = fevicted s" using at1(9) by (simp_all add: env_same_def)
  note v1 = env_valid [OF at1(9)]
  have vp1: "valid s1 p" using vp v1 by simp
  have t2: "time_ring ?s2 qs"
  proof -
    have "time_ring ?s2 qs = time_ring s qs" by (rule ring_cong) (use pq at1 vp1 in auto)
    then show ?thesis using t by (simp add: time_inv_def)
  qed
  obtain s2 where s2: "link_newest p ?s2 = Some s2"
    "time_frame ?s2 s2" "fhead s2 = p" "flen s2 = flen s" "time_ring s2 (qs @ [p])"
  proof (cases "qs = []")
    case True
    let ?s = "(put p ((at ?s2 p)\<lparr>fprev := p, fnext := p\<rparr>) ?s2)\<lparr>fhead := p\<rparr>"
    have "time_frame ?s2 ?s" using vp1 by (auto simp: time_frame_def)
    with that [of ?s] True z vp1 at1(8) show ?thesis by (simp add: upd_put link_newest_def)
  next
    case False
    have h: "fhead ?s2 = last qs" using t False at1(7) by (simp add: time_inv_def)
    then have "p \<noteq> fhead ?s2" using pq False by auto
    moreover obtain s' where "setHead p ?s2 = Some s'" "time_frame ?s2 s'" "fhead s' = p" "flen s' = flen ?s2" "time_ring s' (qs @ [p])"
      by (rule setHead_ring [OF t2 False h pq]) (use t vp v1 in \<open>auto simp: time_inv_def\<close>)
    ultimately show ?thesis using that [of s'] False z at1(8) by (simp add: link_newest_def)
  qed
  note at2 = time_frame_at [OF s2(2)]
  let ?s3 = "s2\<lparr>flen := flen s2 + 1, fmetric := (fmetric s2)\<lparr>Inserts := Inserts (fmetric s2) + 1\<rparr>\<rparr>"
  have c3: "config ?s3 = config s" using at2(9) cfg(1) by (simp add: env_same_def)
  have ex: "fclock s1 = fclock s" using config_fields(8) [OF cfg(1)] .
  have run: "free_insert p k v d s1 = Some ?s3"
    unfolding free_insert_def using vp1 cfg(2) [symmetric] ex s2(1)
    by (cases "d = 0") (simp_all add: upd_put expire_at_raw put_ticks put_put sp_expiry_def Let_def)
  have env: "env_same ?s0 ?s3" using at2(9) env_trans [of ?s0 ?s2 s2] by simp
  have fk: "fkey (at ?s3 x) = (if x = p then k else fkey (at s x))" for x using at2(1) at1(1) vp1 by simp
  have bp3: "bucketPos (at ?s3 x) = (if x = p then slot s k else bucketPos (at s x))" for x using at2(7) bp vp1 by simp
  have en: "ent (at ?s3 x) = (if x = p then (k, v, ?ex, d) else ent (at s x))" for x
    using at2(1-4) at1(1-4) vp1 by (simp add: ent_def)
  have "linked (qs @ [p]) ?s3"
    unfolding linked_def
  proof (intro conjI)
    have "sizes_ok ?s0" using sz sizes_env [OF sz at1(9)] at1(7) by (simp add: sizes_ok_def)
    then show "sizes_ok ?s3" by (rule sizes_env [OF _ env]) (use s2(3) vp1 in simp)
    have "bucket_inv (insert p (set qs)) B ?s0" using B by (simp add: bucket_inv_def)
    then have "bucket_inv (insert p (set qs)) B ?s3"
      by (rule bucket_inv_cong [OF _ env]) (use at2(5-8) vp1 in auto)
    then show "\<exists>B. bucket_inv (set (qs @ [p])) B ?s3" by auto
    show "time_inv (qs @ [p]) ?s3"
      using s2(3,5) t vp env_valid(1) [OF env] v1(1) by (auto simp: time_inv_def)
    have "map (\<lambda>x. fkey (at ?s3 x)) qs = map (\<lambda>x. fkey (at s x)) qs" using fk pq by auto
    then have "map (\<lambda>x. fkey (at ?s3 x)) (qs @ [p]) = map (\<lambda>x. fkey (at s x)) qs @ [k]" using fk [of p] by (simp only: map_append list.map refl if_True)
    moreover have "distinct (map (\<lambda>x. fkey (at s x)) qs @ [k])" using k new by (auto simp: keys_inv_def)
    ultimately have "distinct (map (\<lambda>x. fkey (at ?s3 x)) (qs @ [p]))" by (simp only:)
    then show "keys_inv (qs @ [p]) ?s3"
      using k fk bp3 pq config_fields(11) [OF c3] by (auto simp: keys_inv_def)
  qed
  moreover have "compact (qs @ [p]) ?s3" using pos cap s2(4) config_fields(4) [OF c3] by (simp add: compact_def)
  moreover have "sp_push (k, v, ?ex, d) (sp_tick d (abs_spec qs s)) = abs_spec (qs @ [p]) ?s3"
  proof -
    have "filter (\<lambda>x. fst x \<noteq> k) (map (\<lambda>p. ent (at s p)) qs) = map (\<lambda>p. ent (at s p)) qs" using new by (auto simp: filter_id_conv)
    moreover have "map (\<lambda>x. ent (at ?s3 x)) (qs @ [p]) = map (\<lambda>p. ent (at s p)) qs @ [(k, v, ?ex, d)]" using en pq by auto
    moreover have "fticks ?s3 = ?t" "fevicted ?s3 = fevicted s" using env cfg(3) by (simp_all add: env_same_def)
    ultimately show ?thesis unfolding abs_spec_eq [OF c3, of _ qs]
      by (simp add: sp_push_def sp_tick_def)
  qed
  ultimately show ?thesis using that [OF run] by (simp add: models_def)
qed


definition sp_add :: "'k \<Rightarrow> 'v \<Rightarrow> duration \<Rightarrow> ('k, 'v) cache_spec \<Rightarrow> bool \<times> ('k, 'v) cache_spec" where
  "sp_add k v d a =
     (case sp_lookup k a of
        Some e \<Rightarrow> (False, sp_push (k, v, sp_expiry d a, d) (sp_tick d a))
      | None \<Rightarrow>
          let full = (length (sp_entries a) = sp_cap a);
              a' = (if full then sp_drop (hd (sp_entries a)) a else a)
          in (full, sp_push (k, v, sp_expiry d a', d) (sp_tick d a')))"

text \<open>Both ways of linking a new key into its bucket.\<close>

lemma add_new_models:
  assumes m: "models ps s a" and none: "pos_of k ps s = None"
  obtains p ev s1 qs where "claim_pos s = Some (p, ev, s1)" "gap p qs s1" "\<not> ev \<longrightarrow> s1 = s" "slot s1 = slot s" "bvalid s1 = bvalid s"
    "\<forall>x \<in> set qs. fkey (at s1 x) \<noteq> k"
    "sp_add k v d a = (ev, sp_push (k, v, sp_expiry d (abs_spec qs s1), d) (sp_tick d (abs_spec qs s1)))"
    "\<forall>b. ev \<longrightarrow> bvalid s b \<longrightarrow> bk s b \<noteq> emptyBucket \<longrightarrow> bk s1 b = emptyBucket \<longrightarrow> prevBucket (at s1 p) = p"
    "\<forall>x \<in> set qs. bvalid s (bucketPos (at s1 x)) \<longrightarrow> bk s (bucketPos (at s1 x)) \<noteq> emptyBucket"
proof -
  obtain p ev s1 qs where c: "claim_pos s = Some (p, ev, s1)" "gap p qs s1" "ev \<longleftrightarrow> length (sp_entries a) = sp_cap a"
    "abs_spec qs s1 = (if ev then sp_drop (hd (sp_entries a)) a else a)" "config s1 = config s" "bvalid s1 = bvalid s"
    "\<forall>x \<in> set qs. x \<in> set ps \<and> fkey (at s1 x) = fkey (at s x)" "\<not> ev \<longrightarrow> s1 = s"
    "\<forall>b. ev \<longrightarrow> bvalid s b \<longrightarrow> bk s b \<noteq> emptyBucket \<longrightarrow> bk s1 b = emptyBucket \<longrightarrow> prevBucket (at s1 p) = p"
    by (rule claim_pos_gap [OF m])
  note sl = config_fields(11) [OF c(5)]
  have no: "\<And>x. x \<in> set ps \<Longrightarrow> fkey (at s x) \<noteq> k" using none by (auto simp: pos_of_def find_None_iff)
  have add: "sp_add k v d a = (ev, sp_push (k, v, sp_expiry d (abs_spec qs s1), d) (sp_tick d (abs_spec qs s1)))"
    using sp_lookup_pos [OF m, of k] none c(3,4) by (simp add: sp_add_def Let_def)
  have full: "\<forall>x \<in> set qs. bvalid s (bucketPos (at s1 x)) \<longrightarrow> bk s (bucketPos (at s1 x)) \<noteq> emptyBucket"
  proof (intro ballI impI)
    fix x assume x: "x \<in> set qs" "bvalid s (bucketPos (at s1 x))"
    let ?b = "bucketPos (at s1 x)"
    obtain B where B: "bucket_inv (set ps) B s" and sz: "sizes_ok s" and k: "keys_inv ps s" using m by (auto simp: models_def linked_def)
    have "linked qs s1" using c(2) by (simp add: gap_def)
    then have "bucketPos (at s1 x) = slot s1 (fkey (at s1 x))" using x(1) by (simp add: linked_def keys_inv_def)
    then have "x \<in> set (B ?b)" using c(7) x(1) k sl bucket_inv_set [OF B, of ?b] by (auto simp: keys_inv_def)
    then show "bk s ?b \<noteq> emptyBucket" using first_empty [OF sz B x(2)] by auto
  qed
  show ?thesis by (rule that [OF c(1,2,8) sl c(6) _ add c(9) full]) (use c(7) no in auto)
qed

lemma add_models:
  assumes m: "models ps s a"
  shows "\<exists>s' ps'. addWithLifetime (fhash s k) k v d s = Some (fst (sp_add k v d a), s') \<and> models ps' s' (snd (sp_add k v d a))"
proof (cases "pos_of k ps s")
  case (Some p)
  note search = search_models [OF m, of k]
  have ne: "bk s (slot s k) \<noteq> emptyBucket" using search(2) Some by auto
  have p: "p \<in> set ps" and pk: "fkey (at s p) = k" using pos_of_Some [OF Some] by auto
  have v: "valid s p" using models_valid [OF m p] .
  let ?s1 = "put p ((at s p)\<lparr>fvalue := v\<rparr>) s"
  have m1: "models ps ?s1 (sp_set (ent ((at s p)\<lparr>fvalue := v\<rparr>)) a)" by (rule put_models [OF m p]) simp_all
  obtain s2 where s2: "expire_at d ?s1 = (sp_expiry d a, s2)" "models ps s2 (sp_set (ent ((at s p)\<lparr>fvalue := v\<rparr>)) (sp_tick d a))"
    "at s2 = at ?s1" "valid s2 = valid ?s1"
    by (rule expire_at_models [OF m1, of d]) (simp add: sp_tick_commute)
  let ?e = "(at s p)\<lparr>fvalue := v, fexpire := sp_expiry d a, flifetime := d\<rparr>"
  let ?s3 = "put p ?e s2"
  have m3: "models ps ?s3 (sp_set (ent ?e) (sp_set (ent ((at s p)\<lparr>fvalue := v\<rparr>)) (sp_tick d a)))"
    by (rule put_models [OF s2(2) p]) (use s2(3) v in auto)
  obtain s4 ps4 where s4: "touch p ?s3 = Some s4"
    "models ps4 s4 (sp_push (ent (at ?s3 p)) (sp_set (ent ?e) (sp_set (ent ((at s p)\<lparr>fvalue := v\<rparr>)) (sp_tick d a))))"
    using touch_models [OF m3 p] by blast
  have e: "ent (at ?s3 p) = (k, v, sp_expiry d a, d)" using v s2(4) pk by (simp add: ent_def)
  have "addWithLifetime (fhash s k) k v d s = Some (False, count_insert s4)"
    unfolding addWithLifetime_def using search ne Some v s2 s4(1) by (simp add: upd_put Let_def)
  moreover have "models ps4 (count_insert s4) (sp_push (k, v, sp_expiry d a, d) (sp_tick d a))"
    using s4(2) unfolding e by (simp add: sp_push_set pk count_insert_def)
  ultimately show ?thesis using sp_lookup_pos [OF m, of k] Some by (auto simp: sp_add_def)
next
  case None
  note search = search_models [OF m, of k]
  obtain p ev s1 qs where c: "claim_pos s = Some (p, ev, s1)" "gap p qs s1" "\<not> ev \<longrightarrow> s1 = s" "slot s1 = slot s" "bvalid s1 = bvalid s"
    "\<forall>x \<in> set qs. fkey (at s1 x) \<noteq> k"
    "sp_add k v d a = (ev, sp_push (k, v, sp_expiry d (abs_spec qs s1), d) (sp_tick d (abs_spec qs s1)))"
    "\<forall>b. ev \<longrightarrow> bvalid s b \<longrightarrow> bk s b \<noteq> emptyBucket \<longrightarrow> bk s1 b = emptyBucket \<longrightarrow> prevBucket (at s1 p) = p"
    "\<forall>x \<in> set qs. bvalid s (bucketPos (at s1 x)) \<longrightarrow> bk s (bucketPos (at s1 x)) \<noteq> emptyBucket"
    by (rule add_new_models [OF m None, where v = v and d = d])
  let ?b = "slot s k"
  obtain B where B: "bucket_inv (set qs) B s1" and sz: "sizes_ok s1" using c(2) by (auto simp: gap_def linked_def)
  have bv: "bvalid s ?b" "bvalid s1 ?b" using slot_bvalid [of s k] m c(5) by (auto simp: models_def linked_def)
  have pq: "p \<notin> set qs" "valid s1 p" using c(2) by (simp_all add: gap_def)
  note fe = first_empty [OF sz B bv(2)]
  show ?thesis
  proof (cases "bk s ?b = emptyBucket")
    case True
    have "set (B ?b) = {}" using bucket_inv_set [OF B, of ?b] c(9) True bv(1) by auto
    then obtain s2 B2 where s2: "link_first ?b p s1 = Some s2" "bucket_frame s1 s2" "bucket_inv (insert p (set qs)) B2 s2"
      "\<And>x. bucketPos (at s2 x) = (if x = p then slot s1 k else bucketPos (at s1 x))"
      using link_first_inv [OF B pq bv(2)] c(4) by auto metis
    obtain s3 where "free_insert p k v d s2 = Some s3" "models (qs @ [p]) s3 (snd (sp_add k v d a))"
      using insert_models [OF c(2) s2(2-4), of v d] c(6,7) by auto
    then show ?thesis using search True c(1,7) s2(1) unfolding addWithLifetime_def by simp blast
  next
    case False
    let ?st = "if B ?b = [] then p else hd (B ?b)"
    have self: "prevBucket (at s1 p) = p" if "B ?b = []" using c(3,8) that fe False bv by blast
    obtain s2 B2 where s2: "link_before ?b p ?st s1 = Some s2" "bucket_frame s1 s2" "bucket_inv (insert p (set qs)) B2 s2"
      "\<And>x. bucketPos (at s2 x) = (if x = p then slot s1 k else bucketPos (at s1 x))"
      using link_before_inv [OF B pq bv(2) refl self] c(4) by auto metis
    obtain s3 where s3: "free_insert p k v d s2 = Some s3" "models (qs @ [p]) s3 (snd (sp_add k v d a))"
      using insert_models [OF c(2) s2(2-4), of v d] c(6,7) by auto
    have st: "(if ev then do { b \<leftarrow> go_index (buckets s1) (uint ?b); Some (if b = emptyBucket then p else b) } else Some (bk s ?b)) = Some ?st"
      using bucket_inv_first [OF B bv(2)] fe c(3) False get_bucket [OF bv(2)] by (auto simp: bucket_first_def)
    have vp: "valid s3 p" by (rule models_valid [OF s3(2)]) simp
    have "addWithLifetime (fhash s k) k v d s = Some (ev, if prevBucket (at s3 p) \<noteq> p
      then s3\<lparr>fmetric := (fmetric s3)\<lparr>Collisions := Collisions (fmetric s3) + 1\<rparr>\<rparr> else s3)"
      unfolding addWithLifetime_def using search(1) search(3) [OF False] None False c(1) st s2(1) s3(1) vp
      by (simp add: elem_at split del: if_split)
    then show ?thesis using s3(2) c(7) by auto
  qed
qed

end
