(* ===== verification/FreeLruLaws.thy ===== *)
theory FreeLruLaws
  imports FreeLruInsert
begin

text \<open>
  Every operation of the cache follows its specification, alone and in any sequence of calls.
\<close>

section \<open>Lookups\<close>

definition sp_sick :: "('k, 'v) entry \<Rightarrow> ('k, 'v) cache_spec \<Rightarrow> bool" where
  "sp_sick e a = (case sp_health a of None \<Rightarrow> False | Some f \<Rightarrow> \<not> f (fst e) (fst (snd e)))"

definition sp_expired :: "64 word \<Rightarrow> ('k, 'v) entry \<Rightarrow> bool" where
  "sp_expired n e = (let ex = fst (snd (snd e)) in ex \<noteq> 0 \<and> sint ex \<le> sint n)"

definition sp_find :: "bool \<Rightarrow> 'k \<Rightarrow> ('k, 'v) cache_spec \<Rightarrow> ('k, 'v) entry option \<times> ('k, 'v) cache_spec" where
  "sp_find expiring k a =
     (case sp_lookup k a of
        None \<Rightarrow> (None, a)
      | Some e \<Rightarrow>
          let timed = (expiring \<and> fst (snd (snd e)) \<noteq> 0);
              old = (timed \<and> sp_expired (sp_clock a (sp_ticks a)) e);
              a' = (if timed then a\<lparr>sp_ticks := sp_ticks a + 1\<rparr> else a)
          in if old \<or> sp_sick e a' then (None, sp_drop e a') else (Some e, a'))"

definition found :: "'k \<Rightarrow> uint32 option \<Rightarrow> ('k, 'v) entry option \<Rightarrow> uint32 list \<Rightarrow> ('k, 'v) free_lru \<Rightarrow> bool" where
  "found k r e ps s =
     (case r of None \<Rightarrow> e = None | Some p \<Rightarrow> p \<in> set ps \<and> fkey (at s p) = k \<and> e = Some (ent (at s p)))"

lemma unhealthy_sick: "models ps s a \<Longrightarrow> fkey e = k \<Longrightarrow> unhealthy k e s = sp_sick (ent e) a"
  by (auto simp: models_def unhealthy_def sp_sick_def ent_def split: option.split)

lemma drop_if_bad:
  assumes m: "models ps s a" and p: "p \<in> set ps" "fkey (at s p) = k"
    and res: "res = (if bad then (None, sp_drop (ent (at s p)) a) else (Some (ent (at s p)), a))"
  shows "\<exists>r s' ps'. (if bad then do { s \<leftarrow> removeAt p s; Some (None, s) } else Some (Some p, s)) = Some (r, s') \<and>
    models ps' s' (snd res) \<and> found k r (fst res) ps' s'"
proof (cases bad)
  case True
  obtain s' ps' where "removeAt p s = Some s'" "models ps' s' (sp_drop (ent (at s p)) a)" by (rule removeAt_models [OF m p(1)])
  with True res show ?thesis by (auto simp: found_def)
qed (use assms in \<open>auto simp: found_def\<close>)

lemma findKey_models:
  assumes m: "models ps s a"
  shows "\<exists>r s' ps'. findKey (fhash s k) k s = Some (r, s') \<and> models ps' s' (snd (sp_find True k a)) \<and> found k r (fst (sp_find True k a)) ps' s'"
proof (cases "pos_of k ps s")
  case None
  have "findKey (fhash s k) k s = Some (None, s)" using search_models [OF m, of k] None by (simp add: findKey_def)
  then show ?thesis using m sp_lookup_pos [OF m, of k] None by (auto simp: sp_find_def found_def)
next
  case (Some p)
  have p: "p \<in> set ps" "fkey (at s p) = k" using pos_of_Some [OF Some] by auto
  have ne: "bk s (slot s k) \<noteq> emptyBucket" using search_models(2) [OF m] Some by fastforce
  let ?x = "fexpire (at s p)"
  let ?s = "if ?x \<noteq> 0 then s\<lparr>fticks := fticks s + 1\<rparr> else s" and ?a = "if ?x \<noteq> 0 then a\<lparr>sp_ticks := sp_ticks a + 1\<rparr> else a"
  have ck: "sp_clock a (sp_ticks a) = fclock s (fticks s)" "sp_ticks a = fticks s" using m by (simp_all add: models_def)
  have "models ps (s\<lparr>fticks := fticks s + 1\<rparr>) (a\<lparr>sp_ticks := fticks (s\<lparr>fticks := fticks s + 1\<rparr>)\<rparr>)" by (rule models_same [OF m]) simp_all
  then have m': "models ps ?s ?a" using m ck(2) by simp
  let ?bad = "?x \<noteq> 0 \<and> sint ?x \<le> sint (fclock s (fticks s)) \<or> unhealthy k (at s p) ?s"
  have at: "at ?s = at s" by simp
  have run: "findKey (fhash s k) k s = (if ?bad then do { s \<leftarrow> removeAt p ?s; Some (None, s) } else Some (Some p, ?s))"
    using search_models(1,3) [OF m, of k] ne Some models_valid [OF m p(1)]
    by (auto simp: findKey_def elem_at Now_ms_def Let_def)
  have "sp_find True k a = (if ?bad then (None, sp_drop (ent (at s p)) ?a) else (Some (ent (at s p)), ?a))"
    using sp_lookup_pos [OF m, of k] Some ck unhealthy_sick [OF m', of "at s p" k] p(2)
    by (simp add: sp_find_def Let_def sp_expired_def) (simp add: ent_def)
  then show ?thesis unfolding run by (intro drop_if_bad [OF m' p(1)]) (simp_all only: at p(2))
qed

lemma findKeyNoExpire_models:
  assumes m: "models ps s a"
  shows "\<exists>r s' ps'. findKeyNoExpire (fhash s k) k s = Some (r, s') \<and> models ps' s' (snd (sp_find False k a)) \<and> found k r (fst (sp_find False k a)) ps' s'"
proof (cases "pos_of k ps s")
  case None
  have "findKeyNoExpire (fhash s k) k s = Some (None, s)" using search_models [OF m, of k] None by (simp add: findKeyNoExpire_def)
  then show ?thesis using m sp_lookup_pos [OF m, of k] None by (auto simp: sp_find_def found_def)
next
  case (Some p)
  have p: "p \<in> set ps" "fkey (at s p) = k" using pos_of_Some [OF Some] by auto
  have ne: "bk s (slot s k) \<noteq> emptyBucket" using search_models(2) [OF m] Some by fastforce
  let ?bad = "unhealthy k (at s p) s"
  have run: "findKeyNoExpire (fhash s k) k s = (if ?bad then do { s \<leftarrow> removeAt p s; Some (None, s) } else Some (Some p, s))"
    using search_models(1,3) [OF m, of k] ne Some models_valid [OF m p(1)] by (simp add: findKeyNoExpire_def elem_at)
  have "sp_find False k a = (if ?bad then (None, sp_drop (ent (at s p)) a) else (Some (ent (at s p)), a))"
    using sp_lookup_pos [OF m, of k] Some unhealthy_sick [OF m, of "at s p" k] p(2) by (simp add: sp_find_def)
  then show ?thesis unfolding run by (rule drop_if_bad [OF m p])
qed

section \<open>Operations\<close>

definition sp_get :: "bool \<Rightarrow> 'k \<Rightarrow> ('k, 'v) cache_spec \<Rightarrow> ('v \<times> 64 word) option \<times> ('k, 'v) cache_spec" where
  "sp_get expiring k a =
     (case sp_find expiring k a of
        (None, a) \<Rightarrow> (None, a)
      | (Some (k, v, ex, d), a) \<Rightarrow> (Some (v, ex), sp_push (k, v, ex, d) a))"

definition sp_refresh :: "'k \<Rightarrow> ('k, 'v) cache_spec \<Rightarrow> 'v option \<times> ('k, 'v) cache_spec" where
  "sp_refresh k a =
     (case sp_find False k a of
        (None, a) \<Rightarrow> (None, a)
      | (Some (k, v, ex, d), a) \<Rightarrow> (Some v, sp_push (k, v, sp_expiry d a, d) (sp_tick d a)))"

definition sp_peek :: "'k \<Rightarrow> ('k, 'v) cache_spec \<Rightarrow> ('v \<times> 64 word) option \<times> ('k, 'v) cache_spec" where
  "sp_peek k a = (case sp_find True k a of (e, a) \<Rightarrow> (map_option (\<lambda>(k, v, ex, d). (v, ex)) e, a))"

definition sp_update :: "'k \<Rightarrow> 'v \<Rightarrow> duration \<Rightarrow> ('k, 'v) cache_spec \<Rightarrow> bool \<times> ('k, 'v) cache_spec" where
  "sp_update k v d a =
     (case sp_lookup k a of
        None \<Rightarrow> (False, a)
      | Some (_, v', _) \<Rightarrow> if v' \<noteq> v then (False, a) else (True, sp_push (k, v, sp_expiry d a, d) (sp_tick d a)))"

definition sp_remove :: "'k \<Rightarrow> ('k, 'v) cache_spec \<Rightarrow> bool \<times> ('k, 'v) cache_spec" where
  "sp_remove k a = (case sp_find False k a of (None, a) \<Rightarrow> (False, a) | (Some e, a) \<Rightarrow> (True, sp_drop e a))"

definition sp_remove_oldest :: "('k, 'v) cache_spec \<Rightarrow> ('k \<times> 'v) option \<times> ('k, 'v) cache_spec" where
  "sp_remove_oldest a =
     (case sp_entries a of [] \<Rightarrow> (None, a) | e # _ \<Rightarrow> (Some (fst e, fst (snd e)), sp_drop e a))"

text \<open>Dropping all entries with a property, the oldest first.\<close>

definition sp_drop_all :: "(('k, 'v) entry \<Rightarrow> bool) \<Rightarrow> ('k, 'v) cache_spec \<Rightarrow> ('k, 'v) cache_spec" where
  "sp_drop_all P a = a\<lparr>sp_entries := filter (\<lambda>e. \<not> P e) (sp_entries a),
     sp_evicted := sp_evicted a @ (if sp_notify a then map (\<lambda>e. (fst e, fst (snd e))) (filter P (sp_entries a)) else [])\<rparr>"

definition sp_purge_expired :: "('k, 'v) cache_spec \<Rightarrow> ('k, 'v) cache_spec" where
  "sp_purge_expired a = sp_drop_all (sp_expired (sp_clock a (sp_ticks a))) (a\<lparr>sp_ticks := sp_ticks a + 1\<rparr>)"

lemma free_Get_models:
  assumes m: "models ps s a"
  shows "\<exists>s' ps'. free_Get k s = Some (fst (sp_get True k a), s') \<and> models ps' s' (snd (sp_get True k a))"
    and "\<exists>s' ps'. GetWithLifetimeNoExpire k s = Some (fst (sp_get False k a), s') \<and> models ps' s' (snd (sp_get False k a))"
proof -
  have step: "\<exists>s' ps'. (case r of Some pos \<Rightarrow> do { s \<leftarrow> touch pos s1; e \<leftarrow> elem pos s; Some (Some (fvalue e, fexpire e), count_hit s) }
      | None \<Rightarrow> Some (None, count_miss s1)) = Some (fst (sp_get b k a), s') \<and> models ps' s' (snd (sp_get b k a))"
    if h: "models ps1 s1 (snd (sp_find b k a))" "found k r (fst (sp_find b k a)) ps1 s1" for r s1 ps1 b
  proof (cases r)
    case None
    with h show ?thesis by (cases "sp_find b k a") (auto simp: found_def sp_get_def count_miss_def)
  next
    case (Some p)
    then have p: "p \<in> set ps1" "fst (sp_find b k a) = Some (ent (at s1 p))" using h(2) by (auto simp: found_def)
    obtain s2 ps2 where s2: "touch p s1 = Some s2" "models ps2 s2 (sp_push (ent (at s1 p)) (snd (sp_find b k a)))"
      "\<forall>x. ent (at s2 x) = ent (at s1 x)" "p \<in> set ps2" by (rule touch_models [OF h(1) p(1)])
    have "valid s2 p" using models_valid [OF s2(2,4)] .
    moreover have "fvalue (at s2 p) = fvalue (at s1 p)" "fexpire (at s2 p) = fexpire (at s1 p)" using spec [OF s2(3), of p] by (simp_all add: ent_def)
    ultimately show ?thesis using s2(1,2) p(2) Some
      by (cases "sp_find b k a") (auto simp: sp_get_def elem_at count_hit_def ent_def)
  qed
  obtain r s1 ps1 where "findKey (fhash s k) k s = Some (r, s1)" "models ps1 s1 (snd (sp_find True k a))" "found k r (fst (sp_find True k a)) ps1 s1"
    using findKey_models [OF m] by blast
  with step [of ps1 s1 True r] show "\<exists>s' ps'. free_Get k s = Some (fst (sp_get True k a), s') \<and> models ps' s' (snd (sp_get True k a))"
    by (simp add: free_Get_def)
  obtain r s1 ps1 where "findKeyNoExpire (fhash s k) k s = Some (r, s1)" "models ps1 s1 (snd (sp_find False k a))" "found k r (fst (sp_find False k a)) ps1 s1"
    using findKeyNoExpire_models [OF m] by blast
  with step [of ps1 s1 False r] show "\<exists>s' ps'. GetWithLifetimeNoExpire k s = Some (fst (sp_get False k a), s') \<and> models ps' s' (snd (sp_get False k a))"
    by (simp add: GetWithLifetimeNoExpire_def)
qed

lemma GetAndRefresh_models:
  assumes m: "models ps s a"
  shows "\<exists>s' ps'. GetAndRefresh k s = Some (fst (sp_refresh k a), s') \<and> models ps' s' (snd (sp_refresh k a))"
proof -
  obtain r s1 ps1 where s1: "findKeyNoExpire (fhash s k) k s = Some (r, s1)" "models ps1 s1 (snd (sp_find False k a))"
    "found k r (fst (sp_find False k a)) ps1 s1" using findKeyNoExpire_models [OF m] by blast
  show ?thesis
  proof (cases r)
    case None
    with s1 show ?thesis by (cases "sp_find False k a") (auto simp: found_def sp_refresh_def GetAndRefresh_def count_miss_def)
  next
    case (Some p)
    then have p: "p \<in> set ps1" "fst (sp_find False k a) = Some (ent (at s1 p))" using s1(3) by (auto simp: found_def)
    define a1 where "a1 = snd (sp_find False k a)"
    obtain s2 ps2 where s2: "touch p s1 = Some s2" "models ps2 s2 (sp_push (ent (at s1 p)) a1)"
      "\<forall>x. ent (at s2 x) = ent (at s1 x)" "p \<in> set ps2" using touch_models [OF s1(2) p(1)] a1_def by auto
    let ?d = "flifetime (at s2 p)"
    have m2: "models ps2 (count_hit s2) (sp_push (ent (at s1 p)) a1)" using s2(2) by (simp add: count_hit_def)
    have v: "valid (count_hit s2) p" and at: "at (count_hit s2) = at s2" using models_valid [OF m2 s2(4)] by (simp_all add: count_hit_def)
    obtain s3 where s3: "expire_at ?d (count_hit s2) = (sp_expiry ?d a1, s3)" "models ps2 s3 (sp_push (ent (at s1 p)) (sp_tick ?d a1))"
      "at s3 = at s2" "valid s3 = valid (count_hit s2)"
      by (rule expire_at_models [OF m2, of ?d]) (simp add: sp_tick_commute at)
    let ?e = "(at s2 p)\<lparr>fexpire := sp_expiry ?d a1\<rparr>"
    have "models ps2 (put p ?e s3) (sp_set (ent ?e) (sp_push (ent (at s1 p)) (sp_tick ?d a1)))"
      by (rule put_models [OF s3(2) s2(4)]) (use s3(3) in simp_all)
    moreover have "fkey (at s2 p) = fkey (at s1 p)" "fvalue (at s2 p) = fvalue (at s1 p)" "?d = flifetime (at s1 p)"
      using spec [OF s2(3), of p] by (simp_all add: ent_def)
    ultimately have m3: "models ps2 (put p ?e s3) (sp_push (fkey (at s1 p), fvalue (at s1 p), sp_expiry ?d a1, ?d) (sp_tick ?d a1))"
      "fvalue (at s2 p) = fvalue (at s1 p)" "?d = flifetime (at s1 p)"
      by (simp_all add: sp_set_push) (simp add: ent_def)
    have "GetAndRefresh k s = Some (Some (fvalue (at s2 p)), put p ?e s3)"
      using s1(1) Some s2(1) v at s3 by (simp add: GetAndRefresh_def elem_at upd_put Let_def)
    moreover have "sp_refresh k a = (Some (fvalue (at s1 p)), sp_push (fkey (at s1 p), fvalue (at s1 p), sp_expiry ?d a1, ?d) (sp_tick ?d a1))"
      using p(2) m3(3) a1_def by (cases "sp_find False k a") (simp add: sp_refresh_def ent_def)
    ultimately show ?thesis using m3(1,2) by auto
  qed
qed

lemma free_Peek_models:
  assumes m: "models ps s a"
  shows "\<exists>s' ps'. free_Peek k s = Some (fst (sp_peek k a), s') \<and> models ps' s' (snd (sp_peek k a))"
proof -
  obtain r s1 ps1 where s1: "findKey (fhash s k) k s = Some (r, s1)" "models ps1 s1 (snd (sp_find True k a))"
    "found k r (fst (sp_find True k a)) ps1 s1" using findKey_models [OF m] by blast
  show ?thesis
  proof (cases r)
    case None
    with s1 show ?thesis by (cases "sp_find True k a") (auto simp: found_def sp_peek_def free_Peek_def)
  next
    case (Some p)
    with s1(3) have "p \<in> set ps1" "fst (sp_find True k a) = Some (ent (at s1 p))" by (auto simp: found_def)
    then show ?thesis using s1(1,2) Some models_valid [OF s1(2)]
      by (cases "sp_find True k a") (auto simp: sp_peek_def free_Peek_def elem_at ent_def)
  qed
qed

lemma free_Remove_models:
  assumes m: "models ps s a"
  shows "\<exists>s' ps'. free_Remove k s = Some (fst (sp_remove k a), s') \<and> models ps' s' (snd (sp_remove k a))"
proof -
  obtain r s1 ps1 where s1: "findKeyNoExpire (fhash s k) k s = Some (r, s1)" "models ps1 s1 (snd (sp_find False k a))"
    "found k r (fst (sp_find False k a)) ps1 s1" using findKeyNoExpire_models [OF m] by blast
  show ?thesis
  proof (cases r)
    case None
    with s1 show ?thesis by (cases "sp_find False k a") (auto simp: found_def sp_remove_def free_Remove_def)
  next
    case (Some p)
    with s1(3) have p: "p \<in> set ps1" "fst (sp_find False k a) = Some (ent (at s1 p))" by (auto simp: found_def)
    obtain s2 ps2 where "removeAt p s1 = Some s2" "models ps2 s2 (sp_drop (ent (at s1 p)) (snd (sp_find False k a)))"
      by (rule removeAt_models [OF s1(2) p(1)])
    then show ?thesis using s1(1) Some p(2) by (cases "sp_find False k a") (auto simp: sp_remove_def free_Remove_def)
  qed
qed

lemma UpdateLifetime_models:
  assumes m: "models ps s a"
  shows "\<exists>s' ps'. UpdateLifetime k v d s = Some (fst (sp_update k v d a), s') \<and> models ps' s' (snd (sp_update k v d a))"
proof (cases "pos_of k ps s")
  case None
  have "UpdateLifetime k v d s = Some (False, s)" using search_models [OF m, of k] None by (simp add: UpdateLifetime_def)
  then show ?thesis using m sp_lookup_pos [OF m, of k] None by (auto simp: sp_update_def)
next
  case (Some p)
  note search = search_models [OF m, of k]
  have ne: "bk s (slot s k) \<noteq> emptyBucket" using search(2) Some by auto
  have p: "p \<in> set ps" and pk: "fkey (at s p) = k" using pos_of_Some [OF Some] by auto
  have vp: "valid s p" using models_valid [OF m p] .
  have up: "sp_update k v d a = (if fvalue (at s p) \<noteq> v then (False, a) else (True, sp_push (k, v, sp_expiry d a, d) (sp_tick d a)))"
    using sp_lookup_pos [OF m, of k] Some by (simp add: sp_update_def ent_def)
  show ?thesis
  proof (cases "fvalue (at s p) = v")
    case False
    then have "UpdateLifetime k v d s = Some (False, s)" using search ne Some vp by (simp add: UpdateLifetime_def elem_at)
    then show ?thesis using m up False by auto
  next
    case True
    let ?e1 = "(at s p)\<lparr>flifetime := d\<rparr>" and ?e = "(at s p)\<lparr>flifetime := d, fexpire := sp_expiry d a\<rparr>"
    have m1: "models ps (put p ?e1 s) (sp_set (ent ?e1) a)" by (rule put_models [OF m p]) simp_all
    obtain s2 where s2: "expire_at d (put p ?e1 s) = (sp_expiry d a, s2)" "models ps s2 (sp_set (ent ?e1) (sp_tick d a))"
      "at s2 = at (put p ?e1 s)" "valid s2 = valid (put p ?e1 s)"
      by (rule expire_at_models [OF m1, of d]) (simp add: sp_tick_commute)
    have m3: "models ps (put p ?e s2) (sp_set (ent ?e) (sp_set (ent ?e1) (sp_tick d a)))"
      by (rule put_models [OF s2(2) p]) (use s2(3) vp in auto)
    obtain s4 ps4 where s4: "touch p (put p ?e s2) = Some s4"
      "models ps4 s4 (sp_push (ent (at (put p ?e s2) p)) (sp_set (ent ?e) (sp_set (ent ?e1) (sp_tick d a))))"
      using touch_models [OF m3 p] by blast
    have e: "ent (at (put p ?e s2) p) = (k, v, sp_expiry d a, d)" using vp s2(4) pk True by (simp add: ent_def)
    have "UpdateLifetime k v d s = Some (True, count_insert s4)"
      unfolding UpdateLifetime_def using search ne Some vp s2 s4(1) True by (simp add: elem_at upd_put Let_def)
    moreover have "models ps4 (count_insert s4) (sp_push (k, v, sp_expiry d a, d) (sp_tick d a))"
      using s4(2) unfolding e by (simp add: sp_push_set pk count_insert_def)
    ultimately show ?thesis using up True by auto
  qed
qed

section \<open>Oldest entries\<close>

lemma models_len: "models ps s a \<Longrightarrow> unat (flen s) = length ps" "models ps s a \<Longrightarrow> flen s = 0 \<longleftrightarrow> ps = []"
proof -
  assume "models ps s a"
  then show l: "unat (flen s) = length ps" using compact_length [of ps s] linked_distinct [of ps s] by (simp add: models_def)
  then show "flen s = 0 \<longleftrightarrow> ps = []" using word_unat_eq_iff [of "flen s" 0] by auto
qed

lemma models_oldest:
  assumes "models ps s a" "ps \<noteq> []"
  shows "valid s (fhead s)" "fnext (at s (fhead s)) = hd ps"
proof -
  have "time_inv ps s" "sizes_ok s" using assms(1) by (simp_all add: models_def linked_def)
  then show "valid s (fhead s)" "fnext (at s (fhead s)) = hd ps"
    using assms(2) ring_ends(1) [of _ _ ps] by (auto simp: time_inv_def sizes_ok_def)
qed

lemma RemoveOldest_models:
  assumes m: "models ps s a"
  shows "\<exists>s' ps'. RemoveOldest s = Some (fst (sp_remove_oldest a), s') \<and> models ps' s' (snd (sp_remove_oldest a))"
proof (cases ps)
  case Nil
  then show ?thesis using m models_len(2) [OF m] models_entries [OF m] by (auto simp: RemoveOldest_def sp_remove_oldest_def)
next
  case (Cons p qs)
  have p: "p \<in> set ps" using Cons by simp
  obtain s' ps' where s': "removeAt p s = Some s'" "models ps' s' (sp_drop (ent (at s p)) a)" by (rule removeAt_models [OF m p])
  have "RemoveOldest s = Some (Some (fkey (at s p), fvalue (at s p)), s')"
    using models_len(2) [OF m] models_oldest [OF m] models_valid [OF m p] s'(1) Cons by (simp add: RemoveOldest_def elem_at Let_def)
  then show ?thesis using s'(2) models_entries [OF m] Cons by (auto simp: sp_remove_oldest_def ent_def)
qed

lemma purge_scan_suffix:
  "time_ring s (pre @ qs) \<Longrightarrow> \<forall>x \<in> set qs. valid s x \<Longrightarrow> qs \<noteq> [] \<Longrightarrow>
   purge_scan (length qs) n (hd qs) s = Some (find (\<lambda>p. sp_expired n (ent (at s p))) qs)"
proof (induction qs arbitrary: pre)
  case (Cons q qs)
  have e: "sp_expired n (ent (at s q)) \<longleftrightarrow> fexpire (at s q) \<noteq> 0 \<and> sint (fexpire (at s q)) \<le> sint n"
    by (simp add: sp_expired_def ent_def Let_def)
  show ?case
  proof (cases qs)
    case Nil
    then show ?thesis using Cons.prems(2) e by (simp add: elem_at)
  next
    case (Cons r rs)
    have "fnext (at s q) = r" by (rule ring_next [of _ _ pre]) (use Cons.prems(1) Cons in simp)
    moreover have "purge_scan (length qs) n (hd qs) s = Some (find (\<lambda>p. sp_expired n (ent (at s p))) qs)"
      by (rule Cons.IH [of "pre @ [q]"]) (use Cons.prems Cons in auto)
    ultimately show ?thesis using Cons.prems(2) e Cons by (simp add: elem_at)
  qed
qed simp

lemma keys_loop_suffix:
  "time_ring s (pre @ qs) \<Longrightarrow> \<forall>x \<in> set qs. valid s x \<Longrightarrow> qs \<noteq> [] \<Longrightarrow>
   keys_loop (length qs) (hd qs) s = Some (map (\<lambda>p. fkey (at s p)) qs)"
proof (induction qs arbitrary: pre)
  case (Cons q qs)
  show ?case
  proof (cases qs)
    case Nil
    then show ?thesis using Cons.prems(2) by (simp add: elem_at)
  next
    case (Cons r rs)
    have n: "fnext (at s q) = hd qs" using ring_next [of _ _ pre q r rs] Cons.prems(1) Cons by simp
    have "keys_loop (length qs) (hd qs) s = Some (map (\<lambda>p. fkey (at s p)) qs)"
      by (rule Cons.IH [of "pre @ [q]"]) (use Cons.prems Cons in auto)
    moreover have "keys_loop (Suc (length qs)) q s = keys_loop (length qs) (hd qs) s \<bind> (\<lambda>ks. Some (fkey (at s q) # ks))"
      using Cons.prems(2) n by (simp add: elem_at)
    ultimately show ?thesis by simp
  qed
qed simp

lemma find_split: "find P xs = Some e \<Longrightarrow> \<exists>pre suf. xs = pre @ e # suf \<and> P e \<and> (\<forall>x \<in> set pre. \<not> P x)"
proof (induction xs)
  case (Cons x xs)
  show ?case
  proof (cases "P x")
    case True
    with Cons.prems show ?thesis by (intro exI [of _ "[]"] exI [of _ xs]) simp
  next
    case False
    with Cons obtain pre suf where "xs = pre @ e # suf" "P e" "\<forall>x \<in> set pre. \<not> P x" by auto
    with False show ?thesis by (intro exI [of _ "x # pre"] exI [of _ suf]) simp
  qed
qed simp

lemma drop_all_first:
  assumes "distinct (map fst (sp_entries a))" "find P (sp_entries a) = Some e"
  shows "sp_drop_all P (sp_drop e a) = sp_drop_all P a"
proof -
  obtain pre suf where l: "sp_entries a = pre @ e # suf" and no: "\<forall>x \<in> set pre. \<not> P x" and e: "P e"
    using find_split [OF assms(2)] by blast
  have f: "filter (\<lambda>x. fst x \<noteq> fst e) (sp_entries a) = pre @ suf"
    using filter_other_key [of fst pre e suf] assms(1) unfolding l by simp
  have "filter P pre = []" using no by simp
  then show ?thesis unfolding sp_drop_all_def sp_drop_def using e f by (simp add: l)
qed

lemma purge_loop_models:
  "models ps s a \<Longrightarrow> \<exists>s' ps'. purge_loop n s = Some s' \<and> models ps' s' (sp_drop_all (sp_expired n) a)"
proof (induction "length ps" arbitrary: ps s a rule: less_induct)
  case less
  note m = less.prems
  have entries: "sp_entries a = map (\<lambda>p. ent (at s p)) ps" by (rule models_entries [OF m])
  have dist: "distinct (map fst (sp_entries a))" using models_distinct [OF m] entries by (simp add: o_def)
  have none: "sp_drop_all (sp_expired n) a = a" if "find (sp_expired n) (sp_entries a) = None"
  proof -
    have "\<forall>x \<in> set (sp_entries a). \<not> sp_expired n x" using that unfolding find_None_iff by blast
    then show ?thesis by (simp add: sp_drop_all_def filter_id_conv)
  qed
  have find: "find (sp_expired n) (sp_entries a) = map_option (\<lambda>p. ent (at s p)) (find (\<lambda>p. sp_expired n (ent (at s p))) ps)"
    unfolding entries by (induction ps) auto
  show ?case
  proof (cases "ps = []")
    case True
    then show ?thesis using m models_len(2) [OF m] none find by (subst purge_loop.simps) auto
  next
    case False
    have "time_ring s ps" "\<forall>x \<in> set ps. valid s x" using m by (simp_all add: models_def linked_def time_inv_def)
    then have scan: "purge_scan (unat (flen s)) n (hd ps) s = Some (find (\<lambda>p. sp_expired n (ent (at s p))) ps)"
      using purge_scan_suffix [of s "[]" ps n] False models_len(1) [OF m] by simp
    note old = models_oldest [OF m False]
    have step: "purge_loop n s = (case find (\<lambda>p. sp_expired n (ent (at s p))) ps of None \<Rightarrow> Some s
      | Some pos \<Rightarrow> do { s \<leftarrow> removeAt pos s; purge_loop n s })"
      using models_len(2) [OF m] False old scan by (subst purge_loop.simps) (simp add: elem_at)
    show ?thesis
    proof (cases "find (\<lambda>p. sp_expired n (ent (at s p))) ps")
      case None
      then show ?thesis using step none find m by auto
    next
      case (Some p)
      then have p: "p \<in> set ps" by (auto simp: find_Some_iff)
      obtain s' ps' where s': "removeAt p s = Some s'" "models ps' s' (sp_drop (ent (at s p)) a)" by (rule removeAt_models [OF m p])
      have "length (sp_entries (sp_drop (ent (at s p)) a)) < length (sp_entries a)"
        unfolding sp_drop_def using p entries by (simp add: length_filter_less)
      then have "length ps' < length ps" using models_entries [OF s'(2)] entries by simp
      from less.hyps [OF this s'(2)] show ?thesis
        using step Some s'(1) drop_all_first [OF dist, of "sp_expired n" "ent (at s p)"] find by simp
    qed
  qed
qed

lemma PurgeExpired_models:
  assumes m: "models ps s a"
  shows "\<exists>s' ps'. PurgeExpired s = Some s' \<and> models ps' s' (sp_purge_expired a)"
proof -
  have "models ps (s\<lparr>fticks := fticks s + 1\<rparr>) (a\<lparr>sp_ticks := fticks (s\<lparr>fticks := fticks s + 1\<rparr>)\<rparr>)" by (rule models_same [OF m]) simp_all
  then have "models ps (s\<lparr>fticks := fticks s + 1\<rparr>) (a\<lparr>sp_ticks := sp_ticks a + 1\<rparr>)" using m by (simp add: models_def)
  from purge_loop_models [OF this, of "fclock s (fticks s)"] show ?thesis
    using m by (simp add: PurgeExpired_def Now_ms_def sp_purge_expired_def models_def)
qed

lemma removeOldest_times_models:
  "models ps s a \<Longrightarrow> n = length ps \<Longrightarrow> \<exists>s' ps'. removeOldest_times n s = Some s' \<and> models ps' s' (sp_drop_all (\<lambda>_. True) a)"
proof (induction n arbitrary: ps s a)
  case 0
  then have "sp_drop_all (\<lambda>_. True) a = a" using models_entries [OF 0(1)] by (simp add: sp_drop_all_def)
  with 0 show ?case by auto
next
  case (Suc n)
  obtain p qs where ps: "ps = p # qs" using Suc.prems(2) by (cases ps) auto
  note e = models_entries [OF Suc.prems(1)]
  let ?e = "ent (at s p)"
  have o: "snd (sp_remove_oldest a) = sp_drop ?e a" using e ps by (simp add: sp_remove_oldest_def)
  obtain s1 ps1 where s1: "RemoveOldest s = Some (fst (sp_remove_oldest a), s1)" "models ps1 s1 (sp_drop ?e a)"
    using RemoveOldest_models [OF Suc.prems(1)] o by auto
  have d: "distinct (map fst (sp_entries a))" using models_distinct [OF Suc.prems(1)] e by (simp add: o_def)
  have fi: "find (\<lambda>_. True) (sp_entries a) = Some ?e" using e ps by simp
  have "filter (\<lambda>x. fst x \<noteq> fkey (at s p)) (sp_entries a) = map (\<lambda>p. ent (at s p)) qs"
    using filter_entries [of s "[]" p qs] models_distinct [OF Suc.prems(1)] e ps by simp
  then have "sp_entries (sp_drop ?e a) = map (\<lambda>p. ent (at s p)) qs" by (simp add: sp_drop_def)
  then have "length (map (\<lambda>p. ent (at s1 p)) ps1) = length (map (\<lambda>p. ent (at s p)) qs)" using models_entries [OF s1(2)] by simp
  then have "length ps1 = n" using ps Suc.prems(2) by simp
  from Suc.IH [OF s1(2) this [symmetric]] show ?case using s1(1) drop_all_first [OF d fi] by simp
qed


section \<open>Sequences of calls\<close>

definition sp_refresh_or_add :: "'k \<Rightarrow> 'v option \<Rightarrow> ('k, 'v) cache_spec \<Rightarrow> ('v \<times> bool) option \<times> ('k, 'v) cache_spec" where
  "sp_refresh_or_add k made a =
     (case sp_refresh k a of
        (Some v, a) \<Rightarrow> (Some (v, True), a)
      | (None, a) \<Rightarrow>
          (case made of
             None \<Rightarrow> (None, a)
           | Some v \<Rightarrow> (Some (v, False), sp_purge_expired (snd (sp_add k v (sp_lifetime a) a)))))"

lemma GetAndRefreshOrAdd_models:
  assumes m: "models ps s a"
  shows "\<exists>s' ps'. GetAndRefreshOrAdd k made s = Some (fst (sp_refresh_or_add k made a), s') \<and> models ps' s' (snd (sp_refresh_or_add k made a))"
proof -
  obtain r a1 where ra: "sp_refresh k a = (r, a1)" by (cases "sp_refresh k a")
  obtain s1 ps1 where s1: "GetAndRefresh k s = Some (r, s1)" "models ps1 s1 a1" using GetAndRefresh_models [OF m, of k] ra by auto
  have lt: "sp_lifetime a1 = default_lifetime s1" using s1(2) by (simp add: models_def)
  show ?thesis
  proof (cases "r = None \<and> made \<noteq> None")
    case True
    then obtain v where v: "made = Some v" "r = None" by auto
    obtain b s2 ps2 where s2: "addWithLifetime (fhash s1 k) k v (default_lifetime s1) s1 = Some (b, s2)"
      "models ps2 s2 (snd (sp_add k v (sp_lifetime a1) a1))" using add_models [OF s1(2), of k v "default_lifetime s1"] lt by auto
    obtain s3 ps3 where "PurgeExpired s2 = Some s3" "models ps3 s3 (sp_purge_expired (snd (sp_add k v (sp_lifetime a1) a1)))"
      using PurgeExpired_models [OF s2(2)] by blast
    then show ?thesis using s1 s2 v ra by (auto simp: GetAndRefreshOrAdd_def sp_refresh_or_add_def)
  next
    case False
    then show ?thesis using s1 ra by (auto simp: GetAndRefreshOrAdd_def sp_refresh_or_add_def split: option.splits)
  qed
qed

lemma free_Keys_models:
  assumes m: "models ps s a"
  shows "\<exists>s' ps'. free_Keys s = Some (map fst (sp_entries (sp_purge_expired a)), s') \<and> models ps' s' (sp_purge_expired a)"
proof -
  obtain s1 qs where s1: "PurgeExpired s = Some s1" "models qs s1 (sp_purge_expired a)" using PurgeExpired_models [OF m] by blast
  have e: "map fst (sp_entries (sp_purge_expired a)) = map (\<lambda>p. fkey (at s1 p)) qs" using models_entries [OF s1(2)] by (simp add: o_def)
  have h: "valid s1 (fhead s1)" using s1(2) by (simp add: models_def linked_def sizes_ok_def)
  have t: "time_ring s1 qs" "\<forall>x \<in> set qs. valid s1 x" using s1(2) by (simp_all add: models_def linked_def time_inv_def)
  have "keys_loop (unat (flen s1)) (fnext (at s1 (fhead s1))) s1 = Some (map (\<lambda>p. fkey (at s1 p)) qs)"
  proof (cases "qs = []")
    case False
    then show ?thesis using keys_loop_suffix [of s1 "[]" qs] t models_len(1) [OF s1(2)] models_oldest(2) [OF s1(2)] by simp
  qed (simp add: models_len(1) [OF s1(2)])
  then show ?thesis using s1 e h by (auto simp: free_Keys_def elem_at)
qed

lemma free_Purge_models:
  assumes m: "models ps s a"
  shows "\<exists>s' ps'. free_Purge s = Some s' \<and> models ps' s' (sp_drop_all (\<lambda>_. True) a)"
  using removeOldest_times_models [OF m refl] models_len(1) [OF m] by (auto simp: free_Purge_def)

text \<open>The configuration calls.\<close>

lemma set_models:
  assumes m: "models ps s a"
  shows "models ps (SetLifetime d s) (a\<lparr>sp_lifetime := d\<rparr>)" "models ps (SetOnEvict s) (a\<lparr>sp_notify := True\<rparr>)"
    "models ps (SetHealthCheck f s) (a\<lparr>sp_health := Some f\<rparr>)"
proof -
  have l: "linked ps s" using m by (simp add: models_def)
  have "linked ps (SetLifetime d s)" "linked ps (SetOnEvict s)" "linked ps (SetHealthCheck f s)"
    by (rule linked_same [OF l]; simp add: SetLifetime_def SetOnEvict_def SetHealthCheck_def)+
  then show "models ps (SetLifetime d s) (a\<lparr>sp_lifetime := d\<rparr>)" "models ps (SetOnEvict s) (a\<lparr>sp_notify := True\<rparr>)"
    "models ps (SetHealthCheck f s) (a\<lparr>sp_health := Some f\<rparr>)"
    using m by (simp_all add: models_def compact_def abs_spec_def SetLifetime_def SetOnEvict_def SetHealthCheck_def at_def)
qed

datatype ('k, 'v) fcall = FAdd 'k 'v | FAddWithLifetime 'k 'v duration | FGet 'k | FGetNoExpire 'k | FGetAndRefresh 'k |
  FGetAndRefreshOrAdd 'k "'v option" | FPeek 'k | FContains 'k | FUpdateLifetime 'k 'v duration | FRemove 'k | FRemoveOldest |
  FPurgeExpired | FKeys | FPurge | FLen | FResetMetrics | FSetLifetime duration | FSetOnEvict | FSetHealthCheck "'k \<Rightarrow> 'v \<Rightarrow> bool"

datatype ('k, 'v) fres = FBool bool | FValue "('v \<times> 64 word) option" | FRefreshed "'v option" | FMade "('v \<times> bool) option" |
  FOldest "('k \<times> 'v) option" | FKeyList "'k list" | FInt int | FUnit

fun fcall_run :: "('k, 'v) fcall \<Rightarrow> ('k, 'v) free_lru \<Rightarrow> (('k, 'v) fres \<times> ('k, 'v) free_lru) option" where
  "fcall_run (FAdd k v) s = map_option (map_prod FBool id) (free_Add k v s)"
| "fcall_run (FAddWithLifetime k v d) s = map_option (map_prod FBool id) (AddWithLifetime k v d s)"
| "fcall_run (FGet k) s = map_option (map_prod FValue id) (free_Get k s)"
| "fcall_run (FGetNoExpire k) s = map_option (map_prod FValue id) (GetWithLifetimeNoExpire k s)"
| "fcall_run (FGetAndRefresh k) s = map_option (map_prod FRefreshed id) (GetAndRefresh k s)"
| "fcall_run (FGetAndRefreshOrAdd k made) s = map_option (map_prod FMade id) (GetAndRefreshOrAdd k made s)"
| "fcall_run (FPeek k) s = map_option (map_prod FValue id) (free_Peek k s)"
| "fcall_run (FContains k) s = map_option (map_prod FBool id) (free_Contains k s)"
| "fcall_run (FUpdateLifetime k v d) s = map_option (map_prod FBool id) (UpdateLifetime k v d s)"
| "fcall_run (FRemove k) s = map_option (map_prod FBool id) (free_Remove k s)"
| "fcall_run FRemoveOldest s = map_option (map_prod FOldest id) (RemoveOldest s)"
| "fcall_run FPurgeExpired s = map_option (Pair FUnit) (PurgeExpired s)"
| "fcall_run FKeys s = map_option (map_prod FKeyList id) (free_Keys s)"
| "fcall_run FPurge s = map_option (Pair FUnit) (free_Purge s)"
| "fcall_run FLen s = Some (FInt (free_Len s), s)"
| "fcall_run FResetMetrics s = Some (FUnit, snd (ResetMetrics s))"
| "fcall_run (FSetLifetime d) s = Some (FUnit, SetLifetime d s)"
| "fcall_run FSetOnEvict s = Some (FUnit, SetOnEvict s)"
| "fcall_run (FSetHealthCheck f) s = Some (FUnit, SetHealthCheck f s)"

fun fcall_spec :: "('k, 'v) fcall \<Rightarrow> ('k, 'v) cache_spec \<Rightarrow> ('k, 'v) fres \<times> ('k, 'v) cache_spec" where
  "fcall_spec (FAdd k v) a = map_prod FBool id (sp_add k v (sp_lifetime a) a)"
| "fcall_spec (FAddWithLifetime k v d) a = map_prod FBool id (sp_add k v d a)"
| "fcall_spec (FGet k) a = map_prod FValue id (sp_get True k a)"
| "fcall_spec (FGetNoExpire k) a = map_prod FValue id (sp_get False k a)"
| "fcall_spec (FGetAndRefresh k) a = map_prod FRefreshed id (sp_refresh k a)"
| "fcall_spec (FGetAndRefreshOrAdd k made) a = map_prod FMade id (sp_refresh_or_add k made a)"
| "fcall_spec (FPeek k) a = map_prod FValue id (sp_peek k a)"
| "fcall_spec (FContains k) a = map_prod (\<lambda>r. FBool (r \<noteq> None)) id (sp_peek k a)"
| "fcall_spec (FUpdateLifetime k v d) a = map_prod FBool id (sp_update k v d a)"
| "fcall_spec (FRemove k) a = map_prod FBool id (sp_remove k a)"
| "fcall_spec FRemoveOldest a = map_prod FOldest id (sp_remove_oldest a)"
| "fcall_spec FPurgeExpired a = (FUnit, sp_purge_expired a)"
| "fcall_spec FKeys a = (FKeyList (map fst (sp_entries (sp_purge_expired a))), sp_purge_expired a)"
| "fcall_spec FPurge a = (FUnit, sp_drop_all (\<lambda>_. True) a)"
| "fcall_spec FLen a = (FInt (int (length (sp_entries a))), a)"
| "fcall_spec FResetMetrics a = (FUnit, a)"
| "fcall_spec (FSetLifetime d) a = (FUnit, a\<lparr>sp_lifetime := d\<rparr>)"
| "fcall_spec FSetOnEvict a = (FUnit, a\<lparr>sp_notify := True\<rparr>)"
| "fcall_spec (FSetHealthCheck f) a = (FUnit, a\<lparr>sp_health := Some f\<rparr>)"

lemma map_prod_id: "map_prod f id p = (f (fst p), snd p)"
  by (cases p) simp

lemma fcall_models:
  assumes m: "models ps s a"
  shows "\<exists>s' ps'. fcall_run c s = Some (fst (fcall_spec c a), s') \<and> models ps' s' (snd (fcall_spec c a))"
proof (cases c)
  case (FAdd k v)
  have "default_lifetime s = sp_lifetime a" using m by (simp add: models_def)
  then show ?thesis using add_models [OF m, of k v "sp_lifetime a"] FAdd by (auto simp: free_Add_def map_prod_id)
next
  case (FAddWithLifetime k v d)
  then show ?thesis using add_models [OF m, of k v d] by (auto simp: AddWithLifetime_def map_prod_id)
next
  case (FGet k)
  then show ?thesis using free_Get_models(1) [OF m, of k] by (auto simp: map_prod_id)
next
  case (FGetNoExpire k)
  then show ?thesis using free_Get_models(2) [OF m, of k] by (auto simp: map_prod_id)
next
  case (FGetAndRefresh k)
  then show ?thesis using GetAndRefresh_models [OF m, of k] by (auto simp: map_prod_id)
next
  case (FGetAndRefreshOrAdd k made)
  then show ?thesis using GetAndRefreshOrAdd_models [OF m, of k made] by (auto simp: map_prod_id)
next
  case (FPeek k)
  then show ?thesis using free_Peek_models [OF m, of k] by (auto simp: map_prod_id)
next
  case (FContains k)
  then show ?thesis using free_Peek_models [OF m, of k] by (auto simp: map_prod_id free_Contains_def)
next
  case (FUpdateLifetime k v d)
  then show ?thesis using UpdateLifetime_models [OF m, of k v d] by (auto simp: map_prod_id)
next
  case (FRemove k)
  then show ?thesis using free_Remove_models [OF m, of k] by (auto simp: map_prod_id)
next
  case FRemoveOldest
  then show ?thesis using RemoveOldest_models [OF m] by (auto simp: map_prod_id)
next
  case FPurgeExpired
  then show ?thesis using PurgeExpired_models [OF m] by auto
next
  case FKeys
  then show ?thesis using free_Keys_models [OF m] by (auto simp: map_prod_id)
next
  case FPurge
  then show ?thesis using free_Purge_models [OF m] by auto
next
  case FLen
  have "free_Len s = int (unat (flen s))" by (simp add: free_Len_def)
  then have "free_Len s = int (length ps)" using models_len(1) [OF m] by simp
  then show ?thesis using m models_entries [OF m] FLen by auto
next
  case FResetMetrics
  then show ?thesis using m by (auto simp: ResetMetrics_def)
qed (use set_models [OF m] in auto)

fun fcalls_run :: "('k, 'v) fcall list \<Rightarrow> ('k, 'v) free_lru \<Rightarrow> (('k, 'v) fres list \<times> ('k, 'v) free_lru) option" where
  "fcalls_run [] s = Some ([], s)"
| "fcalls_run (c # cs) s = do { (r, s) \<leftarrow> fcall_run c s; (rs, s) \<leftarrow> fcalls_run cs s; Some (r # rs, s) }"

fun fcalls_spec :: "('k, 'v) fcall list \<Rightarrow> ('k, 'v) cache_spec \<Rightarrow> ('k, 'v) fres list \<times> ('k, 'v) cache_spec" where
  "fcalls_spec [] a = ([], a)"
| "fcalls_spec (c # cs) a = (let (r, a) = fcall_spec c a; (rs, a) = fcalls_spec cs a in (r # rs, a))"

lemma fcalls_models:
  "models ps s a \<Longrightarrow> \<exists>s' ps'. fcalls_run cs s = Some (fst (fcalls_spec cs a), s') \<and> models ps' s' (snd (fcalls_spec cs a))"
proof (induction cs arbitrary: ps s a)
  case (Cons c cs)
  obtain s1 ps1 where s1: "fcall_run c s = Some (fst (fcall_spec c a), s1)" "models ps1 s1 (snd (fcall_spec c a))"
    using fcall_models [OF Cons.prems] by blast
  from Cons.IH [OF s1(2)] show ?case using s1(1) by (auto simp: case_prod_beta Let_def)
qed auto

lemma models_new:
  assumes "NewWithSize capacity size' hash k0 v0 clk = Inr s"
  shows "models [] s \<lparr>sp_entries = [], sp_ticks = 0, sp_evicted = [], sp_cap = unat capacity, sp_clock = clk,
    sp_notify = False, sp_health = None, sp_lifetime = 0\<rparr>"
proof -
  have c: "0 < capacity" "size' \<noteq> emptyBucket" "capacity \<le> size'" and s: "s = initLRU capacity size' hash k0 v0 clk"
    using assms by (auto simp: NewWithSize_def word_gt_0 split: if_splits)
  have "0 < size'" using c by simp
  then have "sizes_ok s" using c by (simp add: s sizes_ok_def initLRU_def valid_def word_less_nat_alt)
  moreover have "bucket_inv {} (\<lambda>_. []) s" by (auto simp: bucket_inv_def bvalid_def bk_def s initLRU_def)
  ultimately have "linked [] s" by (auto simp: linked_def time_inv_def keys_inv_def)
  moreover have "compact [] s" by (simp add: compact_def s initLRU_def)
  ultimately show ?thesis by (simp add: models_def abs_spec_def s initLRU_def)
qed

text \<open>C21. The cache refines its specification: for every hash function, clock and sequence of calls on a
  new cache, no call panics or runs forever, the results and the calls of the eviction callback are
  those of a list of entries kept from the least to the most recently used, and at the end the
  ring of elements lists exactly these entries in this order.\<close>

theorem free_lru_refines:
  assumes "NewWithSize capacity size' hash k0 v0 clk = Inr s0"
    and "fcalls_spec cs \<lparr>sp_entries = [], sp_ticks = 0, sp_evicted = [], sp_cap = unat capacity, sp_clock = clk,
      sp_notify = False, sp_health = None, sp_lifetime = 0\<rparr> = (rs, a)"
  shows "\<exists>s ps. fcalls_run cs s0 = Some (rs, s) \<and> fevicted s = sp_evicted a \<and> time_ring s ps \<and> (ps \<noteq> [] \<longrightarrow> fhead s = last ps) \<and>
    map (\<lambda>p. ent (at s p)) ps = sp_entries a"
proof -
  obtain s ps where s: "fcalls_run cs s0 = Some (rs, s)" "models ps s a"
    using fcalls_models [OF models_new [OF assms(1)], of cs] assms(2) by auto
  then show ?thesis by (intro exI [of _ s] exI [of _ ps]) (simp add: models_def linked_def time_inv_def)
qed

theorem free_lru_refines_witness:
  "\<exists>s ps. fcalls_run [FSetOnEvict, FAdd (1::nat) True, FAdd 2 False, FGet 1, FAdd 3 True, FGet 2, FKeys]
      (initLRU 2 2 of_nat 0 False (\<lambda>_. 0)) =
      Some ([FUnit, FBool False, FBool False, FValue (Some (True, 0)), FBool True, FValue None, FKeyList [1, 3]], s) \<and>
    fevicted s = [(2, False)] \<and> time_ring s ps \<and> (ps \<noteq> [] \<longrightarrow> fhead s = last ps) \<and>
    map (\<lambda>p. ent (at s p)) ps = [(1, True, 0, 0), (3, True, 0, 0)]"
proof -
  let ?cs = "[FSetOnEvict, FAdd (1::nat) True, FAdd 2 False, FGet 1, FAdd 3 True, FGet 2, FKeys]"
  let ?a = "\<lparr>sp_entries = [(1::nat, True, 0, 0), (3, True, 0, 0)], sp_ticks = 1, sp_evicted = [(2, False)], sp_cap = unat (2 :: uint32),
      sp_clock = (\<lambda>_. 0), sp_notify = True, sp_health = None, sp_lifetime = 0\<rparr>"
  have new: "NewWithSize 2 2 of_nat (0::nat) False (\<lambda>_. 0) = Inr (initLRU 2 2 of_nat 0 False (\<lambda>_. 0))"
    by (simp add: NewWithSize_def emptyBucket_def)
  have spec: "fcalls_spec ?cs \<lparr>sp_entries = [], sp_ticks = 0, sp_evicted = [], sp_cap = unat (2 :: uint32), sp_clock = (\<lambda>_. 0),
      sp_notify = False, sp_health = None, sp_lifetime = 0\<rparr> =
    ([FUnit, FBool False, FBool False, FValue (Some (True, 0)), FBool True, FValue None, FKeyList [1, 3]], ?a)"
    by (simp add: sp_add_def sp_lookup_def sp_push_def sp_tick_def sp_expiry_def sp_get_def sp_find_def sp_sick_def sp_drop_def
      sp_purge_expired_def sp_drop_all_def sp_expired_def Let_def)
  from free_lru_refines [OF new spec] show ?thesis by simp
qed





end
