(* ===== verification/LinkedHashMap.thy ===== *)
theory LinkedHashMap
  imports LinkedList
begin

text \<open>
  The insertion-ordered map of \<open>common/x/linkedhashmap/map.go\<close> over the linked list, its
  interface \<open>common/x/collections\<close>, and the remaining list operations of
  \<open>common/x/list/cond.go\<close>.
\<close>

section \<open>More list operations\<close>

definition list_Size :: "nat \<Rightarrow> 'v lheap \<Rightarrow> int" where
  "list_Size l h = llen h l"

definition list_IsEmpty :: "nat \<Rightarrow> 'v lheap \<Rightarrow> bool" where
  "list_IsEmpty l h = (llen h l = 0)"

text \<open>\<open>None\<close> as the value is the zero value of the element type.\<close>

definition PopBack :: "nat \<Rightarrow> 'v lheap \<Rightarrow> ('v option \<times> 'v lheap) option" where
  "PopBack l h =
     (if llen h l = 0 then Some (None, h)
      else do { entry \<leftarrow> pv h (Root l); h \<leftarrow> list_remove l entry h; Some (Value (cells h entry), h) })"

definition PopFront :: "nat \<Rightarrow> 'v lheap \<Rightarrow> ('v option \<times> 'v lheap) option" where
  "PopFront l h =
     (if llen h l = 0 then Some (None, h)
      else do { entry \<leftarrow> nx h (Root l); h \<leftarrow> list_remove l entry h; Some (Value (cells h entry), h) })"

text \<open>The loop \<open>for item := l.Front(); item != nil; item = item.Next()\<close> that appends \<open>f\<close> of each value.\<close>

partial_function (option) collect :: "('v \<Rightarrow> 'b) \<Rightarrow> ptr option \<Rightarrow> 'v lheap \<Rightarrow> 'b list \<Rightarrow> 'b list option" where
  "collect f item h result =
     (case item of
        None \<Rightarrow> Some result
      | Some p \<Rightarrow> do { v \<leftarrow> Value (cells h p); collect f (list_Next p h) h (result @ [f v]) })"

declare collect.simps [code]

definition Array :: "nat \<Rightarrow> 'v lheap \<Rightarrow> 'v list option" where
  "Array l h = (if llen h l = 0 then Some [] else collect (\<lambda>v. v) (Front l h) h [])"

section \<open>The map\<close>

record ('k, 'v) map_entry =
  Key :: 'k
  MValue :: 'v

text \<open>The list \<open>raw\<close>, and \<open>rawMap\<close>, which is nil until \<open>init\<close>.\<close>

record 'k lhmap =
  raw :: nat
  rawMap :: "('k \<rightharpoonup> ptr) option"

type_synonym ('k, 'v) lhm_state = "'k lhmap \<times> ('k, 'v) map_entry lheap"

definition lhm_init :: "'k lhmap \<Rightarrow> 'k lhmap" where
  "lhm_init m = (if rawMap m = None then m\<lparr>rawMap := Some Map.empty\<rparr> else m)"

text \<open>Reading a nil map finds nothing.\<close>

definition raw_lookup :: "'k lhmap \<Rightarrow> 'k \<Rightarrow> ptr option" where
  "raw_lookup m k = (case rawMap m of None \<Rightarrow> None | Some f \<Rightarrow> f k)"

text \<open>Assigning to a nil map panics.\<close>

definition raw_assign :: "'k \<Rightarrow> ptr \<Rightarrow> 'k lhmap \<Rightarrow> 'k lhmap option" where
  "raw_assign k p m = map_option (\<lambda>f. m\<lparr>rawMap := Some (f(k \<mapsto> p))\<rparr>) (rawMap m)"

definition raw_delete :: "'k \<Rightarrow> 'k lhmap \<Rightarrow> 'k lhmap" where
  "raw_delete k m = m\<lparr>rawMap := map_option (\<lambda>f. f(k := None)) (rawMap m)\<rparr>"

definition set_value :: "ptr \<Rightarrow> 'v \<Rightarrow> 'v lheap \<Rightarrow> 'v lheap" where
  "set_value p v h = h\<lparr>cells := (cells h)(p := (cells h p)\<lparr>Value := Some v\<rparr>)\<rparr>"

definition lhm_Size :: "('k, 'v) lhm_state \<Rightarrow> int" where
  "lhm_Size s = list_Size (raw (fst s)) (snd s)"

definition lhm_IsEmpty :: "('k, 'v) lhm_state \<Rightarrow> bool" where
  "lhm_IsEmpty s = list_IsEmpty (raw (fst s)) (snd s)"

definition lhm_ContainsKey :: "'k \<Rightarrow> ('k, 'v) lhm_state \<Rightarrow> bool \<times> ('k, 'v) lhm_state" where
  "lhm_ContainsKey key s = (let m = lhm_init (fst s) in (raw_lookup m key \<noteq> None, (m, snd s)))"

definition lhm_Get :: "'k \<Rightarrow> ('k, 'v) lhm_state \<Rightarrow> ('v option \<times> ('k, 'v) lhm_state) option" where
  "lhm_Get key s =
     (let m = lhm_init (fst s); h = snd s in
      case raw_lookup m key of
        Some p \<Rightarrow> do { e \<leftarrow> Value (cells h p); Some (Some (MValue e), (m, h)) }
      | None \<Rightarrow> Some (None, (m, h)))"

text \<open>\<open>None\<close> as the old value is the zero value, returned for a new key.\<close>

definition lhm_Put :: "'k \<Rightarrow> 'v \<Rightarrow> ('k, 'v) lhm_state \<Rightarrow> ('v option \<times> ('k, 'v) lhm_state) option" where
  "lhm_Put key v s =
     (let m = lhm_init (fst s); h = snd s in
      case raw_lookup m key of
        Some p \<Rightarrow> do { e \<leftarrow> Value (cells h p); Some (Some (MValue e), (m, set_value p (e\<lparr>MValue := v\<rparr>) h)) }
      | None \<Rightarrow> do {
          (p, h) \<leftarrow> PushBack (raw m) \<lparr>Key = key, MValue = v\<rparr> h;
          m \<leftarrow> raw_assign key p m;
          Some (None, (m, h))
        })"

definition lhm_Remove :: "'k \<Rightarrow> ('k, 'v) lhm_state \<Rightarrow> (bool \<times> ('k, 'v) lhm_state) option" where
  "lhm_Remove key s =
     (let m = lhm_init (fst s); h = snd s in
      case raw_lookup m key of
        None \<Rightarrow> Some (False, (m, h))
      | Some p \<Rightarrow> do { (_, h) \<leftarrow> list_Remove (raw m) p h; Some (True, (raw_delete key m, h)) })"

text \<open>The loop over \<open>other.Entries()\<close>.\<close>

fun putAll_loop :: "('k, 'v) map_entry list \<Rightarrow> ('k, 'v) lhm_state \<Rightarrow> ('k, 'v) lhm_state option" where
  "putAll_loop [] s = Some s"
| "putAll_loop (item # items) (m, h) =
     (case raw_lookup m (Key item) of
        Some p \<Rightarrow> do { e \<leftarrow> Value (cells h p); putAll_loop items (m, set_value p (e\<lparr>MValue := MValue item\<rparr>) h) }
      | None \<Rightarrow> do {
          (p, h) \<leftarrow> PushBack (raw m) item h;
          m \<leftarrow> raw_assign (Key item) p m;
          putAll_loop items (m, h)
        })"

definition lhm_PutAll :: "('k, 'v) map_entry list \<Rightarrow> ('k, 'v) lhm_state \<Rightarrow> ('k, 'v) lhm_state option" where
  "lhm_PutAll other s = putAll_loop other (lhm_init (fst s), snd s)"

text \<open>\<open>*m = Map{}\<close> resets the root and the length of the list in place.\<close>

definition lhm_Clear :: "('k, 'v) lhm_state \<Rightarrow> ('k, 'v) lhm_state" where
  "lhm_Clear s =
     ((fst s)\<lparr>rawMap := None\<rparr>,
      set_len (raw (fst s)) 0 ((snd s)\<lparr>cells := (cells (snd s))(Root (raw (fst s)) := zero_element)\<rparr>))"

definition lhm_Keys :: "('k, 'v) lhm_state \<Rightarrow> 'k list option" where
  "lhm_Keys s = collect Key (Front (raw (fst s)) (snd s)) (snd s) []"

definition lhm_Values :: "('k, 'v) lhm_state \<Rightarrow> 'v list option" where
  "lhm_Values s = collect MValue (Front (raw (fst s)) (snd s)) (snd s) []"

definition lhm_Entries :: "('k, 'v) lhm_state \<Rightarrow> ('k, 'v) map_entry list option" where
  "lhm_Entries s = collect (\<lambda>e. e) (Front (raw (fst s)) (snd s)) (snd s) []"

text \<open>A zero \<open>Map\<close> with the list \<open>l\<close>.\<close>

definition zero_lhmap :: "nat \<Rightarrow> 'k lhmap" where
  "zero_lhmap l = \<lparr>raw = l, rawMap = None\<rparr>"

section \<open>The interface\<close>

text \<open>
  What \<open>collections.Map\<close> promises: a state stands for a list of entries with distinct keys, in
  the order in which the keys were first put.
\<close>

definition entry_lookup :: "'k \<Rightarrow> ('k, 'v) map_entry list \<Rightarrow> 'v option" where
  "entry_lookup k es = map_option MValue (find (\<lambda>e. Key e = k) es)"

definition entry_put :: "'k \<Rightarrow> 'v \<Rightarrow> ('k, 'v) map_entry list \<Rightarrow> ('k, 'v) map_entry list" where
  "entry_put k v es =
     (if k \<in> Key ` set es then map (\<lambda>e. if Key e = k then e\<lparr>MValue := v\<rparr> else e) es
      else es @ [\<lparr>Key = k, MValue = v\<rparr>])"

definition entry_remove :: "'k \<Rightarrow> ('k, 'v) map_entry list \<Rightarrow> ('k, 'v) map_entry list" where
  "entry_remove k es = filter (\<lambda>e. Key e \<noteq> k) es"

locale collections_map =
  fixes rep :: "'s \<Rightarrow> ('k, 'v) map_entry list \<Rightarrow> bool"
    and get :: "'k \<Rightarrow> 's \<Rightarrow> ('v option \<times> 's) option"
    and put :: "'k \<Rightarrow> 'v \<Rightarrow> 's \<Rightarrow> ('v option \<times> 's) option"
    and remove :: "'k \<Rightarrow> 's \<Rightarrow> (bool \<times> 's) option"
    and entries :: "'s \<Rightarrow> ('k, 'v) map_entry list option"
  assumes rep_distinct: "rep s es \<Longrightarrow> distinct (map Key es)"
    and rep_get: "rep s es \<Longrightarrow> \<exists>s'. get k s = Some (entry_lookup k es, s') \<and> rep s' es"
    and rep_put: "rep s es \<Longrightarrow> \<exists>s'. put k v s = Some (entry_lookup k es, s') \<and> rep s' (entry_put k v es)"
    and rep_remove: "rep s es \<Longrightarrow> \<exists>s'. remove k s = Some (k \<in> Key ` set es, s') \<and> rep s' (entry_remove k es)"
    and rep_entries: "rep s es \<Longrightarrow> entries s = Some es"

lemma entry_lookup_simps [simp]:
  "entry_lookup k [] = None" "entry_lookup k (e # es) = (if Key e = k then Some (MValue e) else entry_lookup k es)"
  by (simp_all add: entry_lookup_def)

lemma entry_lookup_None: "entry_lookup k es = None \<longleftrightarrow> k \<notin> Key ` set es"
  by (induction es) auto

lemma entry_lookup_append: "entry_lookup k (es @ fs) = (case entry_lookup k es of None \<Rightarrow> entry_lookup k fs | Some v \<Rightarrow> Some v)"
  by (induction es) auto

lemma entry_lookup_put: "entry_lookup k (entry_put k' v es) = (if k = k' then Some v else entry_lookup k es)"
proof (cases "k' \<in> Key ` set es")
  case True
  have "entry_lookup k (map (\<lambda>e. if Key e = k' then e\<lparr>MValue := v\<rparr> else e) es) =
      (if k = k' then map_option (\<lambda>_. v) (entry_lookup k es) else entry_lookup k es)"
    by (induction es) auto
  with True entry_lookup_None [of k' es] show ?thesis by (auto simp: entry_put_def)
next
  case False
  then have "entry_lookup k' es = None" by (simp add: entry_lookup_None)
  with False show ?thesis by (auto simp: entry_put_def entry_lookup_append split: option.splits)
qed

lemma entry_lookup_remove: "entry_lookup k (entry_remove k' es) = (if k = k' then None else entry_lookup k es)"
  by (induction es) (auto simp: entry_remove_def)

lemma entry_put_keys: "map Key (entry_put k v es) = (if k \<in> Key ` set es then map Key es else map Key es @ [k])"
  by (auto simp: entry_put_def)

lemma entry_remove_keys: "map Key (entry_remove k es) = filter (\<lambda>k'. k' \<noteq> k) (map Key es)"
  by (simp add: entry_remove_def filter_map comp_def)

context collections_map begin

lemma get_put:
  assumes "rep s es" "put k v s = Some (old, s')"
  shows "\<exists>s''. get k' s' = Some (if k' = k then Some v else entry_lookup k' es, s'')"
proof -
  have "rep s' (entry_put k v es)" using rep_put [OF assms(1), of k v] assms(2) by auto
  from rep_get [OF this, of k'] show ?thesis by (auto simp: entry_lookup_put)
qed

lemma get_remove:
  assumes "rep s es" "remove k s = Some (b, s')"
  shows "\<exists>s''. get k' s' = Some (if k' = k then None else entry_lookup k' es, s'')"
proof -
  have "rep s' (entry_remove k es)" using rep_remove [OF assms(1), of k] assms(2) by auto
  from rep_get [OF this, of k'] show ?thesis by (auto simp: entry_lookup_remove)
qed

lemma put_order:
  assumes "rep s es" "put k v s = Some (old, s')" "entry_lookup k es \<noteq> None"
  shows "\<exists>fs. entries s' = Some fs \<and> map Key fs = map Key es"
proof -
  have "rep s' (entry_put k v es)" using rep_put [OF assms(1), of k v] assms(2) by auto
  moreover have "k \<in> Key ` set es" using assms(3) by (simp add: entry_lookup_None)
  ultimately show ?thesis using rep_entries by (auto simp: entry_put_keys)
qed

end

section \<open>The linked hash map implements it\<close>

text \<open>The representation: the elements of the list hold the entries, and the Go map leads from a
  key to the element with that key.\<close>

definition held :: "'v lheap \<Rightarrow> ptr \<Rightarrow> 'v" where
  "held h p = the (Value (cells h p))"

definition lhm_at :: "ptr list \<Rightarrow> ('k, 'v) lhm_state \<Rightarrow> bool" where
  "lhm_at ps s \<longleftrightarrow> is_list (snd s) (raw (fst s)) ps \<and>
     (\<forall>k p. raw_lookup (fst s) k = Some p \<longleftrightarrow> p \<in> set ps \<and> Key (held (snd s) p) = k)"

definition lhm_rep :: "('k, 'v) lhm_state \<Rightarrow> ('k, 'v) map_entry list \<Rightarrow> bool" where
  "lhm_rep s es \<longleftrightarrow> (\<exists>ps. lhm_at ps s \<and> es = map (held (snd s)) ps)"

lemma lhm_init_simps [simp]: "raw (lhm_init m) = raw m" "raw_lookup (lhm_init m) = raw_lookup m" "rawMap (lhm_init m) \<noteq> None"
  by (auto simp: lhm_init_def raw_lookup_def fun_eq_iff)

lemma lhm_rep_init [simp]: "lhm_rep (lhm_init m, h) es = lhm_rep (m, h) es"
  by (simp add: lhm_rep_def lhm_at_def)

lemma is_list_Value: "is_list h l ps \<Longrightarrow> p \<in> set ps \<Longrightarrow> Value (cells h p) = Some (held h p)"
  by (auto simp: is_list_def lst_def held_def)

lemma is_list_distinct: "is_list h l ps \<Longrightarrow> distinct ps"
  by (auto simp: is_list_def lst_def)

lemma lhm_rep_distinct:
  assumes "lhm_rep (m, h) es"
  shows "distinct (map Key es)"
proof -
  obtain ps where ps: "lhm_at ps (m, h)" "es = map (held h) ps" using assms by (auto simp: lhm_rep_def)
  have "inj_on (\<lambda>p. Key (held h p)) (set ps)" using ps(1) by (intro inj_onI) (metis lhm_at_def fst_conv snd_conv option.inject)
  then show ?thesis using ps is_list_distinct [of h "raw m" ps] by (simp add: distinct_map comp_def lhm_at_def)
qed

lemma lhm_rep_None:
  assumes "lhm_rep (m, h) es" "raw_lookup m k = None"
  shows "k \<notin> Key ` set es"
  using assms by (force simp: lhm_rep_def lhm_at_def)

lemma lhm_rep_Some:
  assumes "lhm_rep (m, h) es" "raw_lookup m k = Some p"
  obtains as bs where "lhm_at (as @ p # bs) (m, h)" "es = map (held h) as @ held h p # map (held h) bs"
    "Value (cells h p) = Some (held h p)" "Key (held h p) = k" "\<forall>q \<in> set (as @ bs). Key (held h q) \<noteq> k"
proof -
  obtain ps where ps: "lhm_at ps (m, h)" "es = map (held h) ps" using assms(1) by (auto simp: lhm_rep_def)
  have p: "p \<in> set ps" "Key (held h p) = k" using ps(1) assms(2) by (auto simp: lhm_at_def)
  then obtain as bs where eq: "ps = as @ p # bs" by (auto dest: split_list)
  have "\<forall>q \<in> set (as @ bs). Key (held h q) \<noteq> k" using lhm_rep_distinct [OF assms(1)] p(2) by (simp add: ps(2) eq comp_def image_iff ball_Un) metis
  with that [of as bs] ps p eq is_list_Value [of h "raw m" ps p] show ?thesis by (simp add: lhm_at_def)
qed

lemma lookup_split: "\<forall>x \<in> set es. Key x \<noteq> k \<Longrightarrow> Key e = k \<Longrightarrow> entry_lookup k (es @ e # fs) = Some (MValue e)"
  by (induction es) auto

lemma put_split:
  "\<forall>x \<in> set (es @ fs). Key x \<noteq> k \<Longrightarrow> Key e = k \<Longrightarrow> entry_put k v (es @ e # fs) = es @ e\<lparr>MValue := v\<rparr> # fs"
  by (auto simp: entry_put_def intro!: map_idI)

lemma remove_split: "\<forall>x \<in> set (es @ fs). Key x \<noteq> k \<Longrightarrow> Key e = k \<Longrightarrow> entry_remove k (es @ e # fs) = es @ fs"
  by (simp add: entry_remove_def)

lemma set_value_simps [simp]:
  "llen (set_value p v h) = llen h" "brk (set_value p v h) = brk h" "nx (set_value p v h) q = nx h q" "pv (set_value p v h) q = pv h q"
  "elist (cells (set_value p v h) q) = elist (cells h q)" "Value (cells (set_value p v h) q) = (if q = p then Some v else Value (cells h q))"
  by (simp_all add: set_value_def)

lemma path_set_value [simp]: "path (set_value p v h) ps = path h ps"
  by (rule path_cong) simp_all

lemma is_list_set_value: "is_list h l ps \<Longrightarrow> is_list (set_value p v h) l ps"
  unfolding is_list_def lst_def by (fastforce simp del: path.simps)

lemma held_set_value: "held (set_value p v h) q = (if q = p then v else held h q)"
  by (simp add: held_def)

lemma rep_set_value:
  assumes "lhm_at (as @ p # bs) (m, h)" "Key v = Key (held h p)"
  shows "lhm_rep (m, set_value p v h) (map (held h) as @ v # map (held h) bs)"
proof -
  have "p \<notin> set (as @ bs)" using assms(1) is_list_distinct by (fastforce simp: lhm_at_def)
  then have "map (held (set_value p v h)) (as @ p # bs) = map (held h) as @ v # map (held h) bs"
    by (auto simp: held_set_value)
  moreover have "lhm_at (as @ p # bs) (m, set_value p v h)"
    using assms by (auto simp: lhm_at_def is_list_set_value held_set_value)
  ultimately show ?thesis by (metis lhm_rep_def snd_conv)
qed

lemma frame_held: "frame l h h' \<Longrightarrow> is_list h l' qs \<Longrightarrow> p \<in> set qs \<Longrightarrow> held h' p = held h p"
  by (simp add: held_def frame_Value)

lemma lhm_rep_push:
  assumes "lhm_rep (m, h) es" "raw_lookup m (Key e) = None" "rawMap m \<noteq> None"
  shows "\<exists>p h' m'. PushBack (raw m) e h = Some (p, h') \<and> raw_assign (Key e) p m = Some m' \<and> lhm_rep (m', h') (es @ [e]) \<and> rawMap m' \<noteq> None"
proof -
  obtain ps where ps: "lhm_at ps (m, h)" "es = map (held h) ps" using assms(1) by (auto simp: lhm_rep_def)
  have l: "is_list h (raw m) ps" using ps(1) by (simp add: lhm_at_def)
  obtain h' where h': "PushBack (raw m) e h = Some (Elem (brk h), h')" "lst h' (raw m) (ps @ [Elem (brk h)])" "frame (raw m) h h'"
    "Value (cells h' (Elem (brk h))) = Some e" by (rule PushBack_lst [OF l])
  obtain f where f: "rawMap m = Some f" using assms(3) by auto
  let ?m = "m\<lparr>rawMap := Some (f(Key e \<mapsto> Elem (brk h)))\<rparr>"
  have n: "Elem (brk h) \<notin> set ps" using h'(2) lst_distinct [OF h'(2)] by auto
  have held: "held h' p = held h p" if "p \<in> set ps" for p by (rule frame_held [OF h'(3) l that])
  have new: "held h' (Elem (brk h)) = e" using h'(4) by (simp add: held_def)
  have look: "raw_lookup ?m k = (if k = Key e then Some (Elem (brk h)) else raw_lookup m k)" for k
    by (simp add: raw_lookup_def f)
  have "lhm_at (ps @ [Elem (brk h)]) (?m, h')"
    unfolding lhm_at_def fst_conv snd_conv
  proof (intro conjI allI)
    fix k p
    have "raw_lookup m k = Some p \<longleftrightarrow> p \<in> set ps \<and> Key (held h p) = k" using ps(1) by (simp add: lhm_at_def)
    with assms(2) n held new show "raw_lookup ?m k = Some p \<longleftrightarrow> p \<in> set (ps @ [Elem (brk h)]) \<and> Key (held h' p) = k"
      unfolding look by auto
  qed (use h'(2) in simp)
  moreover have "map (held h') (ps @ [Elem (brk h)]) = es @ [e]" using held new by (simp add: ps(2))
  ultimately have "lhm_rep (?m, h') (es @ [e])" unfolding lhm_rep_def by (metis snd_conv)
  then show ?thesis using h'(1) by (auto simp: raw_assign_def f)
qed

lemma lhm_rep_delete:
  assumes "lhm_rep (m, h) es" "raw_lookup m k = Some p"
  shows "\<exists>v h'. list_Remove (raw m) p h = Some (v, h') \<and> lhm_rep (raw_delete k m, h') (entry_remove k es)"
proof -
  obtain as bs where as: "lhm_at (as @ p # bs) (m, h)" "es = map (held h) as @ held h p # map (held h) bs"
    "Value (cells h p) = Some (held h p)" "Key (held h p) = k" "\<forall>q \<in> set (as @ bs). Key (held h q) \<noteq> k" by (rule lhm_rep_Some [OF assms])
  have l: "lst h (raw m) (as @ p # bs)" using as(1) by (auto simp: lhm_at_def is_list_def)
  obtain h' where h': "list_Remove (raw m) p h = Some (Value (cells h p), h')" "lst h' (raw m) (as @ bs)" "frame (raw m) h h'"
    by (rule list_Remove_lst [OF l])
  have held: "held h' q = held h q" if "q \<in> set (as @ p # bs)" for q by (rule frame_held [OF h'(3) lst_is_list [OF l] that])
  have p: "p \<notin> set (as @ bs)" using lst_distinct [OF l] by auto
  have "lhm_at (as @ bs) (raw_delete k m, h')"
    unfolding lhm_at_def fst_conv snd_conv
  proof (intro conjI allI)
    fix k' q
    have "raw_lookup m k' = Some q \<longleftrightarrow> q \<in> set (as @ p # bs) \<and> Key (held h q) = k'" using as(1) by (simp add: lhm_at_def)
    moreover have "raw_lookup (raw_delete k m) k' = (if k' = k then None else raw_lookup m k')"
      by (auto simp: raw_lookup_def raw_delete_def split: option.splits)
    ultimately show "raw_lookup (raw_delete k m) k' = Some q \<longleftrightarrow> q \<in> set (as @ bs) \<and> Key (held h' q) = k'"
      using as(4,5) held p by auto
  qed (use h'(2) in \<open>simp add: raw_delete_def\<close>)
  moreover have "map (held h') (as @ bs) = entry_remove k es"
    using held as(2,4,5) remove_split [of "map (held h) as" "map (held h) bs" k "held h p"] by (auto simp: ball_Un)
  ultimately have "lhm_rep (raw_delete k m, h') (entry_remove k es)" unfolding lhm_rep_def by (metis snd_conv)
  with h'(1) show ?thesis by blast
qed

section \<open>The operations on representations\<close>

lemma rep_ContainsKey: "lhm_rep s es \<Longrightarrow> \<exists>s'. lhm_ContainsKey k s = (k \<in> Key ` set es, s') \<and> lhm_rep s' es"
proof -
  assume a: "lhm_rep s es"
  obtain m h where s: "s = (m, h)" by (cases s)
  have "raw_lookup m k \<noteq> None \<longleftrightarrow> k \<in> Key ` set es"
    using lhm_rep_None [OF a [unfolded s]] by (cases "raw_lookup m k") (auto elim!: lhm_rep_Some [OF a [unfolded s]])
  with a show ?thesis by (simp add: lhm_ContainsKey_def s Let_def)
qed

lemma rep_Get: "lhm_rep s es \<Longrightarrow> \<exists>s'. lhm_Get k s = Some (entry_lookup k es, s') \<and> lhm_rep s' es"
proof -
  assume a: "lhm_rep s es"
  obtain m h where s: "s = (m, h)" by (cases s)
  show ?thesis
  proof (cases "raw_lookup m k")
    case None
    with a lhm_rep_None [OF a [unfolded s] None] show ?thesis
      by (simp add: lhm_Get_def s Let_def entry_lookup_None [symmetric])
  next
    case (Some p)
    obtain as bs where as: "es = map (held h) as @ held h p # map (held h) bs" "Value (cells h p) = Some (held h p)"
      "Key (held h p) = k" "\<forall>q \<in> set (as @ bs). Key (held h q) \<noteq> k"
      by (rule lhm_rep_Some [OF a [unfolded s] Some])
    then have "entry_lookup k es = Some (MValue (held h p))" by (auto intro!: lookup_split)
    with a as(2) Some show ?thesis by (simp add: lhm_Get_def s Let_def)
  qed
qed

lemma put_present:
  assumes "lhm_rep (m, h) es" "raw_lookup m k = Some p"
  obtains e where "Value (cells h p) = Some e" "entry_lookup k es = Some (MValue e)"
    "lhm_rep (m, set_value p (e\<lparr>MValue := v\<rparr>) h) (entry_put k v es)"
proof -
  obtain as bs where as: "lhm_at (as @ p # bs) (m, h)" "es = map (held h) as @ held h p # map (held h) bs"
    "Value (cells h p) = Some (held h p)" "Key (held h p) = k" "\<forall>q \<in> set (as @ bs). Key (held h q) \<noteq> k"
    by (rule lhm_rep_Some [OF assms])
  have "entry_put k v es = map (held h) as @ (held h p)\<lparr>MValue := v\<rparr> # map (held h) bs"
    using put_split [of "map (held h) as" "map (held h) bs" k "held h p" v] as(2,4,5) by (auto simp: ball_Un)
  moreover have "entry_lookup k es = Some (MValue (held h p))" using as(2,4,5) by (auto intro!: lookup_split)
  ultimately show ?thesis using that [OF as(3)] rep_set_value [OF as(1), of "(held h p)\<lparr>MValue := v\<rparr>"] by simp
qed

lemma put_absent:
  assumes "lhm_rep (m, h) es" "raw_lookup m k = None" "rawMap m \<noteq> None"
  obtains p h' m' where "PushBack (raw m) \<lparr>Key = k, MValue = v\<rparr> h = Some (p, h')" "raw_assign k p m = Some m'"
    "lhm_rep (m', h') (entry_put k v es)" "rawMap m' \<noteq> None" "entry_lookup k es = None"
proof -
  have "k \<notin> Key ` set es" by (rule lhm_rep_None [OF assms(1,2)])
  then have "entry_put k v es = es @ [\<lparr>Key = k, MValue = v\<rparr>]" "entry_lookup k es = None"
    by (simp_all add: entry_put_def entry_lookup_None)
  with lhm_rep_push [OF assms(1), of "\<lparr>Key = k, MValue = v\<rparr>"] assms(2,3) that show ?thesis by auto
qed

lemma rep_Put: "lhm_rep s es \<Longrightarrow> \<exists>s'. lhm_Put k v s = Some (entry_lookup k es, s') \<and> lhm_rep s' (entry_put k v es)"
proof -
  assume a: "lhm_rep s es"
  obtain m h where s: "s = (m, h)" by (cases s)
  have a': "lhm_rep (lhm_init m, h) es" using a by (simp add: s)
  show ?thesis
  proof (cases "raw_lookup (lhm_init m) k")
    case None
    obtain p h' m' where "PushBack (raw (lhm_init m)) \<lparr>Key = k, MValue = v\<rparr> h = Some (p, h')" "raw_assign k p (lhm_init m) = Some m'"
      "lhm_rep (m', h') (entry_put k v es)" "entry_lookup k es = None"
      by (rule put_absent [OF a' None lhm_init_simps(3)])
    with None show ?thesis by (simp add: lhm_Put_def s Let_def)
  next
    case (Some p)
    obtain e where "Value (cells h p) = Some e" "entry_lookup k es = Some (MValue e)"
      "lhm_rep (lhm_init m, set_value p (e\<lparr>MValue := v\<rparr>) h) (entry_put k v es)"
      by (rule put_present [OF a' Some])
    with Some show ?thesis by (simp add: lhm_Put_def s Let_def)
  qed
qed

lemma rep_Remove: "lhm_rep s es \<Longrightarrow> \<exists>s'. lhm_Remove k s = Some (k \<in> Key ` set es, s') \<and> lhm_rep s' (entry_remove k es)"
proof -
  assume a: "lhm_rep s es"
  obtain m h where s: "s = (m, h)" by (cases s)
  have a': "lhm_rep (lhm_init m, h) es" using a by (simp add: s)
  show ?thesis
  proof (cases "raw_lookup (lhm_init m) k")
    case None
    have k: "k \<notin> Key ` set es" by (rule lhm_rep_None [OF a' None])
    then have "entry_remove k es = es" by (force simp: entry_remove_def filter_id_conv)
    with None k a' show ?thesis by (simp add: lhm_Remove_def s Let_def)
  next
    case (Some p)
    have "k \<in> Key ` set es" by (rule lhm_rep_Some [OF a' Some]) auto
    with Some lhm_rep_delete [OF a' Some] show ?thesis by (auto simp: lhm_Remove_def s Let_def)
  qed
qed

lemma collect_lst:
  assumes "lst h l (us @ qs)"
  shows "collect f (case qs of [] \<Rightarrow> None | q # _ \<Rightarrow> Some q) h acc = Some (acc @ map (\<lambda>p. f (held h p)) qs)"
  using assms
proof (induction qs arbitrary: us acc)
  case Nil
  then show ?case by (subst collect.simps) simp
next
  case (Cons q qs)
  have v: "Value (cells h q) = Some (held h q)" using is_list_Value [OF lst_is_list [OF Cons.prems]] by simp
  have "collect f (list_Next q h) h (acc @ [f (held h q)]) = Some ((acc @ [f (held h q)]) @ map (\<lambda>p. f (held h p)) qs)"
    unfolding lst_Next [OF Cons.prems] by (rule Cons.IH [of "us @ [q]"]) (use Cons.prems in simp)
  with v show ?case by (subst collect.simps) simp
qed

lemma collect_is_list: "is_list h l ps \<Longrightarrow> collect f (Front l h) h [] = Some (map (\<lambda>p. f (held h p)) ps)"
  using collect_lst [of h l "[]" ps f "[]"] by (auto simp: is_list_Front is_list_def collect.simps [of f None])

lemma rep_listings:
  assumes "lhm_rep s es"
  shows "lhm_Entries s = Some es" "lhm_Keys s = Some (map Key es)" "lhm_Values s = Some (map MValue es)"
    "lhm_Size s = int (length es)" "lhm_IsEmpty s = (es = [])"
proof -
  obtain ps where ps: "is_list (snd s) (raw (fst s)) ps" "es = map (held (snd s)) ps"
    using assms by (auto simp: lhm_rep_def lhm_at_def)
  note c = collect_is_list [OF ps(1)]
  show "lhm_Entries s = Some es" "lhm_Keys s = Some (map Key es)" "lhm_Values s = Some (map MValue es)"
    by (simp_all add: lhm_Entries_def lhm_Keys_def lhm_Values_def c ps(2))
  show "lhm_Size s = int (length es)" "lhm_IsEmpty s = (es = [])"
    using is_list_Len [OF ps(1)] by (simp_all add: lhm_Size_def lhm_IsEmpty_def list_Size_def list_IsEmpty_def list_Len_def ps(2))
qed

interpretation lhm: collections_map lhm_rep lhm_Get lhm_Put lhm_Remove lhm_Entries
proof
  show "distinct (map Key es)" if "lhm_rep s es" for s :: "('a, 'b) lhm_state" and es
    using lhm_rep_distinct that by (cases s) blast
qed (rule rep_Get rep_Put rep_Remove rep_listings(1), assumption)+

lemma rep_PutAll_loop:
  "lhm_rep (m, h) es \<Longrightarrow> rawMap m \<noteq> None \<Longrightarrow>
   \<exists>s'. putAll_loop items (m, h) = Some s' \<and> lhm_rep s' (fold (\<lambda>e. entry_put (Key e) (MValue e)) items es)"
proof (induction items arbitrary: m h es)
  case (Cons item items)
  have eta: "item = \<lparr>Key = Key item, MValue = MValue item\<rparr>" by simp
  show ?case
  proof (cases "raw_lookup m (Key item)")
    case None
    obtain p h' m' where "PushBack (raw m) \<lparr>Key = Key item, MValue = MValue item\<rparr> h = Some (p, h')" "raw_assign (Key item) p m = Some m'"
      "lhm_rep (m', h') (entry_put (Key item) (MValue item) es)" "rawMap m' \<noteq> None"
      by (rule put_absent [OF Cons.prems(1) None Cons.prems(2)])
    with None Cons.IH show ?thesis by (simp add: eta [symmetric])
  next
    case (Some p)
    obtain e where "Value (cells h p) = Some e" "lhm_rep (m, set_value p (e\<lparr>MValue := MValue item\<rparr>) h) (entry_put (Key item) (MValue item) es)"
      by (rule put_present [OF Cons.prems(1) Some])
    with Some Cons show ?thesis by simp
  qed
qed simp

lemma rep_PutAll:
  "lhm_rep s es \<Longrightarrow> \<exists>s'. lhm_PutAll items s = Some s' \<and> lhm_rep s' (fold (\<lambda>e. entry_put (Key e) (MValue e)) items es)"
  using rep_PutAll_loop [of "lhm_init (fst s)" "snd s" es items] by (simp add: lhm_PutAll_def)

lemma rep_zero: "rawMap m = None \<Longrightarrow> is_list h (raw m) [] \<Longrightarrow> lhm_rep (m, h) []"
  by (auto simp: lhm_rep_def lhm_at_def raw_lookup_def)

lemma rep_Clear: "lhm_rep (lhm_Clear s) []"
  by (auto intro!: rep_zero simp: lhm_Clear_def is_list_def zero_element_def)

section \<open>Properties\<close>

text \<open>The calls of the interface, their results, and what the specification answers.\<close>

datatype ('k, 'v) map_op =
    OpContainsKey 'k | OpGet 'k | OpPut 'k 'v | OpRemove 'k | OpPutAll "('k, 'v) map_entry list" | OpClear
  | OpSize | OpIsEmpty | OpKeys | OpValues | OpEntries

datatype ('k, 'v) map_out =
    OutBool bool | OutValue "'v option" | OutNone | OutInt int | OutKeys "'k list" | OutValues "'v list" | OutEntries "('k, 'v) map_entry list"

fun lhm_step :: "('k, 'v) map_op \<Rightarrow> ('k, 'v) lhm_state \<Rightarrow> (('k, 'v) map_out \<times> ('k, 'v) lhm_state) option" where
  "lhm_step (OpContainsKey k) s = Some (apfst OutBool (lhm_ContainsKey k s))"
| "lhm_step (OpGet k) s = map_option (apfst OutValue) (lhm_Get k s)"
| "lhm_step (OpPut k v) s = map_option (apfst OutValue) (lhm_Put k v s)"
| "lhm_step (OpRemove k) s = map_option (apfst OutBool) (lhm_Remove k s)"
| "lhm_step (OpPutAll es) s = map_option (Pair OutNone) (lhm_PutAll es s)"
| "lhm_step OpClear s = Some (OutNone, lhm_Clear s)"
| "lhm_step OpSize s = Some (OutInt (lhm_Size s), s)"
| "lhm_step OpIsEmpty s = Some (OutBool (lhm_IsEmpty s), s)"
| "lhm_step OpKeys s = map_option (\<lambda>x. (OutKeys x, s)) (lhm_Keys s)"
| "lhm_step OpValues s = map_option (\<lambda>x. (OutValues x, s)) (lhm_Values s)"
| "lhm_step OpEntries s = map_option (\<lambda>x. (OutEntries x, s)) (lhm_Entries s)"

fun map_step :: "('k, 'v) map_op \<Rightarrow> ('k, 'v) map_entry list \<Rightarrow> ('k, 'v) map_out \<times> ('k, 'v) map_entry list" where
  "map_step (OpContainsKey k) es = (OutBool (k \<in> Key ` set es), es)"
| "map_step (OpGet k) es = (OutValue (entry_lookup k es), es)"
| "map_step (OpPut k v) es = (OutValue (entry_lookup k es), entry_put k v es)"
| "map_step (OpRemove k) es = (OutBool (k \<in> Key ` set es), entry_remove k es)"
| "map_step (OpPutAll items) es = (OutNone, fold (\<lambda>e. entry_put (Key e) (MValue e)) items es)"
| "map_step OpClear es = (OutNone, [])"
| "map_step OpSize es = (OutInt (int (length es)), es)"
| "map_step OpIsEmpty es = (OutBool (es = []), es)"
| "map_step OpKeys es = (OutKeys (map Key es), es)"
| "map_step OpValues es = (OutValues (map MValue es), es)"
| "map_step OpEntries es = (OutEntries es, es)"

fun lhm_run :: "('k, 'v) map_op list \<Rightarrow> ('k, 'v) lhm_state \<Rightarrow> ('k, 'v) map_out list option" where
  "lhm_run [] s = Some []"
| "lhm_run (op # ops) s = do { (out, s) \<leftarrow> lhm_step op s; outs \<leftarrow> lhm_run ops s; Some (out # outs) }"

fun map_run :: "('k, 'v) map_op list \<Rightarrow> ('k, 'v) map_entry list \<Rightarrow> ('k, 'v) map_out list" where
  "map_run [] es = []"
| "map_run (op # ops) es = fst (map_step op es) # map_run ops (snd (map_step op es))"

lemma lhm_step_rep:
  assumes "lhm_rep s es"
  shows "\<exists>s'. lhm_step op s = Some (fst (map_step op es), s') \<and> lhm_rep s' (snd (map_step op es))"
proof (cases op)
  case (OpContainsKey k) with rep_ContainsKey [OF assms, of k] show ?thesis by auto
next
  case (OpGet k) with rep_Get [OF assms, of k] show ?thesis by auto
next
  case (OpPut k v) with rep_Put [OF assms, of k v] show ?thesis by auto
next
  case (OpRemove k) with rep_Remove [OF assms, of k] show ?thesis by auto
next
  case (OpPutAll items) with rep_PutAll [OF assms, of items] show ?thesis by auto
qed (use assms in \<open>simp_all add: rep_listings rep_Clear\<close>)

lemma lhm_run_rep: "lhm_rep s es \<Longrightarrow> lhm_run ops s = Some (map_run ops es)"
proof (induction ops arbitrary: s es)
  case (Cons op ops)
  obtain s' where "lhm_step op s = Some (fst (map_step op es), s')" "lhm_rep s' (snd (map_step op es))"
    using lhm_step_rep [OF Cons.prems] by blast
  with Cons.IH show ?case by simp
qed simp

text \<open>
  C31. A linked hash map is a map that remembers the order of insertion: for any sequence of
  calls on a zero \<open>Map\<close> no call panics, and every result (old values, lookups, sizes, listings
  in insertion order) is the one of the list of entries in which \<open>Put\<close> overwrites in place or
  appends, and \<open>Remove\<close> deletes.
\<close>

theorem linkedhashmap_refines:
  "lhm_run ops (zero_lhmap l, empty_lheap) = Some (map_run ops [])"
  by (rule lhm_run_rep) (auto intro!: rep_zero simp: zero_lhmap_def is_list_def empty_lheap_def zero_element_def)

text \<open>\<open>PopBack\<close>, \<open>PopFront\<close> and \<open>Array\<close> on the sequence of values.\<close>

lemma list_remove_Remove: "elist (cells h e) = Some l \<Longrightarrow> list_Remove l e h = map_option (\<lambda>h. (Value (cells h e), h)) (list_remove l e h)"
  by (cases "list_remove l e h") (simp_all add: list_Remove_def)

lemma PopBack_lst:
  assumes "lst h l (ps @ [p])"
  shows "\<exists>h'. PopBack l h = Some (Some (held h p), h') \<and> lst h' l ps \<and> (\<forall>q \<in> set ps. held h' q = held h q)"
proof -
  obtain h' where h': "list_Remove l p h = Some (Value (cells h p), h')" "lst h' l (ps @ [])" "frame l h h'"
    using list_Remove_lst [OF assms] by metis
  have "elist (cells h p) = Some l" "Value (cells h p) = Some (held h p)"
    using assms is_list_Value [OF lst_is_list [OF assms], of p] by (auto simp: lst_elist)
  then have "PopBack l h = list_Remove l p h"
    using lst_ends(2) [OF assms] assms by (cases "list_remove l p h") (simp_all add: PopBack_def list_remove_Remove lst_def)
  moreover have "\<forall>q \<in> set ps. held h' q = held h q" using frame_held [OF h'(3) lst_is_list [OF assms]] by simp
  ultimately show ?thesis using h' \<open>Value (cells h p) = Some (held h p)\<close> by simp
qed

lemma PopFront_lst:
  assumes "lst h l (p # ps)"
  shows "\<exists>h'. PopFront l h = Some (Some (held h p), h') \<and> lst h' l ps \<and> (\<forall>q \<in> set ps. held h' q = held h q)"
proof -
  obtain h' where h': "list_Remove l p h = Some (Value (cells h p), h')" "lst h' l ([] @ ps)" "frame l h h'"
    using list_Remove_lst [of h l "[]" p ps] assms by auto
  have "elist (cells h p) = Some l" "Value (cells h p) = Some (held h p)"
    using assms is_list_Value [OF lst_is_list [OF assms], of p] by (auto simp: lst_elist)
  then have "PopFront l h = list_Remove l p h"
    using lst_ends(1) [OF assms] assms by (cases "list_remove l p h") (simp_all add: PopFront_def list_remove_Remove lst_def)
  moreover have "\<forall>q \<in> set ps. held h' q = held h q" using frame_held [OF h'(3) lst_is_list [OF assms]] by simp
  ultimately show ?thesis using h' \<open>Value (cells h p) = Some (held h p)\<close> by simp
qed

lemma Array_lst: "is_list h l ps \<Longrightarrow> Array l h = Some (map (held h) ps)"
  using collect_is_list [of h l ps "\<lambda>v. v"] is_list_Len [of h l ps] by (simp add: Array_def list_Len_def)

end
