(* ===== verification/Ranges.thy ===== *)
theory Ranges
  imports Prelude "HOL-Library.Multiset"
begin

text \<open>
  The integer ranges of \<open>common/ranges/range.go\<close>, for an unsigned integer type of any width:
  \<open>End+1\<close> and \<open>Start-1\<close> wrap around. \<open>Merge\<close> works in place: \<open>mergedRanges\<close> is the prefix
  \<open>ranges[:1]\<close> of the slice it reads, and \<open>append\<close> writes into the same array, which the
  model keeps. \<open>sort.Slice\<close> is not stable, so the sorting function is an argument.
\<close>

section \<open>Ranges\<close>

record 'n irange =
  RStart :: 'n
  REnd :: 'n

definition range_New :: "'w::len word \<Rightarrow> 'w word \<Rightarrow> 'w word irange" where
  "range_New s e = \<lparr>RStart = s, REnd = e\<rparr>"


section \<open>Merge\<close>

text \<open>The loop over \<open>ranges[1:]\<close>: the array, the length \<open>k\<close> of \<open>mergedRanges\<close>, \<open>rangeIndex\<close> and
  the position.\<close>

function merge_loop :: "('w::len word) irange list \<Rightarrow> nat \<Rightarrow> 'w word \<Rightarrow> nat \<Rightarrow> ('w word irange list \<times> nat) option" where
  "merge_loop arr k rangeIndex i =
     (if i < length arr then do {
        let r = arr ! i;
        m \<leftarrow> go_index (take k arr) (uint rangeIndex);
        if RStart r > REnd m + 1 then merge_loop (arr[k := r]) (k + 1) (rangeIndex + 1) (i + 1)
        else if REnd r > REnd m then merge_loop (arr[unat rangeIndex := m\<lparr>REnd := REnd r\<rparr>]) k rangeIndex (i + 1)
        else merge_loop arr k rangeIndex (i + 1)
      } else Some (arr, k))"
  by pat_completeness auto
termination by (relation "measure (\<lambda>(arr, k, j, i). length arr - i)") auto

declare merge_loop.simps [simp del]

definition Merge :: "(('w::len word) irange list \<Rightarrow> 'w word irange list) \<Rightarrow> 'w word irange list \<Rightarrow> 'w word irange list option" where
  "Merge sort_slice ranges =
     (if ranges = [] then Some []
      else do { (arr, k) \<leftarrow> merge_loop (sort_slice ranges) 1 0 1; Some (take k arr) })"

section \<open>Revert\<close>

fun revert_loop :: "('w::len word) irange list \<Rightarrow> 'w word \<Rightarrow> 'w word irange list \<Rightarrow> 'w word irange list \<times> 'w word" where
  "revert_loop reverted rangeEnd [] = (reverted, rangeEnd)"
| "revert_loop reverted rangeEnd (r # rs) =
     revert_loop (if RStart r > rangeEnd + 1 then reverted @ [\<lparr>RStart = rangeEnd + 1, REnd = RStart r - 1\<rparr>] else reverted)
       (REnd r) rs"

definition Revert ::
  "(('w::len word) irange list \<Rightarrow> 'w word irange list) \<Rightarrow> 'w word \<Rightarrow> 'w word \<Rightarrow> 'w word irange list \<Rightarrow> 'w word irange list option" where
  "Revert sort_slice start finish ranges =
     (if ranges = [] then Some []
      else do {
        ranges \<leftarrow> Merge sort_slice ranges;
        case ranges of [] \<Rightarrow> None | r # rs \<Rightarrow>
          let reverted = (if RStart r > start then [\<lparr>RStart = start, REnd = RStart r - 1\<rparr>] else []);
              (reverted, rangeEnd) = revert_loop reverted (REnd r) rs
          in Some (if finish > rangeEnd then reverted @ [\<lparr>RStart = rangeEnd + 1, REnd = finish\<rparr>] else reverted)
      })"

section \<open>Exclude\<close>

text \<open>The loop, with its variables \<open>mergedRanges\<close>, \<open>rangeIndex\<close>, \<open>rangeEnd\<close>, \<open>ranges\<close>,
  \<open>targetStart\<close>, \<open>targetEnd\<close> and \<open>targetRanges\<close>.\<close>

partial_function (option) exclude_loop ::
  "('w::len word) irange list \<Rightarrow> 'w word \<Rightarrow> 'w word \<Rightarrow> 'w word irange list \<Rightarrow> 'w word \<Rightarrow> 'w word \<Rightarrow> 'w word irange list \<Rightarrow>
   ('w word irange list \<times> 'w word \<times> 'w word \<times> 'w word irange list) option" where
  "exclude_loop merged rangeIndex rangeEnd ranges targetStart targetEnd targets =
     (if targetStart > rangeEnd then
        let merged = (if rangeIndex \<le> rangeEnd then merged @ [\<lparr>RStart = rangeIndex, REnd = rangeEnd\<rparr>] else merged) in
        case ranges of
          [] \<Rightarrow> Some (merged, rangeIndex, rangeEnd, ranges)
        | r # rs \<Rightarrow> exclude_loop merged (RStart r) (REnd r) rs targetStart targetEnd targets
      else
        let (merged, rangeIndex) =
          (if targetStart > rangeIndex
           then (merged @ [\<lparr>RStart = rangeIndex, REnd = targetStart - 1\<rparr>], targetStart + 1)
           else (merged, rangeIndex))
        in if targetEnd \<le> rangeEnd then
             case targets of
               [] \<Rightarrow> Some (merged, targetEnd + 1, rangeEnd, ranges)
             | t # ts \<Rightarrow> exclude_loop merged (targetEnd + 1) rangeEnd ranges (RStart t) (REnd t) ts
           else exclude_loop merged rangeIndex rangeEnd ranges targetStart targetEnd targets)"

declare exclude_loop.simps [code]

definition Exclude ::
  "(('w::len word) irange list \<Rightarrow> 'w word irange list) \<Rightarrow> 'w word irange list \<Rightarrow> 'w word irange list \<Rightarrow> 'w word irange list option" where
  "Exclude sort_slice ranges targetRanges = do {
     ranges \<leftarrow> Merge sort_slice ranges;
     case ranges of [] \<Rightarrow> Some [] | r # rs \<Rightarrow> do {
     targets \<leftarrow> Merge sort_slice targetRanges;
     case targets of [] \<Rightarrow> Some (r # rs) | t # ts \<Rightarrow> do {
     (merged, rangeIndex, rangeEnd, rs) \<leftarrow> exclude_loop [] (RStart r) (REnd r) rs (RStart t) (REnd t) ts;
     let merged = (if rangeIndex \<le> rangeEnd then merged @ [\<lparr>RStart = rangeIndex, REnd = rangeEnd\<rparr>] else merged);
     Merge sort_slice (merged @ rs)
   }}}"

section \<open>Sorting\<close>

text \<open>What the code relies on of \<open>sort.Slice\<close> with the order on \<open>Start\<close>.\<close>

locale slice_sort =
  fixes sort_slice :: "('w::len word) irange list \<Rightarrow> 'w word irange list"
  assumes sort_perm: "mset (sort_slice rs) = mset rs"
    and sort_sorted: "sorted (map RStart (sort_slice rs))"

interpretation stable: slice_sort "sort_key RStart"
  by unfold_locales simp_all

section \<open>Sets of integers\<close>

definition members :: "('w::len word) irange list \<Rightarrow> 'w word set" where
  "members rs = (\<Union>r \<in> set rs. {RStart r .. REnd r})"

text \<open>Not empty, and not ending at the largest integer, where \<open>End+1\<close> wraps.\<close>

definition valid_range :: "('w::len word) irange \<Rightarrow> bool" where
  "valid_range r \<longleftrightarrow> RStart r \<le> REnd r \<and> REnd r \<noteq> - 1"

text \<open>Disjoint, in order, and with gaps between them.\<close>

definition canonical :: "('w::len word) irange list \<Rightarrow> bool" where
  "canonical rs \<longleftrightarrow> (\<forall>r \<in> set rs. valid_range r) \<and> sorted_wrt (\<lambda>a b. REnd a + 1 < RStart b) rs"

lemma members_simps [simp]:
  "members [] = {}" "members (r # rs) = {RStart r .. REnd r} \<union> members rs" "members (rs @ ss) = members rs \<union> members ss"
  by (auto simp: members_def)

lemma members_mset: "mset rs = mset ss \<Longrightarrow> members rs = members ss"
  unfolding members_def by (metis set_mset_mset)

lemma unat_succ:
  fixes x :: "'w::len word"
  assumes "x \<noteq> - 1"
  shows "unat (x + 1) = unat x + 1"
proof -
  have "unat x \<noteq> unat (- 1 :: 'w word)" using assms by (simp add: word_unat_eq_iff)
  then have "unat x \<noteq> 2 ^ LENGTH('w) - 1" by (simp add: unsigned_minus_1_eq_mask mask_eq_exp_minus_1)
  moreover have "unat x < 2 ^ LENGTH('w)" by (rule unsigned_less)
  ultimately have "unat x + 1 < 2 ^ LENGTH('w)" by linarith
  then show ?thesis by (simp add: unat_word_ariths)
qed

lemma unat_pred: "0 < y \<Longrightarrow> unat (y - 1) + 1 = unat y" for y :: "'w::len word"
  by (metis Suc_pred' add.commute plus_1_eq_Suc unat_gt_0 unat_minus_one word_neq_0_conv)

lemma succ_le: "x \<noteq> - 1 \<Longrightarrow> x + 1 \<le> y \<longleftrightarrow> x < y" for x y :: "'w::len word"
  by (simp add: word_le_nat_alt word_less_nat_alt unat_succ Suc_le_eq)

lemma succ_less: "x \<noteq> - 1 \<Longrightarrow> y < x + 1 \<longleftrightarrow> y \<le> x" for x y :: "'w::len word"
  by (simp add: word_le_nat_alt word_less_nat_alt unat_succ less_Suc_eq_le)

lemma le_pred: "0 < y \<Longrightarrow> x \<le> y - 1 \<longleftrightarrow> x < y" for x y :: "'w::len word"
  using unat_pred [of y] by (auto simp: word_le_nat_alt word_less_nat_alt)

lemma interval_succ: "x \<noteq> - 1 \<Longrightarrow> {x + 1 .. y} = {z. x < z \<and> z \<le> y}" for x y :: "'w::len word"
  by (simp only: set_eq_iff atLeastAtMost_iff mem_Collect_eq succ_le simp_thms)

lemma interval_pred: "0 < y \<Longrightarrow> {x .. y - 1} = {z. x \<le> z \<and> z < y}" for x y :: "'w::len word"
  by (simp only: set_eq_iff atLeastAtMost_iff mem_Collect_eq le_pred simp_thms)

section \<open>Merging\<close>

definition merge_step :: "('w::len word) irange list \<Rightarrow> 'w word irange \<Rightarrow> 'w word irange list" where
  "merge_step acc r =
     (let m = last acc in
      if RStart r > REnd m + 1 then acc @ [r]
      else if REnd r > REnd m then butlast acc @ [m\<lparr>REnd := REnd r\<rparr>]
      else acc)"

lemma canonical_snoc:
  "canonical (as @ [m]) \<longleftrightarrow> canonical as \<and> valid_range m \<and> (\<forall>a \<in> set as. REnd a + 1 < RStart m)"
  by (auto simp: canonical_def sorted_wrt_append)

lemma merge_step_inv:
  assumes "acc \<noteq> []" "canonical acc" "valid_range r" "RStart (last acc) \<le> RStart r"
  shows "merge_step acc r \<noteq> []" "canonical (merge_step acc r)" "members (merge_step acc r) = members acc \<union> {RStart r .. REnd r}"
    "RStart (last (merge_step acc r)) \<le> RStart r"
proof -
  obtain as m where acc: "acc = as @ [m]" using assms(1) by (metis append_butlast_last_id)
  have m: "RStart m \<le> REnd m" "REnd m \<noteq> - 1" "RStart r \<le> REnd r" "REnd r \<noteq> - 1" "RStart m \<le> RStart r"
    using assms by (auto simp: acc canonical_snoc valid_range_def)
  have before: "\<forall>a \<in> set as. REnd a + 1 < RStart m" using assms(2) by (simp add: acc canonical_snoc)
  show "merge_step acc r \<noteq> []" by (simp add: merge_step_def acc Let_def)
  show "RStart (last (merge_step acc r)) \<le> RStart r" using m by (simp add: merge_step_def acc Let_def)
  show "canonical (merge_step acc r)"
  proof (cases "RStart r > REnd m + 1")
    case True
    moreover have "\<forall>a \<in> set as. REnd a + 1 < RStart r" using before m(5) by (auto intro: less_le_trans)
    ultimately show ?thesis using assms(2,3) canonical_snoc [of "as @ [m]" r] by (simp add: merge_step_def acc Let_def)
  next
    case False
    then show ?thesis using assms(2) m by (auto simp: merge_step_def acc Let_def canonical_snoc valid_range_def)
  qed
  have "{RStart m .. REnd m} \<union> {RStart r .. REnd r} = {RStart m .. REnd r}" if "\<not> RStart r > REnd m + 1" "REnd r > REnd m"
  proof -
    have "x \<le> REnd m" if "x < RStart r" for x
      using less_le_trans [OF that leI [OF \<open>\<not> RStart r > REnd m + 1\<close>]] succ_less [OF m(2), of x] by simp
    then show ?thesis using m that(2) by (auto simp: not_le)
  qed
  moreover have "{RStart r .. REnd r} \<subseteq> {RStart m .. REnd m}" if "\<not> REnd r > REnd m" using that m by auto
  ultimately show "members (merge_step acc r) = members acc \<union> {RStart r .. REnd r}"
    by (auto simp: merge_step_def acc Let_def)
qed

lemma canonical_starts: "canonical rs \<Longrightarrow> sorted_wrt (<) (map RStart rs)"
  unfolding canonical_def sorted_wrt_map
proof (elim conjE)
  assume v: "\<forall>r \<in> set rs. valid_range r" and s: "sorted_wrt (\<lambda>a b. REnd a + 1 < RStart b) rs"
  show "sorted_wrt (\<lambda>a b. RStart a < RStart b) rs"
  proof (rule sorted_wrt_mono_rel [OF _ s])
    fix a b assume "a \<in> set rs" "b \<in> set rs" "REnd a + 1 < RStart b"
    moreover from this have "RStart a \<le> REnd a" "REnd a \<noteq> - 1" using v by (auto simp: valid_range_def)
    ultimately show "RStart a < RStart b" using succ_le [of "REnd a" "RStart b"] by auto
  qed
qed

lemma canonical_length:
  fixes rs :: "('w::len word) irange list"
  assumes "canonical rs"
  shows "length rs < 2 ^ LENGTH('w)"
proof -
  have "distinct (map RStart rs)" using canonical_starts [OF assms] by (simp add: strict_sorted_iff)
  then have "length rs = card (set (map RStart rs))" by (metis distinct_card length_map)
  also have "RStart r \<noteq> - 1" if "r \<in> set rs" for r
    using assms that antisym [OF word_n1_ge [of "REnd r"]] by (auto simp: canonical_def valid_range_def)
  then have "- 1 \<notin> set (map RStart rs)" by (metis imageE list.set_map)
  then have "set (map RStart rs) \<subset> UNIV" by blast
  then have "card (set (map RStart rs)) < card (UNIV :: 'w word set)" by (rule psubset_card_mono [OF finite])
  also have "card (UNIV :: 'w word set) = 2 ^ LENGTH('w)" by (rule card_word)
  finally show ?thesis .
qed

lemma merge_loop_fold:
  fixes arr :: "('w::len word) irange list"
  assumes "0 < k" "k \<le> i" "i \<le> length arr" "unat rangeIndex = k - 1" "canonical (take k arr)"
    "\<forall>r \<in> set (drop i arr). valid_range r" "sorted (map RStart (last (take k arr) # drop i arr))"
  shows "\<exists>arr' k'. merge_loop arr k rangeIndex i = Some (arr', k') \<and> take k' arr' = foldl merge_step (take k arr) (drop i arr)"
  using assms
proof (induction arr k rangeIndex i rule: merge_loop.induct)
  case (1 arr k rangeIndex i)
  show ?case
  proof (cases "i < length arr")
    case False
    with 1 show ?thesis by (subst merge_loop.simps) simp
  next
    case True
    let ?r = "arr ! i" and ?m = "arr ! (k - 1)"
    have rest: "drop i arr = ?r # drop (i + 1) arr" using True by (simp add: Cons_nth_drop_Suc)
    have k: "k < length arr" using True 1 by simp
    have m: "last (take k arr) = ?m" "take k arr = take (k - 1) arr @ [?m]"
      using k 1(4) take_Suc_conv_app_nth [of "k - 1" arr] by simp_all
    have idx: "go_index (take k arr) (uint rangeIndex) = Some ?m"
    proof -
      have "nat (uint rangeIndex) = k - 1" using 1(7) by simp
      moreover have "uint rangeIndex < int (length (take k arr))" using k 1(4,7) by (simp add: uint_nat)
      ultimately show ?thesis using k 1(4) by (simp add: go_index_def)
    qed
    have v: "valid_range ?r" "RStart ?m \<le> RStart ?r" using 1(9,10) rest m(1) by auto
    have inv: "canonical (merge_step (take k arr) ?r)" "RStart (last (merge_step (take k arr) ?r)) \<le> RStart ?r"
      using merge_step_inv(2,4) [OF _ 1(8) v(1)] v(2) m by simp_all
    have srt: "sorted (map RStart (?r # drop (i + 1) arr))" using 1(10) rest by simp
    have later: "\<forall>r \<in> set (drop (i + 1) arr). valid_range r" using 1(9) rest by simp
    have sorted': "sorted (map RStart (last (merge_step (take k arr) ?r) # drop (i + 1) arr))"
      using srt inv(2) by auto
    have fold: "foldl merge_step (take k arr) (drop i arr) = foldl merge_step (merge_step (take k arr) ?r) (drop (i + 1) arr)"
      by (simp add: rest)
    consider (app) "RStart ?r > REnd ?m + 1" | (grow) "\<not> RStart ?r > REnd ?m + 1" "REnd ?r > REnd ?m"
      | (skip) "\<not> RStart ?r > REnd ?m + 1" "\<not> REnd ?r > REnd ?m" by blast
    then show ?thesis
    proof cases
      case app
      then have st: "merge_step (take k arr) ?r = take (k + 1) (arr[k := ?r])"
        using k m by (simp add: merge_step_def Let_def take_Suc_conv_app_nth)
      have d: "drop (i + 1) (arr[k := ?r]) = drop (i + 1) arr" using 1(5) by simp
      have "k + 1 < 2 ^ LENGTH('w)" using canonical_length [OF inv(1)] k by (simp add: st)
      then have "unat (rangeIndex + 1) = k + 1 - 1"
        using 1(4,7) by (simp add: unat_word_ariths)
      from 1(1) [OF True refl idx app _ _ _ this] 1(5) True inv(1) later sorted' st d have
        "\<exists>arr' k'. merge_loop (arr[k := ?r]) (k + 1) (rangeIndex + 1) (i + 1) = Some (arr', k') \<and>
          take k' arr' = foldl merge_step (take (k + 1) (arr[k := ?r])) (drop (i + 1) (arr[k := ?r]))" by simp
      then show ?thesis unfolding fold st using True idx app d by (subst merge_loop.simps) simp
    next
      case grow
      let ?arr = "arr[unat rangeIndex := ?m\<lparr>REnd := REnd ?r\<rparr>]"
      have st: "merge_step (take k arr) ?r = take k ?arr"
        using grow k m 1(4,7) by (simp add: merge_step_def Let_def take_update_swap list_update_append)
      have d: "drop (i + 1) ?arr = drop (i + 1) arr" using 1(4,5,7) by simp
      from 1(2) [OF True refl idx grow] 1(4,5,7) True inv(1) later sorted' st d have
        "\<exists>arr' k'. merge_loop ?arr k rangeIndex (i + 1) = Some (arr', k') \<and>
          take k' arr' = foldl merge_step (take k ?arr) (drop (i + 1) ?arr)" by simp
      then show ?thesis unfolding fold st using True idx grow d by (subst merge_loop.simps) simp
    next
      case skip
      then have st: "merge_step (take k arr) ?r = take k arr" using m by (simp add: merge_step_def Let_def)
      from 1(3) [OF True refl idx skip] 1(4,5,7) True inv(1) later sorted' st have
        "\<exists>arr' k'. merge_loop arr k rangeIndex (i + 1) = Some (arr', k') \<and>
          take k' arr' = foldl merge_step (take k arr) (drop (i + 1) arr)" by simp
      then show ?thesis unfolding fold st using True idx skip by (subst merge_loop.simps) simp
    qed
  qed
qed

lemma canonical_Cons:
  "canonical (r # rs) \<longleftrightarrow> valid_range r \<and> canonical rs \<and> (\<forall>q \<in> set rs. REnd r + 1 < RStart q)"
  by (auto simp: canonical_def)

lemma canonical_after:
  assumes "canonical (r # rs)" "x \<in> members rs"
  shows "REnd r < x"
proof -
  from assms(2) obtain q where q: "q \<in> set rs" "RStart q \<le> x" by (auto simp: members_def)
  with assms(1) have "REnd r + 1 < RStart q" "REnd r \<noteq> - 1" by (auto simp: canonical_Cons valid_range_def)
  with q(2) succ_le [of "REnd r" "RStart q"] show ?thesis by auto
qed

lemma canonical_upto:
  assumes "canonical (r # rs)" "x \<in> members (r # rs)"
  shows "x \<le> REnd (last (r # rs))"
  using assms
proof (induction rs arbitrary: r x)
  case (Cons s rs)
  have c: "canonical (s # rs)" using Cons.prems(1) by (simp add: canonical_Cons)
  show ?case
  proof (cases "x \<in> members (s # rs)")
    case True
    with Cons.IH [OF c True] show ?thesis by simp
  next
    case False
    with Cons.prems(2) have "x \<le> REnd r" by auto
    moreover have s: "RStart s \<in> members (s # rs)" using c by (simp add: canonical_Cons valid_range_def)
    moreover have "REnd r < RStart s" by (rule canonical_after [OF Cons.prems(1) s])
    ultimately show ?thesis using Cons.IH [OF c s] by simp
  qed
qed simp

lemma canonical_last:
  assumes "canonical (r # rs)"
  shows "REnd (last (r # rs)) \<in> members (r # rs)" "REnd (last (r # rs)) \<noteq> - 1"
proof -
  let ?l = "last (r # rs)"
  have "?l \<in> set (r # rs)" by (rule last_in_set) simp
  then have v: "valid_range ?l" using assms unfolding canonical_def by blast
  then show "REnd ?l \<noteq> - 1" by (simp add: valid_range_def)
  show "REnd ?l \<in> members (r # rs)" using v \<open>?l \<in> set (r # rs)\<close> unfolding members_def valid_range_def by fastforce
qed

lemma gap_set:
  fixes a b c d :: "'a::linorder"
  assumes "a < b" "b \<le> c" "c \<le> d" "\<And>x. x \<in> M \<Longrightarrow> c < x"
  shows "{x. a < x \<and> x < b} \<union> ({x. c < x \<and> x \<le> d} - M) = {x. a < x \<and> x \<le> d} - ({b .. c} \<union> M)"
proof (rule set_eqI)
  fix x
  consider "x < b" | "b \<le> x" "x \<le> c" | "c < x" by fastforce
  then show "x \<in> {x. a < x \<and> x < b} \<union> ({x. c < x \<and> x \<le> d} - M) \<longleftrightarrow> x \<in> {x. a < x \<and> x \<le> d} - ({b .. c} \<union> M)"
    using assms(1-3) assms(4) [of x] by cases auto
qed

lemma revert_loop_members:
  assumes "canonical (r # rs)"
  shows "snd (revert_loop acc (REnd r) rs) = REnd (last (r # rs)) \<and>
     members (fst (revert_loop acc (REnd r) rs)) =
       members acc \<union> ({x. REnd r < x \<and> x \<le> REnd (last (r # rs))} - members rs)"
  using assms
proof (induction rs arbitrary: r acc)
  case (Cons s rs)
  have c: "canonical (s # rs)" and v: "REnd r \<noteq> - 1" "RStart s \<le> REnd s" and gap: "REnd r + 1 < RStart s"
    using Cons.prems by (auto simp: canonical_Cons valid_range_def)
  note later = canonical_after [OF c]
  have mono: "REnd s \<le> REnd (last (s # rs))" using canonical_upto [OF c, of "REnd s"] v(2) by simp
  have "0 < RStart s" using gap by (rule le_less_trans [OF word_zero_le])
  then have new: "{REnd r + 1 .. RStart s - 1} = {x. REnd r < x \<and> x < RStart s}"
    using succ_le [OF v(1)] le_pred [of "RStart s"] by auto
  have "REnd r < RStart s" using gap succ_le [OF v(1), of "RStart s"] by auto
  have set: "{x. REnd r < x \<and> x < RStart s} \<union> ({x. REnd s < x \<and> x \<le> REnd (last (s # rs))} - members rs) =
      {x. REnd r < x \<and> x \<le> REnd (last (s # rs))} - members (s # rs)"
    using gap_set [OF \<open>REnd r < RStart s\<close> v(2) mono, of "members rs"] later by simp
  let ?acc = "acc @ [\<lparr>RStart = REnd r + 1, REnd = RStart s - 1\<rparr>]"
  have step: "revert_loop acc (REnd r) (s # rs) = revert_loop ?acc (REnd s) rs" using gap by simp
  have acc: "members ?acc = members acc \<union> {x. REnd r < x \<and> x < RStart s}" by (simp add: new)
  note IH = Cons.IH [OF c, of ?acc]
  have "members (fst (revert_loop ?acc (REnd s) rs)) = members acc \<union> ({x. REnd r < x \<and> x \<le> REnd (last (s # rs))} - members (s # rs))"
    unfolding IH [THEN conjunct2] acc Un_assoc set ..
  with IH show ?case unfolding step by simp
qed auto

text \<open>The target \<open>[a, b]\<close> lies inside what is left of the current range or inside a later range.\<close>

definition inside :: "'w::len word \<Rightarrow> 'w word \<Rightarrow> ('w word) irange list \<Rightarrow> 'w word irange \<Rightarrow> bool" where
  "inside idx e rs t \<longleftrightarrow> idx \<le> RStart t \<and> REnd t \<le> e \<or> (\<exists>r \<in> set rs. RStart r \<le> RStart t \<and> REnd t \<le> REnd r)"

lemma cut_set:
  fixes i s t e :: "'a::linorder"
  assumes "i \<le> s" "s \<le> t" "t \<le> e" "\<And>x. x \<in> T \<Longrightarrow> t < x" "\<And>x. x \<in> M \<Longrightarrow> e < x"
  shows "{z. i \<le> z \<and> z < s} \<union> (({z. t < z \<and> z \<le> e} \<union> M) - T) = ({i .. e} \<union> M) - ({s .. t} \<union> T)"
proof (rule set_eqI)
  fix x
  consider "x < s" | "s \<le> x" "x \<le> t" | "t < x" by fastforce
  then show "x \<in> {z. i \<le> z \<and> z < s} \<union> (({z. t < z \<and> z \<le> e} \<union> M) - T) \<longleftrightarrow> x \<in> ({i .. e} \<union> M) - ({s .. t} \<union> T)"
    using assms(1-3) assms(4,5) [of x] by cases auto
qed

lemma exclude_loop_members:
  assumes "\<forall>m \<in> set merged. valid_range m" "rangeEnd \<noteq> - 1" "canonical rs" "\<forall>r \<in> set rs. rangeEnd < RStart r"
    "canonical (t # ts)" "\<forall>q \<in> set (t # ts). inside idx rangeEnd rs q"
  shows "\<exists>m' i' e' rs'. exclude_loop merged idx rangeEnd rs (RStart t) (REnd t) ts = Some (m', i', e', rs') \<and>
     (\<forall>m \<in> set m'. valid_range m) \<and> e' \<noteq> - 1 \<and> canonical rs' \<and>
     members m' \<union> {i' .. e'} \<union> members rs' = members merged \<union> (({idx .. rangeEnd} \<union> members rs) - members (t # ts))"
  using assms
proof (induction "length rs + length ts" arbitrary: merged idx rangeEnd rs t ts rule: less_induct)
  case less
  have t: "RStart t \<le> REnd t" "REnd t \<noteq> - 1" and ct: "canonical ts" using less.prems(5) by (auto simp: canonical_Cons valid_range_def)
  have after_t: "REnd t < x" if "x \<in> members ts" for x by (rule canonical_after [OF less.prems(5) that])
  have after_r: "rangeEnd < x" if "x \<in> members rs" for x
    using that less.prems(4) by (auto simp: members_def dest: less_le_trans)
  have rest: "REnd t < RStart q" if "q \<in> set ts" for q
    using that after_t [of "RStart q"] less.prems(5) by (force simp: canonical_Cons members_def canonical_def valid_range_def)
  show ?case
  proof (cases "RStart t > rangeEnd")
    case True
    have "\<not> idx \<le> RStart t \<or> \<not> REnd t \<le> rangeEnd" using True t(1) by auto
    with less.prems(6) obtain r rs' where rs: "rs = r # rs'" by (cases rs) (auto simp: inside_def)
    define new where "new = (if idx \<le> rangeEnd then merged @ [\<lparr>RStart = idx, REnd = rangeEnd\<rparr>] else merged)"
    have new: "\<forall>m \<in> set new. valid_range m" "members new = members merged \<union> {idx .. rangeEnd}"
      using less.prems(1,2) by (auto simp: new_def valid_range_def)
    have r: "REnd r \<noteq> - 1" "canonical rs'" "\<forall>q \<in> set rs'. REnd r < RStart q"
      using less.prems(3) canonical_after [OF less.prems(3) [unfolded rs]]
      by (auto simp: rs canonical_Cons valid_range_def) (metis succ_le less_imp_le)
    have "\<forall>q \<in> set (t # ts). inside (RStart r) (REnd r) rs' q"
    proof
      fix q assume q: "q \<in> set (t # ts)"
      then have "RStart q > rangeEnd" "RStart q \<le> REnd q"
        using True t(1) rest [of q] less.prems(5) by (auto simp: canonical_def valid_range_def)
      with less.prems(6) q show "inside (RStart r) (REnd r) rs' q" by (auto simp: inside_def rs)
    qed
    from less.hyps [OF _ new(1) r less.prems(5) this] rs obtain m' i' e' rs'' where h:
      "exclude_loop new (RStart r) (REnd r) rs' (RStart t) (REnd t) ts = Some (m', i', e', rs'')"
      "\<forall>m \<in> set m'. valid_range m" "e' \<noteq> - 1" "canonical rs''"
      "members m' \<union> {i' .. e'} \<union> members rs'' = members new \<union> (members rs - members (t # ts))" by auto
    have "{idx .. rangeEnd} \<inter> members (t # ts) = {}" using True t(1) after_t by fastforce
    then have "members new \<union> (members rs - members (t # ts)) = members merged \<union> (({idx .. rangeEnd} \<union> members rs) - members (t # ts))"
      using new(2) by blast
    moreover have "exclude_loop merged idx rangeEnd rs (RStart t) (REnd t) ts = Some (m', i', e', rs'')"
      using True h(1) by (subst exclude_loop.simps) (simp add: rs new_def)
    ultimately show ?thesis using h by auto
  next
    case False
    have "\<not> (RStart r \<le> RStart t \<and> REnd t \<le> REnd r)" if "r \<in> set rs" for r
      using that less.prems(4) False by (auto simp: not_less dest: le_less_trans)
    with less.prems(6) have in_t: "idx \<le> RStart t" "REnd t \<le> rangeEnd" by (auto simp: inside_def)
    define new where "new = (if RStart t > idx then merged @ [\<lparr>RStart = idx, REnd = RStart t - 1\<rparr>] else merged)"
    have new: "\<forall>m \<in> set new. valid_range m" "members new = members merged \<union> {z. idx \<le> z \<and> z < RStart t}"
    proof -
      have "idx < RStart t \<Longrightarrow> idx \<le> RStart t - 1 \<and> RStart t - 1 < RStart t \<and> 0 < RStart t"
        using le_pred [of "RStart t"] le_less_trans [OF word_zero_le] by blast
      then show "\<forall>m \<in> set new. valid_range m" using less.prems(1) t word_n1_ge [of "RStart t"]
        by (auto simp: new_def valid_range_def)
      show "members new = members merged \<union> {z. idx \<le> z \<and> z < RStart t}"
        using in_t(1) le_less_trans [OF word_zero_le, of idx "RStart t"] by (auto simp: new_def interval_pred)
    qed
    have cut: "{z. idx \<le> z \<and> z < RStart t} \<union> (({REnd t + 1 .. rangeEnd} \<union> members rs) - members ts) =
        ({idx .. rangeEnd} \<union> members rs) - members (t # ts)"
      unfolding interval_succ [OF t(2)] members_simps(2)
      by (rule cut_set [OF in_t(1) t(1) in_t(2) after_t after_r])
    have run: "exclude_loop merged idx rangeEnd rs (RStart t) (REnd t) ts =
        (case ts of [] \<Rightarrow> Some (new, REnd t + 1, rangeEnd, rs)
         | q # qs \<Rightarrow> exclude_loop new (REnd t + 1) rangeEnd rs (RStart q) (REnd q) qs)"
      using False in_t(2) by (subst exclude_loop.simps) (simp add: new_def Let_def split: list.splits)
    show ?thesis
    proof (cases ts)
      case Nil
      with run new cut less.prems(2,3) show ?thesis by (auto simp: Un_assoc)
    next
      case (Cons q qs)
      have "\<forall>p \<in> set (q # qs). inside (REnd t + 1) rangeEnd rs p"
        using less.prems(6) rest succ_le [OF t(2)] unfolding Cons by (auto simp: inside_def)
      from less.hyps [OF _ new(1) less.prems(2-4) ct [unfolded Cons] this] Cons run new(2) cut show ?thesis
        by (auto simp: Un_assoc)
    qed
  qed
qed

context slice_sort
begin

lemma sort_set: "set (sort_slice rs) = set rs"
  using sort_perm [of rs] by (metis set_mset_mset)

lemma Merge_canonical:
  assumes "\<forall>r \<in> set rs. valid_range r"
  obtains ms where "Merge sort_slice rs = Some ms" "canonical ms" "members ms = members rs" "ms = [] \<longleftrightarrow> rs = []"
proof (cases "rs = []")
  case True
  with that show ?thesis by (simp add: Merge_def canonical_def)
next
  case False
  then obtain s ss where s: "sort_slice rs = s # ss" using sort_set [of rs] by (cases "sort_slice rs") auto
  have v: "\<forall>r \<in> set (s # ss). valid_range r" using assms sort_set [of rs] s by simp
  have srt: "sorted (map RStart (s # ss))" using sort_sorted [of rs] s by simp
  have c: "canonical [s]" using v by (simp add: canonical_def)
  have fold: "foldl merge_step acc qs \<noteq> [] \<and> canonical (foldl merge_step acc qs) \<and> members (foldl merge_step acc qs) = members acc \<union> members qs"
    if "acc \<noteq> []" "canonical acc" "\<forall>r \<in> set qs. valid_range r" "sorted (map RStart (last acc # qs))" for acc qs
    using that
  proof (induction qs arbitrary: acc)
    case (Cons q qs)
    have q: "valid_range q" "RStart (last acc) \<le> RStart q" using Cons.prems by auto
    note st = merge_step_inv [OF Cons.prems(1,2) q]
    have "sorted (map RStart (last (merge_step acc q) # qs))" using st(4) Cons.prems(4) by auto
    from Cons.IH [OF st(1,2) _ this] Cons.prems(3) st(3) show ?case by auto
  qed auto
  have "\<exists>arr' k'. merge_loop (s # ss) 1 0 1 = Some (arr', k') \<and> take k' arr' = foldl merge_step (take 1 (s # ss)) (drop 1 (s # ss))"
    by (rule merge_loop_fold) (use v srt c in auto)
  then obtain arr k where "merge_loop (s # ss) 1 0 1 = Some (arr, k)" "take k arr = foldl merge_step [s] ss" by auto
  moreover have "members (s # ss) = members rs" using members_mset [OF sort_perm [of rs]] s by simp
  ultimately show ?thesis using that [of "foldl merge_step [s] ss"] fold [of "[s]" ss] c v srt False s by (simp add: Merge_def)
qed

lemma Revert_complement:
  assumes "rs \<noteq> []" "\<forall>r \<in> set rs. valid_range r \<and> start \<le> RStart r \<and> REnd r \<le> finish"
  obtains qs where "Revert sort_slice start finish rs = Some qs" "members qs = {start .. finish} - members rs"
proof -
  obtain ms where ms: "Merge sort_slice rs = Some ms" "canonical ms" "members ms = members rs" "ms \<noteq> []"
    using Merge_canonical [of rs] assms by metis
  obtain m qs where m: "ms = m # qs" using ms(4) by (cases ms) auto
  note c = ms(2) [unfolded m] and last = canonical_last [OF ms(2) [unfolded m]] and upto = canonical_upto [OF ms(2) [unfolded m]] and after = canonical_after [OF ms(2) [unfolded m]]
  let ?e = "REnd (last (m # qs))"
  have within: "members ms \<subseteq> {start .. finish}"
    using assms(2) unfolding ms(3) by (fastforce simp: members_def)
  have m1: "RStart m \<le> REnd m" using c by (simp add: canonical_Cons valid_range_def)
  then have "RStart m \<in> members ms" "REnd m \<in> members ms" by (simp_all add: m)
  moreover have "?e \<in> members ms" using last(1) m by simp
  ultimately have "RStart m \<in> {start .. finish}" "?e \<in> {start .. finish}" using within by blast+
  then have ends: "start \<le> RStart m" "?e \<le> finish" by simp_all
  have e: "REnd m \<le> ?e" by (rule upto) (simp add: m1)
  define acc where "acc = (if RStart m > start then [\<lparr>RStart = start, REnd = RStart m - 1\<rparr>] else [])"
  have acc: "members acc = {x. start \<le> x \<and> x < RStart m}"
  proof (cases "RStart m > start")
    case True
    then have "0 < RStart m" by (rule le_less_trans [OF word_zero_le])
    with True show ?thesis by (simp add: acc_def interval_pred)
  next
    case False
    then show ?thesis by (auto simp: acc_def dest: le_less_trans)
  qed
  define out where "out = (if finish > ?e then fst (revert_loop acc (REnd m) qs) @ [\<lparr>RStart = ?e + 1, REnd = finish\<rparr>]
      else fst (revert_loop acc (REnd m) qs))"
  have "members out = members acc \<union> ({x. REnd m < x \<and> x \<le> ?e} - members qs) \<union> {x. ?e < x \<and> x \<le> finish}"
  proof -
    have "members out = members (fst (revert_loop acc (REnd m) qs)) \<union> {x. ?e < x \<and> x \<le> finish}"
      using interval_succ [OF last(2), of finish] by (auto simp: out_def dest: less_le_trans)
    then show ?thesis using revert_loop_members [OF c, of acc] by simp
  qed
  also have "\<dots> = {start .. finish} - members ms"
  proof (rule set_eqI)
    fix x
    have M: "x \<in> members qs \<Longrightarrow> REnd m < x \<and> x \<le> ?e" using after [of x] upto [of x] by simp
    consider "x < RStart m" | "RStart m \<le> x" "x \<le> REnd m" | "REnd m < x" "x \<le> ?e" | "?e < x" by fastforce
    then show "x \<in> members acc \<union> ({x. REnd m < x \<and> x \<le> ?e} - members qs) \<union> {x. ?e < x \<and> x \<le> finish} \<longleftrightarrow> x \<in> {start .. finish} - members ms"
      using M ends e m1 unfolding acc m members_simps(2) by cases auto
  qed
  finally have "members out = {start .. finish} - members rs" using ms(3) by simp
  moreover have "Revert sort_slice start finish rs = Some out"
    using ms(1) assms(1) revert_loop_members [OF c, of acc]
    by (simp add: Revert_def m out_def acc_def Let_def case_prod_beta)
  ultimately show ?thesis using that by blast
qed

lemma Exclude_difference:
  assumes "\<forall>r \<in> set rs. valid_range r" "\<forall>t \<in> set ts. valid_range t"
    "\<And>ms ns t. Merge sort_slice rs = Some ms \<Longrightarrow> Merge sort_slice ts = Some ns \<Longrightarrow> t \<in> set ns \<Longrightarrow>
       \<exists>r \<in> set ms. RStart r \<le> RStart t \<and> REnd t \<le> REnd r"
  obtains qs where "Exclude sort_slice rs ts = Some qs" "canonical qs" "members qs = members rs - members ts"
proof -
  obtain ms where ms: "Merge sort_slice rs = Some ms" "canonical ms" "members ms = members rs" by (rule Merge_canonical [OF assms(1)])
  obtain ns where ns: "Merge sort_slice ts = Some ns" "canonical ns" "members ns = members ts" by (rule Merge_canonical [OF assms(2)])
  show ?thesis
  proof (cases "ms = [] \<or> ns = []")
    case True
    with that [of ms] ms ns show ?thesis by (auto simp: Exclude_def canonical_def split: list.splits)
  next
    case False
    then obtain m ms' n ns' where eq: "ms = m # ms'" "ns = n # ns'" by (meson list.exhaust)
    have m: "REnd m \<noteq> - 1" "canonical ms'" "\<forall>r \<in> set ms'. REnd m < RStart r"
      using ms(2) by (auto simp: eq canonical_Cons valid_range_def) (metis succ_le less_imp_le)
    have "\<forall>q \<in> set (n # ns'). inside (RStart m) (REnd m) ms' q"
      using assms(3) [OF ms(1) ns(1)] by (auto simp: eq inside_def)
    from exclude_loop_members [OF _ m ns(2) [unfolded eq] this, of "[]"] obtain out i e rest where l:
      "exclude_loop [] (RStart m) (REnd m) ms' (RStart n) (REnd n) ns' = Some (out, i, e, rest)"
      "\<forall>q \<in> set out. valid_range q" "e \<noteq> - 1" "canonical rest"
      "members out \<union> {i .. e} \<union> members rest = members ms - members ns" by (auto simp: eq)
    define fin where "fin = (if i \<le> e then out @ [\<lparr>RStart = i, REnd = e\<rparr>] else out)"
    have fin: "\<forall>q \<in> set (fin @ rest). valid_range q" "members (fin @ rest) = members rs - members ts"
      using l(2-4) l(5) [unfolded ms(3) ns(3)] by (auto simp: fin_def valid_range_def canonical_def)
    obtain qs where "Merge sort_slice (fin @ rest) = Some qs" "canonical qs" "members qs = members (fin @ rest)"
      by (rule Merge_canonical [OF fin(1)])
    with that [of qs] ms(1) ns(1) l(1) fin(2) show ?thesis by (simp add: Exclude_def eq fin_def Let_def)
  qed
qed

end

section \<open>Properties\<close>

text \<open>
  C32. \<open>Merge\<close> is correct: for ranges that are not empty and do not end at the largest
  integer, in any order and with any correct sort, it returns ranges that are in order, do
  not touch each other, and contain exactly the same integers.
\<close>

theorem Merge_correct:
  assumes "slice_sort sort_slice" "\<forall>r \<in> set rs. RStart r \<le> REnd r \<and> REnd r \<noteq> - 1"
  shows "\<exists>ms. Merge sort_slice rs = Some ms \<and> sorted_wrt (\<lambda>a b. REnd a + 1 < RStart b) ms \<and>
     (\<forall>m \<in> set ms. RStart m \<le> REnd m) \<and> members ms = members rs"
  by (rule slice_sort.Merge_canonical [OF assms(1), of rs]) (use assms(2) in \<open>auto simp: valid_range_def canonical_def\<close>)

theorem Merge_correct_witness:
  "\<exists>ms. Merge (sort_key RStart) [range_New 8 9, range_New (5 :: 16 word) 7, range_New 0 3] = Some ms \<and>
     members ms = {0 .. 3} \<union> {5 .. 9}"
proof -
  have "{8 .. 9} \<union> ({5 .. 7} \<union> {0 .. 3}) = {0 .. 3} \<union> {5 .. (9 :: 16 word)}"
    by (auto simp: word_le_nat_alt)
  with Merge_correct [OF stable.slice_sort_axioms, of "[range_New 8 9, range_New (5 :: 16 word) 7, range_New 0 3]"] show ?thesis
    by (auto simp: range_New_def)
qed






lemma Merge_single: "slice_sort sort_slice \<Longrightarrow> Merge sort_slice [r] = Some [r]"
  using slice_sort.sort_perm [of sort_slice "[r]"] by (simp add: Merge_def merge_loop.simps)



text \<open>
  \<open>Exclude\<close> adds integers that are in no range when a target lies before the range:
  the position in the range is set back behind the target, so the result starts there.
\<close>

theorem Exclude_extends:
  assumes "slice_sort sort_slice" "t \<le> f" "f < r" "r \<le> e"
  shows "Exclude sort_slice [range_New r e] [range_New t f] = Some [range_New (f + 1) e]"
proof -
  have "f \<noteq> - 1" using assms(3) word_n1_ge [of r] by auto
  with assms have le: "f + 1 \<le> e" using succ_le [of f e] by auto
  have "exclude_loop [] r e [] t f [] = Some ([], f + 1, e, [])"
    using assms by (subst exclude_loop.simps) auto
  with le show ?thesis by (simp add: Exclude_def Merge_single [OF assms(1)] range_New_def)
qed

theorem Exclude_extends_witness:
  "Exclude (sort_key RStart) [range_New 10 20] [range_New (1 :: 16 word) 2] = Some [range_New 3 20]"
  using Exclude_extends [OF stable.slice_sort_axioms, of "1 :: 16 word" 2 10 20] by (simp add: word_le_nat_alt word_less_nat_alt)

text \<open>
  \<open>Merge\<close> does not merge into a range that ends at the largest integer: \<open>End+1\<close> wraps to
  zero there, and a later range inside it is kept beside it.
\<close>

theorem Merge_wraps:
  assumes "a < b"
  shows "Merge (sort_key RStart) [range_New a (- 1), range_New b c] = Some [range_New a (- 1), range_New b c]"
proof -
  have "0 < b" using assms by (rule le_less_trans [OF word_zero_le])
  moreover have "a \<le> b" using assms by simp
  ultimately show ?thesis using assms by (simp add: Merge_def range_New_def merge_loop.simps go_index_def)
qed

theorem Merge_wraps_witness:
  "Merge (sort_key RStart) [range_New (0 :: 8 word) 255, range_New 1 2] = Some [range_New 0 255, range_New 1 2]"
proof -
  have "(255 :: 8 word) = - 1" by simp
  then show ?thesis using Merge_wraps [of "0 :: 8 word" 1 2] by (simp only: word_neq_0_conv [symmetric]) simp
qed

end
