(* ===== verification/Cond.thy ===== *)
theory Cond
  imports Prelude
begin

text \<open>
  The helpers of \<open>common/cond.go\<close>. A callback is a HOL function; the zero value of a type
  parameter, which \<open>DefaultValue\<close> returns, is the argument \<open>zero\<close>. A loop over a slice is
  a recursion on the slice, with the index where the loop has one and with the result slice
  where it appends to one.
\<close>

section \<open>Searching\<close>

fun AnyIndexed_loop :: "(int \<Rightarrow> 'a \<Rightarrow> bool) \<Rightarrow> int \<Rightarrow> 'a list \<Rightarrow> bool" where
  "AnyIndexed_loop block index [] = False"
| "AnyIndexed_loop block index (it # array) = (if block index it then True else AnyIndexed_loop block (index + 1) array)"

definition AnyIndexed :: "'a list \<Rightarrow> (int \<Rightarrow> 'a \<Rightarrow> bool) \<Rightarrow> bool" where
  "AnyIndexed array block = AnyIndexed_loop block 0 array"

fun All :: "'a list \<Rightarrow> ('a \<Rightarrow> bool) \<Rightarrow> bool" where
  "All [] block = True"
| "All (it # array) block = (if \<not> block it then False else All array block)"

fun AllIndexed_loop :: "(int \<Rightarrow> 'a \<Rightarrow> bool) \<Rightarrow> int \<Rightarrow> 'a list \<Rightarrow> bool" where
  "AllIndexed_loop block index [] = True"
| "AllIndexed_loop block index (it # array) = (if \<not> block index it then False else AllIndexed_loop block (index + 1) array)"

definition AllIndexed :: "'a list \<Rightarrow> (int \<Rightarrow> 'a \<Rightarrow> bool) \<Rightarrow> bool" where
  "AllIndexed array block = AllIndexed_loop block 0 array"

fun IndexIndexed_loop :: "(int \<Rightarrow> 'a \<Rightarrow> bool) \<Rightarrow> int \<Rightarrow> 'a list \<Rightarrow> int" where
  "IndexIndexed_loop block index [] = - 1"
| "IndexIndexed_loop block index (it # arr) = (if block index it then index else IndexIndexed_loop block (index + 1) arr)"

definition IndexIndexed :: "'a list \<Rightarrow> (int \<Rightarrow> 'a \<Rightarrow> bool) \<Rightarrow> int" where
  "IndexIndexed arr block = IndexIndexed_loop block 0 arr"

fun Index_loop :: "('a \<Rightarrow> bool) \<Rightarrow> int \<Rightarrow> 'a list \<Rightarrow> int" where
  "Index_loop block index [] = - 1"
| "Index_loop block index (it # arr) = (if block it then index else Index_loop block (index + 1) arr)"

definition Index :: "'a list \<Rightarrow> ('a \<Rightarrow> bool) \<Rightarrow> int" where
  "Index arr block = Index_loop block 0 arr"

text \<open>\<open>slices.IndexFunc\<close> of the standard library, on which \<open>slices.ContainsFunc\<close> and
  \<open>slices.Contains\<close> rest.\<close>

definition Any :: "'a list \<Rightarrow> ('a \<Rightarrow> bool) \<Rightarrow> bool" where
  "Any array block = (Index_loop block 0 array \<ge> 0)"

definition Contains :: "'a list \<Rightarrow> 'a \<Rightarrow> bool" where
  "Contains arr target = (Index_loop (\<lambda>v. target = v) 0 arr \<ge> 0)"

fun Find :: "'a \<Rightarrow> 'a list \<Rightarrow> ('a \<Rightarrow> bool) \<Rightarrow> 'a" where
  "Find zero [] block = zero"
| "Find zero (it # arr) block = (if block it then it else Find zero arr block)"

fun FindIndexed_loop :: "'a \<Rightarrow> (int \<Rightarrow> 'a \<Rightarrow> bool) \<Rightarrow> int \<Rightarrow> 'a list \<Rightarrow> 'a" where
  "FindIndexed_loop zero block index [] = zero"
| "FindIndexed_loop zero block index (it # arr) = (if block index it then it else FindIndexed_loop zero block (index + 1) arr)"

definition FindIndexed :: "'a \<Rightarrow> 'a list \<Rightarrow> (int \<Rightarrow> 'a \<Rightarrow> bool) \<Rightarrow> 'a" where
  "FindIndexed zero arr block = FindIndexed_loop zero block 0 arr"

section \<open>Mapping and filtering\<close>

fun MapIndexed_loop :: "(int \<Rightarrow> 'a \<Rightarrow> 'b) \<Rightarrow> 'b list \<Rightarrow> int \<Rightarrow> 'a list \<Rightarrow> 'b list" where
  "MapIndexed_loop block retArr index [] = retArr"
| "MapIndexed_loop block retArr index (it # arr) = MapIndexed_loop block (retArr @ [block index it]) (index + 1) arr"

definition MapIndexed :: "'a list \<Rightarrow> (int \<Rightarrow> 'a \<Rightarrow> 'b) \<Rightarrow> 'b list" where
  "MapIndexed arr block = MapIndexed_loop block [] 0 arr"

fun Map_loop :: "('a \<Rightarrow> 'b) \<Rightarrow> 'b list \<Rightarrow> 'a list \<Rightarrow> 'b list" where
  "Map_loop block retArr [] = retArr"
| "Map_loop block retArr (it # arr) = Map_loop block (retArr @ [block it]) arr"

definition Map :: "'a list \<Rightarrow> ('a \<Rightarrow> 'b) \<Rightarrow> 'b list" where
  "Map arr block = Map_loop block [] arr"

fun FlatMap_loop :: "('a \<Rightarrow> 'b list) \<Rightarrow> 'b list \<Rightarrow> 'a list \<Rightarrow> 'b list" where
  "FlatMap_loop block retAddr [] = retAddr"
| "FlatMap_loop block retAddr (item # arr) = FlatMap_loop block (retAddr @ block item) arr"

definition FlatMap :: "'a list \<Rightarrow> ('a \<Rightarrow> 'b list) \<Rightarrow> 'b list" where
  "FlatMap arr block = FlatMap_loop block [] arr"

fun FlatMapIndexed_loop :: "(int \<Rightarrow> 'a \<Rightarrow> 'b list) \<Rightarrow> 'b list \<Rightarrow> int \<Rightarrow> 'a list \<Rightarrow> 'b list" where
  "FlatMapIndexed_loop block retAddr index [] = retAddr"
| "FlatMapIndexed_loop block retAddr index (item # arr) = FlatMapIndexed_loop block (retAddr @ block index item) (index + 1) arr"

definition FlatMapIndexed :: "'a list \<Rightarrow> (int \<Rightarrow> 'a \<Rightarrow> 'b list) \<Rightarrow> 'b list" where
  "FlatMapIndexed arr block = FlatMapIndexed_loop block [] 0 arr"

fun Filter_loop :: "('a \<Rightarrow> bool) \<Rightarrow> 'a list \<Rightarrow> 'a list \<Rightarrow> 'a list" where
  "Filter_loop block retArr [] = retArr"
| "Filter_loop block retArr (it # arr) = Filter_loop block (if block it then retArr @ [it] else retArr) arr"

definition Filter :: "'a list \<Rightarrow> ('a \<Rightarrow> bool) \<Rightarrow> 'a list" where
  "Filter arr block = Filter_loop block [] arr"

text \<open>
  \<open>to_any\<close> is the conversion \<open>var anyIt any = it\<close>: for an interface type it keeps the dynamic
  value, so a nil interface stays \<open>None\<close>; for any other type, pointers included, it never
  gives nil.
\<close>

definition FilterNotNil :: "('a \<Rightarrow> 'd option) \<Rightarrow> 'a list \<Rightarrow> 'a list" where
  "FilterNotNil to_any arr = Filter arr (\<lambda>it. to_any it \<noteq> None)"

definition FilterNotDefault :: "'a \<Rightarrow> 'a list \<Rightarrow> 'a list" where
  "FilterNotDefault zero arr = Filter arr (\<lambda>it. it \<noteq> zero)"

fun FilterIndexed_loop :: "(int \<Rightarrow> 'a \<Rightarrow> bool) \<Rightarrow> 'a list \<Rightarrow> int \<Rightarrow> 'a list \<Rightarrow> 'a list" where
  "FilterIndexed_loop block retArr index [] = retArr"
| "FilterIndexed_loop block retArr index (it # arr) =
     FilterIndexed_loop block (if block index it then retArr @ [it] else retArr) (index + 1) arr"

definition FilterIndexed :: "'a list \<Rightarrow> (int \<Rightarrow> 'a \<Rightarrow> bool) \<Rightarrow> 'a list" where
  "FilterIndexed arr block = FilterIndexed_loop block [] 0 arr"

fun FilterIsInstance_loop :: "('a \<Rightarrow> 'b \<times> bool) \<Rightarrow> 'b list \<Rightarrow> 'a list \<Rightarrow> 'b list" where
  "FilterIsInstance_loop block retArr [] = retArr"
| "FilterIsInstance_loop block retArr (it # arr) =
     FilterIsInstance_loop block (let (n, isN) = block it in if isN then retArr @ [n] else retArr) arr"

definition FilterIsInstance :: "'a list \<Rightarrow> ('a \<Rightarrow> 'b \<times> bool) \<Rightarrow> 'b list" where
  "FilterIsInstance arr block = FilterIsInstance_loop block [] arr"

section \<open>Equality, duplicates, extremes\<close>

text \<open>The loop indexes \<open>s2\<close> with the indices of \<open>s1\<close>; \<open>None\<close> would be an index out of range.\<close>

fun Equal_loop :: "'a list \<Rightarrow> 'a list \<Rightarrow> int \<Rightarrow> nat \<Rightarrow> bool option" where
  "Equal_loop s1 s2 i 0 = Some True"
| "Equal_loop s1 s2 i (Suc n) = do {
     a \<leftarrow> go_index s1 i;
     b \<leftarrow> go_index s2 i;
     if a \<noteq> b then Some False else Equal_loop s1 s2 (i + 1) n }"

definition Equal :: "'a list \<Rightarrow> 'a list \<Rightarrow> bool option" where
  "Equal s1 s2 = (if length s1 \<noteq> length s2 then Some False else Equal_loop s1 s2 0 (length s1))"

fun UniqBy_loop :: "('a \<Rightarrow> 'c) \<Rightarrow> 'a list \<Rightarrow> ('c \<rightharpoonup> unit) \<Rightarrow> 'a list \<Rightarrow> 'a list" where
  "UniqBy_loop block result seen [] = result"
| "UniqBy_loop block result seen (item # arr) =
     (let c = block item in
      if seen c \<noteq> None then UniqBy_loop block result seen arr
      else UniqBy_loop block (result @ [item]) (seen(c \<mapsto> ())) arr)"

definition UniqBy :: "'a list \<Rightarrow> ('a \<Rightarrow> 'c) \<Rightarrow> 'a list" where
  "UniqBy arr block = UniqBy_loop block [] Map.empty arr"

fun Uniq_loop :: "'a list \<Rightarrow> ('a \<rightharpoonup> unit) \<Rightarrow> 'a list \<Rightarrow> 'a list" where
  "Uniq_loop result seen [] = result"
| "Uniq_loop result seen (item # arr) =
     (if seen item \<noteq> None then Uniq_loop result seen arr
      else Uniq_loop (result @ [item]) (seen(item \<mapsto> ())) arr)"

definition Uniq :: "'a list \<Rightarrow> 'a list" where
  "Uniq arr = Uniq_loop [] Map.empty arr"

text \<open>The loops of \<open>MinBy\<close> and \<open>MaxBy\<close>, from \<open>i := 1\<close>.\<close>

fun MinBy_loop :: "('a \<Rightarrow> 'c::linorder) \<Rightarrow> 'a \<Rightarrow> 'c \<Rightarrow> 'a list \<Rightarrow> 'a" where
  "MinBy_loop block m minValue [] = m"
| "MinBy_loop block m minValue (item # arr) =
     (let v = block item in
      if v < minValue then MinBy_loop block item v arr else MinBy_loop block m minValue arr)"

fun MinBy :: "'a \<Rightarrow> 'a list \<Rightarrow> ('a \<Rightarrow> 'c::linorder) \<Rightarrow> 'a" where
  "MinBy zero [] block = zero"
| "MinBy zero (m # arr) block = MinBy_loop block m (block m) arr"

fun MaxBy_loop :: "('a \<Rightarrow> 'c::linorder) \<Rightarrow> 'a \<Rightarrow> 'c \<Rightarrow> 'a list \<Rightarrow> 'a" where
  "MaxBy_loop block m maxValue [] = m"
| "MaxBy_loop block m maxValue (item # arr) =
     (let v = block item in
      if v > maxValue then MaxBy_loop block item v arr else MaxBy_loop block m maxValue arr)"

fun MaxBy :: "'a \<Rightarrow> 'a list \<Rightarrow> ('a \<Rightarrow> 'c::linorder) \<Rightarrow> 'a" where
  "MaxBy zero [] block = zero"
| "MaxBy zero (m # arr) block = MaxBy_loop block m (block m) arr"

section \<open>Reversing\<close>

text \<open>The swap loop on the array, with the bounds checks of its four accesses.\<close>

function Reverse_loop :: "'a list \<Rightarrow> nat \<Rightarrow> nat \<Rightarrow> nat \<Rightarrow> 'a list option" where
  "Reverse_loop arr len half i =
     (if i < half then do {
        let j = int len - 1 - int i;
        x \<leftarrow> go_index arr (int i);
        y \<leftarrow> go_index arr j;
        Reverse_loop (arr[i := y, nat j := x]) len half (i + 1)
      } else Some arr)"
  by pat_completeness auto
termination by (relation "measure (\<lambda>(arr, len, half, i). half - i)") auto

declare Reverse_loop.simps [simp del]

definition Reverse :: "'a list \<Rightarrow> 'a list option" where
  "Reverse arr = Reverse_loop arr (length arr) (length arr div 2) 0"

text \<open>\<open>order\<close> is the order in which \<open>range m\<close> visits the entries, which Go leaves open.\<close>

fun ReverseMap_loop :: "('k \<times> 'v) list \<Rightarrow> ('v \<rightharpoonup> 'k) \<Rightarrow> ('v \<rightharpoonup> 'k)" where
  "ReverseMap_loop [] ret = ret"
| "ReverseMap_loop ((k, v) # order) ret = ReverseMap_loop order (ret(v \<mapsto> k))"

definition ReverseMap :: "('k \<times> 'v) list \<Rightarrow> ('v \<rightharpoonup> 'k)" where
  "ReverseMap order = ReverseMap_loop order Map.empty"

section \<open>Errors\<close>

text \<open>\<open>Must\<close> panics (\<open>None\<close>) with the first error; \<open>AnyError\<close> returns it.\<close>

fun AnyError :: "go_error option list \<Rightarrow> go_error option" where
  "AnyError [] = None"
| "AnyError (err # errs) = (if err \<noteq> None then err else AnyError errs)"

fun Must :: "go_error option list \<Rightarrow> unit option" where
  "Must [] = Some ()"
| "Must (err # errs) = (if err \<noteq> None then None else Must errs)"

definition Must1 :: "'a \<Rightarrow> go_error option \<Rightarrow> 'a option" where
  "Must1 result err = (if err \<noteq> None then None else Some result)"

definition Must2 :: "'a \<Rightarrow> 'b \<Rightarrow> go_error option \<Rightarrow> ('a \<times> 'b) option" where
  "Must2 result result2 err = (if err \<noteq> None then None else Some (result, result2))"

definition PtrValueOrDefault :: "'a \<Rightarrow> 'a option \<Rightarrow> 'a" where
  "PtrValueOrDefault zero ptr = (case ptr of None \<Rightarrow> zero | Some v \<Rightarrow> v)"

definition IsDefault :: "'a \<Rightarrow> 'a \<Rightarrow> bool" where
  "IsDefault zero obj = (obj = zero)"

section \<open>Closing\<close>

text \<open>
  What \<open>Close\<close> tells apart of its arguments: nil, an \<open>io.Closer\<close> (named by a number), a value
  with an upstream that is no closer itself, and any other value. \<open>Close\<close> of the closer \<open>n\<close>
  returns \<open>close_err n\<close>; the model records which closers were closed, in order.
\<close>

datatype closable = Nil_closer | Closer nat | With_upstream closable | Not_closable

fun Close_one :: "(nat \<Rightarrow> go_error option) \<Rightarrow> closable \<Rightarrow> go_error option \<times> nat list" where
  "Close_one close_err Nil_closer = (None, [])"
| "Close_one close_err (Closer n) = (close_err n, [n])"
| "Close_one close_err (With_upstream u) = Close_one close_err u"
| "Close_one close_err Not_closable = (None, [])"

fun Close_loop :: "(nat \<Rightarrow> go_error option) \<Rightarrow> go_error option \<Rightarrow> nat list \<Rightarrow> closable list \<Rightarrow> go_error option \<times> nat list" where
  "Close_loop close_err retErr closed [] = (retErr, closed)"
| "Close_loop close_err retErr closed (c # closers) =
     (let (err, ns) = Close_one close_err c
      in Close_loop close_err (if err \<noteq> None then err else retErr) (closed @ ns) closers)"

definition Close :: "(nat \<Rightarrow> go_error option) \<Rightarrow> closable list \<Rightarrow> go_error option \<times> nat list" where
  "Close close_err closers = Close_loop close_err None [] closers"

section \<open>Loops that append\<close>

text \<open>Every loop that appends to its result is the result so far and what the rest gives.\<close>

lemma Map_loop: "Map_loop f acc xs = acc @ map f xs"
  by (induction xs arbitrary: acc) auto

lemma FlatMap_loop: "FlatMap_loop f acc xs = acc @ concat (map f xs)"
  by (induction xs arbitrary: acc) auto

lemma Filter_loop: "Filter_loop p acc xs = acc @ filter p xs"
  by (induction xs arbitrary: acc) auto

lemma FilterIsInstance_loop: "FilterIsInstance_loop f acc xs = acc @ map (fst \<circ> f) (filter (snd \<circ> f) xs)"
  by (induction xs arbitrary: acc) (auto simp: case_prod_beta)

definition indexed_from :: "int \<Rightarrow> 'a list \<Rightarrow> (int \<times> 'a) list" where
  "indexed_from i xs = zip [i .. i + int (length xs) - 1] xs"

lemma indexed_from_simps [simp]:
  "indexed_from i [] = []" "indexed_from i (x # xs) = (i, x) # indexed_from (i + 1) xs"
  by (simp_all add: indexed_from_def upto_rec1 [of i] ac_simps)

lemma MapIndexed_loop: "MapIndexed_loop f acc i xs = acc @ map (\<lambda>(i, x). f i x) (indexed_from i xs)"
  by (induction xs arbitrary: acc i) auto

lemma FlatMapIndexed_loop: "FlatMapIndexed_loop f acc i xs = acc @ concat (map (\<lambda>(i, x). f i x) (indexed_from i xs))"
  by (induction xs arbitrary: acc i) auto

lemma FilterIndexed_loop: "FilterIndexed_loop p acc i xs = acc @ map snd (filter (\<lambda>(i, x). p i x) (indexed_from i xs))"
  by (induction xs arbitrary: acc i) auto

lemmas append_loops = Map_loop FlatMap_loop Filter_loop FilterIsInstance_loop MapIndexed_loop FlatMapIndexed_loop
  FilterIndexed_loop

section \<open>Loops that search\<close>

lemma AnyIndexed_loop: "AnyIndexed_loop p i xs = list_ex (\<lambda>(j, x). p j x) (indexed_from i xs)"
  by (induction xs arbitrary: i) auto

lemma AllIndexed_loop: "AllIndexed_loop p i xs = list_all (\<lambda>(j, x). p j x) (indexed_from i xs)"
  by (induction xs arbitrary: i) auto

lemma All_list_all: "All xs p = list_all p xs"
  by (induction xs) auto

lemma Index_loop_IndexIndexed: "Index_loop p i xs = IndexIndexed_loop (\<lambda>_. p) i xs"
  by (induction xs arbitrary: i) auto

lemma Find_FindIndexed: "Find zero xs p = FindIndexed_loop zero (\<lambda>_. p) i xs"
  by (induction xs arbitrary: i) auto

lemma IndexIndexed_loop:
  "IndexIndexed_loop p i xs = (case find (\<lambda>(j, x). p j x) (indexed_from i xs) of None \<Rightarrow> - 1 | Some (j, x) \<Rightarrow> j)"
  by (induction xs arbitrary: i) auto

lemma FindIndexed_loop:
  "FindIndexed_loop zero p i xs = (case find (\<lambda>(j, x). p j x) (indexed_from i xs) of None \<Rightarrow> zero | Some (j, x) \<Rightarrow> x)"
  by (induction xs arbitrary: i) auto

lemma Index_loop_found: "0 \<le> i \<Longrightarrow> Index_loop p i xs \<ge> 0 \<longleftrightarrow> (\<exists>x \<in> set xs. p x)"
  by (induction xs arbitrary: i) auto

lemmas search_loops = AnyIndexed_loop AllIndexed_loop All_list_all IndexIndexed_loop FindIndexed_loop Index_loop_found

section \<open>Loops that index\<close>

lemma Equal_loop:
  "length s1 = length s2 \<Longrightarrow> i + n = length s1 \<Longrightarrow> Equal_loop s1 s2 (int i) n = Some (drop i s1 = drop i s2)"
proof (induction n arbitrary: i)
  case (Suc n)
  from Suc.IH [of "i + 1"] Suc.prems have "Equal_loop s1 s2 (int i + 1) n = Some (drop (Suc i) s1 = drop (Suc i) s2)"
    by (simp add: add.commute)
  with Suc.prems show ?case by (simp add: Cons_nth_drop_Suc [symmetric])
qed simp

text \<open>After \<open>i\<close> rounds the first and the last \<open>i\<close> elements are swapped.\<close>

definition reversed_to :: "nat \<Rightarrow> 'a list \<Rightarrow> 'a list" where
  "reversed_to i xs = map (\<lambda>k. if k < i \<or> length xs \<le> k + i then xs ! (length xs - 1 - k) else xs ! k) [0..<length xs]"

lemma reversed_to_step:
  assumes "i < length xs div 2"
  shows "(reversed_to i xs)[i := reversed_to i xs ! (length xs - 1 - i), length xs - 1 - i := reversed_to i xs ! i] = reversed_to (i + 1) xs"
  using assms by (intro nth_equalityI) (auto simp: reversed_to_def nth_list_update)

lemma Reverse_loop:
  "i \<le> length xs div 2 \<Longrightarrow> Reverse_loop (reversed_to i xs) (length xs) (length xs div 2) i = Some (reversed_to (length xs div 2) xs)"
proof (induction "length xs div 2 - i" arbitrary: i)
  case (Suc n)
  then have i: "i < length xs div 2" by simp
  have len: "length (reversed_to i xs) = length xs" by (simp add: reversed_to_def)
  have j: "nat (int (length xs) - 1 - int i) = length xs - 1 - i" using i by simp
  show ?case
    using i len reversed_to_step [OF i] Suc.hyps by (subst Reverse_loop.simps) (simp add: Let_def j)
qed (simp add: Reverse_loop.simps)

lemma reversed_to_half: "reversed_to (length xs div 2) xs = rev xs"
  by (rule nth_equalityI) (auto simp: reversed_to_def rev_nth intro!: arg_cong [where f = "(!) xs"])

section \<open>Duplicates and extremes\<close>

lemma Uniq_loop: "Uniq_loop acc seen xs = UniqBy_loop (\<lambda>x. x) acc seen xs"
  by (induction xs arbitrary: acc seen) auto

text \<open>The reference: keep an item unless an earlier one has its key.\<close>

fun firsts :: "('a \<Rightarrow> 'c) \<Rightarrow> 'c set \<Rightarrow> 'a list \<Rightarrow> 'a list" where
  "firsts f K [] = []"
| "firsts f K (x # xs) = (if f x \<in> K then firsts f K xs else x # firsts f (insert (f x) K) xs)"

lemma UniqBy_loop: "UniqBy_loop f acc seen xs = acc @ firsts f (dom seen) xs"
  by (induction xs arbitrary: acc seen) (auto simp: Let_def domIff)

lemma firsts_keys: "f ` set (firsts f K xs) = f ` set xs - K"
  by (induction xs arbitrary: K) auto

lemma firsts_distinct: "distinct (map f (firsts f K xs))"
proof (induction xs arbitrary: K)
  case (Cons x xs)
  then show ?case using firsts_keys [of f "insert (f x) K" xs] by auto
qed simp

lemma firsts_find: "x \<in> set (firsts f K xs) \<Longrightarrow> find (\<lambda>y. f y = f x) xs = Some x \<and> f x \<notin> K"
proof (induction xs arbitrary: K)
  case (Cons y xs)
  show ?case
  proof (cases "f y \<in> K \<or> x \<noteq> y")
    case True
    with Cons.prems Cons.IH [of K] Cons.IH [of "insert (f y) K"] show ?thesis by (auto split: if_splits)
  next
    case False
    then show ?thesis by auto
  qed
qed simp

lemma firsts_filter: "\<exists>P. firsts f K xs = nths xs P"
proof (induction xs arbitrary: K)
  case (Cons x xs)
  obtain P where P: "firsts f K xs = nths xs P" using Cons by blast
  obtain Q where Q: "firsts f (insert (f x) K) xs = nths xs Q" using Cons by blast
  have "firsts f K (x # xs) = nths (x # xs) (Suc ` P)" if "f x \<in> K" using that P by (simp add: nths_Cons inj_image_mem_iff)
  moreover have "firsts f K (x # xs) = nths (x # xs) (insert 0 (Suc ` Q))" if "f x \<notin> K"
    using that Q by (simp add: nths_Cons inj_image_mem_iff)
  ultimately show ?case by blast
qed (auto simp: nths_def)

lemma MinBy_loop:
  "find (\<lambda>y. \<forall>x \<in> set (m # xs). f y \<le> f x) (m # xs) = Some (MinBy_loop f m (f m) xs)"
proof (induction xs arbitrary: m)
  case (Cons y xs)
  show ?case
  proof (cases "f y < f m")
    case True
    have "find (\<lambda>z. \<forall>x \<in> set (m # y # xs). f z \<le> f x) (m # y # xs) = find (\<lambda>z. \<forall>x \<in> set (y # xs). f z \<le> f x) (y # xs)"
    proof -
      have "(\<forall>x \<in> set (m # y # xs). f z \<le> f x) = (\<forall>x \<in> set (y # xs). f z \<le> f x)" for z using True by auto
      then show ?thesis using True by auto
    qed
    with Cons [of y] True show ?thesis by simp
  next
    case False
    then have "(\<forall>x \<in> set (m # y # xs). f z \<le> f x) = (\<forall>x \<in> set (m # xs). f z \<le> f x)" for z by auto
    with Cons [of m] False show ?thesis by (auto split: if_splits)
  qed
qed simp

lemma MaxBy_loop:
  "find (\<lambda>y. \<forall>x \<in> set (m # xs). f x \<le> f y) (m # xs) = Some (MaxBy_loop f m (f m) xs)"
proof (induction xs arbitrary: m)
  case (Cons y xs)
  show ?case
  proof (cases "f m < f y")
    case True
    then have "(\<forall>x \<in> set (m # y # xs). f x \<le> f z) = (\<forall>x \<in> set (y # xs). f x \<le> f z)" for z by auto
    with Cons [of y] True show ?thesis by auto
  next
    case False
    then have "(\<forall>x \<in> set (m # y # xs). f x \<le> f z) = (\<forall>x \<in> set (m # xs). f x \<le> f z)" for z by auto
    with Cons [of m] False show ?thesis by (auto split: if_splits)
  qed
qed simp

section \<open>Maps and closers\<close>

lemma ReverseMap_loop: "ReverseMap_loop order ret = ret ++ map_of (rev (map prod.swap order))"
proof (induction order arbitrary: ret)
  case (Cons e order)
  have "ret(v \<mapsto> k) ++ m = ret ++ ([v \<mapsto> k] ++ m)" for m v k
    by (auto simp: map_add_def fun_eq_iff split: option.splits)
  with Cons.IH show ?case by (cases e) (simp add: fun_upd_def)
qed simp

fun closers_in :: "closable \<Rightarrow> nat list" where
  "closers_in (Closer n) = [n]"
| "closers_in (With_upstream u) = closers_in u"
| "closers_in _ = []"

definition last_error :: "go_error option \<Rightarrow> go_error option list \<Rightarrow> go_error option" where
  "last_error e es = (case rev (filter (\<lambda>x. x \<noteq> None) es) of [] \<Rightarrow> e | x # _ \<Rightarrow> x)"

lemma last_error_simps [simp]:
  "last_error e [] = e" "last_error e (x # es) = last_error (if x \<noteq> None then x else e) es"
  by (auto simp: last_error_def split: list.splits)

lemma Close_one: "Close_one err c = (last_error None (map err (closers_in c)), closers_in c)"
  by (induction err c rule: Close_one.induct) auto

lemma closers_in_length: "length (closers_in c) \<le> 1"
  by (induction c rule: closers_in.induct) auto

lemma Close_loop:
  "Close_loop err e closed cs = (last_error e (map err (concat (map closers_in cs))), closed @ concat (map closers_in cs))"
proof (induction cs arbitrary: e closed)
  case (Cons c cs)
  have "closers_in c = [] \<or> (\<exists>n. closers_in c = [n])" using closers_in_length [of c] by (cases "closers_in c") auto
  then show ?case using Cons by (auto simp: Close_one)
qed simp

section \<open>Properties\<close>

text \<open>
  C36. The slice helpers compute the functions they are named after: mapping, flat mapping
  and filtering keep the order, the indexed variants pass 0, 1, 2, and so on, the searches find
  the first match or report -1 and the zero value, and \<open>Equal\<close> and the in-place \<open>Reverse\<close>
  never index out of range and give equality and the reversed slice.
\<close>

theorem cond_reference:
  fixes xs :: "'a list"
  shows "Map xs f = map f xs \<and> Filter xs p = filter p xs \<and> FlatMap xs g = concat (map g xs) \<and>
    FilterIsInstance xs h = map (fst \<circ> h) (filter (snd \<circ> h) xs) \<and>
    MapIndexed xs fi = map (\<lambda>(i, x). fi i x) (indexed_from 0 xs) \<and>
    FlatMapIndexed xs gi = concat (map (\<lambda>(i, x). gi i x) (indexed_from 0 xs)) \<and>
    FilterIndexed xs pi = map snd (filter (\<lambda>(i, x). pi i x) (indexed_from 0 xs)) \<and>
    All xs p = list_all p xs \<and> Any xs p = list_ex p xs \<and> Contains xs y = (y \<in> set xs) \<and>
    AllIndexed xs pi = list_all (\<lambda>(i, x). pi i x) (indexed_from 0 xs) \<and>
    AnyIndexed xs pi = list_ex (\<lambda>(i, x). pi i x) (indexed_from 0 xs) \<and>
    IndexIndexed xs pi = (case find (\<lambda>(i, x). pi i x) (indexed_from 0 xs) of None \<Rightarrow> - 1 | Some (i, x) \<Rightarrow> i) \<and>
    FindIndexed zero xs pi = (case find (\<lambda>(i, x). pi i x) (indexed_from 0 xs) of None \<Rightarrow> zero | Some (i, x) \<Rightarrow> x) \<and>
    Index xs p = IndexIndexed xs (\<lambda>_. p) \<and> Find zero xs p = FindIndexed zero xs (\<lambda>_. p) \<and>
    Equal xs ys = Some (xs = ys) \<and> Reverse xs = Some (rev xs)"
proof (intro conjI)
  show "Equal xs ys = Some (xs = ys)" using Equal_loop [of xs ys 0 "length xs"] by (auto simp: Equal_def)
  have "reversed_to 0 xs = xs" by (rule nth_equalityI) (simp_all add: reversed_to_def)
  then show "Reverse xs = Some (rev xs)" using Reverse_loop [of 0 xs] by (simp add: Reverse_def reversed_to_half)
  show "Index xs p = IndexIndexed xs (\<lambda>_. p)" by (simp add: Index_def IndexIndexed_def Index_loop_IndexIndexed)
  show "Find zero xs p = FindIndexed zero xs (\<lambda>_. p)" by (simp add: FindIndexed_def Find_FindIndexed [of _ _ _ 0])
qed (simp_all add: append_loops search_loops Map_def Filter_def FlatMap_def FilterIsInstance_def MapIndexed_def FlatMapIndexed_def
    FilterIndexed_def Any_def Contains_def AllIndexed_def AnyIndexed_def IndexIndexed_def FindIndexed_def list_ex_iff)

text \<open>
  \<open>UniqBy\<close> (and \<open>Uniq\<close>, with the identity) keeps exactly one item per key, the first
  with that key, in the order of the slice.
\<close>

theorem UniqBy_firsts:
  "distinct (map f (UniqBy xs f)) \<and> f ` set (UniqBy xs f) = f ` set xs \<and> (\<exists>P. UniqBy xs f = nths xs P) \<and>
   list_all (\<lambda>x. find (\<lambda>y. f y = f x) xs = Some x) (UniqBy xs f) \<and> Uniq xs = UniqBy xs (\<lambda>x. x)"
  using firsts_filter [of f "{}" xs] firsts_keys [of f "{}" xs] firsts_distinct [of f "{}" xs] firsts_find [of _ f "{}" xs]
  by (simp add: UniqBy_def UniqBy_loop Uniq_def Uniq_loop list_all_iff)

text \<open>
  \<open>MinBy\<close> and \<open>MaxBy\<close> return the first item with the least and the greatest key, and the
  zero value for an empty slice.
\<close>

theorem MinBy_MaxBy_first:
  "MinBy zero xs f = (case find (\<lambda>y. list_all (\<lambda>x. f y \<le> f x) xs) xs of None \<Rightarrow> zero | Some y \<Rightarrow> y) \<and>
   MaxBy zero xs f = (case find (\<lambda>y. list_all (\<lambda>x. f x \<le> f y) xs) xs of None \<Rightarrow> zero | Some y \<Rightarrow> y)"
proof (cases xs)
  case (Cons x xs')
  then show ?thesis using MinBy_loop [of x xs' f] MaxBy_loop [of x xs' f] by (simp add: list_all_iff)
qed simp

text \<open>
  \<open>Close\<close> closes every closer it is given, directly or behind an upstream, once and in
  order, whatever errors they report, and returns the last of these errors.
\<close>

theorem Close_all:
  "Close err cs = (last_error None (map err (concat (map closers_in cs))), concat (map closers_in cs))"
  by (simp add: Close_def Close_loop)

text \<open>\<open>ReverseMap\<close> of an injective map is its inverse, whatever the order of iteration.\<close>

lemma ReverseMap_inverse:
  assumes "distinct (map fst order)" "distinct (map snd order)"
  shows "ReverseMap order v = Some k \<longleftrightarrow> map_of order k = Some v"
proof -
  have "distinct (map fst (rev (map prod.swap order)))" using assms(2) by (simp add: rev_map [symmetric] comp_def)
  then have "ReverseMap order v = Some k \<longleftrightarrow> (v, k) \<in> set (rev (map prod.swap order))"
    by (simp add: ReverseMap_def ReverseMap_loop)
  also have "\<dots> \<longleftrightarrow> (k, v) \<in> set order" by auto
  also have "\<dots> \<longleftrightarrow> map_of order k = Some v" using assms(1) by simp
  finally show ?thesis .
qed

text \<open>\<open>FilterNotNil\<close> of a slice of pointers keeps the nil pointers.\<close>

lemma FilterNotNil_pointers: "FilterNotNil Some ptrs = ptrs"
  by (simp add: FilterNotNil_def Filter_def Filter_loop)

lemma FilterNotNil_interfaces: "FilterNotNil (\<lambda>x. x) xs = filter (\<lambda>x. x \<noteq> None) xs"
  by (simp add: FilterNotNil_def Filter_def Filter_loop)

lemma FilterNotDefault: "FilterNotDefault zero xs = filter (\<lambda>x. x \<noteq> zero) xs"
  by (simp add: FilterNotDefault_def Filter_def Filter_loop)

lemma Must_AnyError: "Must errs = None \<longleftrightarrow> AnyError errs \<noteq> None"
  by (induction errs) auto

end
