(* ===== verification/CommentFilter.thy ===== *)
theory CommentFilter
  imports Prelude
begin

text \<open>
  The comment filter of \<open>common/json/comment.go\<close>: a reader that removes \<open>#\<close>, \<open>//\<close> and
  \<open>/* */\<close> comments from the bytes of another reader, outside of strings. Bytes that do not
  fit the caller's buffer wait in \<open>pending\<close>. The underlying \<open>bufio.Reader\<close> is the byte stream.
\<close>

section \<open>The filter\<close>

datatype commentFilterState =
    StateContent | StateEscape | StateDoubleQuote | StateDoubleQuoteEscape | StateSingleQuote
  | StateSingleQuoteEscape | StateComment | StateSlash | StateMultilineComment | StateMultilineCommentStar

record comment_filter =
  br :: reader
  cf_state :: commentFilterState
  pending :: bytes
  pendingN :: nat

definition NewCommentFilter :: "reader \<Rightarrow> comment_filter" where
  "NewCommentFilter r = \<lparr>br = r, cf_state = StateContent, pending = [0, 0], pendingN = 0\<rparr>"

text \<open>\<open>emit\<close>: \<open>k\<close> is the length of the buffer and \<open>out\<close> what has been written to it. The result
  says whether there may be room left.\<close>

definition set_pending :: "bytes \<Rightarrow> comment_filter \<Rightarrow> comment_filter" where
  "set_pending bs v = v\<lparr>pending := blit (pending v) 0 (take 2 bs), pendingN := length bs\<rparr>"

definition emit :: "nat \<Rightarrow> bytes \<Rightarrow> bytes \<times> comment_filter \<Rightarrow> bool \<times> bytes \<times> comment_filter" where
  "emit k bs s = (case s of (out, v) \<Rightarrow>
     let remaining = int k - int (length out) in
     if remaining \<le> 0 then (False, out, set_pending bs v)
     else if int (length bs) \<le> remaining then (True, out @ bs, v)
     else (False, out @ take (nat remaining) bs, set_pending (drop (nat remaining) bs) v))"

definition emitWithState :: "nat \<Rightarrow> commentFilterState \<Rightarrow> bytes \<Rightarrow> bytes \<times> comment_filter \<Rightarrow> bool \<times> bytes \<times> comment_filter" where
  "emitWithState k nxt bs s = (case s of (out, v) \<Rightarrow> emit k bs (out, v\<lparr>cf_state := nxt\<rparr>))"

definition to_state :: "commentFilterState \<Rightarrow> bytes \<times> comment_filter \<Rightarrow> bool \<times> bytes \<times> comment_filter" where
  "to_state st s = (case s of (out, v) \<Rightarrow> (True, out, v\<lparr>cf_state := st\<rparr>))"

text \<open>One round of the loop for the byte \<open>x\<close>: the \<open>switch\<close> on the state. The bytes are the
  double quote (34), the single quote (39), the backslash (92), the hash (35), the slash (47),
  the star (42) and the newline (10).\<close>

definition filter_byte :: "nat \<Rightarrow> byte \<Rightarrow> bytes \<times> comment_filter \<Rightarrow> bool \<times> bytes \<times> comment_filter" where
  "filter_byte k x s =
     (case cf_state (snd s) of
        StateContent \<Rightarrow>
          if x = 34 then emitWithState k StateDoubleQuote [x] s
          else if x = 39 then emitWithState k StateSingleQuote [x] s
          else if x = 92 then to_state StateEscape s
          else if x = 35 then to_state StateComment s
          else if x = 47 then to_state StateSlash s
          else emit k [x] s
      | StateEscape \<Rightarrow> emitWithState k StateContent [92, x] s
      | StateDoubleQuote \<Rightarrow>
          if x = 34 then emitWithState k StateContent [x] s
          else if x = 92 then to_state StateDoubleQuoteEscape s
          else emit k [x] s
      | StateDoubleQuoteEscape \<Rightarrow> emitWithState k StateDoubleQuote [92, x] s
      | StateSingleQuote \<Rightarrow>
          if x = 39 then emitWithState k StateContent [x] s
          else if x = 92 then to_state StateSingleQuoteEscape s
          else emit k [x] s
      | StateSingleQuoteEscape \<Rightarrow> emitWithState k StateSingleQuote [92, x] s
      | StateComment \<Rightarrow> if x = 10 then emitWithState k StateContent [10] s else (True, s)
      | StateSlash \<Rightarrow>
          if x = 47 then to_state StateComment s
          else if x = 42 then to_state StateMultilineComment s
          else emitWithState k StateContent [47, x] s
      | StateMultilineComment \<Rightarrow>
          if x = 42 then to_state StateMultilineCommentStar s
          else if x = 10 then emit k [10] s
          else (True, s)
      | StateMultilineCommentStar \<Rightarrow>
          if x = 47 then to_state StateContent s
          else if x = 42 then (True, s)
          else if x = 10 then emitWithState k StateMultilineComment [10] s
          else to_state StateMultilineComment s)"

lemma filter_byte_br: "(room, out', v') = filter_byte k x s \<Longrightarrow> br v' = br (snd s)"
  by (cases s) (auto simp: filter_byte_def emitWithState_def to_state_def emit_def set_pending_def Let_def
      split: commentFilterState.splits if_splits)

lemma ReadByte_shorter: "(Inr x, r') = ReadByte r \<Longrightarrow> length (rdata r') < length (rdata r)"
  by (auto simp: ReadByte_def split: list.splits)

text \<open>The loop; the result is what was written to the buffer and the error.\<close>

function read_loop :: "nat \<Rightarrow> bytes \<times> comment_filter \<Rightarrow> (bytes \<times> go_error option) \<times> comment_filter" where
  "read_loop k (out, v) =
     (if length out < k then
        case ReadByte (br v) of
          (Inl err, r) \<Rightarrow>
            let v = v\<lparr>br := r\<rparr>;
                (room, out, v) =
                  (if cf_state v = StateSlash then emit k [47] (out, v\<lparr>cf_state := StateContent\<rparr>) else (True, out, v))
            in if \<not> room then ((out, None), v)
               else if out = [] then (([], Some err), v)
               else ((out, None), v)
        | (Inr x, r) \<Rightarrow>
            (case filter_byte k x (out, v\<lparr>br := r\<rparr>) of
               (room, out, v) \<Rightarrow> if \<not> room then ((out, None), v) else read_loop k (out, v))
      else ((out, None), v))"
  by pat_completeness auto
termination
  by (relation "measure (\<lambda>(k, out, v). length (rdata (br v)))") (auto dest!: filter_byte_br ReadByte_shorter)

declare read_loop.simps [simp del]

text \<open>\<open>Read\<close> into a buffer of length \<open>k\<close>.\<close>

definition filter_Read :: "nat \<Rightarrow> comment_filter \<Rightarrow> (bytes \<times> go_error option) \<times> comment_filter" where
  "filter_Read k v =
     (if k = 0 then (([], None), v)
      else if pendingN v > 0 then
        let copied = min k (pendingN v); out = take copied (take (pendingN v) (pending v)) in
        if copied < pendingN v then
          ((out, None),
           v\<lparr>pending := blit (pending v) 0 (take (pendingN v - copied) (drop copied (pending v))), pendingN := pendingN v - copied\<rparr>)
        else read_loop k (out, v\<lparr>pendingN := 0\<rparr>)
      else read_loop k ([], v))"

section \<open>The bytes still to come\<close>

text \<open>What the state machine emits for one byte, and for the rest of the stream.\<close>

fun emits :: "commentFilterState \<Rightarrow> byte \<Rightarrow> bytes \<times> commentFilterState" where
  "emits StateContent x =
     (if x = 34 then ([x], StateDoubleQuote) else if x = 39 then ([x], StateSingleQuote) else if x = 92 then ([], StateEscape)
      else if x = 35 then ([], StateComment) else if x = 47 then ([], StateSlash) else ([x], StateContent))"
| "emits StateEscape x = ([92, x], StateContent)"
| "emits StateDoubleQuote x =
     (if x = 34 then ([x], StateContent) else if x = 92 then ([], StateDoubleQuoteEscape) else ([x], StateDoubleQuote))"
| "emits StateDoubleQuoteEscape x = ([92, x], StateDoubleQuote)"
| "emits StateSingleQuote x =
     (if x = 39 then ([x], StateContent) else if x = 92 then ([], StateSingleQuoteEscape) else ([x], StateSingleQuote))"
| "emits StateSingleQuoteEscape x = ([92, x], StateSingleQuote)"
| "emits StateComment x = (if x = 10 then ([x], StateContent) else ([], StateComment))"
| "emits StateSlash x =
     (if x = 47 then ([], StateComment) else if x = 42 then ([], StateMultilineComment) else ([47, x], StateContent))"
| "emits StateMultilineComment x =
     (if x = 42 then ([], StateMultilineCommentStar) else if x = 10 then ([x], StateMultilineComment) else ([], StateMultilineComment))"
| "emits StateMultilineCommentStar x =
     (if x = 47 then ([], StateContent) else if x = 42 then ([], StateMultilineCommentStar)
      else if x = 10 then ([x], StateMultilineComment) else ([], StateMultilineComment))"

fun filtered :: "commentFilterState \<Rightarrow> bytes \<Rightarrow> bytes" where
  "filtered st [] = (if st = StateSlash then [47] else [])"
| "filtered st (x # xs) = fst (emits st x) @ filtered (snd (emits st x)) xs"

definition waiting :: "comment_filter \<Rightarrow> bytes" where
  "waiting v = take (pendingN v) (pending v)"

definition todo :: "comment_filter \<Rightarrow> bytes" where
  "todo v = waiting v @ filtered (cf_state v) (rdata (br v))"

definition cf_ok :: "comment_filter \<Rightarrow> bool" where
  "cf_ok v \<longleftrightarrow> length (pending v) = 2 \<and> pendingN v \<le> 2"

lemma emits_short: "length (fst (emits st x)) \<le> 2"
  by (cases st) auto

lemma set_pending_ok:
  assumes "cf_ok v" "length bs \<le> 2"
  shows "cf_ok (set_pending bs v)" "waiting (set_pending bs v) = bs"
  using assms by (auto simp: cf_ok_def waiting_def set_pending_def blit_def)

lemma set_pending_fields [simp]: "cf_state (set_pending bs v) = cf_state v" "br (set_pending bs v) = br v" "pendingN (set_pending bs v) = length bs"
  by (simp_all add: set_pending_def)

lemma emit_spec:
  assumes "cf_ok v" "pendingN v = 0" "length out < k" "length bs \<le> 2" "emit k bs (out, v) = (room, out', v')"
  shows "out' @ waiting v' = out @ bs" "cf_ok v'" "cf_state v' = cf_state v" "br v' = br v" "length out' \<le> k"
    "room \<longleftrightarrow> pendingN v' = 0" "\<not> room \<Longrightarrow> length out' = k"
proof -
  have w: "waiting v = []" using assms(2) by (simp add: waiting_def)
  show "out' @ waiting v' = out @ bs" "cf_ok v'" "cf_state v' = cf_state v" "br v' = br v" "length out' \<le> k"
    "room \<longleftrightarrow> pendingN v' = 0" "\<not> room \<Longrightarrow> length out' = k"
    using assms w set_pending_ok [OF assms(1), of "drop (k - length out) bs"]
    by (auto simp: emit_def Let_def nat_diff_distrib split: if_splits)
qed

lemma cf_state_same [simp]: "cf_state v = st \<Longrightarrow> v\<lparr>cf_state := st\<rparr> = v"
  by auto

lemma filter_byte_emit:
  "filter_byte k x (out, v) =
     (if fst (emits (cf_state v) x) = [] then (True, out, v\<lparr>cf_state := snd (emits (cf_state v) x)\<rparr>)
      else emit k (fst (emits (cf_state v) x)) (out, v\<lparr>cf_state := snd (emits (cf_state v) x)\<rparr>))"
  by (cases "cf_state v") (auto simp: filter_byte_def emitWithState_def to_state_def)

lemma filter_byte_spec:
  assumes "cf_ok v" "pendingN v = 0" "length out < k" "filter_byte k x (out, v) = (room, out', v')"
  shows "out' @ waiting v' = out @ fst (emits (cf_state v) x)" "cf_ok v'" "cf_state v' = snd (emits (cf_state v) x)" "br v' = br v"
    "length out' \<le> k" "room \<longleftrightarrow> pendingN v' = 0" "\<not> room \<Longrightarrow> length out' = k"
proof -
  let ?v = "v\<lparr>cf_state := snd (emits (cf_state v) x)\<rparr>"
  have v: "cf_ok ?v" "pendingN ?v = 0" using assms(1,2) by (simp_all add: cf_ok_def)
  show "out' @ waiting v' = out @ fst (emits (cf_state v) x)" "cf_ok v'" "cf_state v' = snd (emits (cf_state v) x)" "br v' = br v"
    "length out' \<le> k" "room \<longleftrightarrow> pendingN v' = 0" "\<not> room \<Longrightarrow> length out' = k"
    using emit_spec [OF v assms(3) emits_short, of "cf_state v" x room out' v'] assms v
    by (auto simp: filter_byte_emit waiting_def split: if_splits)
qed

section \<open>Reading\<close>

definition progress :: "nat \<Rightarrow> bytes \<Rightarrow> go_error \<Rightarrow> (bytes \<times> go_error option) \<times> comment_filter \<Rightarrow> bool" where
  "progress k todo_before e r = (case r of ((out, err), v') \<Rightarrow>
     out @ todo v' = todo_before \<and> length out \<le> k \<and> cf_ok v' \<and> rerr (br v') = e \<and>
     (case err of None \<Rightarrow> out \<noteq> [] | Some e' \<Rightarrow> todo_before = [] \<and> e' = e))"

lemma read_loop_progress:
  "cf_ok v \<Longrightarrow> pendingN v = 0 \<Longrightarrow> length out \<le> k \<Longrightarrow> 0 < k \<Longrightarrow> progress k (out @ todo v) (rerr (br v)) (read_loop k (out, v))"
proof (induction k "(out, v)" arbitrary: out v rule: read_loop.induct)
  case (1 k out v)
  have w: "waiting v = []" using 1(3) by (simp add: waiting_def)
  consider "length out = k" | "length out < k" "rdata (br v) = []" | x xs where "length out < k" "rdata (br v) = x # xs"
    using le_neq_implies_less [OF 1(4)] by (cases "rdata (br v)") auto
  then show ?case
  proof cases
    case 1
    then show ?thesis using \<open>cf_ok v\<close> \<open>0 < k\<close> by (subst read_loop.simps) (auto simp: progress_def)
  next
    case 2
    have r: "ReadByte (br v) = (Inl (rerr (br v)), br v)" using 2 by (simp add: ReadByte_def)
    have ok: "cf_ok (v\<lparr>cf_state := StateContent\<rparr>)" using \<open>cf_ok v\<close> by (simp add: cf_ok_def)
    show ?thesis
    proof (cases "cf_state v = StateSlash")
      case True
      have "emit k [47] (out, v\<lparr>cf_state := StateContent\<rparr>) = (True, out @ [47], v\<lparr>cf_state := StateContent\<rparr>)"
        using 2 by (simp add: emit_def Let_def)
      then show ?thesis using 2 r True ok \<open>pendingN v = 0\<close>
        by (subst read_loop.simps) (simp add: progress_def todo_def waiting_def)
    next
      case False
      then show ?thesis using 2 r w \<open>cf_ok v\<close> by (subst read_loop.simps) (simp add: progress_def todo_def)
    qed
  next
    case (3 x xs)
    let ?v = "v\<lparr>br := (br v)\<lparr>rdata := xs\<rparr>\<rparr>"
    have r: "ReadByte (br v) = (Inr x, (br v)\<lparr>rdata := xs\<rparr>)" using 3 by (simp add: ReadByte_def)
    obtain room out' v' where f: "filter_byte k x (out, ?v) = (room, out', v')" by (metis prod_cases3)
    have v: "cf_ok ?v" "pendingN ?v = 0" using 1(2,3) by (simp_all add: cf_ok_def)
    note spec = filter_byte_spec [OF v 3(1) f]
    have todo: "out' @ todo v' = out @ todo v" using spec(1,3,4) 3 w by (simp add: todo_def)
    show ?thesis
    proof (cases room)
      case True
      then have "progress k (out' @ todo v') (rerr (br v')) (read_loop k (out', v'))"
        using 1(1) [OF 3(1) r [symmetric] refl f [symmetric] refl] True spec 1(5) by simp
      then show ?thesis using r f True 3(1) todo spec(4)
        by (subst read_loop.simps) simp
    next
      case False
      then show ?thesis using r f 3(1) todo spec 1(5)
        by (subst read_loop.simps) (auto simp: progress_def)
    qed
  qed
qed

lemma filter_Read_progress:
  assumes "cf_ok v" "0 < k"
  shows "progress k (todo v) (rerr (br v)) (filter_Read k v)"
proof (cases "pendingN v = 0")
  case True
  then show ?thesis using read_loop_progress [OF assms(1) True, of "[]" k] assms(2) by (simp add: filter_Read_def)
next
  case False
  have w: "length (waiting v) = pendingN v" using assms(1) by (simp add: cf_ok_def waiting_def)
  have ok: "cf_ok (v\<lparr>pendingN := 0\<rparr>)" using assms(1) by (simp add: cf_ok_def)
  have t: "waiting v @ todo (v\<lparr>pendingN := 0\<rparr>) = todo v" by (simp add: todo_def waiting_def)
  show ?thesis
  proof (cases "k < pendingN v")
    case True
    then have one: "k = 1" "pendingN v = 2" using assms by (auto simp: cf_ok_def)
    obtain a b where ab: "pending v = [a, b]" using assms(1) by (auto simp: cf_ok_def length_Suc_conv numeral_2_eq_2)
    show ?thesis using one ab assms by (simp add: filter_Read_def progress_def todo_def waiting_def cf_ok_def blit_def Let_def)
  next
    case fits: False
    have "progress k (waiting v @ todo (v\<lparr>pendingN := 0\<rparr>)) (rerr (br (v\<lparr>pendingN := 0\<rparr>))) (read_loop k (waiting v, v\<lparr>pendingN := 0\<rparr>))"
      by (rule read_loop_progress) (use ok w fits assms(2) in simp_all)
    moreover have "filter_Read k v = read_loop k (waiting v, v\<lparr>pendingN := 0\<rparr>)"
      using False fits assms w by (simp add: filter_Read_def waiting_def min_def Let_def)
    ultimately show ?thesis by (simp add: t)
  qed
qed

text \<open>A client that reads into buffers of the given sizes until the first error.\<close>

fun filter_reads :: "nat list \<Rightarrow> comment_filter \<Rightarrow> bytes \<times> go_error option" where
  "filter_reads [] v = ([], None)"
| "filter_reads (k # ks) v =
     (case filter_Read k v of
        ((out, Some err), v') \<Rightarrow> (out, Some err)
      | ((out, None), v') \<Rightarrow> apfst ((@) out) (filter_reads ks v'))"

lemma filter_reads_all:
  "cf_ok v \<Longrightarrow> 0 \<notin> set ks \<Longrightarrow> length (todo v) < length ks \<Longrightarrow> filter_reads ks v = (todo v, Some (rerr (br v)))"
proof (induction ks arbitrary: v)
  case (Cons k ks)
  have p: "progress k (todo v) (rerr (br v)) (filter_Read k v)" by (rule filter_Read_progress) (use Cons.prems in auto)
  obtain out err v' where r: "filter_Read k v = ((out, err), v')" by (metis prod.collapse)
  show ?case
  proof (cases err)
    case None
    then have "out \<noteq> []" "out @ todo v' = todo v" "cf_ok v'" "rerr (br v') = rerr (br v)" using p r by (auto simp: progress_def)
    moreover from this have "length (todo v') < length ks" using Cons.prems(3) by (cases out) (auto simp flip: \<open>out @ todo v' = todo v\<close>)
    ultimately show ?thesis using Cons r None by simp
  next
    case (Some e)
    then have "out @ todo v' = todo v" "todo v = []" "e = rerr (br v)" using p r by (auto simp: progress_def)
    with r Some show ?thesis by simp
  qed
qed simp

section \<open>Documents with comments\<close>

text \<open>A document as the code sees it, what it looks like, and what should be left of it.\<close>

datatype string_item = Char byte | Escaped byte

datatype segment =
    Plain byte
  | Escape byte
  | Quoted byte "string_item list"
  | Hash_comment bytes
  | Slash_comment bytes
  | Block_comment bytes

fun render_item :: "string_item \<Rightarrow> bytes" where
  "render_item (Char b) = [b]"
| "render_item (Escaped b) = [92, b]"

fun item_ok :: "byte \<Rightarrow> string_item \<Rightarrow> bool" where
  "item_ok q (Char b) \<longleftrightarrow> b \<noteq> q \<and> b \<noteq> 92"
| "item_ok q (Escaped b) \<longleftrightarrow> True"

fun render :: "segment \<Rightarrow> bytes" where
  "render (Plain b) = [b]"
| "render (Escape b) = [92, b]"
| "render (Quoted q is) = q # concat (map render_item is) @ [q]"
| "render (Hash_comment c) = 35 # c @ [10]"
| "render (Slash_comment c) = 47 # 47 # c @ [10]"
| "render (Block_comment c) = 47 # 42 # c @ [42, 47]"

text \<open>No star is followed by a slash inside a block comment.\<close>

fun no_end :: "bytes \<Rightarrow> bool" where
  "no_end (x # y # c) \<longleftrightarrow> \<not> (x = 42 \<and> y = 47) \<and> no_end (y # c)"
| "no_end _ \<longleftrightarrow> True"

fun segment_ok :: "segment \<Rightarrow> bool" where
  "segment_ok (Plain b) \<longleftrightarrow> b \<notin> {34, 39, 92, 35, 47}"
| "segment_ok (Escape b) \<longleftrightarrow> True"
| "segment_ok (Quoted q is) \<longleftrightarrow> q \<in> {34, 39} \<and> list_all (item_ok q) is"
| "segment_ok (Hash_comment c) \<longleftrightarrow> 10 \<notin> set c"
| "segment_ok (Slash_comment c) \<longleftrightarrow> 10 \<notin> set c"
| "segment_ok (Block_comment c) \<longleftrightarrow> no_end c"

fun uncommented :: "segment \<Rightarrow> bytes" where
  "uncommented (Hash_comment c) = [10]"
| "uncommented (Slash_comment c) = [10]"
| "uncommented (Block_comment c) = filter (\<lambda>b. b = 10) c"
| "uncommented s = render s"

lemma filtered_line: "10 \<notin> set c \<Longrightarrow> filtered StateComment (c @ 10 # rest) = 10 # filtered StateContent rest"
  by (induction c) auto

lemma filtered_double: "list_all (item_ok 34) is \<Longrightarrow>
    filtered StateDoubleQuote (concat (map render_item is) @ 34 # rest) = concat (map render_item is) @ 34 # filtered StateContent rest"
proof (induction "is")
  case (Cons i "is")
  then show ?case by (cases i) auto
qed simp

lemma filtered_single: "list_all (item_ok 39) is \<Longrightarrow>
    filtered StateSingleQuote (concat (map render_item is) @ 39 # rest) = concat (map render_item is) @ 39 # filtered StateContent rest"
proof (induction "is")
  case (Cons i "is")
  then show ?case by (cases i) auto
qed simp

lemma filtered_block:
  "no_end c \<Longrightarrow> filtered StateMultilineComment (c @ 42 # 47 # rest) = filter (\<lambda>b. b = 10) c @ filtered StateContent rest"
  "no_end (42 # c) \<Longrightarrow> filtered StateMultilineCommentStar (c @ 42 # 47 # rest) = filter (\<lambda>b. b = 10) c @ filtered StateContent rest"
proof (induction c)
  case (Cons x c)
  {
    case 1
    then have "no_end c" by (cases c) auto
    with 1 Cons.IH show ?case by auto
  next
    case 2
    then have "x \<noteq> 47" "no_end (x # c)" "no_end c" by (cases c; auto)+
    with Cons.IH show ?case by auto
  }
qed auto

lemma filtered_segment: "segment_ok s \<Longrightarrow> filtered StateContent (render s @ rest) = uncommented s @ filtered StateContent rest"
  by (cases s) (auto simp: filtered_line filtered_double filtered_single filtered_block(1))

lemma filtered_document:
  "list_all segment_ok ss \<Longrightarrow> filtered StateContent (concat (map render ss)) = concat (map uncommented ss)"
  by (induction ss) (simp_all add: filtered_segment)

section \<open>Properties\<close>

text \<open>
  C37. The comment filter removes exactly the comments: for a document made of text, escapes,
  strings in double or single quotes (which may contain comment characters) and comments, read
  into buffers of any positive sizes, the bytes delivered are the document without its comments
  (a line comment leaves its newline, a block comment the newlines inside it), and then the
  error of the underlying reader is reported.
\<close>

theorem comment_filter_correct:
  assumes "list_all segment_ok ss" "0 \<notin> set ks" "length (concat (map uncommented ss)) < length ks"
  shows "filter_reads ks (NewCommentFilter \<lparr>rdata = concat (map render ss), rerr = e\<rparr>) =
    (concat (map uncommented ss), Some e)"
proof -
  let ?v = "NewCommentFilter \<lparr>rdata = concat (map render ss), rerr = e\<rparr>"
  have "todo ?v = concat (map uncommented ss)"
    using filtered_document [OF assms(1)] by (simp add: todo_def waiting_def NewCommentFilter_def)
  moreover have "cf_ok ?v" by (simp add: cf_ok_def NewCommentFilter_def)
  ultimately show ?thesis using filter_reads_all [of ?v ks] assms(2,3) by (simp add: NewCommentFilter_def)
qed

theorem comment_filter_correct_witness:
  "filter_reads [1, 2, 1, 3, 7, 1, 1, 1, 1, 1, 1, 1] (NewCommentFilter
      \<lparr>rdata = concat (map render [Plain 91, Slash_comment [34, 47], Quoted 34 [Char 35, Escaped 34], Block_comment [42, 10], Plain 93]), rerr = EOF\<rparr>) =
    ([91, 10, 34, 35, 92, 34, 34, 10, 93], Some EOF)"
  using comment_filter_correct [of "[Plain 91, Slash_comment [34, 47], Quoted 34 [Char 35, Escaped 34], Block_comment [42, 10], Plain 93]"
      "[1, 2, 1, 3, 7, 1, 1, 1, 1, 1, 1, 1]" EOF] by simp

end
