(* ===== verification/JsonTokens.thy ===== *)
theory JsonTokens
  imports Prelude
begin

text \<open>
  The token interface of the decoder in \<open>common/json/internal/contextjson/stream.go\<close>:
  \<open>Token\<close>, \<open>More\<close> and the token states.

  The input is the sequence of lexemes left after white space and comments: delimiters
  (brackets, braces, comma, colon) and the scalar values that \<open>Decode\<close> reads, with the text
  of a number for its value. After the last lexeme the input either ends (\<open>peek\<close> fails) or goes
  on with a byte that begins no lexeme; \<open>lex_err\<close> is the error \<open>Token\<close> reports there and
  \<open>lex_bad\<close> says which it is.
\<close>

section \<open>Lexemes, tokens, outcomes\<close>

datatype lexeme = LDelim byte | LString bytes | LNumber bytes | LBool bool | LNull

datatype json_token = Delim byte | TString bytes | TNumber bytes | TBool bool | TNull

datatype token_state =
    tokenTopValue | tokenArrayStart | tokenArrayValue | tokenArrayComma
  | tokenObjectStart | tokenObjectKey | tokenObjectColon | tokenObjectValue | tokenObjectComma

record decoder =
  lexemes :: "lexeme list"
  lex_err :: go_error
  lex_bad :: bool
  tokenState :: token_state
  tokenStack :: "token_state list"

text \<open>The outcome of a call: a value, an error, a panic, or no fuel left.\<close>

datatype 'a outcome = Returns 'a | Fails go_error | Panics | Unfinished

fun and_then :: "'a outcome \<times> decoder \<Rightarrow> ('a \<Rightarrow> decoder \<Rightarrow> 'b outcome \<times> decoder) \<Rightarrow> 'b outcome \<times> decoder" where
  "and_then (Returns x, d) f = f x d"
| "and_then (Fails e, d) f = (Fails e, d)"
| "and_then (Panics, d) f = (Panics, d)"
| "and_then (Unfinished, d) f = (Unfinished, d)"

lemma and_then_cong [fundef_cong]:
  "p = q \<Longrightarrow> (\<And>x d. q = (Returns x, d) \<Longrightarrow> f x d = g x d) \<Longrightarrow> and_then p f = and_then q g"
  by (cases "(q, g)" rule: and_then.cases) auto

fun cause_of :: "msg_part list \<Rightarrow> 'a outcome \<times> decoder \<Rightarrow> 'a outcome \<times> decoder" where
  "cause_of m (Fails e, d) = (Fails (CauseError m e), d)"
| "cause_of m r = r"

section \<open>The token states\<close>

definition tokenValueAllowed :: "token_state \<Rightarrow> bool" where
  "tokenValueAllowed st \<longleftrightarrow> st \<in> {tokenTopValue, tokenArrayStart, tokenArrayValue, tokenObjectValue}"

definition value_end :: "token_state \<Rightarrow> token_state" where
  "value_end st =
     (if st = tokenArrayStart \<or> st = tokenArrayValue then tokenArrayComma
      else if st = tokenObjectValue then tokenObjectComma else st)"

definition tokenValueEnd :: "decoder \<Rightarrow> decoder" where
  "tokenValueEnd d = d\<lparr>tokenState := value_end (tokenState d)\<rparr>"

fun state_context :: "token_state \<Rightarrow> string" where
  "state_context tokenTopValue = '' looking for beginning of value''"
| "state_context tokenArrayStart = '' looking for beginning of value''"
| "state_context tokenArrayValue = '' looking for beginning of value''"
| "state_context tokenObjectValue = '' looking for beginning of value''"
| "state_context tokenArrayComma = '' after array element''"
| "state_context tokenObjectKey = '' looking for beginning of object key string''"
| "state_context tokenObjectColon = '' after object key''"
| "state_context tokenObjectComma = '' after object key:value pair''"
| "state_context tokenObjectStart = ''''"

fun first_byte :: "lexeme \<Rightarrow> byte" where
  "first_byte (LDelim c) = c"
| "first_byte (LString s) = 34"
| "first_byte (LNumber n) = (case n of [] \<Rightarrow> 48 | c # _ \<Rightarrow> c)"
| "first_byte (LBool b) = (if b then 116 else 102)"
| "first_byte LNull = 110"

definition tokenError :: "lexeme \<Rightarrow> decoder \<Rightarrow> json_token outcome \<times> decoder" where
  "tokenError l d = (Fails (ErrorNew [Txt ''invalid character '', Str [first_byte l], Txt (state_context (tokenState d))]), d)"

definition popToken :: "byte \<Rightarrow> decoder \<Rightarrow> json_token outcome \<times> decoder" where
  "popToken c d =
     (case tokenStack d of
        [] \<Rightarrow> (Panics, d)
      | st # sts \<Rightarrow> (Returns (Delim c), tokenValueEnd (d\<lparr>tokenState := st, tokenStack := sts\<rparr>)))"

definition pushToken :: "token_state \<Rightarrow> decoder \<Rightarrow> decoder" where
  "pushToken st d = d\<lparr>tokenStack := tokenState d # tokenStack d, tokenState := st\<rparr>"

text \<open>The value of a scalar, read by \<open>Decode\<close>. A delimiter other than the six is a byte that
  begins no lexeme.\<close>

fun scalar :: "lexeme \<Rightarrow> json_token" where
  "scalar (LString s) = TString s"
| "scalar (LNumber n) = TNumber n"
| "scalar (LBool b) = TBool b"
| "scalar LNull = TNull"
| "scalar (LDelim c) = Delim c"

section \<open>Token and More\<close>

text \<open>The loop of \<open>Token\<close> over the lexemes: it goes on after a colon or a comma.\<close>

fun Token_loop :: "lexeme list \<Rightarrow> decoder \<Rightarrow> json_token outcome \<times> decoder" where
  "Token_loop [] d = (Fails (lex_err d), d\<lparr>lexemes := []\<rparr>)"
| "Token_loop (l # ls) d =
     (let here = d\<lparr>lexemes := l # ls\<rparr>; d' = d\<lparr>lexemes := ls\<rparr>; st = tokenState d in
      if l = LDelim 91 then
        (if \<not> tokenValueAllowed st then tokenError l here else (Returns (Delim 91), pushToken tokenArrayStart d'))
      else if l = LDelim 93 then
        (if st \<notin> {tokenArrayStart, tokenArrayComma, tokenArrayValue} then tokenError l here else popToken 93 d')
      else if l = LDelim 123 then
        (if \<not> tokenValueAllowed st then tokenError l here else (Returns (Delim 123), pushToken tokenObjectStart d'))
      else if l = LDelim 125 then
        (if st \<notin> {tokenObjectStart, tokenObjectComma, tokenObjectKey} then tokenError l here else popToken 125 d')
      else if l = LDelim 58 then
        (if st \<noteq> tokenObjectColon then tokenError l here else Token_loop ls (d\<lparr>tokenState := tokenObjectValue\<rparr>))
      else if l = LDelim 44 then
        (if st = tokenArrayComma then Token_loop ls (d\<lparr>tokenState := tokenArrayValue\<rparr>)
         else if st = tokenObjectComma then Token_loop ls (d\<lparr>tokenState := tokenObjectKey\<rparr>)
         else tokenError l here)
      else (case l of
          LString s \<Rightarrow>
            if st = tokenObjectStart \<or> st = tokenObjectKey then (Returns (TString s), d'\<lparr>tokenState := tokenObjectColon\<rparr>)
            else if \<not> tokenValueAllowed st then tokenError l here
            else (Returns (TString s), tokenValueEnd d')
        | LDelim c \<Rightarrow> (Fails (lex_err d), here)
        | _ \<Rightarrow>
            if \<not> tokenValueAllowed st then tokenError l here
            else (Returns (scalar l), tokenValueEnd d')))"

definition Token :: "decoder \<Rightarrow> json_token outcome \<times> decoder" where
  "Token d = Token_loop (lexemes d) d"

fun More_loop :: "bool \<Rightarrow> lexeme list \<Rightarrow> bool" where
  "More_loop bad [] = bad"
| "More_loop bad [l] = (l \<noteq> LDelim 93 \<and> l \<noteq> LDelim 125 \<and> (l = LDelim 44 \<longrightarrow> bad))"
| "More_loop bad (l # l' # ls) =
     (l \<noteq> LDelim 93 \<and> l \<noteq> LDelim 125 \<and> (l = LDelim 44 \<longrightarrow> l' \<noteq> LDelim 93 \<and> l' \<noteq> LDelim 125))"

definition NewDecoder :: "lexeme list \<Rightarrow> go_error \<Rightarrow> bool \<Rightarrow> decoder" where
  "NewDecoder ls e bad = \<lparr>lexemes = ls, lex_err = e, lex_bad = bad, tokenState = tokenTopValue, tokenStack = []\<rparr>"

definition More :: "decoder \<Rightarrow> bool" where
  "More d = More_loop (lex_bad d) (lexemes d)"

section \<open>Facts about tokens\<close>

abbreviation left :: "decoder \<Rightarrow> nat" where "left d \<equiv> length (lexemes d)"

lemma and_then_Returns: "and_then p f = (Returns y, d') \<Longrightarrow> \<exists>x d. p = (Returns x, d) \<and> f x d = (Returns y, d')"
  by (cases "(p, f)" rule: and_then.cases) auto

lemma and_then_Unfinished:
  "fst (and_then p f) = Unfinished \<Longrightarrow> fst p \<noteq> Unfinished \<Longrightarrow> \<exists>x d. p = (Returns x, d) \<and> fst (f x d) = Unfinished"
  by (cases "(p, f)" rule: and_then.cases) auto

lemma and_then_Panics: "fst (and_then p f) = Panics \<Longrightarrow> fst p \<noteq> Panics \<Longrightarrow> \<exists>x d. p = (Returns x, d) \<and> fst (f x d) = Panics"
  by (cases "(p, f)" rule: and_then.cases) auto

lemma cause_of_simps:
  "cause_of m p = (Returns x, d) \<longleftrightarrow> p = (Returns x, d)" "fst (cause_of m p) = Unfinished \<longleftrightarrow> fst p = Unfinished"
  "fst (cause_of m p) = Panics \<longleftrightarrow> fst p = Panics"
  by (cases "(m, p)" rule: cause_of.cases; auto)+

lemmas token_defs = tokenError_def popToken_def pushToken_def tokenValueEnd_def

lemma Token_loop_left: "Token_loop ls d = (Returns t, d') \<Longrightarrow> left d' < length ls"
proof (induction ls arbitrary: d)
  case (Cons l ls)
  from Cons.prems show ?case
    by (cases l) (auto simp: Let_def token_defs split: if_splits list.splits dest!: Cons.IH)
qed simp

lemma Token_left: "Token d = (Returns t, d') \<Longrightarrow> left d' < left d"
  by (simp add: Token_def Token_loop_left)

lemma Token_loop_finishes: "fst (Token_loop ls d) \<noteq> Unfinished"
proof (induction ls arbitrary: d)
  case (Cons l ls)
  then show ?case by (cases l) (auto simp: Let_def token_defs split: list.splits)
qed simp

lemma Token_finishes: "fst (Token d) \<noteq> Unfinished"
  by (simp add: Token_def Token_loop_finishes)

text \<open>The stack is not empty inside of an array or object.\<close>

definition wf_dec :: "decoder \<Rightarrow> bool" where
  "wf_dec d \<longleftrightarrow> (tokenState d = tokenTopValue \<or> tokenStack d \<noteq> [])"

lemma Token_loop_wf:
  "wf_dec d \<Longrightarrow> fst (Token_loop ls d) \<noteq> Panics"
proof (induction ls arbitrary: d)
  case (Cons l ls)
  then show ?case by (cases l) (auto simp: Let_def token_defs wf_dec_def split: list.splits)
qed simp

lemma Token_total: "wf_dec d \<Longrightarrow> fst (Token d) \<noteq> Panics"
  by (simp add: Token_def Token_loop_wf)

section \<open>Tokens of values, keys and ends\<close>

text \<open>The states in which a value is expected, and the state after it.\<close>

definition value_state :: "token_state \<Rightarrow> bool" where
  "value_state st \<longleftrightarrow> st \<in> {tokenTopValue, tokenArrayStart, tokenArrayValue, tokenArrayComma, tokenObjectColon, tokenObjectValue}"

definition settled :: "token_state \<Rightarrow> token_state" where
  "settled st =
     (if st \<in> {tokenArrayStart, tokenArrayValue, tokenArrayComma} then tokenArrayComma
      else if st \<in> {tokenObjectColon, tokenObjectValue} then tokenObjectComma else st)"

lemma value_end_settled: "tokenValueAllowed st \<Longrightarrow> value_end st = settled st"
  by (auto simp: tokenValueAllowed_def value_end_def settled_def)

text \<open>A separator that is due is skipped.\<close>

lemma Token_colon: "tokenState d = tokenObjectColon \<Longrightarrow> Token_loop (LDelim 58 # ls) d = Token_loop ls (d\<lparr>tokenState := tokenObjectValue\<rparr>)"
  by (simp add: Let_def)

lemma Token_comma:
  "tokenState d = tokenArrayComma \<Longrightarrow> Token_loop (LDelim 44 # ls) d = Token_loop ls (d\<lparr>tokenState := tokenArrayValue\<rparr>)"
  "tokenState d = tokenObjectComma \<Longrightarrow> Token_loop (LDelim 44 # ls) d = Token_loop ls (d\<lparr>tokenState := tokenObjectKey\<rparr>)"
  by (simp_all add: Let_def)

text \<open>Without a separator, in a state that allows a value.\<close>

lemma Token_allowed:
  assumes "tokenValueAllowed (tokenState d)" "Token_loop ls d = (Returns t, d')" "t \<noteq> Delim 93" "t \<noteq> Delim 125"
  shows "case t of
      Delim c \<Rightarrow> c \<in> {91, 123} \<and> tokenState d' = (if c = 91 then tokenArrayStart else tokenObjectStart) \<and> tokenStack d' = tokenState d # tokenStack d
    | _ \<Rightarrow> tokenState d' = value_end (tokenState d) \<and> tokenStack d' = tokenStack d"
proof (cases ls)
  case (Cons l ls')
  from assms show ?thesis unfolding Cons
    by (cases l) (auto simp: Let_def token_defs tokenValueAllowed_def split: if_splits list.splits)
qed (use assms in simp)

lemma Token_value:
  assumes "value_state (tokenState d)" "Token d = (Returns t, d')" "t \<noteq> Delim 93" "t \<noteq> Delim 125"
  shows "case t of
      Delim c \<Rightarrow> c \<in> {91, 123} \<and> tokenState d' = (if c = 91 then tokenArrayStart else tokenObjectStart) \<and>
        (\<exists>st. value_end st = settled (tokenState d) \<and> tokenStack d' = st # tokenStack d)
    | _ \<Rightarrow> tokenState d' = settled (tokenState d) \<and> tokenStack d' = tokenStack d"
proof (cases "tokenValueAllowed (tokenState d)")
  case True
  with Token_allowed [OF True assms(2) [unfolded Token_def] assms(3,4)] show ?thesis
    by (auto simp: value_end_settled split: json_token.splits)
next
  case False
  then have st: "tokenState d = tokenArrayComma \<or> tokenState d = tokenObjectColon"
    using assms(1) by (auto simp: value_state_def tokenValueAllowed_def)
  define st' where "st' = (if tokenState d = tokenArrayComma then tokenArrayValue else tokenObjectValue)"
  have al: "tokenValueAllowed st'" "value_end st' = settled (tokenState d)"
    using st by (auto simp: st'_def tokenValueAllowed_def value_end_def settled_def)
  obtain l ls where l: "lexemes d = l # ls" using assms(2) by (cases "lexemes d") (auto simp: Token_def)
  have "Token_loop ls (d\<lparr>tokenState := st'\<rparr>) = (Returns t, d')"
    using assms(2-4) st unfolding Token_def l
    by (cases l) (auto simp: Let_def token_defs st'_def tokenValueAllowed_def split: if_splits list.splits)
  from Token_allowed [OF _ this assms(3,4)] al show ?thesis by (auto split: json_token.splits)
qed

lemma Token_key:
  assumes "tokenState d \<in> {tokenObjectStart, tokenObjectComma}" "More d" "Token d = (Returns t, d')"
  obtains s where "t = TString s" "tokenState d' = tokenObjectColon" "tokenStack d' = tokenStack d"
proof -
  obtain l ls where l: "lexemes d = l # ls" using assms(3) by (cases "lexemes d") (auto simp: Token_def)
  have end1: "l \<noteq> LDelim 93" "l \<noteq> LDelim 125" using assms(2) by (cases ls; simp add: More_def l)+
  have key: "\<exists>s. t = TString s \<and> tokenState d' = tokenObjectColon \<and> tokenStack d' = tokenStack e"
    if "tokenState e \<in> {tokenObjectStart, tokenObjectKey}" "Token_loop ks e = (Returns t, d')" "hd ks \<noteq> LDelim 93" "hd ks \<noteq> LDelim 125" for e ks
  proof (cases ks)
    case (Cons k ks')
    from that show ?thesis unfolding Cons
      by (cases k) (auto simp: Let_def token_defs tokenValueAllowed_def split: if_splits list.splits)
  qed (use that in simp)
  show ?thesis
  proof (cases "tokenState d = tokenObjectStart")
    case True
    with key [of d "l # ls"] assms(3) l end1 that show ?thesis by (auto simp: Token_def)
  next
    case False
    then have c: "tokenState d = tokenObjectComma" using assms(1) by simp
    then have "l = LDelim 44"
      using assms(3) end1 unfolding Token_def l
      by (cases l) (auto simp: Let_def token_defs tokenValueAllowed_def split: if_splits list.splits)
    with assms(3) c have t: "Token_loop ls (d\<lparr>tokenState := tokenObjectKey\<rparr>) = (Returns t, d')"
      using Token_comma(2) [OF c] by (simp add: Token_def l)
    then obtain k ks where "ls = k # ks" by (cases ls) auto
    with assms(2) l \<open>l = LDelim 44\<close> have "hd ls \<noteq> LDelim 93" "hd ls \<noteq> LDelim 125" by (auto simp: More_def)
    with key [OF _ t] that show ?thesis by auto
  qed
qed

lemma Token_close:
  assumes "tokenState d \<in> {tokenArrayStart, tokenArrayComma, tokenObjectStart, tokenObjectComma}" "Token d = (Returns (Delim c), d')" "c \<in> {93, 125}"
  shows "\<exists>st sts. tokenStack d = st # sts \<and> tokenState d' = value_end st \<and> tokenStack d' = sts"
proof -
  have direct: "\<exists>st sts. tokenStack e = st # sts \<and> tokenState d' = value_end st \<and> tokenStack d' = sts"
    if "Token_loop ks e = (Returns (Delim c), d')" "hd ks \<noteq> LDelim 58" "hd ks \<noteq> LDelim 44" for e ks
  proof (cases ks)
    case (Cons k ks')
    from that assms(3) show ?thesis unfolding Cons
      by (cases k) (auto simp: Let_def token_defs split: if_splits list.splits)
  qed (use that in simp)
  obtain l ls where l: "lexemes d = l # ls" using assms(2) by (cases "lexemes d") (auto simp: Token_def)
  show ?thesis
  proof (cases "l = LDelim 44")
    case False
    moreover have "l \<noteq> LDelim 58" using assms(1,2) by (auto simp: Token_def l Let_def token_defs)
    ultimately show ?thesis using direct [of "l # ls" d] assms(2) by (simp add: Token_def l)
  next
    case True
    then obtain st where t: "Token_loop ls (d\<lparr>tokenState := st\<rparr>) = (Returns (Delim c), d')" "st \<in> {tokenArrayValue, tokenObjectKey}"
      using assms(1,2) by (auto simp: Token_def l Let_def token_defs split: if_splits)
    then have "hd ls \<noteq> LDelim 58" "hd ls \<noteq> LDelim 44" by (cases ls; auto simp: Let_def token_defs)+
    with direct [OF t(1)] show ?thesis by simp
  qed
qed

end
