(* ===== verification/BadJson.thy ===== *)
theory BadJson
  imports JsonTokens LinkedHashMap Cond
begin

text \<open>
  Ordered JSON values and their merging: \<open>common/json/badjson\<close>.

  A raw message is the input of a decoder: its lexemes, and how it ends. The text of a value is
  the sequence of its lexemes. A \<open>JSONObject\<close> is the list of entries its linked hash map
  holds; the lemmas \<open>obj_put_entry\<close> and \<open>obj_get_entry\<close> relate its operations to the map's
  specification. Decoding and merging never share an object. The messages of errors keep their
  fixed texts and keys, not the tokens they show.
\<close>

section \<open>Values\<close>

datatype json =
    JNull | JBool bool | JNumber bytes | JString bytes
  | JArray "json list"
  | JObject "(bytes \<times> json) list"

text \<open>The map of an object, on pairs of keys and values.\<close>

definition obj_get :: "bytes \<Rightarrow> (bytes \<times> json) list \<Rightarrow> json option" where
  "obj_get k es = map_of es k"

definition obj_put :: "bytes \<Rightarrow> json \<Rightarrow> (bytes \<times> json) list \<Rightarrow> (bytes \<times> json) list" where
  "obj_put k v es = (if k \<in> fst ` set es then map (\<lambda>(k', v'). if k' = k then (k', v) else (k', v')) es else es @ [(k, v)])"

definition to_entry :: "bytes \<times> json \<Rightarrow> (bytes, json) map_entry" where
  "to_entry p = \<lparr>Key = fst p, MValue = snd p\<rparr>"

lemma obj_put_entry: "map to_entry (obj_put k v es) = entry_put k v (map to_entry es)"
  by (auto simp: obj_put_def entry_put_def to_entry_def image_image)

lemma obj_get_entry: "obj_get k es = entry_lookup k (map to_entry es)"
  by (induction es) (auto simp: obj_get_def to_entry_def)

section \<open>Decoding\<close>

text \<open>The closing delimiter, or the error with the given text.\<close>

definition expect_end :: "byte \<Rightarrow> string \<Rightarrow> 'a \<Rightarrow> decoder \<Rightarrow> 'a outcome \<times> decoder" where
  "expect_end c msg x d = and_then (Token d) (\<lambda>t d.
     if t \<noteq> Delim c then (Fails (ErrorNew [Txt msg]), d) else (Returns x, d))"

text \<open>\<open>decodeJSON\<close> and the methods \<open>decodeJSON\<close> of \<open>JSONArray\<close> and \<open>JSONObject\<close>, with fuel for
  the recursion and the loops; \<open>Decode\<close> gives them enough.\<close>

fun decodeJSON :: "nat \<Rightarrow> decoder \<Rightarrow> json outcome \<times> decoder"
  and array_decodeJSON :: "nat \<Rightarrow> json list \<Rightarrow> decoder \<Rightarrow> json list outcome \<times> decoder"
  and object_decodeJSON :: "nat \<Rightarrow> (bytes \<times> json) list \<Rightarrow> decoder \<Rightarrow> (bytes \<times> json) list outcome \<times> decoder" where
  "decodeJSON 0 d = (Unfinished, d)"
| "decodeJSON (Suc fuel) d = and_then (Token d) (\<lambda>t d.
     case t of
       Delim c \<Rightarrow>
         if c = 123 then and_then (object_decodeJSON fuel [] d) (\<lambda>es d. expect_end 125 ''excepted object end, but got '' (JObject es) d)
         else if c = 91 then and_then (array_decodeJSON fuel [] d) (\<lambda>a d. expect_end 93 ''excepted array end, but got '' (JArray a) d)
         else (Fails (ErrorNew [Txt ''excepted object or array end: '']), d)
     | TString s \<Rightarrow> (Returns (JString s), d)
     | TNumber n \<Rightarrow> (Returns (JNumber n), d)
     | TBool b \<Rightarrow> (Returns (JBool b), d)
     | TNull \<Rightarrow> (Returns JNull, d))"
| "array_decodeJSON 0 a d = (Unfinished, d)"
| "array_decodeJSON (Suc fuel) a d =
     (if More d then and_then (decodeJSON fuel d) (\<lambda>item d. array_decodeJSON fuel (a @ [item]) d)
      else (Returns a, d))"
| "object_decodeJSON 0 es d = (Unfinished, d)"
| "object_decodeJSON (Suc fuel) es d =
     (if More d then and_then (Token d) (\<lambda>t d.
        case t of
          TString key \<Rightarrow> and_then (cause_of [Txt ''decode value for '', Str key] (decodeJSON fuel d))
            (\<lambda>v d. object_decodeJSON fuel (obj_put key v es) d)
        | _ \<Rightarrow> (Panics, d))
      else (Returns es, d))"

record raw_message =
  raw_lexemes :: "lexeme list"
  raw_err :: go_error
  raw_bad :: bool

definition decoder_of :: "raw_message \<Rightarrow> decoder" where
  "decoder_of m = NewDecoder (raw_lexemes m) (raw_err m) (raw_bad m)"

definition Decode :: "raw_message \<Rightarrow> json outcome" where
  "Decode content = (let d = decoder_of content in fst (decodeJSON (2 * left d + 2) d))"

text \<open>\<open>UnmarshalJSON\<close> of an array and \<open>UnmarshalJSONContext\<close> of an object.\<close>

definition array_UnmarshalJSON :: "raw_message \<Rightarrow> json list outcome" where
  "array_UnmarshalJSON content = fst (and_then (Token (decoder_of content)) (\<lambda>t d.
     if t \<noteq> Delim 91 then (Fails (ErrorNew [Txt ''excepted array start, but got '']), d)
     else and_then (array_decodeJSON (2 * left d + 2) [] d) (expect_end 93 ''excepted array end, but got '')))"

definition object_UnmarshalJSON :: "raw_message \<Rightarrow> (bytes \<times> json) list outcome" where
  "object_UnmarshalJSON content = fst (and_then (Token (decoder_of content)) (\<lambda>t d.
     if t \<noteq> Delim 123 then (Fails (ErrorNew [Txt ''expected json object start, but starts with '']), d)
     else and_then (cause_of [Txt ''decode json object content''] (object_decodeJSON (2 * left d + 2) [] d))
       (expect_end 125 ''expected json object end, but ends with '')))"

section \<open>Encoding\<close>

lemma All_cong [fundef_cong]: "xs = ys \<Longrightarrow> (\<And>x. x \<in> set ys \<Longrightarrow> f x = g x) \<Longrightarrow> All xs f = All ys g"
  by (auto simp: All_list_all list_all_iff)

lemma size_member: "(k, v) \<in> set es \<Longrightarrow> size v < Suc (size_list (size_prod (\<lambda>_. 0) size) es)"
  by (induction es) auto

text \<open>The type test for \<open>isEmpty\<close> and its \<open>IsEmpty()\<close>: only arrays and objects may be empty.\<close>

function IsEmpty_json :: "json \<Rightarrow> bool" where
  "IsEmpty_json (JArray a) = (if a = [] then True else All a IsEmpty_json)"
| "IsEmpty_json (JObject es) = (if es = [] then True else All es (\<lambda>e. IsEmpty_json (snd e)))"
| "IsEmpty_json JNull = False"
| "IsEmpty_json (JBool b) = False"
| "IsEmpty_json (JNumber n) = False"
| "IsEmpty_json (JString s) = False"
  by pat_completeness auto
termination
  by (relation "measure size") (auto simp: less_Suc_eq_le size_list_estimation' dest: size_member)

text \<open>The text \<open>MarshalJSON\<close> writes. A decoded array without elements is a nil slice, which is
  encoded as \<open>null\<close>; an object leaves out its empty members. \<open>commas\<close> puts a comma after every
  item but the last.\<close>

fun commas :: "lexeme list list \<Rightarrow> lexeme list" where
  "commas [] = []"
| "commas [x] = x"
| "commas (x # y # xs) = x @ LDelim 44 # commas (y # xs)"

function MarshalJSON :: "json \<Rightarrow> lexeme list" where
  "MarshalJSON JNull = [LNull]"
| "MarshalJSON (JBool b) = [LBool b]"
| "MarshalJSON (JNumber n) = [LNumber n]"
| "MarshalJSON (JString s) = [LString s]"
| "MarshalJSON (JArray a) = (if a = [] then [LNull] else LDelim 91 # commas (map MarshalJSON a) @ [LDelim 93])"
| "MarshalJSON (JObject es) =
     LDelim 123 #
     commas (map (\<lambda>e. LString (fst e) # LDelim 58 # MarshalJSON (snd e)) (Filter es (\<lambda>e. \<not> IsEmpty_json (snd e)))) @
     [LDelim 125]"
  by pat_completeness auto
termination
  by (relation "measure size") (auto simp: Filter_def Filter_loop less_Suc_eq_le size_list_estimation' dest: size_member)

section \<open>Merging\<close>

fun TypeOf :: "json \<Rightarrow> string" where
  "TypeOf JNull = ''<nil>''"
| "TypeOf (JBool b) = ''bool''"
| "TypeOf (JNumber n) = ''float64''"
| "TypeOf (JString s) = ''string''"
| "TypeOf (JArray a) = ''badjson.JSONArray''"
| "TypeOf (JObject es) = ''*badjson.JSONObject''"

function (sequential) mergeJSON :: "json \<Rightarrow> json \<Rightarrow> bool \<Rightarrow> go_error + json"
  and merge_entries :: "(bytes \<times> json) list \<Rightarrow> (bytes \<times> json) list \<Rightarrow> bool \<Rightarrow> go_error + (bytes \<times> json) list" where
  "mergeJSON source (JArray destination) disableAppend =
     Inr (JArray (if \<not> disableAppend
       then (case source of JArray a \<Rightarrow> destination @ a | _ \<Rightarrow> destination @ [source])
       else destination))"
| "mergeJSON (JObject source) (JObject destination) disableAppend =
     (case merge_entries source destination disableAppend of Inl e \<Rightarrow> Inl e | Inr m \<Rightarrow> Inr (JObject m))"
| "mergeJSON source (JObject destination) disableAppend =
     Inl (ErrorNew [Txt ''cannot merge json object into '', Txt (TypeOf source)])"
| "mergeJSON source destination disableAppend = Inr destination"
| "merge_entries [] destination disableAppend = Inr destination"
| "merge_entries ((k, v) # entries) destination disableAppend =
     (case obj_get k destination of
        Some oldValue \<Rightarrow>
          (case mergeJSON v oldValue disableAppend of
             Inl err \<Rightarrow> Inl (CauseError [Txt ''merge object item '', Str k] err)
           | Inr v' \<Rightarrow> merge_entries entries (obj_put k v' destination) disableAppend)
      | None \<Rightarrow> merge_entries entries (obj_put k v destination) disableAppend)"
  by pat_completeness auto
termination
  by (relation "measure (case_sum (\<lambda>(s, d, b). size s) (\<lambda>(es, d, b). size_list (size_prod (\<lambda>_. 0) size) es))") auto

text \<open>\<open>MergeJSON\<close> on raw messages; \<open>None\<close> is a nil message.\<close>

definition message :: "lexeme list \<Rightarrow> raw_message" where
  "message ls = \<lparr>raw_lexemes = ls, raw_err = EOF, raw_bad = False\<rparr>"

definition MergeJSON :: "raw_message option \<Rightarrow> raw_message option \<Rightarrow> bool \<Rightarrow> raw_message outcome" where
  "MergeJSON rawSource rawDestination disableAppend =
     (case (rawSource, rawDestination) of
        (None, None) \<Rightarrow> Fails ErrInvalid
      | (None, Some d) \<Rightarrow> Returns d
      | (Some s, None) \<Rightarrow> Returns s
      | (Some s, Some d) \<Rightarrow>
          (case Decode s of
             Fails e \<Rightarrow> Fails (CauseError [Txt ''decode source''] e) | Panics \<Rightarrow> Panics | Unfinished \<Rightarrow> Unfinished
           | Returns source \<Rightarrow>
          (case Decode d of
             Fails e \<Rightarrow> Fails (CauseError [Txt ''decode destination''] e) | Panics \<Rightarrow> Panics | Unfinished \<Rightarrow> Unfinished
           | Returns destination \<Rightarrow>
               if source = JNull then Returns (message (MarshalJSON destination))
               else if destination = JNull then Returns (message (MarshalJSON source))
               else (case mergeJSON source destination disableAppend of
                   Inl e \<Rightarrow> Fails e
                 | Inr merged \<Rightarrow> Returns (message (MarshalJSON merged))))))"

text \<open>\<open>MarshallObjectsContext\<close> for several objects, given as the messages \<open>json.MarshalContext\<close>
  makes of them; a single object is passed on.\<close>

fun marshall_loop :: "(bytes \<times> json) list \<Rightarrow> raw_message list \<Rightarrow> (bytes \<times> json) list outcome" where
  "marshall_loop content [] = Returns content"
| "marshall_loop content (object # objects) =
     (case object_UnmarshalJSON object of
        Returns es \<Rightarrow> marshall_loop (fold (\<lambda>(k, v). obj_put k v) es content) objects
      | Fails e \<Rightarrow> Fails e | Panics \<Rightarrow> Panics | Unfinished \<Rightarrow> Unfinished)"

definition MarshallObjects :: "raw_message list \<Rightarrow> raw_message outcome" where
  "MarshallObjects objects =
     (case objects of [object] \<Rightarrow> Returns object
      | _ \<Rightarrow> (case marshall_loop [] objects of
           Returns content \<Rightarrow> Returns (message (MarshalJSON (JObject content)))
         | Fails e \<Rightarrow> Fails e | Panics \<Rightarrow> Panics | Unfinished \<Rightarrow> Unfinished))"

text \<open>\<open>UnmarshallExcludedContext\<close>: \<open>keys\<close> are the keys of the parent object. The result is the
  message that is unmarshalled into the object, or nothing when the object is nil.\<close>

definition UnmarshallExcluded :: "raw_message \<Rightarrow> bytes list \<Rightarrow> bool \<Rightarrow> raw_message option outcome" where
  "UnmarshallExcluded input ks object_nil =
     (case object_UnmarshalJSON input of
        Fails e \<Rightarrow> Fails e | Panics \<Rightarrow> Panics | Unfinished \<Rightarrow> Unfinished
      | Returns content \<Rightarrow>
          let content = fold (\<lambda>k. filter (\<lambda>e. fst e \<noteq> k)) ks content in
          if object_nil then
            (if IsEmpty_json (JObject content) then Returns None
             else Fails (ErrorNew [Txt ''unexpected key: '', Str (fst (hd content))]))
          else Returns (Some (message (MarshalJSON (JObject content)))))"

section \<open>Decoding is total\<close>

text \<open>The outcomes to be excluded.\<close>

definition bad :: "'a outcome \<Rightarrow> bool" where
  "bad r \<longleftrightarrow> r = Unfinished \<or> r = Panics"

lemma bad_simps [simp]: "\<not> bad (Returns x)" "\<not> bad (Fails e)"
  by (simp_all add: bad_def)

lemma and_then_bad: "bad (fst (and_then p f)) \<Longrightarrow> \<not> bad (fst p) \<Longrightarrow> \<exists>x d. p = (Returns x, d) \<and> bad (fst (f x d))"
  by (cases "(p, f)" rule: and_then.cases) (auto simp: bad_def)

lemma cause_of_bad: "bad (fst (cause_of m p)) \<longleftrightarrow> bad (fst p)"
  by (simp add: bad_def cause_of_simps)

lemma Token_good: "wf_dec d \<Longrightarrow> \<not> bad (fst (Token d))"
  by (simp add: bad_def Token_finishes Token_total)

lemma expect_end_Returns: "expect_end c msg x d = (Returns y, d') \<Longrightarrow> left d' < left d \<and> Token d = (Returns (Delim c), d')"
  by (auto simp: expect_end_def dest!: and_then_Returns dest: Token_left split: if_splits)

lemma expect_end_good: "wf_dec d \<Longrightarrow> \<not> bad (fst (expect_end c msg x d))"
  using Token_good [of d] by (auto simp: expect_end_def dest!: and_then_bad split: if_splits)

text \<open>What a value, the items of an array and the members of an object leave behind.\<close>

lemma decode_states:
  "decodeJSON fuel d = (Returns v, d') \<Longrightarrow> value_state (tokenState d) \<Longrightarrow>
     left d' < left d \<and> tokenState d' = settled (tokenState d) \<and> tokenStack d' = tokenStack d"
  "array_decodeJSON fuel a d = (Returns a', d') \<Longrightarrow> tokenState d \<in> {tokenArrayStart, tokenArrayComma} \<Longrightarrow>
     left d' \<le> left d \<and> tokenState d' \<in> {tokenArrayStart, tokenArrayComma} \<and> tokenStack d' = tokenStack d"
  "object_decodeJSON fuel es d = (Returns es', d') \<Longrightarrow> tokenState d \<in> {tokenObjectStart, tokenObjectComma} \<Longrightarrow>
     left d' \<le> left d \<and> tokenState d' \<in> {tokenObjectStart, tokenObjectComma} \<and> tokenStack d' = tokenStack d"
proof (induction fuel d and fuel a d and fuel es d arbitrary: v d' and a' d' and es' d'
    rule: decodeJSON_array_decodeJSON_object_decodeJSON.induct)
  case (2 fuel d)
  from and_then_Returns [OF 2(3) [unfolded decodeJSON.simps]] obtain t d1 where t: "Token d = (Returns t, d1)" and
    r: "(case t of
       Delim c \<Rightarrow>
         if c = 123 then and_then (object_decodeJSON fuel [] d1) (\<lambda>es d. expect_end 125 ''excepted object end, but got '' (JObject es) d)
         else if c = 91 then and_then (array_decodeJSON fuel [] d1) (\<lambda>a d. expect_end 93 ''excepted array end, but got '' (JArray a) d)
         else (Fails (ErrorNew [Txt ''excepted object or array end: '']), d1)
     | TString s \<Rightarrow> (Returns (JString s), d1)
     | TNumber n \<Rightarrow> (Returns (JNumber n), d1)
     | TBool b \<Rightarrow> (Returns (JBool b), d1)
     | TNull \<Rightarrow> (Returns JNull, d1)) = (Returns v, d')" by blast
  have ne: "t \<noteq> Delim 93" "t \<noteq> Delim 125" using r by auto
  note tok = Token_value [OF 2(4) t ne]
  show ?case
  proof (cases t)
    case (Delim c)
    then obtain st where st: "value_end st = settled (tokenState d)" "tokenStack d1 = st # tokenStack d" and c: "c = 91 \<or> c = 123"
      and st1: "tokenState d1 = (if c = 91 then tokenArrayStart else tokenObjectStart)" using tok by auto
    obtain d2 cl where d2: "left d2 \<le> left d1" "tokenStack d2 = st # tokenStack d" "left d' < left d2"
      "tokenState d2 \<in> {tokenArrayStart, tokenArrayComma, tokenObjectStart, tokenObjectComma}" "Token d2 = (Returns (Delim cl), d')" "cl \<in> {93, 125}"
    proof (cases "c = 123")
      case True
      with r Delim obtain es d2 where es: "object_decodeJSON fuel [] d1 = (Returns es, d2)"
        and e: "expect_end 125 ''excepted object end, but got '' (JObject es) d2 = (Returns v, d')" by (auto dest!: and_then_Returns)
      from 2(1) [OF t Delim True es] st1 True have "left d2 \<le> left d1" "tokenState d2 \<in> {tokenObjectStart, tokenObjectComma}" "tokenStack d2 = tokenStack d1"
        by simp_all
      with that [of d2 125] expect_end_Returns [OF e] st(2) show ?thesis by auto
    next
      case False
      then have c91: "c = 91" using c by simp
      with r Delim obtain a d2 where a: "array_decodeJSON fuel [] d1 = (Returns a, d2)"
        and e: "expect_end 93 ''excepted array end, but got '' (JArray a) d2 = (Returns v, d')" by (auto dest!: and_then_Returns)
      from 2(2) [OF t Delim False c91 a] st1 c91 have "left d2 \<le> left d1" "tokenState d2 \<in> {tokenArrayStart, tokenArrayComma}" "tokenStack d2 = tokenStack d1"
        by simp_all
      with that [of d2 93] expect_end_Returns [OF e] st(2) show ?thesis by auto
    qed
    from Token_close [OF d2(4,5,6)] d2(1-3) st Token_left [OF t] show ?thesis by auto
  qed (use tok r Token_left [OF t] in auto)
next
  case (4 fuel a d)
  show ?case
  proof (cases "More d")
    case True
    with 4(3) obtain x d1 where x: "decodeJSON fuel d = (Returns x, d1)" "array_decodeJSON fuel (a @ [x]) d1 = (Returns a', d')"
      by (auto dest!: and_then_Returns)
    have "left d1 < left d \<and> tokenState d1 = tokenArrayComma \<and> tokenStack d1 = tokenStack d"
      using 4(1) [OF True x(1)] 4(4) by (auto simp: value_state_def settled_def)
    with 4(2) [OF True x(1,2)] show ?thesis by auto
  next
    case False
    with 4(3,4) show ?thesis by simp
  qed
next
  case (6 fuel es d)
  show ?case
  proof (cases "More d")
    case True
    with 6(3) obtain t d1 where t: "Token d = (Returns t, d1)" and
      r: "(case t of TString key \<Rightarrow> and_then (cause_of [Txt ''decode value for '', Str key] (decodeJSON fuel d1))
            (\<lambda>v d. object_decodeJSON fuel (obj_put key v es) d) | _ \<Rightarrow> (Panics, d1)) = (Returns es', d')"
      by (auto dest!: and_then_Returns)
    obtain key where key: "t = TString key" "tokenState d1 = tokenObjectColon" "tokenStack d1 = tokenStack d"
      by (rule Token_key [OF 6(4) True t])
    with r obtain v d2 where v: "decodeJSON fuel d1 = (Returns v, d2)" "object_decodeJSON fuel (obj_put key v es) d2 = (Returns es', d')"
      by (auto dest!: and_then_Returns simp: cause_of_simps)
    have "left d2 < left d1 \<and> tokenState d2 = tokenObjectComma \<and> tokenStack d2 = tokenStack d"
      using 6(1) [OF True t key(1) v(1)] key by (auto simp: value_state_def settled_def)
    with 6(2) [OF True t key(1) _ v(2)] v(1) Token_left [OF t] show ?thesis by (simp add: cause_of_simps)
  next
    case False
    with 6(3,4) show ?thesis by simp
  qed
qed auto

lemma decode_good:
  "2 * left d + 1 \<le> fuel \<Longrightarrow> value_state (tokenState d) \<Longrightarrow> wf_dec d \<Longrightarrow> \<not> bad (fst (decodeJSON fuel d))"
  "2 * left d + 2 \<le> fuel \<Longrightarrow> tokenState d \<in> {tokenArrayStart, tokenArrayComma} \<Longrightarrow> tokenStack d \<noteq> [] \<Longrightarrow>
     \<not> bad (fst (array_decodeJSON fuel a d))"
  "2 * left d + 2 \<le> fuel \<Longrightarrow> tokenState d \<in> {tokenObjectStart, tokenObjectComma} \<Longrightarrow> tokenStack d \<noteq> [] \<Longrightarrow>
     \<not> bad (fst (object_decodeJSON fuel es d))"
proof (induction fuel d and fuel a d and fuel es d rule: decodeJSON_array_decodeJSON_object_decodeJSON.induct)
  case (2 fuel d)
  show ?case
  proof
    assume "bad (fst (decodeJSON (Suc fuel) d))"
    with Token_good [OF 2(5)] obtain t d1 where t: "Token d = (Returns t, d1)" and
      r: "bad (fst (case t of
         Delim c \<Rightarrow>
           if c = 123 then and_then (object_decodeJSON fuel [] d1) (\<lambda>es d. expect_end 125 ''excepted object end, but got '' (JObject es) d)
           else if c = 91 then and_then (array_decodeJSON fuel [] d1) (\<lambda>a d. expect_end 93 ''excepted array end, but got '' (JArray a) d)
           else (Fails (ErrorNew [Txt ''excepted object or array end: '']), d1)
       | TString s \<Rightarrow> (Returns (JString s), d1)
       | TNumber n \<Rightarrow> (Returns (JNumber n), d1)
       | TBool b \<Rightarrow> (Returns (JBool b), d1)
       | TNull \<Rightarrow> (Returns JNull, d1)))"
      by (auto dest!: and_then_bad)
    have ne: "t \<noteq> Delim 93" "t \<noteq> Delim 125" using r by auto
    obtain c where c: "t = Delim c" using r by (cases t) auto
    from Token_value [OF 2(4) t ne] c obtain st where st: "tokenStack d1 = st # tokenStack d" and
      c': "c = 91 \<or> c = 123" "tokenState d1 = (if c = 91 then tokenArrayStart else tokenObjectStart)" by auto
    have f: "2 * left d1 + 2 \<le> fuel" using Token_left [OF t] 2(3) by simp
    show False
    proof (cases "c = 123")
      case True
      then have s1: "tokenState d1 \<in> {tokenObjectStart, tokenObjectComma}" using c'(2) by simp
      from 2(1) [OF t c True f s1] st r c True obtain es d2 where es: "object_decodeJSON fuel [] d1 = (Returns es, d2)"
        "bad (fst (expect_end 125 ''excepted object end, but got '' (JObject es) d2))" by (auto dest!: and_then_bad)
      have "wf_dec d2" using decode_states(3) [OF es(1) s1] st by (simp add: wf_dec_def)
      from expect_end_good [OF this, where x = "JObject es"] es(2) show False by blast
    next
      case False
      then have s1: "tokenState d1 \<in> {tokenArrayStart, tokenArrayComma}" and c91: "c = 91" using c' by simp_all
      from 2(2) [OF t c False c91 f s1] st r c c91 obtain a d2 where a: "array_decodeJSON fuel [] d1 = (Returns a, d2)"
        "bad (fst (expect_end 93 ''excepted array end, but got '' (JArray a) d2))" by (auto dest!: and_then_bad)
      have "wf_dec d2" using decode_states(2) [OF a(1) s1] st by (simp add: wf_dec_def)
      from expect_end_good [OF this, where x = "JArray a"] a(2) show False by blast
    qed
  qed
next
  case (4 fuel a d)
  have st: "value_state (tokenState d)" "settled (tokenState d) = tokenArrayComma" "wf_dec d"
    using 4(4,5) by (auto simp: value_state_def settled_def wf_dec_def)
  have "\<not> bad (fst (array_decodeJSON fuel (a @ [x]) d1))" if "More d" "decodeJSON fuel d = (Returns x, d1)" for x d1
    using 4(2) [OF that] decode_states(1) [OF that(2) st(1)] 4(3,5) st(2) by simp
  with 4(1,3) st show ?case by (auto dest!: and_then_bad)
next
  case (6 fuel es d)
  have wf: "wf_dec d" using 6(5) by (simp add: wf_dec_def)
  show ?case
  proof (cases "More d")
    case True
    show ?thesis
    proof
      assume "bad (fst (object_decodeJSON (Suc fuel) es d))"
      with True obtain t d1 where t: "Token d = (Returns t, d1)" and
        r: "bad (fst (case t of TString key \<Rightarrow> and_then (cause_of [Txt ''decode value for '', Str key] (decodeJSON fuel d1))
            (\<lambda>v d. object_decodeJSON fuel (obj_put key v es) d) | _ \<Rightarrow> (Panics, d1)))"
        using Token_good [OF wf] by (auto dest!: and_then_bad)
      obtain key where key: "t = TString key" "tokenState d1 = tokenObjectColon" "tokenStack d1 = tokenStack d"
        by (rule Token_key [OF 6(4) True t])
      have st1: "value_state (tokenState d1)" "settled (tokenState d1) = tokenObjectComma" "wf_dec d1"
        using key 6(5) by (auto simp: value_state_def settled_def wf_dec_def)
      have "\<not> bad (fst (decodeJSON fuel d1))"
        using 6(1) [OF True t key(1) _ st1(1,3)] Token_left [OF t] 6(3) by simp
      with r key obtain v d2 where v: "decodeJSON fuel d1 = (Returns v, d2)" "bad (fst (object_decodeJSON fuel (obj_put key v es) d2))"
        by (auto dest!: and_then_bad simp: cause_of_bad cause_of_simps)
      from decode_states(1) [OF v(1) st1(1)] 6(2) [OF True t key(1), of v d2] v Token_left [OF t] 6(3,5) key(3) st1(2) show False
        by (simp add: cause_of_simps)
    qed
  qed simp
qed auto

section \<open>Decoding what was encoded\<close>


























lemma key_states [simp]: "\<not> tokenValueAllowed tokenObjectStart" "\<not> tokenValueAllowed tokenObjectKey"
  by (simp_all add: tokenValueAllowed_def)


section \<open>Merging objects\<close>

lemma obj_get_put: "obj_get k (obj_put k' v es) = (if k = k' then Some v else obj_get k es)"
  unfolding obj_get_entry obj_put_entry by (rule entry_lookup_put)

lemma obj_put_keys: "map fst (obj_put k v es) = (if k \<in> fst ` set es then map fst es else map fst es @ [k])"
  by (auto simp: obj_put_def)

lemma obj_get_None: "obj_get k es = None \<longleftrightarrow> k \<notin> fst ` set es"
  by (auto simp: obj_get_def map_of_eq_None_iff)

text \<open>What an object should hold for a key after merging.\<close>

definition merged_value :: "bool \<Rightarrow> json option \<Rightarrow> json option \<Rightarrow> json option" where
  "merged_value b s d =
     (case (s, d) of
        (None, d) \<Rightarrow> d
      | (Some v, None) \<Rightarrow> Some v
      | (Some v, Some w) \<Rightarrow> (case mergeJSON v w b of Inr r \<Rightarrow> Some r | Inl e \<Rightarrow> None))"

lemma merge_entries_spec:
  "distinct (map fst es) \<Longrightarrow> case merge_entries es d b of
     Inr m \<Rightarrow> map fst m = map fst d @ filter (\<lambda>k. k \<notin> fst ` set d) (map fst es) \<and>
       (\<forall>k. obj_get k m = merged_value b (obj_get k es) (obj_get k d))
   | Inl e \<Rightarrow> \<exists>k v w e'. obj_get k es = Some v \<and> obj_get k d = Some w \<and> mergeJSON v w b = Inl e' \<and>
       e = CauseError [Txt ''merge object item '', Str k] e'"
proof (induction es arbitrary: d)
  case Nil
  then show ?case by (simp add: merged_value_def obj_get_def)
next
  case (Cons p es)
  obtain k v where p: "p = (k, v)" by (cases p)
  have k: "k \<notin> fst ` set es" "obj_get k es = None" using Cons.prems p by (auto simp: obj_get_None)
  have get: "obj_get k' ((k, v) # es) = (if k' = k then Some v else obj_get k' es)" for k' by (simp add: obj_get_def)
  have step: ?case if r: "merge_entries (p # es) d b = merge_entries es (obj_put k r d) b" "merged_value b (Some v) (obj_get k d) = Some r" for r
  proof (cases "merge_entries es (obj_put k r d) b")
    case (Inl e)
    with Cons.IH [of "obj_put k r d"] Cons.prems obtain k' v' w e' where
      "obj_get k' es = Some v'" "obj_get k' (obj_put k r d) = Some w" "mergeJSON v' w b = Inl e'"
      "e = CauseError [Txt ''merge object item '', Str k'] e'" by auto
    moreover from this k have "k' \<noteq> k" by auto
    ultimately show ?thesis using Inl r(1) p get by (auto simp: obj_get_put)
  next
    case (Inr m)
    with Cons.IH [of "obj_put k r d"] Cons.prems have m:
      "map fst m = map fst (obj_put k r d) @ filter (\<lambda>k'. k' \<notin> fst ` set (obj_put k r d)) (map fst es)"
      "\<And>k'. obj_get k' m = merged_value b (obj_get k' es) (obj_get k' (obj_put k r d))" by auto
    have keys: "fst ` set (obj_put k r d) = insert k (fst ` set d)"
      using obj_put_keys [of k r d] by (metis (no_types, lifting) insert_absorb list.set_map set_append Un_commute insert_is_Un list.set(1) list.set(2))
    have "filter (\<lambda>k'. k' \<notin> insert k (fst ` set d)) (map fst es) = filter (\<lambda>k'. k' \<notin> fst ` set d) (map fst es)"
      using k(1) by (intro filter_cong) auto
    with m(1) have "map fst m = map fst d @ filter (\<lambda>k'. k' \<notin> fst ` set d) (map fst (p # es))"
      unfolding keys obj_put_keys by (simp add: p)
    moreover have "obj_get k' m = merged_value b (obj_get k' (p # es)) (obj_get k' d)" for k'
      using m(2) [of k'] r(2) k(2) by (simp add: p get obj_get_put merged_value_def)
    ultimately show ?thesis using Inr r(1) by simp
  qed
  show ?case
  proof (cases "obj_get k d")
    case None
    then show ?thesis by (intro step [of v]) (simp_all add: p merged_value_def)
  next
    case (Some w)
    show ?thesis
    proof (cases "mergeJSON v w b")
      case (Inl e')
      then show ?thesis using Some by (auto simp: p get)
    next
      case (Inr r)
      then show ?thesis using Some by (intro step [of r]) (simp_all add: p merged_value_def)
    qed
  qed
qed

lemma mergeJSON_entries: "mergeJSON (JObject s) (JObject d) b = map_sum (\<lambda>e. e) JObject (merge_entries s d b)"
  by (simp split: sum.splits)

section \<open>Excluded keys\<close>

lemma remove_keys: "fold (\<lambda>k. filter (\<lambda>e. fst e \<noteq> k)) ks es = filter (\<lambda>e. fst e \<notin> set ks) es"
proof (induction ks arbitrary: es)
  case (Cons k ks)
  have "filter (\<lambda>e. fst e \<notin> set ks) (filter (\<lambda>e. fst e \<noteq> k) es) = filter (\<lambda>e. fst e \<notin> set (k # ks)) es"
    by (auto intro: filter_cong)
  with Cons show ?case by simp
qed simp

text \<open>With a nil object the remaining members are accepted exactly when their values are all
  empty; unknown keys with empty values go unreported.\<close>

lemma UnmarshallExcluded_nil:
  assumes "object_UnmarshalJSON input = Returns content"
  shows "UnmarshallExcluded input ks True = Returns None \<longleftrightarrow> (\<forall>e \<in> set content. fst e \<notin> set ks \<longrightarrow> IsEmpty_json (snd e))"
proof -
  have "IsEmpty_json (JObject es) \<longleftrightarrow> (\<forall>e \<in> set es. IsEmpty_json (snd e))" for es
    by (auto simp: All_list_all list_all_iff)
  then have "UnmarshallExcluded input ks True = Returns None \<longleftrightarrow> (\<forall>e \<in> set (filter (\<lambda>e. fst e \<notin> set ks) content). IsEmpty_json (snd e))"
    by (simp add: UnmarshallExcluded_def assms remove_keys Let_def del: IsEmpty_json.simps)
  then show ?thesis by auto
qed

section \<open>Entry points\<close>

lemma outcome_cases: "(\<exists>v. r = Returns v) \<or> (\<exists>e. r = Fails e) \<longleftrightarrow> \<not> bad r"
  by (cases r) (auto simp: bad_def)

lemma array_rest_good:
  assumes "tokenState d = tokenArrayStart" "tokenStack d \<noteq> []"
  shows "\<not> bad (fst (and_then (array_decodeJSON (2 * left d + 2) [] d) (expect_end 93 m)))"
proof
  have st: "tokenState d \<in> {tokenArrayStart, tokenArrayComma}" using assms(1) by simp
  assume "bad (fst (and_then (array_decodeJSON (2 * left d + 2) [] d) (expect_end 93 m)))"
  from and_then_bad [OF this decode_good(2) [OF order_refl st assms(2)]] obtain a d2 where
    a: "array_decodeJSON (2 * left d + 2) [] d = (Returns a, d2)" "bad (fst (expect_end 93 m a d2))" by blast
  have "wf_dec d2" using decode_states(2) [OF a(1) st] assms by (simp add: wf_dec_def)
  from expect_end_good [OF this, where x = a] a(2) show False by blast
qed

lemma object_rest_good:
  assumes "tokenState d = tokenObjectStart" "tokenStack d \<noteq> []"
  shows "\<not> bad (fst (and_then (cause_of p (object_decodeJSON (2 * left d + 2) [] d)) (expect_end 125 m)))"
proof
  have st: "tokenState d \<in> {tokenObjectStart, tokenObjectComma}" using assms(1) by simp
  have good: "\<not> bad (fst (cause_of p (object_decodeJSON (2 * left d + 2) [] d)))"
    unfolding cause_of_bad by (rule decode_good(3) [OF order_refl st assms(2)])
  assume "bad (fst (and_then (cause_of p (object_decodeJSON (2 * left d + 2) [] d)) (expect_end 125 m)))"
  from and_then_bad [OF this good] obtain es d2 where
    es: "object_decodeJSON (2 * left d + 2) [] d = (Returns es, d2)" "bad (fst (expect_end 125 m es d2))"
    unfolding cause_of_simps(1) by blast
  have "wf_dec d2" using decode_states(3) [OF es(1) st] assms by (simp add: wf_dec_def)
  from expect_end_good [OF this, where x = es] es(2) show False by blast
qed

lemma decoder_of_start: "wf_dec (decoder_of c)" "value_state (tokenState (decoder_of c))"
  by (simp_all add: decoder_of_def NewDecoder_def wf_dec_def value_state_def)

lemma start_token:
  assumes "Token (decoder_of c) = (Returns (Delim x), d)" "x \<in> {91, 123}"
  shows "tokenState d = (if x = 91 then tokenArrayStart else tokenObjectStart)" "tokenStack d \<noteq> []"
  using Token_value [OF decoder_of_start(2) assms(1)] assms(2) by auto

lemma decode_entry_points: "\<not> bad (Decode c)" "\<not> bad (array_UnmarshalJSON c)" "\<not> bad (object_UnmarshalJSON c)"
proof -
  note tok = Token_good [OF decoder_of_start(1) [of c]]
  show "\<not> bad (Decode c)" unfolding Decode_def Let_def by (rule decode_good(1)) (simp_all add: decoder_of_start)
  show "\<not> bad (array_UnmarshalJSON c)"
  proof
    assume "bad (array_UnmarshalJSON c)"
    from and_then_bad [OF this [unfolded array_UnmarshalJSON_def] tok] obtain t d where t: "Token (decoder_of c) = (Returns t, d)" and
      "bad (fst (if t \<noteq> Delim 91 then (Fails (ErrorNew [Txt ''excepted array start, but got '']), d)
        else and_then (array_decodeJSON (2 * left d + 2) [] d) (expect_end 93 ''excepted array end, but got '')))" by blast
    moreover from this have a: "t = Delim 91" by (cases "t = Delim 91") simp_all
    ultimately show False using start_token [OF t [unfolded a]] array_rest_good [of d] by (simp del: array_decodeJSON.simps)
  qed
  show "\<not> bad (object_UnmarshalJSON c)"
  proof
    assume "bad (object_UnmarshalJSON c)"
    from and_then_bad [OF this [unfolded object_UnmarshalJSON_def] tok] obtain t d where t: "Token (decoder_of c) = (Returns t, d)" and
      "bad (fst (if t \<noteq> Delim 123 then (Fails (ErrorNew [Txt ''expected json object start, but starts with '']), d)
        else and_then (cause_of [Txt ''decode json object content''] (object_decodeJSON (2 * left d + 2) [] d))
          (expect_end 125 ''expected json object end, but ends with '')))" by blast
    moreover from this have a: "t = Delim 123" by (cases "t = Delim 123") simp_all
    ultimately show False using start_token [OF t [unfolded a]] object_rest_good [of d] by (simp del: object_decodeJSON.simps)
  qed
qed

section \<open>Properties\<close>



text \<open>
  C39. Decoding is total: for every input, well-formed or not, \<open>Decode\<close> and the \<open>UnmarshalJSON\<close>
  methods return a value or an error. The recursion and the loops end, the type assertion on a
  key never fails, and the decoder never pops an empty stack.
\<close>

theorem badjson_decoding_total:
  "((\<exists>v. Decode c = Returns v) \<or> (\<exists>e. Decode c = Fails e)) \<and>
   ((\<exists>v. array_UnmarshalJSON c = Returns v) \<or> (\<exists>e. array_UnmarshalJSON c = Fails e)) \<and>
   ((\<exists>v. object_UnmarshalJSON c = Returns v) \<or> (\<exists>e. object_UnmarshalJSON c = Fails e))"
  by (simp only: outcome_cases) (simp add: decode_entry_points)

text \<open>
  C40. Merging a source object into a destination object keeps the destination's keys in their
  order and appends the source's new keys in theirs; a key of both holds the merged values, any
  other key the value it had. The merge fails only when the values of some common key cannot be
  merged, with an error that names the key.
\<close>

theorem mergeJSON_objects:
  assumes "distinct (map fst s)"
  shows "case mergeJSON (JObject s) (JObject d) b of
     Inr r \<Rightarrow> (\<exists>m. r = JObject m \<and> map fst m = map fst d @ filter (\<lambda>k. k \<notin> fst ` set d) (map fst s) \<and>
       (\<forall>k. obj_get k m = merged_value b (obj_get k s) (obj_get k d)))
   | Inl e \<Rightarrow> (\<exists>k v w e'. obj_get k s = Some v \<and> obj_get k d = Some w \<and> mergeJSON v w b = Inl e' \<and>
       e = CauseError [Txt ''merge object item '', Str k] e')"
  using merge_entries_spec [OF assms, of d b] by (cases "merge_entries s d b") (auto simp: mergeJSON_entries)

theorem mergeJSON_objects_witness:
  "\<exists>m. mergeJSON (JObject [([97], JNumber [49]), ([98], JArray [JNull])]) (JObject [([98], JArray [JBool True])]) False = Inr (JObject m) \<and>
     map fst m = [[98], [97]] \<and> obj_get [98] m = Some (JArray [JBool True, JNull])"
  using mergeJSON_objects [of "[([97], JNumber [49]), ([98], JArray [JNull])]" "[([98], JArray [JBool True])]" False]
  by (auto simp: merged_value_def obj_get_def obj_put_def)

end
