(* ===== verification/Succinct.thy ===== *)
theory Succinct
  imports Varint
begin

text \<open>
  The succinct set of \<open>common/domain/set.go\<close>: a trie in breadth-first order whose shape is a
  bitmap with a zero for every child and a one behind the children of every node. Positions in the
  bitmap and numbers of nodes are translated into each other by rank and select.

  \<open>int\<close> values are integers, and \<open>int32\<close> values integers that \<open>i32\<close> wraps where the code converts or
  adds. Indexing out of range is \<open>None\<close>.
\<close>

section \<open>Bits\<close>

definition i32 :: "int \<Rightarrow> int" where
  "i32 x = (x + 2 ^ 31) mod 2 ^ 32 - 2 ^ 31"

definition OnesCount :: "nat \<Rightarrow> uint64 \<Rightarrow> int" where
  "OnesCount n w = int (length (filter (bit w) [0..<n]))"

definition TrailingZeros :: "nat \<Rightarrow> 'a::len word \<Rightarrow> nat" where
  "TrailingZeros n w = length (takeWhile (\<lambda>i. \<not> bit w i) [0..<n])"

definition setBit :: "uint64 list \<Rightarrow> nat \<Rightarrow> bool \<Rightarrow> uint64 list" where
  "setBit bm i v =
     (let bm = bm @ replicate (Suc (i div 64) - length bm) 0
      in bm[i div 64 := bm ! (i div 64) OR push_bit (i mod 64) (of_bool v)])"

definition getBit :: "uint64 list \<Rightarrow> int \<Rightarrow> bool option" where
  "getBit bm i = map_option (\<lambda>w. bit w (nat (i mod 64))) (go_index bm (i div 64))"

section \<open>Tables\<close>

definition mask_tab :: "nat \<Rightarrow> uint64" where
  "mask_tab i = push_bit i 1 - 1"

definition rMaskUpto :: "nat \<Rightarrow> uint64" where
  "rMaskUpto i = NOT (push_bit (i + 1) 1 - 1)"

fun select8_row :: "nat \<Rightarrow> byte \<Rightarrow> nat list" where
  "select8_row 0 w = []"
| "select8_row (Suc j) w = TrailingZeros 8 w # select8_row j (w AND (w - 1))"

definition select8Lookup :: "nat list" where
  "select8Lookup = concat (map (\<lambda>i. select8_row 8 (of_nat i)) [0..<256])"

section \<open>Rank and select\<close>

definition rank64 :: "uint64 list \<Rightarrow> int list \<Rightarrow> int \<Rightarrow> (int \<times> int) option" where
  "rank64 words rindex i = do {
     let wordI = i div 64;
     let j = nat (i mod 64);
     n \<leftarrow> go_index rindex wordI;
     w \<leftarrow> go_index words wordI;
     Some (i32 (n + OnesCount 64 (w AND mask_tab j)), of_bool (bit w j))
   }"

fun rank_loop :: "uint64 list \<Rightarrow> int \<Rightarrow> int list" where
  "rank_loop [] n = [n]"
| "rank_loop (w # ws) n = n # rank_loop ws (i32 (n + OnesCount 64 w))"

text \<open>\<open>indexRank64(words, true)\<close>, the only way the code calls it.\<close>

definition indexRank64 :: "uint64 list \<Rightarrow> int list" where
  "indexRank64 words = rank_loop words 0"

fun select_scan :: "uint64 list \<Rightarrow> nat list \<Rightarrow> int \<Rightarrow> int list" where
  "select_scan words [] ith = []"
| "select_scan words (i # is) ith =
     (if bit (words ! (i div 64)) (i mod 64)
      then (if (ith + 1) mod 32 = 0 then [i32 (int i)] else []) @ select_scan words is (ith + 1)
      else select_scan words is ith)"

definition indexSelect32R64 :: "uint64 list \<Rightarrow> int list \<times> int list" where
  "indexSelect32R64 words = (select_scan words [0..<64 * length words] (- 1), indexRank64 words)"

function advance_word :: "int list \<Rightarrow> int \<Rightarrow> int \<Rightarrow> int option" where
  "advance_word rankIndex wordI i =
     (if 0 \<le> wordI + 1 \<and> wordI + 1 < int (length rankIndex)
      then if rankIndex ! nat (wordI + 1) \<le> i then advance_word rankIndex (wordI + 1) i else Some wordI
      else None)"
  by pat_completeness auto
termination by (relation "measure (\<lambda>(r, w, i). nat (int (length r) - w))") auto

fun next_one :: "uint64 list \<Rightarrow> nat \<Rightarrow> int" where
  "next_one [] k = 64 * int k"
| "next_one (w # ws) k = (if w \<noteq> 0 then 64 * int k + int (TrailingZeros 64 w) else next_one ws (k + 1))"

text \<open>The position of the one number \<open>k\<close> of a word, by halving down to a byte.\<close>

definition halve :: "nat \<Rightarrow> uint64 \<times> int \<times> int \<Rightarrow> uint64 \<times> int \<times> int" where
  "halve n p =
     (let (ww, findIth, offset) = p; ones = OnesCount n ww
      in if ones \<le> findIth then (drop_bit n ww, findIth - ones, offset + int n) else p)"

definition select_word :: "uint64 \<Rightarrow> int \<Rightarrow> int option" where
  "select_word w k =
     (let (ww, k, off) = halve 16 (halve 32 (w, k, 0)); ones = OnesCount 8 ww
      in if ones \<le> k
         then map_option (\<lambda>x. int x + off + 8) (go_index select8Lookup (uint ((drop_bit 5 ww AND 0x7f8) OR word_of_int (k - ones))))
         else map_option (\<lambda>x. int x + off) (go_index select8Lookup (uint (push_bit 3 (ww AND 0xff) OR word_of_int k))))"

definition select32R64 :: "uint64 list \<Rightarrow> int list \<Rightarrow> int list \<Rightarrow> int \<Rightarrow> (int \<times> int) option" where
  "select32R64 words selectIndex rankIndex i = do {
     s \<leftarrow> go_index selectIndex (i div 32);
     wordI \<leftarrow> advance_word rankIndex (s div 64) i;
     w \<leftarrow> go_index words wordI;
     r \<leftarrow> go_index rankIndex wordI;
     x \<leftarrow> select_word w (i32 (i - r));
     let base = i32 (64 * wordI);
     let a = i32 (x + base);
     let w = w AND rMaskUpto (nat (a mod 64));
     Some (a, if w \<noteq> 0 then base + int (TrailingZeros 64 w) else next_one (drop (nat (wordI + 1)) words) (nat (wordI + 1)))
   }"

definition countZeros :: "uint64 list \<Rightarrow> int list \<Rightarrow> int \<Rightarrow> int option" where
  "countZeros bm ranks i = do { (a, _) \<leftarrow> rank64 bm ranks (i32 i); Some (i - a) }"

definition selectIthOne :: "uint64 list \<Rightarrow> int list \<Rightarrow> int list \<Rightarrow> int \<Rightarrow> int option" where
  "selectIthOne bm ranks selects i = do { (a, _) \<leftarrow> select32R64 bm selects ranks (i32 i); Some a }"


section \<open>The set\<close>

record succinctSet =
  leaves :: "uint64 list"
  labelBitmap :: "uint64 list"
  labels :: bytes
  ranks :: "int list"
  selects :: "int list"

definition succinct_init :: "uint64 list \<Rightarrow> uint64 list \<Rightarrow> bytes \<Rightarrow> succinctSet" where
  "succinct_init lv bm ls = (let (s, r) = indexSelect32R64 bm in \<lparr>leaves = lv, labelBitmap = bm, labels = ls, ranks = r, selects = s\<rparr>)"

record builder =
  queue :: "(nat \<times> nat \<times> nat) list"
  lIdx :: nat
  b_leaves :: "uint64 list"
  b_bitmap :: "uint64 list"
  b_labels :: bytes

text \<open>\<open>keys[j][col]\<close>.\<close>

definition char_at :: "bytes list \<Rightarrow> nat \<Rightarrow> nat \<Rightarrow> byte option" where
  "char_at keys j col = do { k \<leftarrow> go_index keys (int j); go_index k (int col) }"

text \<open>The end of the run of keys with the byte \<open>c\<close> at \<open>col\<close>.\<close>

function run_end :: "bytes list \<Rightarrow> nat \<Rightarrow> nat \<Rightarrow> byte \<Rightarrow> nat \<Rightarrow> nat option" where
  "run_end keys e col c j =
     (if j < e then do { b \<leftarrow> char_at keys j col; if b = c then run_end keys e col c (Suc j) else Some j }
      else Some j)"
  by pat_completeness auto
termination by (relation "measure (\<lambda>(keys, e, col, c, j). e - j)") auto

declare run_end.simps [simp del]

lemma run_end_ge: "run_end keys e col c j = Some j' \<Longrightarrow> j \<le> j'"
  by (induction keys e col c j rule: run_end.induct)
    (subst (asm) (2) run_end.simps, fastforce split: if_splits bind_splits)

definition add_child :: "nat \<Rightarrow> nat \<Rightarrow> nat \<Rightarrow> byte \<Rightarrow> builder \<Rightarrow> builder" where
  "add_child frm j col c b = b\<lparr>queue := queue b @ [(frm, j, Suc col)], b_labels := b_labels b @ [c],
     b_bitmap := setBit (b_bitmap b) (lIdx b) False, lIdx := Suc (lIdx b)\<rparr>"

text \<open>The loop over the children of a node. The first key of a run is compared with itself, so the
  search for its end starts behind it.\<close>

function add_children :: "bytes list \<Rightarrow> nat \<Rightarrow> nat \<Rightarrow> nat \<Rightarrow> builder \<Rightarrow> builder option" where
  "add_children keys e col j b =
     (if j < e then do {
        c \<leftarrow> char_at keys j col;
        j' \<leftarrow> run_end keys e col c (Suc j);
        add_children keys e col j' (add_child j j' col c b)
      } else Some b)"
  by pat_completeness auto
termination by (relation "measure (\<lambda>(keys, e, col, j, b). e - j)") (auto dest: run_end_ge)

declare add_children.simps [simp del]

partial_function (option) build_loop :: "bytes list \<Rightarrow> nat \<Rightarrow> builder \<Rightarrow> builder option" where
  "build_loop keys i b =
     (if i < length (queue b) then do {
        let (s, e, col) = queue b ! i;
        k \<leftarrow> go_index keys (int s);
        let (s, b) = (if col = length k then (Suc s, b\<lparr>b_leaves := setBit (b_leaves b) i True\<rparr>) else (s, b));
        b \<leftarrow> add_children keys e col s b;
        build_loop keys (Suc i) (b\<lparr>b_bitmap := setBit (b_bitmap b) (lIdx b) True, lIdx := Suc (lIdx b)\<rparr>)
      } else Some b)"

declare build_loop.simps [code]

definition newSuccinctSet :: "bytes list \<Rightarrow> succinctSet option" where
  "newSuccinctSet keys = do {
     b \<leftarrow> build_loop keys 0 \<lparr>queue = [(0, length keys, 0)], lIdx = 0, b_leaves = [], b_bitmap = [], b_labels = []\<rparr>;
     Some (succinct_init (b_leaves b) (b_bitmap b) (b_labels b))
   }"

text \<open>The child behind the zero at \<open>bmIdx\<close>: its number and the start of its own children.\<close>

definition goto_child :: "succinctSet \<Rightarrow> int \<Rightarrow> (int \<times> int) option" where
  "goto_child m bmIdx = do {
     nodeId \<leftarrow> countZeros (labelBitmap m) (ranks m) (bmIdx + 1);
     p \<leftarrow> selectIthOne (labelBitmap m) (ranks m) (selects m) (nodeId - 1);
     Some (nodeId, p + 1)
   }"

text \<open>The closure \<open>traverse\<close> of \<open>keys\<close> from the loop over the children on; the collected keys are its
  result.\<close>

partial_function (option) traverse :: "succinctSet \<Rightarrow> int \<Rightarrow> int \<Rightarrow> bytes \<Rightarrow> bytes list option" where
  "traverse m nodeId bmIdx cur = do {
     stop \<leftarrow> getBit (labelBitmap m) bmIdx;
     if stop then Some []
     else do {
       l \<leftarrow> go_index (labels m) (bmIdx - nodeId);
       (nextNodeId, nextBmIdx) \<leftarrow> goto_child m bmIdx;
       leaf \<leftarrow> getBit (leaves m) nextNodeId;
       below \<leftarrow> traverse m nextNodeId nextBmIdx (cur @ [l]);
       rest \<leftarrow> traverse m nodeId (bmIdx + 1) cur;
       Some ((if leaf then [cur @ [l]] else []) @ below @ rest)
     }
   }"

declare traverse.simps [code]

definition succinct_keys :: "succinctSet \<Rightarrow> bytes list option" where
  "succinct_keys m = do {
     leaf \<leftarrow> getBit (leaves m) 0;
     below \<leftarrow> traverse m 0 0 [];
     Some ((if leaf then [[]] else []) @ below)
   }"

end
