(* ===== verification/Utf8.thy ===== *)
theory Utf8
  imports Prelude
begin

text \<open>
  UTF-8 as the program uses it from the standard library: the decoder with its accept ranges, which
  returns \<open>RuneError\<close> and the width one for every invalid sequence, and the encoder. A rune is a
  natural number. \<open>utf8\<close> is a string of runes; decoding takes its runes off one by one, from which
  follow that it is injective and that a prefix of bytes between two such strings is a prefix of runes.
\<close>

section \<open>Decoding and encoding\<close>

definition RuneError :: nat where
  "RuneError = 0xFFFD"

text \<open>The size of the sequence that a byte starts and the range of its second byte.\<close>

definition lead :: "nat \<Rightarrow> nat \<times> nat \<times> nat" where
  "lead b =
     (if b < 0xC2 then (1, 0, 0) else if b < 0xE0 then (2, 0x80, 0xBF)
      else if b = 0xE0 then (3, 0xA0, 0xBF) else if b = 0xED then (3, 0x80, 0x9F) else if b < 0xF0 then (3, 0x80, 0xBF)
      else if b = 0xF0 then (4, 0x90, 0xBF) else if b < 0xF4 then (4, 0x80, 0xBF) else if b = 0xF4 then (4, 0x80, 0x8F)
      else (1, 0, 0))"

definition cont :: "nat \<Rightarrow> bool" where
  "cont b \<longleftrightarrow> 0x80 \<le> b \<and> b \<le> 0xBF"

fun decode_tail :: "nat \<times> nat \<times> nat \<Rightarrow> nat \<Rightarrow> nat list \<Rightarrow> nat \<times> nat" where
  "decode_tail (sz, lo, hi) b0 (b1 # bs) =
     (if sz = 1 \<or> length bs + 2 < sz \<or> b1 < lo \<or> hi < b1 then (RuneError, 1)
      else if sz = 2 then (b0 mod 32 * 64 + b1 mod 64, 2)
      else case bs of
             [] \<Rightarrow> (RuneError, 1)
           | b2 # bs \<Rightarrow>
               if \<not> cont b2 then (RuneError, 1)
               else if sz = 3 then (b0 mod 16 * 4096 + b1 mod 64 * 64 + b2 mod 64, 3)
               else case bs of
                      [] \<Rightarrow> (RuneError, 1)
                    | b3 # _ \<Rightarrow>
                        if \<not> cont b3 then (RuneError, 1)
                        else (b0 mod 8 * 262144 + b1 mod 64 * 4096 + b2 mod 64 * 64 + b3 mod 64, 4))"
| "decode_tail _ b0 [] = (RuneError, 1)"

definition DecodeRune :: "bytes \<Rightarrow> nat \<times> nat" where
  "DecodeRune s =
     (case map unat s of
        [] \<Rightarrow> (RuneError, 0)
      | b0 # bs \<Rightarrow> if b0 < 0x80 then (b0, 1) else decode_tail (lead b0) b0 bs)"

definition valid_rune :: "nat \<Rightarrow> bool" where
  "valid_rune r \<longleftrightarrow> r < 0xD800 \<or> 0xE000 \<le> r \<and> r \<le> 0x10FFFF"

definition encode_nats :: "nat \<Rightarrow> nat list" where
  "encode_nats r =
     (if r \<le> 0x7F then [r]
      else if r \<le> 0x7FF then [0xC0 + r div 64, 0x80 + r mod 64]
      else if \<not> valid_rune r then [0xEF, 0xBF, 0xBD]
      else if r \<le> 0xFFFF then [0xE0 + r div 4096, 0x80 + r div 64 mod 64, 0x80 + r mod 64]
      else [0xF0 + r div 262144, 0x80 + r div 4096 mod 64, 0x80 + r div 64 mod 64, 0x80 + r mod 64])"

definition encode_rune :: "nat \<Rightarrow> bytes" where
  "encode_rune r = map of_nat (encode_nats r)"

definition utf8 :: "nat list \<Rightarrow> bytes" where
  "utf8 rs = concat (map encode_rune rs)"

abbreviation valid_runes :: "nat list \<Rightarrow> bool" where
  "valid_runes rs \<equiv> list_all valid_rune rs"

lemma utf8_simps [simp]: "utf8 [] = []" "utf8 (r # rs) = encode_rune r @ utf8 rs" "utf8 (rs @ ss) = utf8 rs @ utf8 ss"
  by (simp_all add: utf8_def)

section \<open>Decoding what was encoded\<close>

lemma tail_width: "0 < snd (decode_tail l b0 bs) \<and> snd (decode_tail l b0 bs) \<le> Suc (length bs)"
  by (cases "(l, b0, bs)" rule: decode_tail.cases) (auto split: list.split)

lemma width: "s \<noteq> [] \<Longrightarrow> 0 < snd (DecodeRune s) \<and> snd (DecodeRune s) \<le> length s"
  using tail_width [of "lead (unat (hd s))" "unat (hd s)" "map unat (tl s)"] by (cases s) (auto simp: DecodeRune_def)

lemma encode_nats_byte: "list_all (\<lambda>b. b < 256) (encode_nats r)"
  by (auto simp: encode_nats_def valid_rune_def)

lemma unat_byte: "n < 256 \<Longrightarrow> unat (of_nat n :: byte) = n"
  by (simp add: unat_of_nat)

lemma map_unat_encode: "map unat (encode_rune r) = encode_nats r"
  using encode_nats_byte [of r] by (auto simp: encode_rune_def list_all_iff unat_byte intro: map_idI)

lemma payload:
  "q < 32 \<Longrightarrow> (0xC0 + q) mod 32 = (q :: nat)" "q < 16 \<Longrightarrow> (0xE0 + q) mod 16 = q" "q \<le> 4 \<Longrightarrow> (0xF0 + q) mod 8 = q"
  "(0x80 + x mod 64) mod 64 = x mod (64 :: nat)"
  using mod_mult_self1 [of q 6 32] mod_mult_self1 [of q 14 16] mod_mult_self1 [of q 30 8] mod_mult_self1 [of "x mod 64" 2 64]
  by (simp_all add: add.commute)

lemma cont_low [simp]: "cont (0x80 + x mod 64)"
  using mod_less_divisor [of 64 x] by (simp add: cont_def less_Suc_eq_le [of _ 63, simplified])

lemma digits3: "r div 4096 * 4096 + r div 64 mod 64 * 64 + r mod 64 = (r :: nat)"
proof -
  have "r div 64 = r div 64 div 64 * 64 + r div 64 mod 64" by (rule div_mult_mod_eq [symmetric])
  moreover have "r div 64 div 64 = r div 4096" by (simp add: div_mult2_eq [symmetric])
  moreover have "r = r div 64 * 64 + r mod 64" by (rule div_mult_mod_eq [symmetric])
  ultimately show ?thesis by linarith
qed

lemma digits4: "r div 262144 * 262144 + r div 4096 mod 64 * 4096 + r div 64 mod 64 * 64 + r mod 64 = (r :: nat)"
proof -
  have "r div 4096 = r div 4096 div 64 * 64 + r div 4096 mod 64" by (rule div_mult_mod_eq [symmetric])
  moreover have "r div 4096 div 64 = r div 262144" by (simp add: div_mult2_eq [symmetric])
  ultimately show ?thesis using digits3 [of r] by linarith
qed

lemma decode3:
  assumes "0x7FF < r" "r \<le> 0xFFFF" "valid_rune r"
  shows "decode_tail (lead (0xE0 + r div 4096)) (0xE0 + r div 4096) ((0x80 + r div 64 mod 64) # (0x80 + r mod 64) # bs) = (r, 3)"
proof -
  have q: "r div 4096 < 16" using assms(2) by (simp add: div_less_iff_less_mult)
  have lo: "r div 4096 = 0 \<Longrightarrow> 32 \<le> r div 64 mod 64" using assms(1) digits3 [of r] by (auto simp: div_eq_0_iff)
  have hi: "r div 4096 = 13 \<Longrightarrow> r div 64 mod 64 < 32" using assms(3) digits3 [of r] by (auto simp: valid_rune_def)
  have "fst (lead (0xE0 + r div 4096)) = 3" "fst (snd (lead (0xE0 + r div 4096))) \<le> 0x80 + r div 64 mod 64"
    "0x80 + r div 64 mod 64 \<le> snd (snd (lead (0xE0 + r div 4096)))"
    using q lo hi by (auto simp: lead_def)
  then show ?thesis using payload(2) [OF q] payload(4) [of "r div 64"] payload(4) [of r] digits3 [of r] by (cases "lead (0xE0 + r div 4096)") simp
qed

lemma decode4:
  assumes "0xFFFF < r" "r \<le> 0x10FFFF"
  shows "decode_tail (lead (0xF0 + r div 262144)) (0xF0 + r div 262144)
    ((0x80 + r div 4096 mod 64) # (0x80 + r div 64 mod 64) # (0x80 + r mod 64) # bs) = (r, 4)"
proof -
  have q: "r div 262144 \<le> 4" using assms(2) by linarith
  have lo: "r div 262144 = 0 \<Longrightarrow> 16 \<le> r div 4096 mod 64" using assms(1) digits4 [of r] by (auto simp: div_eq_0_iff)
  have hi: "r div 262144 = 4 \<Longrightarrow> r div 4096 mod 64 < 16" using assms(2) digits4 [of r] by auto
  have "fst (lead (0xF0 + r div 262144)) = 4" "fst (snd (lead (0xF0 + r div 262144))) \<le> 0x80 + r div 4096 mod 64"
    "0x80 + r div 4096 mod 64 \<le> snd (snd (lead (0xF0 + r div 262144)))"
    using q lo hi by (auto simp: lead_def)
  then show ?thesis using payload(3) [OF q] payload(4) [of "r div 4096"] payload(4) [of "r div 64"] payload(4) [of r] digits4 [of r] by (cases "lead (0xF0 + r div 262144)") simp
qed

lemma decode2:
  assumes "0x7F < r" "r \<le> 0x7FF"
  shows "decode_tail (lead (0xC0 + r div 64)) (0xC0 + r div 64) ((0x80 + r mod 64) # bs) = (r, 2)"
proof -
  have "2 \<le> r div 64" "r div 64 < 32" using assms by auto
  moreover have "r div 64 * 64 + r mod 64 = r" by (rule div_mult_mod_eq)
  ultimately show ?thesis using payload(1) [of "r div 64"] payload(4) [of r] by (simp add: lead_def)
qed

lemma decode_encode: "valid_rune r \<Longrightarrow> DecodeRune (encode_rune r @ s) = (r, length (encode_rune r))"
  using decode2 [of r] decode3 [of r] decode4 [of r] unfolding DecodeRune_def map_append map_unat_encode
  by (auto simp: encode_nats_def encode_rune_def valid_rune_def)

lemma encode_nonempty [simp]: "encode_rune r \<noteq> []"
  by (simp add: encode_rune_def encode_nats_def)

section \<open>Strings of runes\<close>

lemma utf8_prefix: "valid_runes rs \<Longrightarrow> valid_runes ss \<Longrightarrow> utf8 rs @ x = utf8 ss \<Longrightarrow> \<exists>ts. ss = rs @ ts \<and> x = utf8 ts"
proof (induction rs arbitrary: ss)
  case (Cons r rs)
  obtain s ss' where ss: "ss = s # ss'" using Cons.prems(3) by (cases ss) auto
  have "DecodeRune (utf8 (r # rs) @ x) = DecodeRune (utf8 ss)" using Cons.prems(3) by simp
  then have "r = s" using Cons.prems(1,2) by (simp add: ss decode_encode)
  then show ?case using Cons.IH [of ss'] Cons.prems by (simp add: ss)
qed simp

lemma utf8_inj: "valid_runes rs \<Longrightarrow> valid_runes ss \<Longrightarrow> utf8 rs = utf8 ss \<Longrightarrow> rs = ss"
  using utf8_prefix [of rs ss "[]"] utf8_prefix [of ss rs "[]"] by auto

lemma encode_ascii: "r < 128 \<Longrightarrow> encode_rune r = [of_nat r]"
  by (simp add: encode_rune_def encode_nats_def)

lemma encode_bytes: "valid_rune r \<Longrightarrow> b \<in> set (encode_rune r) \<Longrightarrow> encode_rune r = [of_nat r] \<and> r < 128 \<or> 128 \<le> unat b"
proof -
  assume r: "valid_rune r" and "b \<in> set (encode_rune r)"
  then have "unat b \<in> set (encode_nats r)" unfolding map_unat_encode [symmetric] by simp
  then show ?thesis using r by (auto simp: encode_ascii encode_nats_def valid_rune_def split: if_splits)
qed

end
