(* ===== verification/Matcher.thy ===== *)
theory Matcher
  imports Succinct Utf8 "HOL-Library.List_Lexorder"
begin

text \<open>
  The domain matcher of \<open>common/domain/matcher.go\<close> over the succinct set: the keys are the domains
  spelled backwards, a suffix ends with a label that stops the search.

  A panic of the source is \<open>None\<close>.
\<close>

definition prefixLabel :: byte where
  "prefixLabel = 13"

definition rootLabel :: byte where
  "rootLabel = 10"

section \<open>Domains backwards\<close>

text \<open>\<open>utf8.EncodeRune(b[o:], r)\<close>.\<close>

definition encode_at :: "bytes \<Rightarrow> nat \<Rightarrow> nat \<Rightarrow> bytes option" where
  "encode_at b off r = (if off + length (encode_rune r) \<le> length b then Some (blit b off (encode_rune r)) else None)"

lemma decode_advances: "(r, n) = DecodeRune (drop i domain) \<Longrightarrow> i < length domain \<Longrightarrow> 0 < n"
  using width [of "drop i domain"] by (metis drop_eq_Nil2 not_less snd_conv)

function reverse_loop :: "bytes \<Rightarrow> nat \<Rightarrow> bytes \<Rightarrow> bytes option" where
  "reverse_loop domain i b =
     (if i < length domain then do {
        let (r, n) = DecodeRune (drop i domain);
        b \<leftarrow> encode_at b (length domain - (i + n)) r;
        reverse_loop domain (i + n) b
      } else Some b)"
  by pat_completeness auto
termination
  by (relation "measure (\<lambda>(domain, i, b). length domain - i)") (auto dest: decode_advances)

declare reverse_loop.simps [simp del]

definition reverseDomain :: "bytes \<Rightarrow> bytes option" where
  "reverseDomain domain = reverse_loop domain 0 (replicate (length domain) 0)"

section \<open>Building\<close>

record Matcher =
  set_of :: succinctSet

fun suffix_loop :: "bool \<Rightarrow> bytes list \<Rightarrow> bytes list \<Rightarrow> bytes list \<Rightarrow> (bytes list \<times> bytes list) option" where
  "suffix_loop generateLegacy [] seen domainList = Some (seen, domainList)"
| "suffix_loop generateLegacy (domain # ds) seen domainList =
     (if domain \<in> set seen then suffix_loop generateLegacy ds seen domainList
      else do {
        let seen = domain # seen;
        c \<leftarrow> go_index domain 0;
        if c = 46 then do {
          k \<leftarrow> reverseDomain (prefixLabel # domain);
          suffix_loop generateLegacy ds seen (domainList @ [k])
        } else if generateLegacy then do {
          k \<leftarrow> reverseDomain domain;
          let suffixDomain = 46 # domain;
          if suffixDomain \<in> set seen then suffix_loop generateLegacy ds seen (domainList @ [k])
          else do {
            k' \<leftarrow> reverseDomain (prefixLabel # suffixDomain);
            suffix_loop generateLegacy ds (suffixDomain # seen) (domainList @ [k, k'])
          }
        } else do {
          k \<leftarrow> reverseDomain (rootLabel # domain);
          suffix_loop generateLegacy ds seen (domainList @ [k])
        }
      })"

fun domain_loop :: "bytes list \<Rightarrow> bytes list \<Rightarrow> bytes list \<Rightarrow> bytes list option" where
  "domain_loop [] seen domainList = Some domainList"
| "domain_loop (domain # ds) seen domainList =
     (if domain \<in> set seen then domain_loop ds seen domainList
      else do { k \<leftarrow> reverseDomain domain; domain_loop ds (domain # seen) (domainList @ [k]) })"

definition NewMatcher :: "bytes list \<Rightarrow> bytes list \<Rightarrow> bool \<Rightarrow> Matcher option" where
  "NewMatcher domains domainSuffix generateLegacy = do {
     (seen, domainList) \<leftarrow> suffix_loop generateLegacy domainSuffix [] [];
     domainList \<leftarrow> domain_loop domains seen domainList;
     s \<leftarrow> newSuccinctSet (sort domainList);
     Some \<lparr>set_of = s\<rparr>
   }"

section \<open>Matching\<close>

text \<open>The loop over the labels of a node that ends with a result of \<open>has\<close> or at the label of the
  current byte.\<close>

datatype scan = Result bool | Label int

lemma getBit_range: "getBit bm i = Some v \<Longrightarrow> 0 \<le> i \<and> i < 64 * int (length bm)"
  by (auto simp: getBit_def go_index_def split: if_splits)

function find_label :: "succinctSet \<Rightarrow> int \<Rightarrow> byte \<Rightarrow> int \<Rightarrow> scan option" where
  "find_label m nodeId currentChar bmIdx = do {
     stop \<leftarrow> getBit (labelBitmap m) bmIdx;
     if stop then Some (Result False)
     else do {
       nextLabel \<leftarrow> go_index (labels m) (bmIdx - nodeId);
       if nextLabel = prefixLabel then Some (Result True)
       else do {
         hit \<leftarrow> (if nextLabel = rootLabel then do {
             nextNodeId \<leftarrow> countZeros (labelBitmap m) (ranks m) (bmIdx + 1);
             hasNext \<leftarrow> getBit (leaves m) nextNodeId;
             Some (currentChar = 46 \<and> hasNext)
           } else Some False);
         if hit then Some (Result True)
         else if nextLabel = currentChar then Some (Label bmIdx)
         else find_label m nodeId currentChar (bmIdx + 1)
       }
     }
   }"
  by pat_completeness auto
termination
  by (relation "measure (\<lambda>(m, nodeId, c, i). nat (64 * int (length (labelBitmap m)) - i))") (auto dest: getBit_range)

declare find_label.simps [simp del]

function end_labels :: "succinctSet \<Rightarrow> int \<Rightarrow> int \<Rightarrow> bool option" where
  "end_labels m nodeId bmIdx = do {
     stop \<leftarrow> getBit (labelBitmap m) bmIdx;
     if stop then Some False
     else do {
       nextLabel \<leftarrow> go_index (labels m) (bmIdx - nodeId);
       if nextLabel = prefixLabel \<or> nextLabel = rootLabel then Some True
       else end_labels m nodeId (bmIdx + 1)
     }
   }"
  by pat_completeness auto
termination
  by (relation "measure (\<lambda>(m, nodeId, i). nat (64 * int (length (labelBitmap m)) - i))") (auto dest: getBit_range)

declare end_labels.simps [simp del]

fun has_from :: "succinctSet \<Rightarrow> int \<Rightarrow> int \<Rightarrow> bytes \<Rightarrow> bool option" where
  "has_from m nodeId bmIdx [] = do {
     leaf \<leftarrow> getBit (leaves m) nodeId;
     if leaf then Some True else end_labels m nodeId bmIdx
   }"
| "has_from m nodeId bmIdx (currentChar # key) = do {
     r \<leftarrow> find_label m nodeId currentChar bmIdx;
     case r of
       Result v \<Rightarrow> Some v
     | Label i \<Rightarrow> do { (nextNodeId, nextBmIdx) \<leftarrow> goto_child m i; has_from m nextNodeId nextBmIdx key }
   }"

definition has :: "Matcher \<Rightarrow> bytes \<Rightarrow> bool option" where
  "has m key = has_from (set_of m) 0 0 key"

definition Match :: "Matcher \<Rightarrow> bytes \<Rightarrow> bool option" where
  "Match m domain = do { key \<leftarrow> reverseDomain domain; has m key }"

section \<open>Dump\<close>

text \<open>The maps \<open>domainMap\<close> and \<open>prefixMap\<close> are lists without repetitions. Go iterates over a map in any
  order; the results are sorted afterwards.\<close>

record dump_state =
  domainMap :: "bytes list"
  prefixMap :: "bytes list"
  prefixList :: "bytes list"

fun dump_keys :: "bytes list \<Rightarrow> dump_state \<Rightarrow> dump_state option" where
  "dump_keys [] d = Some d"
| "dump_keys (key # ks) d = do {
     key \<leftarrow> reverseDomain key;
     c \<leftarrow> go_index key 0;
     dump_keys ks
       (if c = prefixLabel then d\<lparr>prefixMap := List.insert (tl key) (prefixMap d)\<rparr>
        else if c = rootLabel then d\<lparr>prefixList := prefixList d @ [tl key]\<rparr>
        else d\<lparr>domainMap := List.insert key (domainMap d)\<rparr>)
   }"

fun dump_prefixes :: "bytes list \<Rightarrow> dump_state \<Rightarrow> dump_state option" where
  "dump_prefixes [] d = Some d"
| "dump_prefixes (rawPrefix # ps) d = do {
     c \<leftarrow> go_index rawPrefix 0;
     dump_prefixes ps
       (if c = 46 \<and> tl rawPrefix \<in> set (domainMap d)
        then d\<lparr>domainMap := removeAll (tl rawPrefix) (domainMap d), prefixList := prefixList d @ [tl rawPrefix]\<rparr>
        else d\<lparr>prefixList := prefixList d @ [rawPrefix]\<rparr>)
   }"

definition Dump :: "Matcher \<Rightarrow> (bytes list \<times> bytes list) option" where
  "Dump m = do {
     ks \<leftarrow> succinct_keys (set_of m);
     d \<leftarrow> dump_keys ks \<lparr>domainMap = [], prefixMap = [], prefixList = []\<rparr>;
     d \<leftarrow> dump_prefixes (prefixMap d) d;
     Some (sort (domainMap d), sort (prefixList d))
   }"

end
