(* ===== verification/SuccinctLaws.thy ===== *)
theory SuccinctLaws
  imports Succinct
begin

text \<open>
  Rank and select of the succinct set against their definitions on the sequence of bits:
  \<open>ones bm i\<close> counts the ones before position \<open>i\<close>, and the code finds the position of the one with
  a given number.
\<close>

section \<open>Counting ones\<close>

definition wones :: "'a::len word \<Rightarrow> nat \<Rightarrow> nat" where
  "wones w n = length (filter (bit w) [0..<n])"

definition bmbit :: "uint64 list \<Rightarrow> nat \<Rightarrow> bool" where
  "bmbit bm i = bit (bm ! (i div 64)) (i mod 64)"

definition ones :: "uint64 list \<Rightarrow> nat \<Rightarrow> nat" where
  "ones bm i = length (filter (bmbit bm) [0..<i])"

lemma i32_id: "- (2 ^ 31) \<le> x \<Longrightarrow> x < 2 ^ 31 \<Longrightarrow> i32 x = x"
  by (simp add: i32_def)

lemma wones_simps [simp]: "wones w 0 = 0" "wones w (Suc n) = wones w n + of_bool (bit w n)"
  by (simp_all add: wones_def)

lemma ones_simps [simp]: "ones bm 0 = 0" "ones bm (Suc i) = ones bm i + of_bool (bmbit bm i)"
  by (simp_all add: ones_def)

lemma wones_le: "wones w n \<le> n"
  by (induction n) auto

lemma ones_le: "ones bm i \<le> i"
  by (induction i) auto

lemma wones_mono: "m \<le> n \<Longrightarrow> wones w m \<le> wones w n"
  by (induction n) (auto simp: le_Suc_eq)

lemma ones_mono: "i \<le> j \<Longrightarrow> ones bm i \<le> ones bm j"
  by (induction j) (auto simp: le_Suc_eq)

lemma ones_strict: "bmbit bm i \<Longrightarrow> i < j \<Longrightarrow> ones bm i < ones bm j"
  using ones_mono [of "Suc i" j bm] by simp

lemma ones_unique: "bmbit bm i \<Longrightarrow> bmbit bm j \<Longrightarrow> ones bm i = ones bm j \<Longrightarrow> i = j"
  using ones_strict [of bm i j] ones_strict [of bm j i] by (cases i j rule: linorder_cases) auto

lemma OnesCount_wones: "OnesCount n w = int (wones w n)"
  by (simp add: OnesCount_def wones_def)

lemma wones_drop: "wones w (h + n) = wones w h + wones (drop_bit h w) n"
  by (induction n) (simp_all add: bit_drop_bit_eq add.commute)

lemma wones_mask: "j \<le> 64 \<Longrightarrow> wones (w AND mask_tab j) 64 = wones w j"
proof -
  assume j: "j \<le> 64"
  have m: "mask_tab j = Bit_Operations.mask j" by (simp add: mask_tab_def mask_eq_exp_minus_1 push_bit_eq_mult)
  have "wones (w AND mask_tab j) n = wones w (min j n)" for n
    by (induction n) (auto simp: m bit_and_iff bit_mask_iff min_def le_Suc_eq not_le dest: bit_imp_le_length)
  then show ?thesis using j by (simp add: min_def)
qed

lemma ones_word: "r \<le> 64 \<Longrightarrow> ones bm (64 * q + r) = ones bm (64 * q) + wones (bm ! q) r"
  by (induction r) (simp_all add: bmbit_def)

lemma bmbit_Cons: "bmbit (w # ws) (64 + i) = bmbit ws i"
proof -
  have "(64 + i) div 64 = Suc (i div 64)" "(64 + i) mod 64 = i mod 64" by simp_all
  then show ?thesis unfolding bmbit_def by (simp only: nth_Cons_Suc)
qed

lemma ones_Cons: "ones (w # ws) (64 + i) = wones w 64 + ones ws i"
proof (induction i)
  case 0
  show ?case using ones_word [of 64 "w # ws" 0] by simp
next
  case (Suc i)
  have "64 + Suc i = Suc (64 + i)" by simp
  then show ?case using Suc by (simp only: ones_simps bmbit_Cons)
qed

section \<open>Rank\<close>

lemma length_rank_loop: "length (rank_loop ws n) = Suc (length ws)"
  by (induction ws arbitrary: n) auto

lemma rank_loop_nth:
  "0 \<le> n \<Longrightarrow> n + 64 * int (length ws) < 2 ^ 31 \<Longrightarrow> j \<le> length ws \<Longrightarrow> rank_loop ws n ! j = n + int (ones ws (64 * j))"
proof (induction ws arbitrary: n j)
  case (Cons w ws)
  show ?case
  proof (cases j)
    case (Suc k)
    have le: "wones w 64 \<le> 64" by (rule wones_le)
    have e: "i32 (n + OnesCount 64 w) = n + int (wones w 64)" unfolding OnesCount_wones by (rule i32_id) (use Cons.prems le in auto)
    have "rank_loop ws (n + int (wones w 64)) ! k = n + int (wones w 64) + int (ones ws (64 * k))"
      by (rule Cons.IH) (use Cons.prems le Suc in auto)
    moreover have "64 * j = 64 + 64 * k" using Suc by simp
    ultimately show ?thesis using Suc e ones_Cons [of w ws "64 * k"] by simp
  qed simp
qed simp

lemma ranks_nth:
  "64 * length bm < 2 ^ 31 \<Longrightarrow> j \<le> length bm \<Longrightarrow> indexRank64 bm ! j = int (ones bm (64 * j))"
  "length (indexRank64 bm) = Suc (length bm)"
  using rank_loop_nth [of 0 bm] by (simp_all add: indexRank64_def length_rank_loop)

lemma rank64_ones:
  assumes "64 * length bm < 2 ^ 31" "i < 64 * length bm"
  shows "\<exists>b. rank64 bm (indexRank64 bm) (int i) = Some (int (ones bm i), b)"
proof -
  let ?q = "i div 64" and ?r = "i mod 64"
  have q: "?q < length bm" using assms(2) by (simp add: less_mult_imp_div_less mult.commute)
  have i: "i = 64 * ?q + ?r" by simp
  have d: "int i div 64 = int ?q" "nat (int i mod 64) = ?r" by (simp_all add: zdiv_int zmod_int nat_mod_distrib)
  have r: "ones bm i = ones bm (64 * ?q) + wones (bm ! ?q) ?r"
    using ones_word [of ?r bm ?q] by simp
  have w: "wones (bm ! ?q AND mask_tab ?r) 64 = wones (bm ! ?q) ?r" by (rule wones_mask) simp
  have "i32 (int (ones bm (64 * ?q)) + int (wones (bm ! ?q) ?r)) = int (ones bm i)"
    unfolding r using ones_le [of bm i] r assms by (subst i32_id) auto
  then show ?thesis using q ranks_nth assms(1) by (simp add: rank64_def d OnesCount_wones w Let_def)
qed

lemma countZeros_zeros:
  assumes "64 * length bm < 2 ^ 31" "i < 64 * length bm"
  shows "countZeros bm (indexRank64 bm) (int i) = Some (int (i - ones bm i))"
proof -
  have "i32 (int i) = int i" by (rule i32_id) (use assms in auto)
  then show ?thesis using rank64_ones [OF assms] ones_le [of bm i] by (auto simp: countZeros_def of_nat_diff)
qed

section \<open>Select in a word\<close>

definition is_select :: "uint64 \<Rightarrow> nat \<Rightarrow> nat \<Rightarrow> bool" where
  "is_select w k a \<longleftrightarrow> bit w a \<and> wones w a = k"

lemma is_select_drop: "is_select (drop_bit h w) (k - wones w h) a \<Longrightarrow> wones w h \<le> k \<Longrightarrow> is_select w k (h + a)"
  by (simp add: is_select_def wones_drop bit_drop_bit_eq)


text \<open>The table of bytes, checked entry by entry.\<close>

lemma TrailingZeros_least:
  assumes "wones w n \<noteq> 0"
  shows "TrailingZeros n w < n" "bit w (TrailingZeros n w)" "\<And>i. i < TrailingZeros n w \<Longrightarrow> \<not> bit w i"
proof -
  let ?t = "TrailingZeros n w"
  obtain i where i: "i < n" "bit w i" using assms by (auto simp: wones_def filter_empty_conv)
  then have "?t \<noteq> n" unfolding TrailingZeros_def using takeWhile_eq_all_conv [of "\<lambda>i. \<not> bit w i" "[0..<n]"]
    by (metis atLeastLessThan_iff length_takeWhile_le length_upt diff_zero set_upt zero_le takeWhile_eq_take take_all order_refl)
  moreover have "?t \<le> n" using length_takeWhile_le [of "\<lambda>i. \<not> bit w i" "[0..<n]"] by (simp add: TrailingZeros_def)
  ultimately show lt: "?t < n" by simp
  then show "bit w ?t" using nth_length_takeWhile [of "\<lambda>i. \<not> bit w i" "[0..<n]"] by (simp add: TrailingZeros_def)
  fix i assume "i < ?t"
  then have lt': "i < length (takeWhile (\<lambda>i. \<not> bit w i) [0..<n])" by (simp add: TrailingZeros_def)
  then have "takeWhile (\<lambda>i. \<not> bit w i) [0..<n] ! i = i" using lt \<open>i < ?t\<close> by (simp add: takeWhile_nth)
  then have "i \<in> set (takeWhile (\<lambda>i. \<not> bit w i) [0..<n])" using nth_mem [OF lt'] by simp
  then show "\<not> bit w i" using set_takeWhileD by fastforce
qed

text \<open>\<open>w & (w - 1)\<close> clears the lowest one.\<close>

lemma clear_lowest:
  fixes w :: "'a::len word"
  assumes "bit w t" "\<And>i. i < t \<Longrightarrow> \<not> bit w i"
  shows "bit (w AND (w - 1)) n \<longleftrightarrow> bit w n \<and> n \<noteq> t"
proof -
  let ?x = "uint w"
  have tl: "t < LENGTH('a)" using assms(1) by (rule bit_imp_le_length)
  have "take_bit t ?x = 0" using assms(2) by (intro bit_eqI) (auto simp: bit_take_bit_iff bit_uint_iff)
  then have z: "?x mod 2 ^ t = 0" by (simp add: take_bit_eq_mod)
  have o: "odd (?x div 2 ^ t)" using assms(1) bit_uint_iff [of w t] tl by (simp add: bit_iff_odd [of ?x])
  then obtain m where "?x div 2 ^ t = 2 * m + 1" by (elim oddE)
  then have x: "?x = 2 ^ t * (2 * m + 1)" using z by (metis add.right_neutral mult_div_mod_eq)
  then have x1: "?x - 1 = 2 ^ (t + 1) * m + (2 ^ t - 1)" and x0: "?x = 2 ^ (t + 1) * m + 2 ^ t" by (simp_all add: algebra_simps)
  have "0 < ?x" using o by (metis div_0 even_zero order_le_imp_less_or_eq uint_ge_0)
  then have u: "uint (w - 1) = ?x - 1" by (metis add_0 diff_ge_0_iff_ge int_one_le_iff_zero_less unsigned_1 uint_minus_simple_iff uint_minus_simple_alt word_less_eq_iff_unsigned)
  have p: "(0::int) < 2 ^ t" by simp
  have d1: "(?x - 1) div 2 ^ (t + 1) = m" by (rule int_div_pos_eq [OF x1]) (use p in \<open>simp_all, linarith\<close>)
  have "?x div 2 ^ (t + 1) = m" by (rule int_div_pos_eq [OF x0]) simp_all
  note d = d1 this
  show ?thesis
  proof (cases n t rule: linorder_cases)
    case less
    then show ?thesis using assms(2) by (simp add: bit_and_iff)
  next
    case equal
    have "?x - 1 = 2 ^ t * (2 * m) + (2 ^ t - 1)" using x1 by simp
    then have "(?x - 1) div 2 ^ t = 2 * m" by (rule int_div_pos_eq) simp_all
    then have "\<not> bit (uint (w - 1)) t" unfolding u by (simp add: bit_iff_odd)
    then show ?thesis using equal tl by (simp add: bit_and_iff bit_uint_iff)
  next
    case greater
    then obtain k where n: "n = t + 1 + k" by (metis less_iff_Suc_add add.commute add_Suc plus_1_eq_Suc)
    have "(?x - 1) div 2 ^ n = ?x div 2 ^ n" unfolding n power_add [of _ "t + 1"] by (simp only: zdiv_zmult2_eq [of "2 ^ k"] d zero_le_power zero_le_numeral)
    then have "bit (uint (w - 1)) n = bit ?x n" unfolding u by (simp add: bit_iff_odd)
    then show ?thesis using greater by (auto simp: bit_and_iff bit_uint_iff dest: bit_imp_le_length)
  qed
qed

lemma select8_row_nth:
  "j < n \<Longrightarrow> j < wones w 8 \<Longrightarrow> select8_row n w ! j < 8 \<and> bit w (select8_row n w ! j) \<and> wones w (select8_row n w ! j) = j"
proof (induction n w arbitrary: j rule: select8_row.induct)
  case (2 n w)
  let ?t = "TrailingZeros 8 w" and ?w = "w AND (w - 1)"
  have ne: "wones w 8 \<noteq> 0" using 2(3) by simp
  note t = TrailingZeros_least [OF ne]
  have c: "bit ?w i \<longleftrightarrow> bit w i \<and> i \<noteq> ?t" for i by (rule clear_lowest [OF t(2,3)])
  have cnt: "wones w m = wones ?w m + of_bool (?t < m)" for m
    using t(2) by (induction m) (auto simp: c less_Suc_eq)
  show ?case
  proof (cases j)
    case 0
    have "wones w ?t = 0" using t(3) by (auto simp: wones_def filter_empty_conv)
    then show ?thesis using t 0 by simp
  next
    case (Suc i)
    have "i < wones ?w 8" using 2(3) cnt [of 8] t(1) Suc by simp
    then have "select8_row n ?w ! i < 8 \<and> bit ?w (select8_row n ?w ! i) \<and> wones ?w (select8_row n ?w ! i) = i"
      using 2(1) [of i] 2(2) Suc by simp
    moreover have "?t < select8_row n ?w ! i" if "bit ?w (select8_row n ?w ! i)" using that t(3) c by (meson linorder_neqE_nat)
    ultimately show ?thesis using Suc c cnt by simp
  qed
qed simp

lemma concat_rows: "(\<And>i. length (f i) = m) \<Longrightarrow> i < n \<Longrightarrow> j < m \<Longrightarrow> concat (map f [0..<n]) ! (m * i + j) = f i ! j"
proof (induction n)
  case (Suc n)
  have len: "length (concat (map f [0..<n])) = m * n" using Suc.prems(1) by (induction n) auto
  show ?case
  proof (cases "i = n")
    case True
    then show ?thesis using len by (simp add: nth_append)
  next
    case False
    then have "i < n" using Suc.prems(2) by simp
    then have "m * i + j < m * n"
      using Suc.prems(3) mult_le_mono2 [of "Suc i" n m] by simp
    then show ?thesis using Suc False len by (simp add: nth_append)
  qed
qed simp

lemma length_row: "length (select8_row n w) = n"
  by (induction n arbitrary: w) auto

lemma length_table: "length select8Lookup = 2048"
proof -
  have "length (concat (map (\<lambda>i. select8_row 8 (of_nat i)) [0..<n])) = 8 * n" for n
    by (induction n) (simp_all add: length_row)
  then show ?thesis unfolding select8Lookup_def by simp
qed


lemma select8Lookup_nth:
  fixes w :: byte
  assumes "k < wones w 8"
  shows "8 * unat w + k < length select8Lookup" "bit w (select8Lookup ! (8 * unat w + k))" "wones w (select8Lookup ! (8 * unat w + k)) = k"
proof -
  have k: "k < 8" using assms wones_le [of w 8] by simp
  have u: "unat w < 256" using unsigned_less [of w, where 'a = nat] by simp
  show "8 * unat w + k < length select8Lookup" using k u by (simp add: length_table)
  have "select8Lookup ! (8 * unat w + k) = select8_row 8 (of_nat (unat w)) ! k"
    unfolding select8Lookup_def by (rule concat_rows) (use u k in \<open>simp_all add: length_row\<close>)
  then have e: "select8Lookup ! (8 * unat w + k) = select8_row 8 w ! k" by simp
  show "bit w (select8Lookup ! (8 * unat w + k))" "wones w (select8Lookup ! (8 * unat w + k)) = k"
    unfolding e using select8_row_nth [OF k assms] by simp_all
qed

text \<open>The index of a byte in the table.\<close>

lemma uint_of_nat64: "n < 2 ^ 64 \<Longrightarrow> uint (of_nat n :: uint64) = int n"
  by (simp add: unsigned_of_nat take_bit_nat_eq_self)

lemma byte_index:
  fixes w :: uint64
  assumes "k < 8"
  shows "uint (push_bit 3 (w AND 0xff) OR word_of_int (int k)) = int (8 * unat (ucast w :: byte) + k)"
    "(drop_bit 5 w AND 0x7f8) = push_bit 3 (drop_bit 8 w AND 0xff)"
proof -
  have m: "(0xff :: uint64) = Bit_Operations.mask 8" "(0x7f8 :: uint64) = push_bit 3 (Bit_Operations.mask 8)" by (simp_all add: mask_eq_exp_minus_1)
  have k3: "bit k i \<Longrightarrow> i < 3" for i
  proof (rule ccontr)
    assume "bit k i" "\<not> i < 3"
    then have "(2::nat) ^ 3 \<le> 2 ^ i" by (intro power_increasing) simp_all
    then have "k div 2 ^ i = 0" using assms by simp
    then show False using \<open>bit k i\<close> by (simp add: bit_iff_odd)
  qed
  have d: "push_bit 3 (w AND 0xff) AND of_nat k = 0"
    by (rule bit_word_eqI) (auto simp: bit_and_iff bit_push_bit_iff bit_of_nat_iff dest: k3)
  have "push_bit 3 (w AND 0xff) OR of_nat k = push_bit 3 (w AND 0xff) + of_nat k"
    using disjunctive_add_eq_or [OF d] by simp
  moreover have "w AND 0xff = of_nat (unat (ucast w :: byte))"
    unfolding m by (rule bit_word_eqI) (auto simp: bit_simps)
  ultimately have "push_bit 3 (w AND 0xff) OR of_nat k = of_nat (8 * unat (ucast w :: byte) + k)"
    by (simp add: push_bit_eq_mult)
  moreover have "8 * unat (ucast w :: byte) + k < 2 ^ 64" using unsigned_less [of "ucast w :: byte", where 'a = nat] assms by simp
  then have "uint (of_nat (8 * unat (ucast w :: byte) + k) :: uint64) = int (8 * unat (ucast w :: byte) + k)"
    by (rule uint_of_nat64)
  ultimately show "uint (push_bit 3 (w AND 0xff) OR word_of_int (int k)) = int (8 * unat (ucast w :: byte) + k)"
    by (simp only: of_int_of_nat_eq)
  show "(drop_bit 5 w AND 0x7f8) = push_bit 3 (drop_bit 8 w AND 0xff)"
    unfolding m by (rule bit_word_eqI) (auto simp: bit_and_iff bit_push_bit_iff bit_drop_bit_eq bit_mask_iff ac_simps)
qed

lemma byte_select:
  fixes w :: uint64
  assumes "k < wones w 8"
  shows "\<exists>a. go_index select8Lookup (uint (push_bit 3 (w AND 0xff) OR word_of_int (int k))) = Some a \<and> is_select w k a"
proof -
  let ?b = "ucast w :: byte"
  have b: "bit ?b i \<longleftrightarrow> i < 8 \<and> bit w i" for i by (simp add: bit_ucast_iff)
  have c: "n \<le> 8 \<Longrightarrow> wones ?b n = wones w n" for n by (induction n) (auto simp: b)
  have k: "k < 8" using assms wones_le [of w 8] by simp
  note s = select8Lookup_nth [of k ?b, unfolded c [OF order.refl], OF assms]
  let ?a = "select8Lookup ! (8 * unat ?b + k)"
  have "?a < 8" using s(2) b by simp
  then have "is_select w k ?a" using s(2,3) b c [of ?a] by (simp add: is_select_def)
  then show ?thesis unfolding byte_index(1) [OF k] go_index_int using s(1) by simp
qed

lemma halve_wones:
  "halve n (w, int k, off) = (let h = if wones w n \<le> k then n else 0 in (drop_bit h w, int (k - wones w h), off + int h))"
  by (simp add: halve_def OnesCount_wones of_nat_diff Let_def)

lemma select_word_correct:
  assumes "k < wones w 64"
  shows "\<exists>a. select_word w (int k) = Some (int a) \<and> is_select w k a"
proof -
  define h where "h = (if wones w 32 \<le> k then 32 else 0 :: nat)"
  define w1 k1 where "w1 = drop_bit h w" and "k1 = k - wones w h"
  have hk: "wones w h \<le> k" by (simp add: h_def)
  have k1: "k1 < wones w1 32" using assms wones_drop [of w 32 32] by (auto simp: h_def w1_def k1_def)
  define g where "g = (if wones w1 16 \<le> k1 then 16 else 0 :: nat)"
  define w2 k2 where "w2 = drop_bit g w1" and "k2 = k1 - wones w1 g"
  have gk: "wones w1 g \<le> k1" by (simp add: g_def)
  have k2: "k2 < wones w2 16" using k1 wones_drop [of w1 16 16] by (auto simp: g_def w2_def k2_def)
  have run: "select_word w (int k) =
    (if int (wones w2 8) \<le> int k2
     then map_option (\<lambda>x. int x + int (h + g) + 8) (go_index select8Lookup (uint ((drop_bit 5 w2 AND 0x7f8) OR word_of_int (int k2 - int (wones w2 8)))))
     else map_option (\<lambda>x. int x + int (h + g)) (go_index select8Lookup (uint (push_bit 3 (w2 AND 0xff) OR word_of_int (int k2)))))"
  proof -
    have "halve 32 (w, int k, 0) = (w1, int k1, int h)" by (simp add: halve_wones h_def w1_def k1_def Let_def)
    moreover have "halve 16 (w1, int k1, int h) = (w2, int k2, int (h + g))" by (simp add: halve_wones g_def w2_def k2_def Let_def)
    ultimately show ?thesis by (simp add: select_word_def OnesCount_wones Let_def)
  qed
  have lift: "is_select w k (h + (g + a))" if "is_select w2 k2 a" for a
    using is_select_drop [of g w1 k1 a] is_select_drop [of h w k "g + a"] that hk gk by (simp add: w1_def k1_def w2_def k2_def)
  show ?thesis
  proof (cases "wones w2 8 \<le> k2")
    case True
    let ?v = "drop_bit 8 w2" and ?j = "k2 - wones w2 8"
    have j: "?j < wones ?v 8" using k2 True wones_drop [of w2 8 8] by simp
    then have j8: "?j < 8" using wones_le [of ?v 8] by simp
    obtain a where a: "go_index select8Lookup (uint (push_bit 3 (?v AND 0xff) OR word_of_int (int ?j))) = Some a" "is_select ?v ?j a"
      using byte_select [OF j] by blast
    have "is_select w2 k2 (8 + a)" by (rule is_select_drop [OF a(2) True])
    then have "is_select w k (h + (g + (8 + a)))" by (rule lift)
    moreover have "select_word w (int k) = Some (int (h + (g + (8 + a))))"
      unfolding run byte_index(2) [OF j8] using a(1) True by (simp add: of_nat_diff)
    ultimately show ?thesis by blast
  next
    case False
    then have j: "k2 < wones w2 8" by simp
    obtain a where a: "go_index select8Lookup (uint (push_bit 3 (w2 AND 0xff) OR word_of_int (int k2))) = Some a" "is_select w2 k2 a"
      using byte_select [OF j] by blast
    have "select_word w (int k) = Some (int (h + (g + a)))" unfolding run using a(1) False by simp
    then show ?thesis using lift [OF a(2)] by blast
  qed
qed


section \<open>Select in the bitmap\<close>

lemma select_exists: "k < ones bm n \<Longrightarrow> \<exists>a < n. bmbit bm a \<and> ones bm a = k"
proof (induction n)
  case (Suc n)
  show ?case
  proof (cases "k < ones bm n")
    case True
    with Suc.IH show ?thesis using less_Suc_eq by blast
  next
    case False
    with Suc.prems have "bmbit bm n" "ones bm n = k" by (auto split: if_splits simp: of_bool_def)
    then show ?thesis by blast
  qed
qed simp

definition marks :: "uint64 list \<Rightarrow> nat \<Rightarrow> nat \<Rightarrow> nat list" where
  "marks bm a b = filter (\<lambda>i. bmbit bm i \<and> ones bm i mod 32 = 0) [a..<b]"

lemma select_scan_marks:
  "a \<le> b \<Longrightarrow> select_scan bm [a..<b] (int (ones bm a) - 1) = map (\<lambda>i. i32 (int i)) (marks bm a b)"
proof (induction "b - a" arbitrary: a)
  case (Suc n)
  then have lt: "a < b" by simp
  have up: "[a..<b] = a # [Suc a..<b]" using lt by (simp add: upt_conv_Cons)
  have m: "(int (ones bm a) - 1 + 1) mod 32 = 0 \<longleftrightarrow> ones bm a mod 32 = 0" by simp presburger
  have "select_scan bm [Suc a..<b] (int (ones bm (Suc a)) - 1) = map (\<lambda>i. i32 (int i)) (marks bm (Suc a) b)"
    by (rule Suc(1)) (use Suc(2) lt in auto)
  then show ?case using m unfolding marks_def up by (auto simp: bmbit_def)
qed (simp add: marks_def)

lemma marks_nth:
  "32 * t < ones bm b \<Longrightarrow> t < length (marks bm 0 b) \<and> bmbit bm (marks bm 0 b ! t) \<and> ones bm (marks bm 0 b ! t) = 32 * t"
proof -
  have len: "length (marks bm 0 b) = (ones bm b + 31) div 32" for b
  proof (induction b)
    case (Suc b)
    have c: "(n + 1 + 31) div 32 = (n + 31) div 32 + of_bool (n mod 32 = 0)" for n :: nat
    proof -
      define q r where "q = n div 32" and "r = n mod 32"
      have n: "n = 32 * q + r" and r: "r < 32" by (simp_all add: q_def r_def)
      have "(32 * q + r + 31) div 32 = q + of_bool (r \<noteq> 0)"
        by (cases "r = 0"; rule div_nat_eqI) (use r in simp_all)
      moreover have "(32 * q + r + 1 + 31) div 32 = q + 1" by (rule div_nat_eqI) (use r in simp_all)
      moreover have "n mod 32 = r" by (simp add: r_def)
      ultimately show ?thesis unfolding \<open>n mod 32 = r\<close> n by simp
    qed
    show ?case using Suc c [of "ones bm b"] by (cases "bmbit bm b") (simp_all add: marks_def)
  qed (simp add: marks_def)
  show "32 * t < ones bm b \<Longrightarrow> t < length (marks bm 0 b) \<and> bmbit bm (marks bm 0 b ! t) \<and> ones bm (marks bm 0 b ! t) = 32 * t"
  proof (induction b)
    case (Suc b)
    show ?case
    proof (cases "32 * t < ones bm b")
      case True
      from Suc.IH [OF this] show ?thesis by (auto simp: marks_def nth_append)
    next
      case False
      with Suc.prems have b: "bmbit bm b" "ones bm b = 32 * t" by (auto simp: of_bool_def split: if_splits)
      then have "length (marks bm 0 b) = t" unfolding len by simp
      then show ?thesis using b by (simp add: marks_def nth_append)
    qed
  qed simp
qed

lemma advance_word_finds:
  assumes "64 * length bm < 2 ^ 31" "q < length bm" "ones bm (64 * q) \<le> k" "k < ones bm (64 * q + 64)" "w0 \<le> q"
  shows "advance_word (indexRank64 bm) (int w0) (int k) = Some (int q)"
  using assms(5)
proof (induction "q - w0" arbitrary: w0)
  case 0
  then have "w0 = q" by simp
  moreover have "indexRank64 bm ! Suc q = int (ones bm (64 * q + 64))" using ranks_nth(1) [OF assms(1), of "Suc q"] assms(2) by (simp add: algebra_simps)
  ultimately show ?case using assms(2,4) ranks_nth(2) [of bm] by (simp add: nat_add_distrib)
next
  case (Suc n)
  then have lt: "w0 < q" by simp
  have "indexRank64 bm ! Suc w0 = int (ones bm (64 * Suc w0))" using ranks_nth(1) [OF assms(1), of "Suc w0"] assms(2) lt by simp
  moreover have "ones bm (64 * Suc w0) \<le> ones bm (64 * q)" using lt by (intro ones_mono) simp
  ultimately have le: "indexRank64 bm ! Suc w0 \<le> int k" using assms(3) by linarith
  have "advance_word (indexRank64 bm) (int (Suc w0)) (int k) = Some (int q)" by (rule Suc(1)) (use Suc(2) lt in auto)
  moreover have "int w0 + 1 < int (length (indexRank64 bm))" using ranks_nth(2) [of bm] assms(2) lt by simp
  moreover have "nat (int w0 + 1) = Suc w0" by simp
  ultimately show ?case using le by (subst advance_word.simps) (simp add: add.commute)
qed

lemma is_select_unique: "is_select w k a \<Longrightarrow> is_select w k b \<Longrightarrow> a = b"
proof -
  have s: "bit w i \<Longrightarrow> i < j \<Longrightarrow> wones w i < wones w j" for i j using wones_mono [of "Suc i" j w] by simp
  assume "is_select w k a" "is_select w k b"
  then show "a = b" using s [of a b] s [of b a] by (cases a b rule: linorder_cases) (auto simp: is_select_def)
qed

theorem selectIthOne_position:
  assumes len: "64 * length bm < 2 ^ 31" and a: "a < 64 * length bm" "bmbit bm a" "ones bm a = k"
  shows "selectIthOne bm (snd (indexSelect32R64 bm)) (fst (indexSelect32R64 bm)) (int k) = Some (int a)"
proof -
  let ?q = "a div 64" and ?r = "a mod 64"
  let ?w = "bm ! ?q"
  have q: "?q < length bm" using a(1) by (simp add: less_mult_imp_div_less mult.commute)
  have eq: "a = 64 * ?q + ?r" by simp
  have bit: "bit ?w ?r" using a(2) by (simp add: bmbit_def)
  have kq: "k = ones bm (64 * ?q) + wones ?w ?r" using ones_word [of ?r bm ?q] a(3) by simp
  have wr: "wones ?w ?r < wones ?w 64" 
  proof -
    have "Suc ?r \<le> 64" by (rule Suc_leI) simp
    then show ?thesis using wones_mono [of "Suc ?r" 64 ?w] bit by simp
  qed
  have next_q: "k < ones bm (64 * ?q + 64)" using ones_word [of 64 bm ?q] kq wr by simp
  have kn: "k < ones bm (64 * length bm)" using ones_strict [OF a(2,1)] a(3) by simp
  let ?t = "k div 32" and ?m = "marks bm 0 (64 * length bm)"
  have mt: "?t < length ?m" "bmbit bm (?m ! ?t)" "ones bm (?m ! ?t) = 32 * ?t"
    using marks_nth [of ?t bm "64 * length bm"] kn by auto
  have ml: "?m ! ?t < 64 * length bm" using nth_mem [OF mt(1)] by (auto simp: marks_def)
  have "?m ! ?t \<le> a" using ones_strict [OF a(2), of "?m ! ?t"] mt(3) a(3) by (metis div_times_less_eq_dividend leI mult.commute not_less)
  then have mq: "?m ! ?t div 64 \<le> ?q" by (rule div_le_mono)
  have sel: "go_index (fst (indexSelect32R64 bm)) (int k div 32) = Some (int (?m ! ?t))"
  proof -
    have "fst (indexSelect32R64 bm) = map (\<lambda>i. i32 (int i)) ?m"
      using select_scan_marks [of 0 "64 * length bm" bm] by (simp add: indexSelect32R64_def)
    moreover have "i32 (int (?m ! ?t)) = int (?m ! ?t)" by (rule i32_id) (use ml len in auto)
    moreover have "int k div 32 = int ?t" by (simp add: zdiv_int)
    ultimately show ?thesis using mt(1) by (simp add: go_index_int)
  qed
  have adv: "advance_word (indexRank64 bm) (int (?m ! ?t) div 64) (int k) = Some (int ?q)"
    using advance_word_finds [OF len q _ next_q mq] kq by (simp add: zdiv_int)
  have ik: "i32 (int k) = int k" "i32 (int k - int (ones bm (64 * ?q))) = int (wones ?w ?r)" "i32 (64 * int ?q) = 64 * int ?q"
      "i32 (int ?r + 64 * int ?q) = int a"
  proof -
    have "k \<le> a" using ones_le [of bm a] a(3) by simp
    then show "i32 (int k) = int k" using a(1) len by (intro i32_id) auto
    have "wones ?w ?r \<le> 64" using wones_le [of ?w ?r] by (meson le_trans mod_less_divisor nat_less_le zero_less_numeral)
    then show "i32 (int k - int (ones bm (64 * ?q))) = int (wones ?w ?r)" using kq by (subst i32_id) auto
    show "i32 (64 * int ?q) = 64 * int ?q" using q len by (intro i32_id) auto
    have "int ?r + 64 * int ?q = int a" by (simp flip: of_nat_mult of_nat_add add: zdiv_int zmod_int)
    then show "i32 (int ?r + 64 * int ?q) = int a" using a(1) len by (subst i32_id) auto
  qed
  obtain x where x: "select_word ?w (int (wones ?w ?r)) = Some (int x)" "is_select ?w (wones ?w ?r) x" using select_word_correct [OF wr] by blast
  have "x = ?r" by (rule is_select_unique [OF x(2)]) (use bit in \<open>simp add: is_select_def\<close>)
  then have "select_word ?w (int (wones ?w ?r)) = Some (int ?r)" using x(1) by simp
  moreover have "go_index (indexRank64 bm) (int ?q) = Some (int (ones bm (64 * ?q)))"
    unfolding go_index_int using q ranks_nth(2) [of bm] ranks_nth(1) [OF len, of ?q] by simp
  moreover have "go_index bm (int ?q) = Some ?w" using q by (simp add: go_index_int)
  ultimately have "\<exists>b. select32R64 bm (fst (indexSelect32R64 bm)) (indexRank64 bm) (int k) = Some (int a, b)"
    unfolding select32R64_def using sel adv ik by (simp add: Let_def)
  then show ?thesis using ik(1) by (auto simp: selectIthOne_def indexSelect32R64_def)
qed

end
