(* ===== verification/SuccinctTrie.thy ===== *)
theory SuccinctTrie
  imports SuccinctLaws "HOL-Library.List_Lexorder"
begin

text \<open>
  The shape of a succinct set. A node of the trie is the sorted list of the strings below it; the set
  lists the nodes in breadth-first order. \<open>louds\<close> says that a set stores such a list of nodes, the
  lemmas after it move from a node to its children, and \<open>newSuccinctSet\<close> establishes it.
\<close>

section \<open>Nodes\<close>

definition strip :: "bytes list \<Rightarrow> bytes list" where
  "strip xs = (if xs \<noteq> [] \<and> hd xs = [] then tl xs else xs)"

function groups :: "bytes list \<Rightarrow> (byte \<times> bytes list) list" where
  "groups [] = []"
| "groups (x # xs) =
     (hd x, tl x # map tl (takeWhile (\<lambda>y. hd y = hd x) xs)) # groups (dropWhile (\<lambda>y. hd y = hd x) xs)"
  by pat_completeness auto
termination by (relation "measure length") (auto simp: le_imp_less_Suc length_dropWhile_le)

definition kids :: "bytes list \<Rightarrow> (byte \<times> bytes list) list" where
  "kids xs = groups (strip xs)"

definition is_leaf :: "bytes list \<Rightarrow> bool" where
  "is_leaf xs \<longleftrightarrow> [] \<in> set xs"

definition node_ok :: "bytes list \<Rightarrow> bool" where
  "node_ok xs \<longleftrightarrow> xs \<noteq> [] \<and> sorted_wrt (<) xs"

definition weight :: "bytes list \<Rightarrow> nat" where
  "weight xs = sum_list (map (\<lambda>w. Suc (length w)) xs)"

lemma node_Nil: "node_ok (x # xs) \<Longrightarrow> [] \<notin> set xs"
  by (auto simp: node_ok_def)

lemma is_leaf_hd: "node_ok xs \<Longrightarrow> is_leaf xs \<longleftrightarrow> hd xs = []"
  using node_Nil by (cases xs) (auto simp: is_leaf_def node_ok_def)

lemma strip_nonempty: "node_ok xs \<Longrightarrow> [] \<notin> set (strip xs) \<and> sorted_wrt (<) (strip xs)"
  using node_Nil by (cases xs) (auto simp: strip_def node_ok_def)

lemma set_strip: "node_ok xs \<Longrightarrow> set (strip xs) = set xs - {[]}"
  using node_Nil by (cases xs) (auto simp: strip_def node_ok_def)

lemma sorted_tails: "sorted_wrt (<) xs \<Longrightarrow> \<forall>y \<in> set xs. \<exists>v. y = c # v \<Longrightarrow> sorted_wrt (<) (map tl xs)" for c :: byte
  by (induction xs) fastforce+

lemma groups_facts:
  assumes "sorted_wrt (<) xs" "[] \<notin> set xs"
  shows "(\<forall>(c, ys) \<in> set (groups xs). node_ok ys \<and> set ys = {w. c # w \<in> set xs}) \<and>
    sorted_wrt (<) (map fst (groups xs)) \<and> (\<forall>w \<in> set xs. hd w \<in> fst ` set (groups xs)) \<and> fst ` set (groups xs) \<subseteq> hd ` set xs"
  using assms
proof (induction xs rule: groups.induct)
  case (2 x xs)
  let ?P = "\<lambda>y. hd y = hd x"
  define t d where "t = takeWhile ?P xs" and "d = dropWhile ?P xs"
  have eq: "xs = t @ d" by (simp add: t_def d_def)
  have dsub: "y \<in> set d \<Longrightarrow> y \<in> set xs" for y using eq by simp
  obtain c w where x: "x = c # w" using 2(3) by (cases x) auto
  have ne: "\<forall>y \<in> set xs. y \<noteq> []" using 2(3) by auto
  have d: "sorted_wrt (<) d" "[] \<notin> set d" using 2(2,3) eq by (auto simp: sorted_wrt_append)
  note IH = 2(1) [folded d_def, OF d]
  have gt: "c < hd y" if y: "y \<in> set d" for y
  proof -
    obtain z zs where z: "d = z # zs" using y by (cases d) auto
    have "hd z \<noteq> c" using z hd_dropWhile [of ?P xs] x by (metis d_def list.distinct(1) list.sel(1))
    moreover have zx: "z \<in> set xs" using z dsub by auto
    then have "x < z" using 2(2) by simp
    moreover have "z \<noteq> []" using zx ne by blast
    ultimately have cz: "c < hd z" using x by (cases z) auto
    have "z \<le> y" using y z d(1) by auto
    moreover have "y \<noteq> []" using y d(2) by auto
    ultimately have "hd z \<le> hd y" using \<open>z \<noteq> []\<close> by (cases z; cases y) auto
    with cz show ?thesis by simp
  qed
  have setxs: "set xs = set t \<union> set d" using eq by simp
  have tk: "\<forall>y \<in> set t. hd y = c" using x set_takeWhileD [of _ ?P xs] unfolding t_def by fastforce
  let ?ys = "tl x # map tl t"
  have in_t: "y \<in> set t \<Longrightarrow> y = c # tl y" for y using tk ne setxs by (metis UnCI list.collapse)
  have set_ys: "set ?ys = {v. c # v \<in> set (x # xs)}"
  proof (intro set_eqI iffI)
    fix v assume "v \<in> set ?ys"
    then consider "v = w" | y where "y \<in> set t" "v = tl y" using x by auto
    then show "v \<in> {v. c # v \<in> set (x # xs)}"
    proof cases
      case 2
      then have "c # v = y" "y \<in> set xs" using in_t [of y] setxs by auto
      then show ?thesis by simp
    qed (use x in simp)
  next
    fix v assume "v \<in> {v. c # v \<in> set (x # xs)}"
    then have "c # v = x \<or> c # v \<in> set t \<or> c # v \<in> set d" using setxs by auto
    moreover have "c # v \<notin> set d" using gt [of "c # v"] by auto
    ultimately show "v \<in> set ?ys" using x by force
  qed
  have srt: "sorted_wrt (<) ?ys"
  proof -
    have "sorted_wrt (<) (x # t)" using 2(2) eq by (auto simp: sorted_wrt_append)
    moreover have "\<forall>y \<in> set (x # t). \<exists>v. y = c # v" using in_t x by (metis set_ConsD)
    ultimately have "sorted_wrt (<) (map tl (x # t))" by (rule sorted_tails)
    then show ?thesis by simp
  qed
  have hx: "hd x = c" using x by simp
  have g: "groups (x # xs) = (c, ?ys) # groups d" by (simp add: hx t_def d_def)
  have sub: "set d \<subseteq> set xs" using setxs by simp
  have rest: "node_ok ys \<and> set ys = {v. b # v \<in> set (x # xs)}" if "(b, ys) \<in> set (groups d)" for b ys
  proof -
    have "b \<in> hd ` set d" using that IH by force
    then have "c < b" using gt by auto
    then have "b # v \<in> set (x # xs) \<longleftrightarrow> b # v \<in> set d" for v
    proof -
      have "b # v \<noteq> x" "b # v \<notin> set t" using \<open>c < b\<close> x bspec [OF tk, of "b # v"] by auto
      then show ?thesis using setxs by simp
    qed
    then show ?thesis using IH that by auto
  qed
  have above: "\<forall>b \<in> set (map fst (groups d)). c < b"
  proof
    fix b assume "b \<in> set (map fst (groups d))"
    then have "b \<in> hd ` set d" using IH by auto
    then show "c < b" using gt by auto
  qed
  have "hd v \<in> fst ` set (groups (x # xs))" if "v \<in> set (x # xs)" for v
  proof -
    have "v = x \<or> v \<in> set t \<or> v \<in> set d" using that setxs by auto
    then show ?thesis unfolding g using tk hx IH by auto
  qed
  moreover have "fst ` set (groups d) \<subseteq> hd ` set xs" using IH image_mono [OF sub, of hd] by blast
  then have "fst ` set (groups (x # xs)) \<subseteq> hd ` set (x # xs)" unfolding g using hx by auto
  ultimately show ?case unfolding g using rest set_ys srt above IH by (auto simp: node_ok_def)
qed simp

lemma kids_facts:
  assumes "node_ok xs"
  shows "(c, ys) \<in> set (kids xs) \<Longrightarrow> node_ok ys \<and> set ys = {w. c # w \<in> set xs}" "sorted_wrt (<) (map fst (kids xs))"
    "c \<in> set (map fst (kids xs)) \<longleftrightarrow> (\<exists>w. c # w \<in> set xs)"
proof -
  note s = strip_nonempty [OF assms]
  note g = groups_facts [OF conjunct2 [OF s] conjunct1 [OF s]]
  show "(c, ys) \<in> set (kids xs) \<Longrightarrow> node_ok ys \<and> set ys = {w. c # w \<in> set xs}" using g set_strip [OF assms] by (auto simp: kids_def)
  show "sorted_wrt (<) (map fst (kids xs))" using g by (simp add: kids_def)
  show "c \<in> set (map fst (kids xs)) \<longleftrightarrow> (\<exists>w. c # w \<in> set xs)"
  proof
    assume "c \<in> set (map fst (kids xs))"
    then obtain w where "w \<in> set (strip xs)" "hd w = c" using g by (force simp: kids_def)
    then show "\<exists>w. c # w \<in> set xs" using set_strip [OF assms] by (metis Diff_iff insertCI list.collapse)
  next
    assume "\<exists>w. c # w \<in> set xs"
    then obtain w where "c # w \<in> set (strip xs)" using set_strip [OF assms] by auto
    then show "c \<in> set (map fst (kids xs))" using g by (force simp: kids_def)
  qed
qed

lemma groups_weight: "[] \<notin> set xs \<Longrightarrow> sum_list (map (\<lambda>g. weight (snd g)) (groups xs)) = sum_list (map length xs)"
proof (induction xs rule: groups.induct)
  case (2 x xs)
  let ?P = "\<lambda>y. hd y = hd x"
  have "[] \<notin> set (dropWhile ?P xs)" using 2(2) set_dropWhileD [of _ ?P xs] by auto
  note IH = 2(1) [OF this]
  have w: "[] \<notin> set ys \<Longrightarrow> weight (map tl ys) = sum_list (map length ys)" for ys :: "bytes list"
    by (induction ys) (auto simp: weight_def)
  have "set (takeWhile ?P xs) \<subseteq> set xs" by (meson set_takeWhileD subsetI)
  then have "[] \<notin> set (takeWhile ?P xs)" using 2(2) by auto
  then have "[] \<notin> set (x # takeWhile ?P xs)" using 2(2) by auto
  from w [OF this] have "weight (map tl (x # takeWhile ?P xs)) = sum_list (map length (x # takeWhile ?P xs))" .
  moreover have "sum_list (map length xs) = sum_list (map length (takeWhile ?P xs)) + sum_list (map length (dropWhile ?P xs))"
    by (metis map_append sum_list_append takeWhile_dropWhile_id)
  ultimately show ?case using IH by simp
qed simp

lemma kids_weight: "node_ok xs \<Longrightarrow> sum_list (map (\<lambda>g. weight (snd g)) (kids xs)) < weight xs"
proof -
  assume n: "node_ok xs"
  have "sum_list (map length (strip xs)) < weight xs" using n by (cases xs) (auto simp: strip_def node_ok_def weight_def sum_list_Suc)
  then show ?thesis using groups_weight strip_nonempty [OF n] by (simp add: kids_def)
qed

end
