(* ===== verification/SuccinctLouds.thy ===== *)
theory SuccinctLouds
  imports SuccinctTrie
begin

text \<open>
  The bitmap as a sequence of bits, and moving through a set that stores a list of nodes.
\<close>

section \<open>Bitmaps as sequences\<close>

definition bits_rep :: "uint64 list \<Rightarrow> bool list \<Rightarrow> bool" where
  "bits_rep bm bs \<longleftrightarrow> length bs \<le> 64 * length bm \<and> 64 * length bm < length bs + 64 \<and>
     (\<forall>i < 64 * length bm. bmbit bm i \<longleftrightarrow> i < length bs \<and> bs ! i)"

lemma bits_rep_Nil [simp]: "bits_rep [] []"
  by (simp add: bits_rep_def)

lemma length_setBit: "length (setBit bm i v) = max (length bm) (Suc (i div 64))"
  unfolding setBit_def Let_def length_list_update by auto

lemma setBit_nth:
  assumes "64 * length bm \<le> i \<or> i < 64 * length bm" "k < 64 * length (setBit bm i v)"
  shows "length (setBit bm i v) = max (length bm) (Suc (i div 64))"
    "bmbit (setBit bm i v) k \<longleftrightarrow> (k < 64 * length bm \<and> bmbit bm k) \<or> (k = i \<and> v)"
proof -
  let ?n = "length bm" and ?q = "i div 64"
  let ?bm = "bm @ replicate (Suc ?q - ?n) 0"
  have l: "length ?bm = max ?n (Suc ?q)" by auto
  show len: "length (setBit bm i v) = max ?n (Suc ?q)" by (rule length_setBit)
  have kq: "k div 64 < max ?n (Suc ?q)" using assms(2) len by (simp add: less_mult_imp_div_less mult.commute)
  have old: "bit (?bm ! (k div 64)) (k mod 64) \<longleftrightarrow> k < 64 * ?n \<and> bmbit bm k"
  proof (cases "k div 64 < ?n")
    case True
    then have "k < 64 * ?n" by (simp add: div_less_iff_less_mult mult.commute)
    then show ?thesis using True by (simp add: bmbit_def nth_append)
  next
    case False
    then have "?bm ! (k div 64) = 0" using kq by (auto simp: nth_append)
    moreover have "\<not> k < 64 * ?n" using False by (simp add: div_less_iff_less_mult mult.commute)
    ultimately show ?thesis by simp
  qed
  have new: "bit (push_bit (i mod 64) (of_bool v :: uint64)) (k mod 64) \<longleftrightarrow> k mod 64 = i mod 64 \<and> v"
    by (auto simp: bit_push_bit_iff bit_of_bool_iff)
  have ki: "k = i \<longleftrightarrow> k div 64 = ?q \<and> k mod 64 = i mod 64" by (metis mult_div_mod_eq)
  have "setBit bm i v ! (k div 64) = (if k div 64 = ?q then ?bm ! ?q OR push_bit (i mod 64) (of_bool v) else ?bm ! (k div 64))"
    using kq l by (simp add: setBit_def Let_def nth_list_update)
  then show "bmbit (setBit bm i v) k \<longleftrightarrow> (k < 64 * ?n \<and> bmbit bm k) \<or> (k = i \<and> v)"
    unfolding bmbit_def [of "setBit bm i v"] using old new ki by (auto simp: bit_or_iff)
qed

lemma setBit_rep:
  assumes "bits_rep bm bs" "length bs \<le> i"
  shows "bits_rep (setBit bm i v) (bs @ replicate (i - length bs) False @ [v])"
proof -
  let ?b = "setBit bm i v" and ?bs = "bs @ replicate (i - length bs) False @ [v]"
  have ln: "length ?bs = Suc i" using assms(2) by simp
  have len: "length ?b = max (length bm) (Suc (i div 64))" by (rule length_setBit)
  have i: "64 * (i div 64) \<le> i" "i < 64 * Suc (i div 64)" 
  proof -
    have "64 * (i div 64) + i mod 64 = i" "i mod 64 < 64" by simp_all
    then show "64 * (i div 64) \<le> i" "i < 64 * Suc (i div 64)" unfolding mult_Suc_right by linarith+
  qed
  have "bmbit ?b k \<longleftrightarrow> k < Suc i \<and> ?bs ! k" if k: "k < 64 * length ?b" for k
  proof -
    have s: "bmbit ?b k \<longleftrightarrow> (k < 64 * length bm \<and> bmbit bm k) \<or> (k = i \<and> v)" by (rule setBit_nth(2)) (use k in auto)
    consider "k < length bs" | "length bs \<le> k" "k < i" | "k = i" | "i < k" by linarith
    then show ?thesis
    proof cases
      case 1
      then show ?thesis using s assms by (auto simp: bits_rep_def nth_append)
    next
      case 2
      then show ?thesis using s assms by (auto simp: bits_rep_def nth_append)
    next
      case 3
      then show ?thesis using s assms by (auto simp: bits_rep_def nth_append)
    next
      case 4
      then show ?thesis using s assms by (auto simp: bits_rep_def)
    qed
  qed
  moreover have "Suc i \<le> 64 * length ?b" "64 * length ?b < Suc i + 64" unfolding len using i assms by (auto simp: bits_rep_def max_def)
  ultimately show ?thesis unfolding bits_rep_def ln by blast
qed

lemma setBit_next: "bits_rep bm bs \<Longrightarrow> i = length bs \<Longrightarrow> bits_rep (setBit bm i v) (bs @ [v])"
  using setBit_rep [of bm bs i v] by simp

lemma getBit_rep: "bits_rep bm bs \<Longrightarrow> i < length bs \<Longrightarrow> getBit bm (int i) = Some (bs ! i)"
proof -
  assume a: "bits_rep bm bs" "i < length bs"
  then have l: "i < 64 * length bm" by (simp add: bits_rep_def)
  then have "i div 64 < length bm" by (simp add: less_mult_imp_div_less mult.commute)
  moreover have "int i div 64 = int (i div 64)" "nat (int i mod 64) = i mod 64" by (simp_all add: zdiv_int nat_mod_distrib)
  moreover have "bmbit bm i = bs ! i" using a l by (simp add: bits_rep_def)
  ultimately show ?thesis by (simp add: getBit_def go_index_int bmbit_def)
qed

lemma ones_rep: "bits_rep bm bs \<Longrightarrow> i \<le> length bs \<Longrightarrow> ones bm i = length (filter id (take i bs))"
proof (induction i)
  case (Suc i)
  then have "bmbit bm i = bs ! i" by (simp add: bits_rep_def)
  then show ?case using Suc by (simp add: take_Suc_conv_app_nth)
qed simp

section \<open>Breadth-first order\<close>

definition node_bits :: "bytes list \<Rightarrow> bool list" where
  "node_bits n = replicate (length (kids n)) False @ [True]"

definition shape :: "bytes list list \<Rightarrow> bool list" where
  "shape N = concat (map node_bits N)"

definition child_labels :: "bytes list list \<Rightarrow> bytes" where
  "child_labels N = concat (map (\<lambda>n. map fst (kids n)) N)"

definition child_nodes :: "bytes list list \<Rightarrow> bytes list list" where
  "child_nodes N = concat (map (\<lambda>n. map snd (kids n)) N)"

text \<open>The number of children of the nodes before \<open>n\<close>, and where the bits of node \<open>n\<close> start.\<close>

definition before :: "bytes list list \<Rightarrow> nat \<Rightarrow> nat" where
  "before N n = length (child_nodes (take n N))"

lemma BFS_append [simp]:
  "shape (M @ N) = shape M @ shape N" "child_labels (M @ N) = child_labels M @ child_labels N"
  "child_nodes (M @ N) = child_nodes M @ child_nodes N"
  by (simp_all add: shape_def child_labels_def child_nodes_def)

lemma BFS_single [simp]:
  "shape [n] = node_bits n" "child_labels [n] = map fst (kids n)" "child_nodes [n] = map snd (kids n)"
  "shape [] = []" "child_labels [] = []" "child_nodes [] = []"
  by (simp_all add: shape_def child_labels_def child_nodes_def)

lemma length_shape: "length (shape N) = length N + length (child_nodes N)" "length (child_labels N) = length (child_nodes N)"
  "length (filter id (shape N)) = length N"
  by (induction N) (simp_all add: shape_def child_nodes_def child_labels_def node_bits_def filter_replicate)

lemma split_at: "n < length N \<Longrightarrow> N = take n N @ [N ! n] @ drop (Suc n) N"
  by (simp add: id_take_nth_drop)

lemma shape_at:
  assumes "n < length N" "j \<le> length (kids (N ! n))"
  shows "n + before N n + j < length (shape N)" "shape N ! (n + before N n + j) \<longleftrightarrow> j = length (kids (N ! n))"
    "length (filter id (take (n + before N n + j) (shape N))) = n"
proof -
  let ?M = "take n N"
  have s: "shape N = shape ?M @ node_bits (N ! n) @ shape (drop (Suc n) N)"
    by (subst split_at [OF assms(1)]) (simp only: BFS_append BFS_single append_assoc)
  have l: "length (shape ?M) = n + before N n" using assms(1) by (simp add: length_shape before_def)
  show "n + before N n + j < length (shape N)" using assms(2) l by (simp add: s node_bits_def)
  show "shape N ! (n + before N n + j) \<longleftrightarrow> j = length (kids (N ! n))"
    unfolding s l [symmetric] using assms(2) by (auto simp: nth_append node_bits_def)
  have "take (n + before N n + j) (shape N) = shape ?M @ replicate j False"
    unfolding s l [symmetric] using assms(2) by (simp add: node_bits_def)
  then show "length (filter id (take (n + before N n + j) (shape N))) = n"
    using assms(1) by (simp add: length_shape filter_replicate)
qed

lemma children_at:
  assumes "n < length N" "j < length (kids (N ! n))"
  shows "before N n + j < length (child_nodes N)" "child_labels N ! (before N n + j) = fst (kids (N ! n) ! j)"
    "child_nodes N ! (before N n + j) = snd (kids (N ! n) ! j)"
proof -
  let ?M = "take n N"
  have s: "child_nodes N = child_nodes ?M @ map snd (kids (N ! n)) @ child_nodes (drop (Suc n) N)"
    "child_labels N = child_labels ?M @ map fst (kids (N ! n)) @ child_labels (drop (Suc n) N)"
    by (subst split_at [OF assms(1)], simp only: BFS_append BFS_single append_assoc)+
  have l: "length (child_labels ?M) = before N n" "length (child_nodes ?M) = before N n" by (simp_all add: length_shape before_def)
  show "before N n + j < length (child_nodes N)" "child_labels N ! (before N n + j) = fst (kids (N ! n) ! j)"
    "child_nodes N ! (before N n + j) = snd (kids (N ! n) ! j)"
    unfolding s using assms(2) l by (auto simp: nth_append)
qed

section \<open>Stored sets\<close>

definition louds :: "bytes list list \<Rightarrow> succinctSet \<Rightarrow> bool" where
  "louds N m \<longleftrightarrow> N \<noteq> [] \<and> (\<forall>n \<in> set N. node_ok n) \<and> tl N = child_nodes N \<and> labels m = child_labels N \<and>
     bits_rep (labelBitmap m) (shape N) \<and> (ranks m, selects m) = (indexRank64 (labelBitmap m), fst (indexSelect32R64 (labelBitmap m))) \<and>
     (\<exists>ls. bits_rep (leaves m) ls \<and> length ls = length N \<and> (\<forall>k < length N. ls ! k \<longleftrightarrow> is_leaf (N ! k))) \<and>
     length (shape N) + 64 < 2 ^ 31"

lemma louds_node: "louds N m \<Longrightarrow> n < length N \<Longrightarrow> node_ok (N ! n)"
  by (simp add: louds_def)

lemma louds_leaf: "louds N m \<Longrightarrow> n < length N \<Longrightarrow> getBit (leaves m) (int n) = Some (is_leaf (N ! n))"
  using getBit_rep [of "leaves m"] by (auto simp: louds_def)

text \<open>The bit, the label and the child at the position \<open>j\<close> of node \<open>n\<close>.\<close>

lemma louds_stop:
  assumes "louds N m" "n < length N" "j \<le> length (kids (N ! n))"
  shows "getBit (labelBitmap m) (int (n + before N n + j)) = Some (j = length (kids (N ! n)))"
proof -
  have "bits_rep (labelBitmap m) (shape N)" using assms(1) by (simp add: louds_def)
  from getBit_rep [OF this shape_at(1) [OF assms(2,3)]] show ?thesis unfolding shape_at(2) [OF assms(2,3)] .
qed

lemma louds_label:
  assumes "louds N m" "n < length N" "j < length (kids (N ! n))"
  shows "go_index (labels m) (int (n + before N n + j) - int n) = Some (fst (kids (N ! n) ! j))"
proof -
  have "int (n + before N n + j) - int n = int (before N n + j)" by simp
  then show ?thesis using children_at(1,2) [OF assms(2,3)] assms(1) length_shape(2) [of N]
    by (simp only: go_index_int louds_def) simp
qed

lemma louds_child:
  assumes m: "louds N m" and n: "n < length N" and j: "j < length (kids (N ! n))"
  defines "c \<equiv> before N n + j + 1"
  shows "goto_child m (int (n + before N n + j)) = Some (int c, int (c + before N c))" "c < length N" "N ! c = snd (kids (N ! n) ! j)"
proof -
  let ?bm = "labelBitmap m"
  have rep: "bits_rep ?bm (shape N)" and rs: "ranks m = indexRank64 ?bm" "selects m = fst (indexSelect32R64 ?bm)"
    and tl: "tl N = child_nodes N" and ne: "N \<noteq> []" and sz: "length (shape N) + 64 < 2 ^ 31" using m by (simp_all add: louds_def)
  have bl: "length (shape N) \<le> 64 * length ?bm" "64 * length ?bm < length (shape N) + 64" using rep by (simp_all add: bits_rep_def)
  then have sm: "64 * length ?bm < 2 ^ 31" using sz by simp
  note ch = children_at [OF n j]
  show cl: "c < length N" using ch(1) tl ne unfolding c_def by (metis Suc_eq_plus1 length_tl less_diff_conv)
  have "tl N ! (before N n + j) = N ! Suc (before N n + j)" by (rule nth_tl) (use ch(1) tl in simp)
  then show "N ! c = snd (kids (N ! n) ! j)" using ch(3) tl by (simp add: c_def)
  let ?i = "n + before N n + (j + 1)"
  have s1: "?i < length (shape N)" "ones ?bm ?i = n"
    using shape_at(1,3) [OF n, of "j + 1"] j ones_rep [OF rep, of ?i] by simp_all
  have "countZeros ?bm (ranks m) (int ?i) = Some (int (?i - n))"
    using countZeros_zeros [OF sm, of ?i] s1 bl by (simp add: rs)
  moreover have "int (n + before N n + j) + 1 = int ?i" "?i - n = c" by (simp_all add: c_def)
  ultimately have z: "countZeros ?bm (ranks m) (int (n + before N n + j) + 1) = Some (int c)" by (simp only:)
  define d where "d = before N n + j"
  have dl: "d < length N" using cl by (simp add: c_def d_def)
  let ?k = "length (kids (N ! d))" and ?a = "d + before N d + length (kids (N ! d))"
  have bc: "before N c = before N d + ?k" using dl cl by (simp add: before_def c_def d_def take_Suc_conv_app_nth)
  have a: "?a < 64 * length ?bm" "bmbit ?bm ?a" "ones ?bm ?a = d"
    using shape_at [OF dl order.refl] bl rep ones_rep [OF rep, of ?a] by (auto simp: bits_rep_def)
  have "selectIthOne ?bm (ranks m) (selects m) (int d) = Some (int ?a)"
    using selectIthOne_position [OF sm a] by (simp add: rs indexSelect32R64_def)
  moreover have "int c - 1 = int d" "int ?a + 1 = int (c + before N c)" using bc by (simp_all add: c_def d_def)
  ultimately show "goto_child m (int (n + before N n + j)) = Some (int c, int (c + before N c))"
    using z by (simp add: goto_child_def)
qed

end
