(* ===== verification/SuccinctBuild.thy ===== *)
theory SuccinctBuild
  imports SuccinctLouds
begin

text \<open>
  \<open>newSuccinctSet\<close> stores the trie of a sorted list of distinct keys, and \<open>keys\<close> lists them again.
\<close>

section \<open>Ranges of keys as nodes\<close>

fun view :: "bytes list \<Rightarrow> nat \<times> nat \<times> nat \<Rightarrow> bytes list" where
  "view keys (s, e, col) = map (drop col) (take (e - s) (drop s keys))"

fun range_ok :: "bytes list \<Rightarrow> nat \<times> nat \<times> nat \<Rightarrow> bool" where
  "range_ok keys (s, e, col) \<longleftrightarrow> s < e \<and> e \<le> length keys \<and> (\<forall>j. s \<le> j \<longrightarrow> j < e \<longrightarrow> col \<le> length (keys ! j))"

lemma view_Cons: "j < e \<Longrightarrow> e \<le> length keys \<Longrightarrow> view keys (j, e, col) = drop col (keys ! j) # view keys (Suc j, e, col)"
  by (simp add: Suc_diff_Suc [symmetric] Cons_nth_drop_Suc [symmetric] take_Cons')

lemma view_empty [simp]: "e \<le> j \<Longrightarrow> view keys (j, e, col) = []"
  by simp

lemma view_take: "j \<le> j' \<Longrightarrow> j' \<le> e \<Longrightarrow> view keys (j, j', col) = take (j' - j) (view keys (j, e, col))"
  by (simp add: take_map min_absorb1)

lemma view_drop: "j \<le> j' \<Longrightarrow> j' \<le> e \<Longrightarrow> view keys (j', e, col) = drop (j' - j) (view keys (j, e, col))"
  by (simp add: drop_map drop_take)

lemma view_tl: "view keys (j, e, Suc col) = map tl (view keys (j, e, col))"
  by (simp add: tl_drop drop_Suc flip: drop_tl)

lemma char_at_view:
  "j < length keys \<Longrightarrow> col < length (keys ! j) \<Longrightarrow> char_at keys j col = Some (hd (drop col (keys ! j)))"
  by (simp add: char_at_def go_index_int hd_drop_conv_nth)

lemma run_end_view:
  "j \<le> e \<Longrightarrow> e \<le> length keys \<Longrightarrow> \<forall>k. j \<le> k \<longrightarrow> k < e \<longrightarrow> col < length (keys ! k) \<Longrightarrow>
   run_end keys e col c j = Some (j + length (takeWhile (\<lambda>x. hd x = c) (view keys (j, e, col))))"
proof (induction "e - j" arbitrary: j)
  case 0
  then show ?case by (subst run_end.simps) simp
next
  case (Suc n)
  then have lt: "j < e" by simp
  have IH: "run_end keys e col c (Suc j) = Some (Suc j + length (takeWhile (\<lambda>x. hd x = c) (view keys (Suc j, e, col))))"
    by (rule Suc(1)) (use Suc lt in auto)
  have "char_at keys j col = Some (hd (drop col (keys ! j)))" by (rule char_at_view) (use Suc lt in auto)
  then show ?case using IH lt unfolding view_Cons [OF lt Suc(4)] by (subst run_end.simps) simp
qed

lemma add_children_view:
  "j \<le> e \<Longrightarrow> e \<le> length keys \<Longrightarrow> \<forall>k. j \<le> k \<longrightarrow> k < e \<longrightarrow> col < length (keys ! k) \<Longrightarrow>
   bits_rep (b_bitmap b) bs \<Longrightarrow> lIdx b = length bs \<Longrightarrow>
   \<exists>b' qs. add_children keys e col j b = Some b' \<and> queue b' = queue b @ qs \<and> map (view keys) qs = map snd (groups (view keys (j, e, col))) \<and>
     list_all (range_ok keys) qs \<and> b_labels b' = b_labels b @ map fst (groups (view keys (j, e, col))) \<and>
     bits_rep (b_bitmap b') (bs @ replicate (length qs) False) \<and> lIdx b' = length bs + length qs \<and> b_leaves b' = b_leaves b"
proof (induction "e - j" arbitrary: j b bs rule: less_induct)
  case less
  show ?case
  proof (cases "j < e")
    case False
    then show ?thesis using less.prems by (subst add_children.simps) auto
  next
    case True
    let ?x = "drop col (keys ! j)"
    let ?c = "hd ?x" and ?xs = "view keys (Suc j, e, col)"
    let ?n = "length (takeWhile (\<lambda>x. hd x = ?c) ?xs)"
    let ?j = "Suc j + ?n"
    have c: "char_at keys j col = Some ?c" by (rule char_at_view) (use less.prems True in auto)
    have r: "run_end keys e col ?c (Suc j) = Some ?j" by (rule run_end_view) (use less.prems True in auto)
    have "?n \<le> length ?xs" by (rule length_takeWhile_le)
    moreover have "length ?xs = e - Suc j" using less.prems by (simp add: min_absorb2)
    ultimately have je: "?j \<le> e" using True by linarith
    let ?b = "add_child j ?j col ?c b"
    have b1: "bits_rep (b_bitmap ?b) (bs @ [False])" using setBit_next [OF less.prems(4,5)] by (simp add: add_child_def)
    have b2: "lIdx ?b = length (bs @ [False])" using less.prems(5) by (simp add: add_child_def)
    have smaller: "e - ?j < e - j" using True by simp
    have later: "\<forall>k. ?j \<le> k \<longrightarrow> k < e \<longrightarrow> col < length (keys ! k)" using less.prems(3) by simp
    obtain b' qs where IH: "add_children keys e col ?j ?b = Some b'" "queue b' = queue ?b @ qs"
      "map (view keys) qs = map snd (groups (view keys (?j, e, col)))" "list_all (range_ok keys) qs"
      "b_labels b' = b_labels ?b @ map fst (groups (view keys (?j, e, col)))"
      "bits_rep (b_bitmap b') ((bs @ [False]) @ replicate (length qs) False)" "lIdx b' = length (bs @ [False]) + length qs" "b_leaves b' = b_leaves ?b"
      using less.hyps [OF smaller je less.prems(2) later b1 b2] by blast
    have v: "view keys (j, e, col) = ?x # ?xs" using view_Cons [OF True less.prems(2)] .
    have d: "view keys (?j, e, col) = dropWhile (\<lambda>x. hd x = ?c) ?xs"
      using view_drop [of "Suc j" ?j e keys col] je by (simp only: dropWhile_eq_drop) simp
    have t: "view keys (j, ?j, Suc col) = tl ?x # map tl (takeWhile (\<lambda>x. hd x = ?c) ?xs)"
    proof -
      have "view keys (j, ?j, col) = take (Suc ?n) (?x # ?xs)" using view_take [of j ?j e keys col] je v by simp
      also have "\<dots> = ?x # takeWhile (\<lambda>x. hd x = ?c) ?xs" by (simp only: take_Suc_Cons takeWhile_eq_take [symmetric])
      finally show ?thesis unfolding view_tl by simp
    qed
    have g: "groups (view keys (j, e, col)) = (?c, view keys (j, ?j, Suc col)) # groups (view keys (?j, e, col))"
      unfolding v groups.simps t d ..
    have ok: "range_ok keys (j, ?j, Suc col)" using less.prems je by auto
    have "add_children keys e col j b = Some b'" using True c r IH(1) by (subst add_children.simps) simp
    moreover have "queue b' = queue b @ (j, ?j, Suc col) # qs" "b_labels b' = b_labels b @ ?c # map fst (groups (view keys (?j, e, col)))"
      "b_leaves b' = b_leaves b" using IH(2,5,8) by (simp_all add: add_child_def)
    ultimately show ?thesis unfolding g using IH(3,4,6,7) ok
      by (intro exI [of _ b'] exI [of _ "(j, ?j, Suc col) # qs"]) (simp del: view.simps)
  qed
qed


section \<open>The loop over the queue\<close>

definition build_inv :: "bytes list \<Rightarrow> nat \<Rightarrow> builder \<Rightarrow> bytes list list \<Rightarrow> bool" where
  "build_inv keys i b N \<longleftrightarrow> N = map (view keys) (queue b) \<and> list_all (range_ok keys) (queue b) \<and> N \<noteq> [] \<and> hd N = keys \<and> i \<le> length N \<and>
     tl N = child_nodes (take i N) \<and> b_labels b = child_labels (take i N) \<and> bits_rep (b_bitmap b) (shape (take i N)) \<and>
     lIdx b = length (shape (take i N)) \<and> list_all node_ok N \<and> (\<forall>n < i. n \<le> before N n) \<and>
     (\<exists>ls. bits_rep (b_leaves b) ls \<and> length ls \<le> i \<and> (\<forall>k < i. (k < length ls \<and> ls ! k) \<longleftrightarrow> is_leaf (N ! k)))"

lemma build_invD:
  assumes "build_inv keys i b N"
  shows "N = map (view keys) (queue b)" "list_all (range_ok keys) (queue b)" "N \<noteq> []" "hd N = keys" "i \<le> length N"
    "tl N = child_nodes (take i N)" "b_labels b = child_labels (take i N)" "bits_rep (b_bitmap b) (shape (take i N))"
    "lIdx b = length (shape (take i N))" "list_all node_ok N" "\<forall>n < i. n \<le> before N n"
    "\<exists>ls. bits_rep (b_leaves b) ls \<and> length ls \<le> i \<and> (\<forall>k < i. (k < length ls \<and> ls ! k) \<longleftrightarrow> is_leaf (N ! k))"
  using assms unfolding build_inv_def by blast+

definition pending :: "nat \<Rightarrow> bytes list list \<Rightarrow> nat" where
  "pending i N = sum_list (map weight (drop i N))"

lemma leaves_step:
  assumes "bits_rep lv ls" "length ls \<le> i" "\<forall>k < i. (k < length ls \<and> ls ! k) \<longleftrightarrow> P k"
  shows "\<exists>ls'. bits_rep (if P i then setBit lv i True else lv) ls' \<and> length ls' \<le> Suc i \<and> (\<forall>k < Suc i. (k < length ls' \<and> ls' ! k) \<longleftrightarrow> P k)"
proof (cases "P i")
  case True
  let ?l = "ls @ replicate (i - length ls) False @ [True]"
  have "(k < length ?l \<and> ?l ! k) \<longleftrightarrow> P k" if k: "k < Suc i" for k
  proof (cases "k = i")
    case True
    then show ?thesis using \<open>P i\<close> assms(2) by (simp add: nth_append)
  next
    case False
    then have "k < i" using k by simp
    moreover from this have "(k < length ls \<and> ls ! k) \<longleftrightarrow> P k" using assms(3) by blast
    ultimately show ?thesis by (cases "k < length ls") (simp_all add: nth_append)
  qed
  then show ?thesis using setBit_rep [OF assms(1,2)] True assms(2) by (intro exI [of _ ?l]) simp
next
  case False
  then show ?thesis using assms by (intro exI [of _ ls]) (auto simp: less_Suc_eq)
qed

lemma build_step:
  assumes inv: "build_inv keys i b N" and lt: "i < length (queue b)"
  obtains b' where "build_loop keys i b = build_loop keys (Suc i) b'" "build_inv keys (Suc i) b' (N @ map snd (kids (N ! i)))"
proof -
  obtain s e col where q: "queue b ! i = (s, e, col)" by (metis prod_cases3)
  note I = build_invD [OF inv]
  have N: "N = map (view keys) (queue b)" by (rule I(1))
  then have il: "i < length N" using lt by simp
  let ?n = "N ! i"
  have n: "?n = view keys (s, e, col)" using N lt q by simp
  have rg: "range_ok keys (s, e, col)" using I(2) lt q by (metis list_all_length)
  then have se: "s < e" "e \<le> length keys" by simp_all
  have ok: "node_ok ?n" using I(10) il by (simp add: list_all_length)
  have hd_n: "hd ?n = drop col (keys ! s)" using n view_Cons [OF se, of col] by simp
  have leaf: "col = length (keys ! s) \<longleftrightarrow> is_leaf ?n" using is_leaf_hd [OF ok] hd_n rg by (auto simp: drop_eq_Nil)
  let ?s = "if is_leaf ?n then Suc s else s"
  have st: "view keys (?s, e, col) = strip ?n"
    using view_Cons [OF se, of col] n is_leaf_hd [OF ok] hd_n by (auto simp: strip_def simp del: view.simps)
  have deeper: "\<forall>k. ?s \<le> k \<longrightarrow> k < e \<longrightarrow> col < length (keys ! k)"
  proof (intro allI impI)
    fix k assume k: "?s \<le> k" "k < e"
    then have "s \<le> k" by (auto split: if_splits)
    have "drop col (keys ! k) \<in> set (view keys (?s, e, col))"
    proof -
      have "k - ?s < length (take (e - ?s) (drop ?s keys))" "take (e - ?s) (drop ?s keys) ! (k - ?s) = keys ! k" using k se by auto
      then have "keys ! k \<in> set (take (e - ?s) (drop ?s keys))" by (metis nth_mem)
      then show ?thesis by simp
    qed
    then have "drop col (keys ! k) \<noteq> []" unfolding st using strip_nonempty [OF ok] by metis
    then show "col < length (keys ! k)" by simp
  qed
  obtain ls where ls: "bits_rep (b_leaves b) ls" "length ls \<le> i" "\<forall>k < i. (k < length ls \<and> ls ! k) \<longleftrightarrow> is_leaf (N ! k)"
    using I(12) by blast
  let ?b = "if is_leaf ?n then b\<lparr>b_leaves := setBit (b_leaves b) i True\<rparr> else b"
  have bm: "bits_rep (b_bitmap ?b) (shape (take i N))" "lIdx ?b = length (shape (take i N))" using I(8,9) by simp_all
  have jle: "?s \<le> e" using se by simp
  obtain b1 qs where b1: "add_children keys e col ?s ?b = Some b1" "queue b1 = queue ?b @ qs" "map (view keys) qs = map snd (groups (view keys (?s, e, col)))"
    "list_all (range_ok keys) qs" "b_labels b1 = b_labels ?b @ map fst (groups (view keys (?s, e, col)))"
    "bits_rep (b_bitmap b1) (shape (take i N) @ replicate (length qs) False)" "lIdx b1 = length (shape (take i N)) + length qs" "b_leaves b1 = b_leaves ?b"
    using add_children_view [OF jle se(2) deeper bm] by blast
  have k: "groups (view keys (?s, e, col)) = kids ?n" unfolding st kids_def ..
  have qk: "map (view keys) qs = map snd (kids ?n)" "length qs = length (kids ?n)" using b1(3) k by (auto dest: arg_cong [of _ _ length])
  let ?b2 = "b1\<lparr>b_bitmap := setBit (b_bitmap b1) (lIdx b1) True, lIdx := Suc (lIdx b1)\<rparr>"
  let ?N = "N @ map snd (kids ?n)"
  have run: "build_loop keys i b = build_loop keys (Suc i) ?b2"
    using lt q se leaf b1(1) by (subst build_loop.simps) (auto simp: go_index_int)
  have tk: "take (Suc i) ?N = take i N @ [?n]" "take i ?N = take i N" using il by (simp_all add: take_Suc_conv_app_nth)
  have bits: "bits_rep (b_bitmap ?b2) (shape (take (Suc i) ?N))" "lIdx ?b2 = length (shape (take (Suc i) ?N))"
    using setBit_next [OF b1(6), of "lIdx b1" True] b1(7) qk(2) unfolding tk by (simp_all add: node_bits_def)
  have len: "length N = Suc (before N i)" using arg_cong [OF I(6), of length] I(3) by (cases N) (simp_all add: before_def)
  have bf: "before ?N n = before N n" if "n \<le> i" for n using that il by (simp add: before_def)
  have order: "\<forall>n < Suc i. n \<le> before ?N n"
  proof (intro allI impI)
    fix n assume "n < Suc i"
    then have n: "n \<le> i" by simp
    show "n \<le> before ?N n" unfolding bf [OF n] using n I(11) il len by (cases "n = i") auto
  qed
  have kid_ok: "list_all node_ok (map snd (kids ?n))" using kids_facts(1) [OF ok] by (auto simp: list_all_iff)
  have "\<exists>ls'. bits_rep (b_leaves ?b2) ls' \<and> length ls' \<le> Suc i \<and> (\<forall>k < Suc i. (k < length ls' \<and> ls' ! k) \<longleftrightarrow> is_leaf (?N ! k))"
    using leaves_step [OF ls] b1(8) il by (auto simp: nth_append less_Suc_eq)
  moreover have "?N = map (view keys) (queue ?b2)" using b1(2) qk(1) N by simp
  moreover have "list_all (range_ok keys) (queue ?b2)" using b1(2,4) I(2) by simp
  moreover have "tl ?N = child_nodes (take (Suc i) ?N)" unfolding tk using I(3,6) by simp
  moreover have "b_labels ?b2 = child_labels (take (Suc i) ?N)" unfolding tk using I(7) b1(5) k by simp
  moreover have "?N \<noteq> []" "hd ?N = keys" "Suc i \<le> length ?N" "list_all node_ok ?N" using I(3,4,10) il kid_ok by simp_all
  ultimately have "build_inv keys (Suc i) ?b2 ?N" unfolding build_inv_def using bits order by blast
  with run that show ?thesis by blast
qed

lemma pending_step:
  assumes "i < length N" "node_ok (N ! i)"
  shows "pending (Suc i) (N @ map snd (kids (N ! i))) < pending i N"
proof -
  have "drop i N = N ! i # drop (Suc i) N" using assms(1) by (simp add: Cons_nth_drop_Suc)
  then have "pending i N = weight (N ! i) + pending (Suc i) N" by (simp add: pending_def)
  moreover have "pending (Suc i) (N @ map snd (kids (N ! i))) = pending (Suc i) N + sum_list (map (\<lambda>g. weight (snd g)) (kids (N ! i)))"
    using assms(1) by (simp add: pending_def o_def)
  ultimately show ?thesis using kids_weight [OF assms(2)] by simp
qed

lemma build_loop_total:
  "build_inv keys i b N \<Longrightarrow> \<exists>b' N'. build_loop keys i b = Some b' \<and> build_inv keys (length N') b' N' \<and> length N' \<le> i + pending i N"
proof (induction "pending i N" arbitrary: i b N rule: less_induct)
  case less
  show ?case
  proof (cases "i < length (queue b)")
    case False
    then have "i = length N" using build_invD(1,5) [OF less.prems] by simp
    moreover have "build_loop keys i b = Some b" using False by (subst build_loop.simps) simp
    ultimately show ?thesis using less.prems by auto
  next
    case True
    obtain b' where b': "build_loop keys i b = build_loop keys (Suc i) b'" "build_inv keys (Suc i) b' (N @ map snd (kids (N ! i)))"
      by (rule build_step [OF less.prems True])
    have il: "i < length N" "node_ok (N ! i)" using build_invD(1,10) [OF less.prems] True by (auto simp: list_all_length)
    note p = pending_step [OF il]
    from less.hyps [OF p b'(2)] show ?thesis unfolding b'(1) using p by fastforce
  qed
qed

lemma last_leaf:
  assumes inv: "build_inv keys (length N) b N"
  shows "is_leaf (N ! (length N - 1))"
proof -
  let ?n = "length N - 1"
  have ne: "N \<noteq> []" and tl: "tl N = child_nodes N" and ord: "\<forall>n < length N. n \<le> before N n" using build_invD(3,6,11) [OF inv] by simp_all
  have nl: "?n < length N" using ne by simp
  have ok: "node_ok (N ! ?n)" using build_invD(10) [OF inv] nl by (simp add: list_all_length)
  have "kids (N ! ?n) = []"
  proof (rule ccontr)
    assume "kids (N ! ?n) \<noteq> []"
    then have "before N ?n < length (child_nodes N)" using children_at(1) [OF nl, of 0] by simp
    then show False using ord nl tl by (metis length_tl not_less)
  qed
  then have "\<nexists>c w. c # w \<in> set (N ! ?n)" using kids_facts(3) [OF ok] by auto
  moreover obtain x where "x \<in> set (N ! ?n)" using ok by (auto simp: node_ok_def intro: hd_in_set)
  ultimately show ?thesis by (cases x) (auto simp: is_leaf_def)
qed

lemma newSuccinctSet_louds:
  assumes keys: "keys \<noteq> []" "sorted_wrt (<) keys" and size: "2 * weight keys + 64 \<le> 2 ^ 31"
  obtains N m where "newSuccinctSet keys = Some m" "louds N m" "N ! 0 = keys"
proof -
  let ?b = "\<lparr>queue = [(0, length keys, 0)], lIdx = 0, b_leaves = [], b_bitmap = [], b_labels = []\<rparr>"
  have "build_inv keys 0 ?b [keys]" using keys by (auto simp: build_inv_def node_ok_def)
  from build_loop_total [OF this] obtain b N where b: "build_loop keys 0 ?b = Some b" "build_inv keys (length N) b N" "length N \<le> weight keys"
    by (auto simp: pending_def)
  let ?m = "succinct_init (b_leaves b) (b_bitmap b) (b_labels b)"
  have run: "newSuccinctSet keys = Some ?m" using b(1) by (simp add: newSuccinctSet_def)
  obtain ls where ls: "bits_rep (b_leaves b) ls" "length ls \<le> length N" "\<forall>k < length N. (k < length ls \<and> ls ! k) \<longleftrightarrow> is_leaf (N ! k)"
    using build_invD(12) [OF b(2)] by blast
  note I = build_invD [OF b(2)]
  have ne: "N \<noteq> []" and tl: "tl N = child_nodes N" using I(3,6) by simp_all
  have "length N - 1 < length ls" using ls(3) [rule_format, of "length N - 1"] last_leaf [OF b(2)] ne by simp
  then have "length ls = length N" using ls(2) by simp
  moreover have "length (shape N) = length N + (length N - 1)" unfolding length_shape(1) using tl by (metis length_tl)
  then have "length (shape N) + 64 < 2 ^ 31" using b(3) size ne by (cases N) auto
  ultimately have "louds N ?m"
    unfolding louds_def using I(7-10) ne tl ls by (auto simp: succinct_init_def indexSelect32R64_def list_all_iff)
  moreover have "N ! 0 = keys" using I(3,4) by (simp add: hd_conv_nth)
  ultimately show ?thesis using that run by blast
qed

end
