(* ===== verification/SuccinctKeys.thy ===== *)
theory SuccinctKeys
  imports SuccinctBuild
begin

text \<open>
  \<open>keys\<close> lists the strings of a stored set in order, which makes it the inverse of \<open>newSuccinctSet\<close>.
\<close>

section \<open>Nodes and their children\<close>

fun with_label :: "byte \<times> bytes list \<Rightarrow> bytes list" where
  "with_label (c, ys) = map (Cons c) ys"

lemma groups_concat: "[] \<notin> set xs \<Longrightarrow> concat (map with_label (groups xs)) = xs"
proof (induction xs rule: groups.induct)
  case (2 x xs)
  let ?P = "\<lambda>y. hd y = hd x"
  have "[] \<notin> set (dropWhile ?P xs)" using 2(2) set_dropWhileD [of _ ?P xs] by auto
  note IH = 2(1) [OF this]
  have "map (Cons (hd x)) (map tl (takeWhile ?P ys)) = takeWhile ?P ys" if "[] \<notin> set ys" for ys
    using that by (induction ys) (auto, metis list.collapse)
  then show ?case using IH 2(2) by (cases x) simp_all
qed simp

lemma kids_concat: "node_ok xs \<Longrightarrow> (if is_leaf xs then [[]] else []) @ concat (map with_label (kids xs)) = xs"
  using groups_concat strip_nonempty [of xs] is_leaf_hd [of xs] by (cases xs) (auto simp: kids_def strip_def node_ok_def)

lemma kid_weight: "node_ok xs \<Longrightarrow> j < length (kids xs) \<Longrightarrow> weight (snd (kids xs ! j)) < weight xs"
  using kids_weight [of xs] member_le_sum_list [of "weight (snd (kids xs ! j))" "map (\<lambda>g. weight (snd g)) (kids xs)"]
  by (fastforce simp: in_set_conv_nth)

section \<open>The traversal\<close>

lemma traverse_from:
  "louds N m \<Longrightarrow> n < length N \<Longrightarrow> j \<le> length (kids (N ! n)) \<Longrightarrow>
   traverse m (int n) (int (n + before N n + j)) cur = Some (map ((@) cur) (concat (map with_label (drop j (kids (N ! n))))))"
proof (induction "weight (N ! n)" arbitrary: n j cur rule: less_induct)
  case less
  note m = less.prems(1) and n = less.prems(2)
  let ?K = "kids (N ! n)"
  show ?case using less.prems(3)
  proof (induction "length ?K - j" arbitrary: j)
    case 0
    then have j: "j = length ?K" by simp
    then show ?case using louds_stop [OF m n order_refl] by (subst traverse.simps) simp
  next
    case (Suc d)
    then have j: "j < length ?K" by simp
    let ?c = "before N n + j + 1"
    obtain b ys where k: "?K ! j = (b, ys)" by fastforce
    note ch = louds_child [OF m n j] and ok = louds_node [OF m n]
    have nc: "N ! ?c = ys" using ch(3) k by simp
    have okc: "node_ok ys" using louds_node [OF m ch(2)] nc by simp
    have "weight (N ! ?c) < weight (N ! n)" using kid_weight [OF ok j] nc k by simp
    from less.hyps [OF this m ch(2), of 0 "cur @ [b]"]
    have below: "traverse m (int ?c) (int (?c + before N ?c)) (cur @ [b]) =
      Some (map ((@) (cur @ [b])) (concat (map with_label (kids ys))))" unfolding nc drop_0 add_0_right by blast
    have rest: "traverse m (int n) (int (n + before N n + Suc j)) cur = Some (map ((@) cur) (concat (map with_label (drop (Suc j) ?K))))"
      by (rule Suc(1)) (use Suc j in auto)
    have all: "(if is_leaf ys then [cur @ [b]] else []) @ map ((@) (cur @ [b])) (concat (map with_label (kids ys))) = map (\<lambda>y. cur @ b # y) ys"
      using arg_cong [OF kids_concat [OF okc], of "map ((@) (cur @ [b]))"] by (cases "is_leaf ys") simp_all
    have d: "drop j ?K = (b, ys) # drop (Suc j) ?K" using Cons_nth_drop_Suc [OF j] k by simp
    have idx: "int (n + before N n + j) + 1 = int (n + before N n + Suc j)" by simp
    have "traverse m (int n) (int (n + before N n + j)) cur =
      Some (map (\<lambda>y. cur @ b # y) ys @ map ((@) cur) (concat (map with_label (drop (Suc j) ?K))))"
      unfolding all [symmetric] using louds_stop [OF m n, of j] louds_label [OF m n j] ch(1) louds_leaf [OF m ch(2)] j k nc below rest [folded idx]
      by (subst traverse.simps) simp
    then show ?case unfolding d by simp
  qed
qed

lemma succinct_keys_louds:
  assumes m: "louds N m"
  shows "succinct_keys m = Some (N ! 0)"
proof -
  have n: "0 < length N" using m by (auto simp: louds_def)
  have b: "before N 0 = 0" by (simp add: before_def child_nodes_def)
  have "map ((@) []) xs = xs" for xs :: "bytes list" by (simp add: map_idI)
  then show ?thesis
    using traverse_from [OF m n, of 0 "[]"] louds_leaf [OF m n] kids_concat [OF louds_node [OF m n]]
    by (simp add: succinct_keys_def b)
qed

text \<open>
  C26. A set holds exactly the strings it was built from. For every non-empty strictly sorted list of
  keys whose trie has fewer than \<open>2 ^ 30\<close> nodes, \<open>newSuccinctSet\<close> returns a set, and \<open>keys\<close> of that
  set is the list of keys. Both go through the bitmaps with rank and select, and neither indexes out
  of range.
\<close>

theorem newSuccinctSet_keys:
  assumes "keys \<noteq> []" "sorted_wrt (<) keys" "2 * weight keys + 64 \<le> 2 ^ 31"
  shows "newSuccinctSet keys \<bind> succinct_keys = Some keys"
  using newSuccinctSet_louds [OF assms] succinct_keys_louds by (metis Option.bind_lunit)

theorem newSuccinctSet_keys_witness:
  "newSuccinctSet [[1], [1, 2], [3]] \<bind> succinct_keys = Some [[1], [1, 2], [3]]"
  by (rule newSuccinctSet_keys) (simp_all add: weight_def)

end
