(* ===== verification/MatcherLaws.thy ===== *)
theory MatcherLaws
  imports Matcher SuccinctKeys "HOL-Library.Sublist"
begin

text \<open>
  What a matcher decides. \<open>reverseDomain\<close> reverses the runes of a valid string; \<open>has\<close> decides \<open>ahas\<close>
  on the set of keys; \<open>NewMatcher\<close> builds the keys of its domains and suffixes.
\<close>

section \<open>Reversal\<close>

lemma blit_last: "length z = a + length y \<Longrightarrow> blit (z @ x) a y = take a z @ y @ x"
  by (simp add: blit_def)

lemma reverse_loop_utf8:
  "valid_runes ts \<Longrightarrow> length z = length (utf8 ts) \<Longrightarrow>
   reverse_loop (utf8 (ds @ ts)) (length (utf8 ds)) (z @ utf8 (rev ds)) = Some (utf8 (rev ts) @ utf8 (rev ds))"
proof (induction ts arbitrary: ds z)
  case Nil
  then show ?case by (subst reverse_loop.simps) simp
next
  case (Cons r ts)
  let ?z = "take (length (utf8 ts)) z"
  have "0 < length (encode_rune r)" by simp
  then have lt: "length (utf8 ds) < length (utf8 (ds @ r # ts))" by simp
  have dec: "DecodeRune (drop (length (utf8 ds)) (utf8 (ds @ r # ts))) = (r, length (encode_rune r))"
    using Cons.prems by (simp add: decode_encode)
  have enc: "encode_at (z @ utf8 (rev ds)) (length (utf8 (ds @ r # ts)) - (length (utf8 ds) + length (encode_rune r))) r
      = Some (?z @ utf8 (rev (ds @ [r])))"
    using Cons.prems(2) by (simp add: encode_at_def blit_last)
  have "reverse_loop (utf8 ((ds @ [r]) @ ts)) (length (utf8 (ds @ [r]))) (?z @ utf8 (rev (ds @ [r]))) =
      Some (utf8 (rev ts) @ utf8 (rev (ds @ [r])))"
    by (rule Cons.IH) (use Cons.prems in simp_all)
  then show ?case using lt dec enc by (subst reverse_loop.simps) simp
qed

lemma reverseDomain_utf8: "valid_runes rs \<Longrightarrow> reverseDomain (utf8 rs) = Some (utf8 (rev rs))"
  using reverse_loop_utf8 [of rs "replicate (length (utf8 rs)) 0" "[]"] by (simp add: reverseDomain_def)

section \<open>The search\<close>

fun scan_kids :: "byte \<Rightarrow> int \<Rightarrow> (byte \<times> bytes list) list \<Rightarrow> scan" where
  "scan_kids c i [] = Result False"
| "scan_kids c i ((l, ys) # ks) =
     (if l = prefixLabel \<or> (l = rootLabel \<and> c = 46 \<and> is_leaf ys) then Result True
      else if l = c then Label i else scan_kids c (i + 1) ks)"

lemma goto_child_zeros: "goto_child m i = Some (a, b) \<Longrightarrow> countZeros (labelBitmap m) (ranks m) (i + 1) = Some a"
  by (auto simp: goto_child_def split: bind_splits)

lemma find_label_kids:
  assumes m: "louds N m" and n: "n < length N"
  shows "j \<le> length (kids (N ! n)) \<Longrightarrow>
    find_label m (int n) c (int (n + before N n + j)) = Some (scan_kids c (int (n + before N n + j)) (drop j (kids (N ! n))))"
proof (induction "length (kids (N ! n)) - j" arbitrary: j)
  case 0
  then have "j = length (kids (N ! n))" by simp
  then show ?case using louds_stop [OF m n order_refl] by (subst find_label.simps) simp
next
  case (Suc d)
  then have j: "j < length (kids (N ! n))" by simp
  obtain l ys where k: "kids (N ! n) ! j = (l, ys)" by fastforce
  note ch = louds_child [OF m n j]
  have idx: "int (n + before N n + j) + 1 = int (n + before N n + Suc j)" by simp
  have IH: "find_label m (int n) c (int (n + before N n + j) + 1) =
      Some (scan_kids c (int (n + before N n + j) + 1) (drop (Suc j) (kids (N ! n))))"
    unfolding idx by (rule Suc(1)) (use Suc j in auto)
  have d: "drop j (kids (N ! n)) = (l, ys) # drop (Suc j) (kids (N ! n))" using Cons_nth_drop_Suc [OF j] k by simp
  have lf: "getBit (leaves m) (int (before N n + j + 1)) = Some (is_leaf ys)" using louds_leaf [OF m ch(2)] ch(3) k by simp
  show ?case unfolding d
    using louds_stop [OF m n, of j] louds_label [OF m n j] goto_child_zeros [OF ch(1)] lf j k IH
    by (subst find_label.simps) (auto simp: prefixLabel_def rootLabel_def)
qed

lemma scan_kids_sorted:
  "sorted_wrt (<) (map fst ks) \<Longrightarrow> 13 < c \<Longrightarrow>
   scan_kids c i ks =
     (if 13 \<in> fst ` set ks \<or> (c = 46 \<and> (\<exists>ys. (10, ys) \<in> set ks \<and> is_leaf ys)) then Result True
      else if c \<in> fst ` set ks then Label (i + int (length (takeWhile (\<lambda>k. fst k \<noteq> c) ks))) else Result False)"
proof (induction ks arbitrary: i)
  case (Cons k ks)
  obtain l ys where k: "k = (l, ys)" by fastforce
  have gt: "l < l'" if "(l', zs) \<in> set ks" for l' zs using Cons.prems(1) k that by force
  have IH: "scan_kids c (i + 1) ks =
     (if 13 \<in> fst ` set ks \<or> (c = 46 \<and> (\<exists>ys. (10, ys) \<in> set ks \<and> is_leaf ys)) then Result True
      else if c \<in> fst ` set ks then Label (i + 1 + int (length (takeWhile (\<lambda>k. fst k \<noteq> c) ks))) else Result False)"
    by (rule Cons.IH) (use Cons.prems in auto)
  consider "l = 13" | "l = 10" | "l = c" "l \<noteq> 13" "l \<noteq> 10" | "l \<noteq> c" "l \<noteq> 13" "l \<noteq> 10" by blast
  then show ?case
  proof cases
    case 1
    then show ?thesis by (simp add: k prefixLabel_def)
  next
    case 2
    have "(10, zs) \<notin> set ks" for zs using gt [of 10 zs] 2 by auto
    then show ?thesis using 2 IH Cons.prems(2) by (auto simp: k prefixLabel_def rootLabel_def)
  next
    case 3
    have "(b, zs) \<notin> set ks" if "b \<le> 13" for b zs
    proof
      assume "(b, zs) \<in> set ks"
      then have "c < b" using gt 3(1) by blast
      then show False using Cons.prems(2) that by simp
    qed
    from this [of 13] this [of 10] have "13 \<notin> fst ` set ks" "(10, zs) \<notin> set ks" for zs by auto
    then show ?thesis using 3 by (auto simp: k prefixLabel_def rootLabel_def)
  next
    case 4
    then show ?thesis using IH by (auto simp: k prefixLabel_def rootLabel_def)
  qed
qed simp

lemma end_labels_kids:
  assumes m: "louds N m" and n: "n < length N"
  shows "j \<le> length (kids (N ! n)) \<Longrightarrow>
    end_labels m (int n) (int (n + before N n + j)) = Some (\<exists>k \<in> set (drop j (kids (N ! n))). fst k = 13 \<or> fst k = 10)"
proof (induction "length (kids (N ! n)) - j" arbitrary: j)
  case 0
  then have "j = length (kids (N ! n))" by simp
  then show ?case using louds_stop [OF m n order_refl] by (subst end_labels.simps) simp
next
  case (Suc d)
  then have j: "j < length (kids (N ! n))" by simp
  have idx: "int (n + before N n + j) + 1 = int (n + before N n + Suc j)" by simp
  have IH: "end_labels m (int n) (int (n + before N n + j) + 1) = Some (\<exists>k \<in> set (drop (Suc j) (kids (N ! n))). fst k = 13 \<or> fst k = 10)"
    unfolding idx by (rule Suc(1)) (use Suc j in auto)
  have d: "drop j (kids (N ! n)) = kids (N ! n) ! j # drop (Suc j) (kids (N ! n))" using Cons_nth_drop_Suc [OF j] by simp
  show ?case unfolding d
    using louds_stop [OF m n, of j] louds_label [OF m n j] j IH
    by (subst end_labels.simps) (auto simp: prefixLabel_def rootLabel_def)
qed

text \<open>What the search decides about the set of the strings below a node.\<close>

fun ahas :: "bytes set \<Rightarrow> bytes \<Rightarrow> bool" where
  "ahas X [] \<longleftrightarrow> [] \<in> X \<or> (\<exists>w. 13 # w \<in> X \<or> 10 # w \<in> X)"
| "ahas X (c # cs) \<longleftrightarrow> (\<exists>w. 13 # w \<in> X) \<or> (c = 46 \<and> [10] \<in> X) \<or> ahas {w. c # w \<in> X} cs"

lemma ahas_empty [simp]: "\<not> ahas {} key"
  by (induction key) simp_all

lemma has_from_ahas:
  assumes m: "louds N m"
  shows "n < length N \<Longrightarrow> list_all (\<lambda>c. 13 < c) key \<Longrightarrow> has_from m (int n) (int (n + before N n)) key = Some (ahas (set (N ! n)) key)"
proof (induction key arbitrary: n)
  case Nil
  note n = Nil(1)
  have "(\<exists>k \<in> set (kids (N ! n)). fst k = 13 \<or> fst k = 10) \<longleftrightarrow> 13 \<in> set (map fst (kids (N ! n))) \<or> 10 \<in> set (map fst (kids (N ! n)))"
    by force
  also have "\<dots> \<longleftrightarrow> (\<exists>w. 13 # w \<in> set (N ! n) \<or> 10 # w \<in> set (N ! n))" unfolding kids_facts(3) [OF louds_node [OF m n]] by blast
  finally show ?case using louds_leaf [OF m n] end_labels_kids [OF m n, of 0] by (simp add: is_leaf_def)
next
  case (Cons c key)
  note n = Cons.prems(1)
  let ?K = "kids (N ! n)" and ?X = "set (N ! n)"
  note ok = louds_node [OF m n]
  note K = kids_facts [OF ok]
  have c: "13 < c" using Cons.prems(2) by simp
  have lbl: "b \<in> fst ` set ?K \<longleftrightarrow> (\<exists>w. b # w \<in> ?X)" for b using K(3) [of b] by simp
  have root: "(\<exists>ys. (10, ys) \<in> set ?K \<and> is_leaf ys) \<longleftrightarrow> [10] \<in> ?X"
  proof
    assume "[10] \<in> ?X"
    then have "10 \<in> fst ` set ?K" using lbl [of 10] by blast
    then obtain ys where ys: "(10, ys) \<in> set ?K" by force
    moreover have "is_leaf ys" using K(1) [OF ys] \<open>[10] \<in> ?X\<close> by (simp add: is_leaf_def)
    ultimately show "\<exists>ys. (10, ys) \<in> set ?K \<and> is_leaf ys" by blast
  next
    assume "\<exists>ys. (10, ys) \<in> set ?K \<and> is_leaf ys"
    then obtain ys where ys: "(10, ys) \<in> set ?K" "is_leaf ys" by blast
    then show "[10] \<in> ?X" using K(1) [OF ys(1)] by (simp add: is_leaf_def)
  qed
  have find: "find_label m (int n) c (int (n + before N n)) = Some (scan_kids c (int (n + before N n)) ?K)"
    using find_label_kids [OF m n, of 0 c] by simp
  note sc = scan_kids_sorted [OF K(2) c, of "int (n + before N n)", unfolded lbl root]
  show ?case
  proof (cases "(\<exists>w. 13 # w \<in> ?X) \<or> (c = 46 \<and> [10] \<in> ?X)")
    case True
    then show ?thesis using find sc by auto
  next
    case False
    show ?thesis
    proof (cases "\<exists>w. c # w \<in> ?X")
      case True
      let ?j = "length (takeWhile (\<lambda>k. fst k \<noteq> c) ?K)"
      have "c \<in> fst ` set ?K" using True lbl by blast
      then have "takeWhile (\<lambda>k. fst k \<noteq> c) ?K \<noteq> ?K" by (auto simp: takeWhile_eq_all_conv)
      then have j: "?j < length ?K" by (metis length_takeWhile_le nat_less_le take_all takeWhile_eq_take)
      have cj: "fst (?K ! ?j) = c" using nth_length_takeWhile [OF j] by simp
      note ch = louds_child [OF m n j]
      have "set (N ! (before N n + ?j + 1)) = {w. c # w \<in> ?X}"
        using K(1) [of c "snd (?K ! ?j)"] nth_mem [OF j] cj unfolding ch(3) by (metis prod.collapse)
      then have IH: "has_from m (int (before N n + ?j + 1)) (int (before N n + ?j + 1 + before N (before N n + ?j + 1))) key =
          Some (ahas {w. c # w \<in> ?X} key)" using Cons.IH [OF ch(2)] Cons.prems(2) by simp
      have r: "scan_kids c (int (n + before N n)) ?K = Label (int (n + before N n + ?j))" using sc False True by simp
      have e: "ahas ?X (c # key) = ahas {w. c # w \<in> ?X} key" using False by auto
      show ?thesis unfolding e using find r ch(1) IH by simp
    next
      case noc: False
      then have e: "{w. c # w \<in> ?X} = {}" by blast
      have "scan_kids c (int (n + before N n)) ?K = Result False" using sc False noc by simp
      then show ?thesis using find False e by simp
    qed
  qed
qed

lemma split_Cons: "(\<exists>p q. c # key = p @ q \<and> P p q) \<longleftrightarrow> P [] (c # key) \<or> (\<exists>p q. key = p @ q \<and> P (c # p) q)"
proof
  assume "\<exists>p q. c # key = p @ q \<and> P p q"
  then obtain p q where "c # key = p @ q" "P p q" by blast
  then show "P [] (c # key) \<or> (\<exists>p q. key = p @ q \<and> P (c # p) q)" by (cases p) auto
next
  assume "P [] (c # key) \<or> (\<exists>p q. key = p @ q \<and> P (c # p) q)"
  then show "\<exists>p q. c # key = p @ q \<and> P p q" by (metis append_Cons append_Nil)
qed

lemma ahas_explicit:
  "ahas X key \<longleftrightarrow> key \<in> X \<or> (\<exists>w. key @ 10 # w \<in> X) \<or> (\<exists>p q. key = p @ q \<and> (\<exists>w. p @ 13 # w \<in> X)) \<or>
     (\<exists>p q. key = p @ q \<and> (\<exists>t. q = 46 # t \<and> p @ [10] \<in> X))"
proof (induction key arbitrary: X)
  case Nil
  show ?case by auto
next
  case (Cons c key)
  show ?case unfolding split_Cons using Cons.IH [of "{w. c # w \<in> X}"] by auto
qed

end
