(* ===== verification/MatcherKeys.thy ===== *)
theory MatcherKeys
  imports MatcherLaws
begin

text \<open>
  The keys that \<open>NewMatcher\<close> builds, as strings of runes before they are spelled backwards, and what
  they accept. A domain here is a string of valid runes above the two labels.
\<close>

definition dom_ok :: "nat list \<Rightarrow> bool" where
  "dom_ok s \<longleftrightarrow> list_all (\<lambda>r. valid_rune r \<and> 13 < r) s"

definition key_ok :: "nat list \<Rightarrow> bool" where
  "key_ok k \<longleftrightarrow> dom_ok k \<or> (\<exists>s. dom_ok s \<and> (k = 13 # s \<or> k = 10 # s))"

definition enc :: "nat list \<Rightarrow> bytes" where
  "enc k = utf8 (rev k)"

lemma dom_ok_simps [simp]: "dom_ok []" "dom_ok (r # s) \<longleftrightarrow> valid_rune r \<and> 13 < r \<and> dom_ok s"
  by (auto simp: dom_ok_def)

lemma dom_ok_valid: "dom_ok s \<Longrightarrow> valid_runes s"
  by (auto simp: dom_ok_def list_all_iff)

lemma valid_small [simp]: "valid_rune 13" "valid_rune 10" "valid_rune 46"
  by (simp_all add: valid_rune_def)

lemma key_ok_valid: "key_ok k \<Longrightarrow> valid_runes k"
  by (auto simp: key_ok_def dom_ok_valid)

lemma valid_rev: "valid_runes (rev s) \<longleftrightarrow> valid_runes s"
  by (simp add: list_all_iff)

lemma enc_inj: "valid_runes k \<Longrightarrow> valid_runes k' \<Longrightarrow> enc k = enc k' \<longleftrightarrow> k = k'"
  using utf8_inj [of "rev k" "rev k'"] by (auto simp: enc_def valid_rev)

lemma byte_rune: "valid_runes rs \<Longrightarrow> b \<in> set (utf8 rs) \<Longrightarrow> unat b < 128 \<Longrightarrow> unat b \<in> set rs"
proof (induction rs)
  case (Cons r rs)
  then consider "b \<in> set (encode_rune r)" | "b \<in> set (utf8 rs)" by auto
  then show ?case
  proof cases
    case 1
    then have "encode_rune r = [of_nat r]" "r < 128" using encode_bytes [of r b] Cons.prems by auto
    then show ?thesis using 1 by (simp add: unat_byte)
  qed (use Cons in auto)
qed simp

lemma first_rune:
  assumes "valid_runes ts" "b # w = utf8 ts" "unat b < 128"
  obtains ts' where "ts = unat b # ts'" "w = utf8 ts'"
proof (cases ts)
  case (Cons t ts')
  have "b \<in> set (encode_rune t)" using assms(2) Cons by (cases "encode_rune t") auto
  then have "encode_rune t = [of_nat t]" "t < 128" using encode_bytes [of t b] assms(1,3) Cons by auto
  then show ?thesis using that [of ts'] assms(2) Cons by (simp add: unat_byte)
qed (use assms(2) in simp)

lemma bytes_above: "dom_ok s \<Longrightarrow> b \<in> set (enc s) \<Longrightarrow> 13 < b"
proof (rule ccontr)
  assume s: "dom_ok s" and b: "b \<in> set (enc s)" and "\<not> 13 < b"
  then have le: "unat b \<le> 13" by (simp add: word_less_nat_alt)
  have "unat b \<in> set (rev s)" by (rule byte_rune) (use s b le in \<open>auto simp: enc_def valid_rev dom_ok_valid\<close>)
  then show False using s le by (auto simp: dom_ok_def list_all_iff)
qed

lemma key_label:
  assumes k: "key_ok k" and e: "enc k = p @ b # w" and b: "b = 13 \<or> b = 10"
  obtains s where "k = unat b # s" "dom_ok s" "p = enc s" "w = []"
proof -
  have "\<not> 13 < b" using b by auto
  then have "\<not> dom_ok k" using bytes_above [of k b] e by auto
  then obtain s l where s: "dom_ok s" "k = l # s" "l = 13 \<or> l = 10" using k by (auto simp: key_ok_def)
  have l: "enc k = enc s @ [of_nat l]" using s(3) by (auto simp: enc_def s(2) encode_ascii)
  have nb: "b \<notin> set (enc s)" using bytes_above [OF s(1)] \<open>\<not> 13 < b\<close> by blast
  have "w = []"
  proof (rule ccontr)
    assume "w \<noteq> []"
    then have "enc s = p @ b # butlast w" using l e by (metis butlast.simps(2) butlast_append butlast_snoc list.distinct(1))
    then show False using nb by simp
  qed
  then have "p = enc s" "b = of_nat l" using l e by auto
  moreover have "l = unat b" using s(3) \<open>b = of_nat l\<close> by (auto simp: unat_byte)
  ultimately show ?thesis using that s(1,2) \<open>w = []\<close> by blast
qed

section \<open>What a set of keys accepts\<close>

lemma prefix_enc: "valid_runes s \<Longrightarrow> valid_runes d \<Longrightarrow> (\<exists>q. enc d = enc s @ q) \<longleftrightarrow> suffix s d"
proof
  assume v: "valid_runes s" "valid_runes d" and "\<exists>q. enc d = enc s @ q"
  then obtain q where "utf8 (rev s) @ q = utf8 (rev d)" by (auto simp: enc_def)
  then obtain ts where "rev d = rev s @ ts" using utf8_prefix [of "rev s" "rev d" q] v by (auto simp: valid_rev)
  then show "suffix s d" by (metis rev_append rev_rev_ident suffixI)
qed (auto simp: enc_def suffix_def)

lemma dot_enc: "valid_runes s \<Longrightarrow> valid_runes d \<Longrightarrow> (\<exists>t. enc d = enc s @ 46 # t) \<longleftrightarrow> suffix (46 # s) d"
proof
  assume v: "valid_runes s" "valid_runes d" and "\<exists>t. enc d = enc s @ 46 # t"
  then obtain t where "utf8 (rev s) @ 46 # t = utf8 (rev d)" by (auto simp: enc_def)
  then obtain ts where ts: "rev d = rev s @ ts" "46 # t = utf8 ts" using utf8_prefix [of "rev s" "rev d" "46 # t"] v by (auto simp: valid_rev)
  have "valid_runes ts" using v(2) ts(1) by (metis list_all_append valid_rev)
  then obtain ts' where "ts = 46 # ts'" using first_rune [of ts 46 t] ts(2) by auto
  then have "d = rev ts' @ 46 # s" using ts(1) by (metis append.assoc append_Cons append_Nil rev.simps(2) rev_append rev_rev_ident)
  then show "suffix (46 # s) d" by (auto simp: suffix_def)
next
  assume "suffix (46 # s) d"
  then obtain p where "d = p @ 46 # s" by (auto simp: suffix_def)
  then show "\<exists>t. enc d = enc s @ 46 # t" by (simp add: enc_def encode_ascii)
qed

lemma ahas_keys:
  assumes L: "list_all key_ok L" and d: "dom_ok d"
  shows "ahas (enc ` set L) (enc d) \<longleftrightarrow> d \<in> set L \<or> 10 # d \<in> set L \<or> (\<exists>s. 13 # s \<in> set L \<and> dom_ok s \<and> suffix s d) \<or>
    (\<exists>s. 10 # s \<in> set L \<and> dom_ok s \<and> suffix (46 # s) d)"
proof -
  have vL: "valid_runes k" "key_ok k" if "k \<in> set L" for k using L that key_ok_valid by (auto simp: list_all_iff)
  note vd = dom_ok_valid [OF d]
  have one: "enc d \<in> enc ` set L \<longleftrightarrow> d \<in> set L" using enc_inj [OF vd vL(1)] by auto
  have lab: "p @ b # w \<in> enc ` set L \<longleftrightarrow> (\<exists>s. unat b # s \<in> set L \<and> dom_ok s \<and> p = enc s \<and> w = [])" if b: "b = 13 \<or> b = 10" for p b w
  proof
    assume "p @ b # w \<in> enc ` set L"
    then obtain k where k: "k \<in> set L" "enc k = p @ b # w" by force
    then show "\<exists>s. unat b # s \<in> set L \<and> dom_ok s \<and> p = enc s \<and> w = []" using key_label [OF vL(2) [OF k(1)] k(2) b] by blast
  next
    assume "\<exists>s. unat b # s \<in> set L \<and> dom_ok s \<and> p = enc s \<and> w = []"
    then obtain s where s: "unat b # s \<in> set L" "p = enc s" "w = []" by blast
    have "enc (unat b # s) = p @ b # w" using s b by (auto simp: enc_def encode_ascii)
    then show "p @ b # w \<in> enc ` set L" using s(1) by (metis imageI)
  qed
  have two: "(\<exists>w. enc d @ 10 # w \<in> enc ` set L) \<longleftrightarrow> 10 # d \<in> set L"
    using lab [of 10] enc_inj [OF vd] d dom_ok_valid by auto
  have three: "(\<exists>p q. enc d = p @ q \<and> (\<exists>w. p @ 13 # w \<in> enc ` set L)) \<longleftrightarrow> (\<exists>s. 13 # s \<in> set L \<and> dom_ok s \<and> suffix s d)"
  proof -
    have "(\<exists>p q. enc d = p @ q \<and> (\<exists>w. p @ 13 # w \<in> enc ` set L)) \<longleftrightarrow> (\<exists>s. 13 # s \<in> set L \<and> dom_ok s \<and> (\<exists>q. enc d = enc s @ q))"
      unfolding lab [of 13, simplified] by blast
    moreover have "13 # s \<in> set L \<and> dom_ok s \<and> (\<exists>q. enc d = enc s @ q) \<longleftrightarrow> 13 # s \<in> set L \<and> dom_ok s \<and> suffix s d" for s
      using prefix_enc [OF dom_ok_valid vd, of s] by blast
    ultimately show ?thesis by simp
  qed
  have four: "(\<exists>p q. enc d = p @ q \<and> (\<exists>t. q = 46 # t \<and> p @ [10] \<in> enc ` set L)) \<longleftrightarrow> (\<exists>s. 10 # s \<in> set L \<and> dom_ok s \<and> suffix (46 # s) d)"
  proof -
    have "(\<exists>p q. enc d = p @ q \<and> (\<exists>t. q = 46 # t \<and> p @ [10] \<in> enc ` set L)) \<longleftrightarrow> (\<exists>s. 10 # s \<in> set L \<and> dom_ok s \<and> (\<exists>t. enc d = enc s @ 46 # t))"
      unfolding lab [of 10 _ "[]", simplified] by blast
    moreover have "10 # s \<in> set L \<and> dom_ok s \<and> (\<exists>t. enc d = enc s @ 46 # t) \<longleftrightarrow> 10 # s \<in> set L \<and> dom_ok s \<and> suffix (46 # s) d" for s
      using dot_enc [OF dom_ok_valid vd, of s] by blast
    ultimately show ?thesis by simp
  qed
  show ?thesis unfolding ahas_explicit one two three four ..
qed

end
