(* ===== verification/MatcherBuild.thy ===== *)
theory MatcherBuild
  imports MatcherKeys "HOL-Library.Multiset"
begin

text \<open>
  The two loops of \<open>NewMatcher\<close> on strings of runes, and the theorem on \<open>Match\<close>.
\<close>

section \<open>The loops\<close>

type_synonym plan = "nat list list \<times> nat list list"

fun suffix_plan :: "bool \<Rightarrow> nat list \<Rightarrow> plan \<Rightarrow> plan" where
  "suffix_plan lg s (sn, L) =
     (if s \<in> set sn then (sn, L)
      else if hd s = 46 then (s # sn, L @ [13 # s])
      else if lg then
        (if 46 # s \<in> set (s # sn) then (s # sn, L @ [s]) else ((46 # s) # s # sn, L @ [s, 13 # 46 # s]))
      else (s # sn, L @ [10 # s]))"

fun domain_plan :: "nat list \<Rightarrow> plan \<Rightarrow> plan" where
  "domain_plan d (sn, L) = (if d \<in> set sn then (sn, L) else (d # sn, L @ [d]))"

definition plan_of :: "bool \<Rightarrow> nat list list \<Rightarrow> nat list list \<Rightarrow> plan" where
  "plan_of lg ds sfx = fold domain_plan ds (fold (suffix_plan lg) sfx ([], []))"

lemma utf8_in: "valid_runes s \<Longrightarrow> list_all dom_ok sn \<Longrightarrow> utf8 s \<in> utf8 ` set sn \<longleftrightarrow> s \<in> set sn"
proof
  assume s: "valid_runes s" "list_all dom_ok sn" and "utf8 s \<in> utf8 ` set sn"
  then obtain t where t: "t \<in> set sn" "utf8 s = utf8 t" by blast
  then have "dom_ok t" using s(2) by (simp add: list_all_iff)
  then have "valid_runes t" by (rule dom_ok_valid)
  then show "s \<in> set sn" using utf8_inj [OF s(1)] t by blast
qed simp

lemma reverse_enc: "valid_runes s \<Longrightarrow> reverseDomain (utf8 s) = Some (enc s)"
  by (simp add: reverseDomain_utf8 enc_def)

lemma label_utf8: "prefixLabel # utf8 s = utf8 (13 # s)" "rootLabel # utf8 s = utf8 (10 # s)" "46 # utf8 s = utf8 (46 # s)"
  by (simp_all add: prefixLabel_def rootLabel_def encode_ascii)

lemma first_byte: "dom_ok (r # s) \<Longrightarrow> \<exists>b w. utf8 (r # s) = b # w \<and> (b = 46 \<longleftrightarrow> r = 46)"
proof -
  assume d: "dom_ok (r # s)"
  obtain b w where e: "encode_rune r = b # w" by (cases "encode_rune r") auto
  have "b = 46 \<longleftrightarrow> r = 46"
  proof
    assume b: "b = 46"
    then have "encode_rune r = [of_nat r]" "r < 128" using encode_bytes [of r b] e d by auto
    then show "r = 46" using e b unat_byte [of r] by auto
  qed (use e in \<open>auto simp: encode_ascii\<close>)
  then show ?thesis using e by simp
qed

lemma suffix_loop_plan:
  "list_all (\<lambda>s. dom_ok s \<and> s \<noteq> []) sfx \<Longrightarrow> list_all dom_ok sn \<Longrightarrow>
   (case fold (suffix_plan lg) sfx (sn, L) of (sn', L') \<Rightarrow>
      suffix_loop lg (map utf8 sfx) (map utf8 sn) (map enc L) = Some (map utf8 sn', map enc L') \<and> list_all dom_ok sn')"
proof (induction sfx arbitrary: sn L)
  case (Cons s sfx)
  have s: "dom_ok s" "s \<noteq> []" and rest: "list_all (\<lambda>s. dom_ok s \<and> s \<noteq> []) sfx" using Cons.prems(1) by simp_all
  obtain r s' where rs: "s = r # s'" using s(2) by (cases s) auto
  obtain b w where b: "utf8 s = b # w" "b = 46 \<longleftrightarrow> r = 46" using first_byte [of r s'] s(1) rs by auto
  have vs: "valid_runes s" "valid_runes (13 # s)" "valid_runes (10 # s)" "valid_runes (46 # s)" "valid_runes (13 # 46 # s)"
    using dom_ok_valid [OF s(1)] by simp_all
  have idx: "go_index (utf8 s) 0 = Some b" using b(1) by simp
  have seen: "utf8 s \<in> set (map utf8 sn) \<longleftrightarrow> s \<in> set sn" using utf8_in [OF vs(1) Cons.prems(2)] by simp
  have seen': "utf8 (46 # s) \<in> set (map utf8 (s # sn)) \<longleftrightarrow> 46 # s \<in> set (s # sn)"
    using utf8_in [OF vs(4), of "s # sn"] Cons.prems(2) s(1) by simp
  obtain sn1 L1 where p: "suffix_plan lg s (sn, L) = (sn1, L1)" by fastforce
  have ok1: "list_all dom_ok sn1" using p Cons.prems(2) s(1) by (auto split: if_splits)
  have "suffix_loop lg (map utf8 (s # sfx)) (map utf8 sn) (map enc L) = suffix_loop lg (map utf8 sfx) (map utf8 sn1) (map enc L1)"
  proof (cases "s \<in> set sn")
    case True
    then show ?thesis using p seen by simp
  next
    case False
    then have ns: "utf8 s \<notin> set (map utf8 sn)" using seen by simp
    consider "r = 46" | "r \<noteq> 46" "\<not> lg" | "r \<noteq> 46" "lg" "46 # s \<in> set (s # sn)" | "r \<noteq> 46" "lg" "46 # s \<notin> set (s # sn)" by blast
    then show ?thesis
    proof cases
      case 1
      then show ?thesis using p False ns idx b(2) reverse_enc [OF vs(2)] unfolding list.map(2) suffix_loop.simps label_utf8
        by (auto simp: rs simp del: utf8_simps)
    next
      case 2
      then show ?thesis using p False ns idx b(2) reverse_enc [OF vs(3)] unfolding list.map(2) suffix_loop.simps label_utf8
        by (auto simp: rs simp del: utf8_simps)
    next
      case 3
      then show ?thesis using p False ns idx b(2) reverse_enc [OF vs(1)] seen' unfolding list.map(2) suffix_loop.simps label_utf8
        by (auto simp: rs simp del: utf8_simps)
    next
      case 4
      then show ?thesis using p False ns idx b(2) reverse_enc [OF vs(1)] reverse_enc [OF vs(5)] seen' unfolding list.map(2) suffix_loop.simps label_utf8
        by (auto simp: rs Let_def label_utf8 simp del: utf8_simps)
    qed
  qed
  then show ?case using Cons.IH [OF rest ok1, of L1] p by simp
qed simp

lemma domain_loop_plan:
  "list_all dom_ok ds \<Longrightarrow> list_all dom_ok sn \<Longrightarrow>
   domain_loop (map utf8 ds) (map utf8 sn) (map enc L) = Some (map enc (snd (fold domain_plan ds (sn, L))))"
proof (induction ds arbitrary: sn L)
  case (Cons d ds)
  have d: "dom_ok d" "valid_runes d" using Cons.prems dom_ok_valid by simp_all
  have seen: "utf8 d \<in> set (map utf8 sn) \<longleftrightarrow> d \<in> set sn" using utf8_in [OF d(2) Cons.prems(2)] by simp
  show ?case using Cons.IH [of sn L] Cons.IH [of "d # sn" "L @ [d]"] Cons.prems d seen reverse_enc [OF d(2)] by (auto simp del: utf8_simps)
qed simp

section \<open>The keys\<close>

definition suffix_keys :: "bool \<Rightarrow> nat list set \<Rightarrow> nat list set" where
  "suffix_keys lg S = (Cons 13) ` {s \<in> S. hd s = 46} \<union>
     (if lg then {s \<in> S. hd s \<noteq> 46} \<union> (\<lambda>s. 13 # 46 # s) ` {s \<in> S. hd s \<noteq> 46} else Cons 10 ` {s \<in> S. hd s \<noteq> 46})"

definition suffix_seen :: "bool \<Rightarrow> nat list set \<Rightarrow> nat list set" where
  "suffix_seen lg S = S \<union> (if lg then Cons 46 ` {s \<in> S. hd s \<noteq> 46} else {})"

definition cost :: "nat list list \<Rightarrow> nat" where
  "cost L = sum_list (map (\<lambda>k. Suc (length (utf8 k))) L)"

lemma cost_append [simp]: "cost (L @ L') = cost L + cost L'" "cost (k # L) = Suc (length (utf8 k)) + cost L" "cost [] = 0"
  by (simp_all add: cost_def)

definition plan_inv :: "bool \<Rightarrow> nat list set \<Rightarrow> plan \<Rightarrow> bool" where
  "plan_inv lg S p \<longleftrightarrow> (case p of (sn, L) \<Rightarrow> set sn = suffix_seen lg S \<and> set L = suffix_keys lg S \<and> distinct L)"

lemma seen_insert: "suffix_seen lg (insert s S) = (if lg \<and> hd s \<noteq> 46 then {s, 46 # s} else {s}) \<union> suffix_seen lg S"
  by (auto simp: suffix_seen_def)

lemma keys_insert:
  "suffix_keys lg (insert s S) = (if hd s = 46 then {13 # s} else if lg then {s, 13 # 46 # s} else {10 # s}) \<union> suffix_keys lg S"
  by (auto simp: suffix_keys_def)

lemma seen_keys:
  "s \<in> suffix_seen lg S \<Longrightarrow> hd s = 46 \<Longrightarrow> 13 # s \<in> suffix_keys lg S"
  "s \<in> suffix_seen lg S \<Longrightarrow> hd s \<noteq> 46 \<Longrightarrow> s \<in> S"
  by (auto simp: suffix_seen_def suffix_keys_def split: if_splits)

lemma keys_seen:
  assumes "\<forall>s \<in> S. dom_ok s"
  shows "13 # s \<in> suffix_keys lg S \<Longrightarrow> s \<in> suffix_seen lg S" "10 # s \<in> suffix_keys lg S \<Longrightarrow> s \<in> suffix_seen lg S"
    "dom_ok s \<Longrightarrow> s \<in> suffix_keys lg S \<Longrightarrow> s \<in> suffix_seen lg S"
  using assms by (auto simp: suffix_seen_def suffix_keys_def split: if_splits)

lemma suffix_plan_inv:
  assumes "plan_inv lg S (sn, L)" and s: "dom_ok s" and S: "\<forall>s \<in> S. dom_ok s"
  shows "plan_inv lg (insert s S) (suffix_plan lg s (sn, L))"
proof -
  have sn: "set sn = suffix_seen lg S" and L: "set L = suffix_keys lg S" "distinct L" using assms(1) by (simp_all add: plan_inv_def)
  note K = keys_seen [OF S]
  consider "s \<in> set sn" | "s \<notin> set sn" "hd s = 46" | "s \<notin> set sn" "hd s \<noteq> 46" "\<not> lg"
    | "s \<notin> set sn" "hd s \<noteq> 46" "lg" "46 # s \<in> set sn" | "s \<notin> set sn" "hd s \<noteq> 46" "lg" "46 # s \<notin> set sn" by blast
  then show ?thesis
  proof cases
    case 1
    show ?thesis
    proof (cases "hd s = 46")
      case True
      then have "13 # s \<in> set L" using 1 seen_keys(1) sn L(1) by simp
      then show ?thesis using 1 True sn L by (auto simp: plan_inv_def seen_insert keys_insert)
    next
      case False
      then have "insert s S = S" using 1 seen_keys(2) sn by auto
      then show ?thesis using 1 sn L by (simp add: plan_inv_def)
    qed
  next
    case 2
    then have "13 # s \<notin> set L" using K(1) sn L(1) by auto
    then show ?thesis using 2 sn L by (simp add: plan_inv_def seen_insert keys_insert)
  next
    case 3
    then have "10 # s \<notin> set L" using K(2) sn L(1) by auto
    then show ?thesis using 3 sn L by (simp add: plan_inv_def seen_insert keys_insert)
  next
    case 4
    then have "s \<notin> set L" using K(3) [OF s] sn L(1) by auto
    moreover have "13 # 46 # s \<in> set L" using 4 seen_keys(1) [of "46 # s"] sn L(1) by simp
    ultimately show ?thesis using 4 sn L by (auto simp: plan_inv_def seen_insert keys_insert)
  next
    case 5
    then have "s \<notin> set L" "13 # 46 # s \<notin> set L" using K(1) [of "46 # s"] K(3) [OF s] sn L(1) by auto
    moreover have "46 # s \<noteq> s" "s \<noteq> 13 # 46 # s" by simp_all
    ultimately show ?thesis using 5 sn L by (auto simp: plan_inv_def seen_insert keys_insert)
  qed
qed

lemma suffix_fold_inv:
  "plan_inv lg S (sn, L) \<Longrightarrow> \<forall>s \<in> S. dom_ok s \<Longrightarrow> list_all dom_ok sfx \<Longrightarrow> plan_inv lg (set sfx \<union> S) (fold (suffix_plan lg) sfx (sn, L))"
proof (induction sfx arbitrary: S sn L)
  case (Cons s sfx)
  obtain sn' L' where p: "suffix_plan lg s (sn, L) = (sn', L')" by fastforce
  have "plan_inv lg (insert s S) (sn', L')" using suffix_plan_inv [OF Cons.prems(1), of s] Cons.prems p by simp
  then have "plan_inv lg (set sfx \<union> insert s S) (fold (suffix_plan lg) sfx (sn', L'))" by (rule Cons.IH) (use Cons.prems in auto)
  then show ?case using p by simp
qed simp

lemma domain_fold:
  "set (snd (fold domain_plan ds (sn, L))) = set L \<union> (set ds - set sn)"
  "distinct L \<Longrightarrow> set L \<inter> (set ds - set sn) = {} \<Longrightarrow> distinct (snd (fold domain_plan ds (sn, L)))"
proof -
  show "set (snd (fold domain_plan ds (sn, L))) = set L \<union> (set ds - set sn)" by (induction ds arbitrary: sn L) auto
  show "distinct L \<Longrightarrow> set L \<inter> (set ds - set sn) = {} \<Longrightarrow> distinct (snd (fold domain_plan ds (sn, L)))"
  proof (induction ds arbitrary: sn L)
    case (Cons d ds)
    show ?case
    proof (cases "d \<in> set sn")
      case True
      then show ?thesis using Cons by (auto intro: Cons.IH)
    next
      case False
      then have "distinct (L @ [d])" "set (L @ [d]) \<inter> (set ds - set (d # sn)) = {}" using Cons.prems by auto
      from Cons.IH [OF this] False show ?thesis by simp
    qed
  qed simp
qed

lemma plan_facts:
  assumes ds: "list_all dom_ok ds" and sfx: "list_all dom_ok sfx"
  shows "set (snd (plan_of lg ds sfx)) = suffix_keys lg (set sfx) \<union> (set ds - suffix_seen lg (set sfx))" "distinct (snd (plan_of lg ds sfx))"
proof -
  obtain sn L where p: "fold (suffix_plan lg) sfx ([], []) = (sn, L)" by fastforce
  have "plan_inv lg (set sfx \<union> {}) (sn, L)" unfolding p [symmetric]
    by (rule suffix_fold_inv) (use sfx in \<open>auto simp: plan_inv_def suffix_seen_def suffix_keys_def\<close>)
  then have i: "set sn = suffix_seen lg (set sfx)" "set L = suffix_keys lg (set sfx)" "distinct L" by (simp_all add: plan_inv_def)
  show "set (snd (plan_of lg ds sfx)) = suffix_keys lg (set sfx) \<union> (set ds - suffix_seen lg (set sfx))"
    unfolding plan_of_def p domain_fold(1) i(1,2) ..
  have "set L \<inter> (set ds - set sn) = {}" using keys_seen(3) [of "set sfx"] ds sfx i by (auto simp: list_all_iff)
  then show "distinct (snd (plan_of lg ds sfx))" unfolding plan_of_def p by (rule domain_fold(2) [OF i(3)])
qed

section \<open>The size of the set\<close>

definition input_size :: "nat list list \<Rightarrow> nat list list \<Rightarrow> nat" where
  "input_size ds sfx = cost ds + sum_list (map (\<lambda>s. 2 * length (utf8 s) + 4) sfx)"

lemma utf8_rev_length [simp]: "length (utf8 (rev k)) = length (utf8 k)"
  by (simp add: utf8_def length_concat rev_map [symmetric] sum_list_rev)

lemma suffix_fold_cost:
  "cost (snd (fold (suffix_plan lg) sfx (sn, L))) \<le> cost L + sum_list (map (\<lambda>s. 2 * length (utf8 s) + 4) sfx)"
proof (induction sfx arbitrary: sn L)
  case (Cons s sfx)
  obtain sn' L' where p: "suffix_plan lg s (sn, L) = (sn', L')" by fastforce
  have "cost L' \<le> cost L + (2 * length (utf8 s) + 4)" using p by (auto simp: encode_ascii split: if_splits)
  then show ?case using Cons.IH [of sn' L'] p by simp
qed simp

lemma domain_fold_cost: "cost (snd (fold domain_plan ds (sn, L))) \<le> cost L + cost ds"
proof (induction ds arbitrary: sn L)
  case (Cons d ds)
  show ?case using Cons.IH [of sn L] Cons.IH [of "d # sn" "L @ [d]"] by auto
qed simp

lemma plan_cost: "cost (snd (plan_of lg ds sfx)) \<le> input_size ds sfx"
  using suffix_fold_cost [of lg sfx "[]" "[]"] domain_fold_cost [of ds "fst (fold (suffix_plan lg) sfx ([], []))" "snd (fold (suffix_plan lg) sfx ([], []))"]
  by (simp add: plan_of_def input_size_def)

lemma weight_sort: "weight (sort (map enc L)) = cost L"
proof -
  have "sum_mset (image_mset (\<lambda>w. Suc (length w)) (mset (sort (map enc L)))) = sum_mset (image_mset (\<lambda>w. Suc (length w)) (mset (map enc L)))"
    by simp
  then have "weight (sort (map enc L)) = sum_list (map (\<lambda>w. Suc (length w)) (map enc L))"
    unfolding weight_def by (simp only: mset_map [symmetric] sum_mset_sum_list)
  then show ?thesis by (simp add: cost_def enc_def o_def)
qed

section \<open>Matching\<close>

lemma plan_keys_ok: "list_all dom_ok ds \<Longrightarrow> list_all dom_ok sfx \<Longrightarrow> list_all key_ok (snd (plan_of lg ds sfx))"
  unfolding list_all_iff [of key_ok] using plan_facts(1) [of ds sfx lg]
  by (auto simp: list_all_iff key_ok_def suffix_keys_def split: if_splits)

lemma enc_inj_on: "list_all key_ok L \<Longrightarrow> inj_on enc (set L)"
proof (rule inj_onI)
  fix k k' assume "list_all key_ok L" "k \<in> set L" "k' \<in> set L" "enc k = enc k'"
  moreover from this have "valid_runes k" "valid_runes k'" using key_ok_valid by (simp_all only: list_all_iff [of key_ok])
  ultimately show "k = k'" using enc_inj by blast
qed

lemma NewMatcher_set:
  assumes ds: "list_all dom_ok ds" and sfx: "list_all (\<lambda>s. dom_ok s \<and> s \<noteq> []) sfx"
    and ne: "ds \<noteq> [] \<or> sfx \<noteq> []" and size: "2 * input_size ds sfx + 64 \<le> 2 ^ 31"
  obtains N s where "NewMatcher (map utf8 ds) (map utf8 sfx) lg = Some \<lparr>set_of = s\<rparr>" "louds N s"
    "N ! 0 = sort (map enc (snd (plan_of lg ds sfx)))"
proof -
  let ?L = "snd (plan_of lg ds sfx)"
  let ?K = "sort (map enc ?L)"
  have sfx': "list_all dom_ok sfx" using sfx by (simp add: list_all_iff)
  note P = plan_facts [OF ds sfx', of lg]
  have "set ?L \<noteq> {}" unfolding P(1) using ne by (cases sfx) (auto simp: suffix_keys_def suffix_seen_def neq_Nil_conv)
  then have K: "?K \<noteq> []" by (metis list.set(1) map_is_Nil_conv set_empty set_sort)
  have "inj_on enc (set ?L)" by (rule enc_inj_on [OF plan_keys_ok [OF ds sfx']])
  then have "distinct (map enc ?L)" using P(2) by (simp add: distinct_map)
  then have srt: "sorted_wrt (<) ?K" by (simp add: strict_sorted_iff)
  have "2 * weight ?K + 64 \<le> 2 ^ 31" unfolding weight_sort using plan_cost [of lg ds sfx] size by linarith
  from newSuccinctSet_louds [OF K srt this] obtain N s where s: "newSuccinctSet ?K = Some s" "louds N s" "N ! 0 = ?K" .
  obtain sn L where p: "fold (suffix_plan lg) sfx ([], []) = (sn, L)" by fastforce
  have one: "suffix_loop lg (map utf8 sfx) [] [] = Some (map utf8 sn, map enc L)" "list_all dom_ok sn"
    using suffix_loop_plan [OF sfx, of "[]" lg "[]"] p by simp_all
  have "domain_loop (map utf8 ds) (map utf8 sn) (map enc L) = Some (map enc ?L)"
    using domain_loop_plan [OF ds one(2), of L] by (simp add: plan_of_def p)
  then have "NewMatcher (map utf8 ds) (map utf8 sfx) lg = Some \<lparr>set_of = s\<rparr>" using one(1) s(1) by (simp add: NewMatcher_def)
  then show ?thesis using that s(2,3) by blast
qed

text \<open>What the arguments of \<open>NewMatcher\<close> mean: an exact domain, a suffix with a leading dot as it
  stands, another suffix as itself or behind a dot.\<close>

definition accepts :: "nat list list \<Rightarrow> nat list list \<Rightarrow> nat list \<Rightarrow> bool" where
  "accepts ds sfx d \<longleftrightarrow> d \<in> set ds \<or> list_ex (\<lambda>s. if hd s = 46 then suffix s d else d = s \<or> suffix (46 # s) d) sfx"

lemma plan_accepts:
  assumes ds: "list_all dom_ok ds" and sfx: "list_all dom_ok sfx" and d: "dom_ok d"
  shows "ahas (enc ` set (snd (plan_of lg ds sfx))) (enc d) \<longleftrightarrow> accepts ds sfx d"
proof -
  let ?A = "suffix_keys lg (set sfx) \<union> (set ds - suffix_seen lg (set sfx))"
  have K: "set (snd (plan_of lg ds sfx)) = ?A" by (rule plan_facts [OF ds sfx])
  have no: "13 # s \<notin> set ds" "10 # s \<notin> set ds" "13 # s \<notin> set sfx" "10 # s \<notin> set sfx" for s
    using ds sfx by (auto simp: list_all_iff)
  have dk: "dom_ok s" if "s \<in> set sfx" for s using sfx that by (simp add: list_all_iff)
  have plain: "d \<in> ?A \<or> 10 # d \<in> ?A \<longleftrightarrow> d \<in> set sfx \<and> hd d \<noteq> 46 \<or> d \<in> set ds \<and> d \<notin> suffix_seen lg (set sfx)"
    using no d by (cases lg) (auto simp: suffix_keys_def)
  have pre: "13 # s \<in> ?A \<longleftrightarrow> s \<in> set sfx \<and> hd s = 46 \<or> lg \<and> (\<exists>t. s = 46 # t \<and> t \<in> set sfx \<and> hd t \<noteq> 46)" for s
    using no by (auto simp: suffix_keys_def)
  have root: "10 # s \<in> ?A \<longleftrightarrow> \<not> lg \<and> s \<in> set sfx \<and> hd s \<noteq> 46" for s using no by (auto simp: suffix_keys_def)
  have pres: "(\<exists>s. 13 # s \<in> ?A \<and> dom_ok s \<and> suffix s d) \<or> (\<exists>s. 10 # s \<in> ?A \<and> dom_ok s \<and> suffix (46 # s) d) \<longleftrightarrow>
      (\<exists>s \<in> set sfx. hd s = 46 \<and> suffix s d) \<or> (\<exists>s \<in> set sfx. hd s \<noteq> 46 \<and> suffix (46 # s) d)"
    unfolding pre root
  proof
    assume "(\<exists>s \<in> set sfx. hd s = 46 \<and> suffix s d) \<or> (\<exists>s \<in> set sfx. hd s \<noteq> 46 \<and> suffix (46 # s) d)"
    then consider s where "s \<in> set sfx" "hd s = 46" "suffix s d" | s where "s \<in> set sfx" "hd s \<noteq> 46" "suffix (46 # s) d" by blast
    then show "(\<exists>s. (s \<in> set sfx \<and> hd s = 46 \<or> lg \<and> (\<exists>t. s = 46 # t \<and> t \<in> set sfx \<and> hd t \<noteq> 46)) \<and> dom_ok s \<and> suffix s d) \<or>
      (\<exists>s. (\<not> lg \<and> s \<in> set sfx \<and> hd s \<noteq> 46) \<and> dom_ok s \<and> suffix (46 # s) d)"
    proof cases
      case 1
      then show ?thesis using dk by blast
    next
      case 2
      moreover from this have "dom_ok (46 # s)" "dom_ok s" using dk by simp_all
      ultimately show ?thesis by (cases lg) blast+
    qed
  qed blast
  have seen: "d \<in> suffix_seen lg (set sfx) \<Longrightarrow> d \<in> set sfx \<or> (\<exists>t. d = 46 # t \<and> t \<in> set sfx \<and> hd t \<noteq> 46)"
    by (auto simp: suffix_seen_def split: if_splits)
  have "ahas (enc ` set (snd (plan_of lg ds sfx))) (enc d) \<longleftrightarrow> (d \<in> set sfx \<and> hd d \<noteq> 46 \<or> d \<in> set ds \<and> d \<notin> suffix_seen lg (set sfx)) \<or>
      (\<exists>s \<in> set sfx. hd s = 46 \<and> suffix s d) \<or> (\<exists>s \<in> set sfx. hd s \<noteq> 46 \<and> suffix (46 # s) d)"
    using ahas_keys [OF plan_keys_ok [OF ds sfx, of lg] d] unfolding K plain [symmetric] pres [symmetric] by blast
  also have "\<dots> \<longleftrightarrow> d \<in> set ds \<or> (\<exists>s \<in> set sfx. hd s = 46 \<and> suffix s d) \<or> (\<exists>s \<in> set sfx. hd s \<noteq> 46 \<and> (d = s \<or> suffix (46 # s) d))"
    using seen by (auto simp: suffix_seen_def)
  also have "\<dots> \<longleftrightarrow> accepts ds sfx d" by (auto simp: accepts_def list_ex_iff)
  finally show ?thesis .
qed

text \<open>
  C25. A matcher accepts exactly what its arguments say. For non-empty lists of domains and suffixes
  of valid UTF-8 above the two reserved labels, with no empty suffix and below the size at which
  positions overflow \<open>int32\<close>, \<open>NewMatcher\<close> returns a matcher, and \<open>Match\<close> of every such domain is true
  if the domain is listed, if it ends with a suffix that starts with a dot, or if it is another suffix
  or ends with a dot and that suffix. The legacy form of the keys makes no difference.
\<close>

theorem matcher_Match:
  assumes "list_all dom_ok ds" "list_all (\<lambda>s. dom_ok s \<and> s \<noteq> []) sfx" "ds \<noteq> [] \<or> sfx \<noteq> []"
    "2 * input_size ds sfx + 64 \<le> 2 ^ 31" "dom_ok d"
  shows "NewMatcher (map utf8 ds) (map utf8 sfx) lg \<bind> (\<lambda>m. Match m (utf8 d)) = Some (accepts ds sfx d)"
proof -
  obtain N s where m: "NewMatcher (map utf8 ds) (map utf8 sfx) lg = Some \<lparr>set_of = s\<rparr>" "louds N s"
    "N ! 0 = sort (map enc (snd (plan_of lg ds sfx)))" by (rule NewMatcher_set [OF assms(1-4)])
  have sfx: "list_all dom_ok sfx" using assms(2) by (simp add: list_all_iff)
  have "list_all (\<lambda>c. 13 < c) (enc d)" using bytes_above [OF assms(5)] by (simp add: list_all_iff)
  then have "has_from s (int 0) (int (0 + before N 0)) (enc d) = Some (ahas (set (N ! 0)) (enc d))"
    using has_from_ahas [OF m(2), of 0] m(2) by (auto simp: louds_def)
  moreover have "before N 0 = 0" by (simp add: before_def child_nodes_def)
  ultimately have "has \<lparr>set_of = s\<rparr> (enc d) = Some (accepts ds sfx d)"
    using plan_accepts [OF assms(1) sfx assms(5), of lg] m(3) by (simp add: has_def)
  then show ?thesis using m(1) reverse_enc [OF dom_ok_valid [OF assms(5)]] by (simp add: Match_def)
qed

theorem matcher_Match_witness:
  "NewMatcher (map utf8 [[97, 0x20AC]]) (map utf8 [[46, 98], [99]]) True \<bind> (\<lambda>m. Match m (utf8 [100, 46, 99])) = Some True \<and>
   NewMatcher (map utf8 [[97, 0x20AC]]) (map utf8 [[46, 98], [99]]) True \<bind> (\<lambda>m. Match m (utf8 [98])) = Some False"
proof -
  have "accepts [[97, 0x20AC]] [[46, 98], [99]] [100, 46, 99]" "\<not> accepts [[97, 0x20AC]] [[46, 98], [99]] [98]"
    by (simp_all add: accepts_def suffix_Cons)
  then show ?thesis
    using matcher_Match [of "[[97, 0x20AC]]" "[[46, 98], [99]]" "[100, 46, 99]" True] matcher_Match [of "[[97, 0x20AC]]" "[[46, 98], [99]]" "[98]" True]
    by (simp add: input_size_def cost_def utf8_def encode_rune_def encode_nats_def valid_rune_def)
qed


end
