(* ===== verification/MatcherIO.thy ===== *)
theory MatcherIO
  imports MatcherBuild BufferLaws
begin

text \<open>
  Storing a matcher: \<open>Write\<close> of the succinct set to a \<open>varbin.Writer\<close> and \<open>readSuccinctSet\<close>, which
  computes the rank and select indexes again. The reader trusts the lengths it finds and allocates
  before it reads; \<open>maxAlloc\<close> is the size in bytes above which the run time panics instead of
  allocating.
\<close>

section \<open>Readers that may panic\<close>

type_synonym 'a prd = "reader \<Rightarrow> ((go_error + 'a) \<times> reader) option"

definition prd_lift :: "'a rd \<Rightarrow> 'a prd" where
  "prd_lift p r = Some (p r)"

definition prd_bind :: "'a prd \<Rightarrow> ('a \<Rightarrow> 'b prd) \<Rightarrow> 'b prd" where
  "prd_bind p f r = do { (v, r') \<leftarrow> p r; case v of Inl err \<Rightarrow> Some (Inl err, r') | Inr x \<Rightarrow> f x r' }"

text \<open>\<open>make\<close> of a slice of \<open>n\<close> elements of the given size.\<close>

definition go_make :: "nat \<Rightarrow> nat \<Rightarrow> uint64 \<Rightarrow> 'a prd \<Rightarrow> 'a prd" where
  "go_make maxAlloc width n p r = (if width * unat n \<le> maxAlloc then p r else None)"

section \<open>Big-endian integers\<close>

fun be_digits :: "nat \<Rightarrow> nat \<Rightarrow> bytes" where
  "be_digits 0 n = []"
| "be_digits (Suc k) n = be_digits k (n div 256) @ [of_nat (n mod 256)]"

definition of_be :: "bytes \<Rightarrow> nat" where
  "of_be bs = foldl (\<lambda>a b. a * 256 + unat b) 0 bs"

definition be64 :: "uint64 \<Rightarrow> bytes" where
  "be64 w = be_digits 8 (unat w)"

fun of_be64s :: "nat \<Rightarrow> bytes \<Rightarrow> uint64 list" where
  "of_be64s 0 bs = []"
| "of_be64s (Suc n) bs = of_nat (of_be (take 8 bs)) # of_be64s n (drop 8 bs)"

section \<open>Slices\<close>

definition writeUint64Slice ::
  "'w write_byte \<Rightarrow> ('w \<Rightarrow> bytes \<Rightarrow> ((nat \<times> go_error option) \<times> 'w) option) \<Rightarrow> uint64 list \<Rightarrow> 'w write_op" where
  "writeUint64Slice wb wr vs =
     w_then (common_Error (\<lambda>w. WriteUvarint wb w (of_nat (length vs))))
       (if vs = [] then w_skip else common_Error (\<lambda>w. wr w (concat (map be64 vs))))"

definition writeByteSlice ::
  "'w write_byte \<Rightarrow> ('w \<Rightarrow> bytes \<Rightarrow> ((nat \<times> go_error option) \<times> 'w) option) \<Rightarrow> bytes \<Rightarrow> 'w write_op" where
  "writeByteSlice wb wr vs =
     w_then (common_Error (\<lambda>w. WriteUvarint wb w (of_nat (length vs))))
       (if vs = [] then w_skip else common_Error (\<lambda>w. wr w vs))"

definition readUint64Slice :: "nat \<Rightarrow> uint64 list prd" where
  "readUint64Slice maxAlloc =
     prd_bind (prd_lift ReadUvarint) (\<lambda>n.
       if n = 0 then prd_lift (rd_return [])
       else go_make maxAlloc 8 n
              (prd_lift (rd_bind (ReadFull (8 * unat n)) (\<lambda>bs. rd_return (of_be64s (unat n) bs)))))"

definition readByteSlice :: "nat \<Rightarrow> bytes prd" where
  "readByteSlice maxAlloc =
     prd_bind (prd_lift ReadUvarint) (\<lambda>n.
       if n = 0 then prd_lift (rd_return []) else go_make maxAlloc 1 n (prd_lift (ReadFull (unat n))))"

section \<open>Sets and matchers\<close>

definition succinct_Write ::
  "'w write_byte \<Rightarrow> ('w \<Rightarrow> bytes \<Rightarrow> ((nat \<times> go_error option) \<times> 'w) option) \<Rightarrow> succinctSet \<Rightarrow> 'w write_op" where
  "succinct_Write wb wr ss =
     w_then (\<lambda>w. wb w 0) (w_then (writeUint64Slice wb wr (leaves ss))
       (w_then (writeUint64Slice wb wr (labelBitmap ss)) (writeByteSlice wb wr (labels ss))))"

definition readSuccinctSet :: "nat \<Rightarrow> succinctSet prd" where
  "readSuccinctSet maxAlloc =
     prd_bind (prd_lift ReadByte) (\<lambda>_. prd_bind (readUint64Slice maxAlloc) (\<lambda>lv. prd_bind (readUint64Slice maxAlloc) (\<lambda>bm.
       prd_bind (readByteSlice maxAlloc) (\<lambda>ls. prd_lift (rd_return (succinct_init lv bm ls))))))"

definition Matcher_Write ::
  "'w write_byte \<Rightarrow> ('w \<Rightarrow> bytes \<Rightarrow> ((nat \<times> go_error option) \<times> 'w) option) \<Rightarrow> Matcher \<Rightarrow> 'w write_op" where
  "Matcher_Write wb wr m = succinct_Write wb wr (set_of m)"

definition ReadMatcher :: "nat \<Rightarrow> Matcher prd" where
  "ReadMatcher maxAlloc = prd_bind (readSuccinctSet maxAlloc) (\<lambda>s. prd_lift (rd_return \<lparr>set_of = s\<rparr>))"

section \<open>Reading what was written\<close>

definition pyields :: "'a prd \<Rightarrow> bytes \<Rightarrow> 'a \<Rightarrow> bool" where
  "pyields p bs v \<longleftrightarrow> (\<forall>rest e. p \<lparr>rdata = bs @ rest, rerr = e\<rparr> = Some (Inr v, \<lparr>rdata = rest, rerr = e\<rparr>))"

definition pstarves :: "'a prd \<Rightarrow> bytes \<Rightarrow> bool" where
  "pstarves p bs \<longleftrightarrow> (\<forall>k e. k < length bs \<longrightarrow> (\<exists>err r. p \<lparr>rdata = take k bs, rerr = e\<rparr> = Some (Inl err, r)))"

lemma pyields_lift: "yields p bs v \<Longrightarrow> pyields (prd_lift p) bs v"
  by (simp add: pyields_def yields_def prd_lift_def)

lemma pstarves_lift: "starves p bs \<Longrightarrow> pstarves (prd_lift p) bs"
  by (simp add: pstarves_def starves_def prd_lift_def)

lemma pyields_bind: "pyields p bs v \<Longrightarrow> pyields (f v) cs w \<Longrightarrow> pyields (prd_bind p f) (bs @ cs) w"
  by (simp add: pyields_def prd_bind_def)

lemma pstarves_bind:
  assumes y: "pyields p bs v" and p: "pstarves p bs" and f: "pstarves (f v) cs"
  shows "pstarves (prd_bind p f) (bs @ cs)"
  unfolding pstarves_def
proof (intro allI impI)
  fix k e
  assume k: "k < length (bs @ cs)"
  show "\<exists>err r. prd_bind p f \<lparr>rdata = take k (bs @ cs), rerr = e\<rparr> = Some (Inl err, r)"
  proof (cases "k < length bs")
    case True
    then obtain err r where "p \<lparr>rdata = take k bs, rerr = e\<rparr> = Some (Inl err, r)" using p unfolding pstarves_def by blast
    with True show ?thesis by (simp add: prd_bind_def)
  next
    case False
    then have s: "take k (bs @ cs) = bs @ take (k - length bs) cs" by simp
    from False k have "k - length bs < length cs" by simp
    then obtain err r where "f v \<lparr>rdata = take (k - length bs) cs, rerr = e\<rparr> = Some (Inl err, r)" using f unfolding pstarves_def by blast
    moreover have "p \<lparr>rdata = bs @ take (k - length bs) cs, rerr = e\<rparr> = Some (Inr v, \<lparr>rdata = take (k - length bs) cs, rerr = e\<rparr>)"
      using y unfolding pyields_def by blast
    ultimately show ?thesis unfolding s by (simp add: prd_bind_def)
  qed
qed

lemma length_be_digits [simp]: "length (be_digits k n) = k"
  by (induction k arbitrary: n) simp_all

lemma of_be_digits: "of_be (be_digits k n) = n mod 256 ^ k"
proof (induction k arbitrary: n)
  case 0
  show ?case by (simp add: of_be_def)
next
  case (Suc k)
  have "n mod 256 ^ Suc k = n div 256 mod 256 ^ k * 256 + n mod 256" by (simp add: mod_mult2_eq)
  moreover have "unat (of_nat (n mod 256) :: byte) = n mod 256" by (rule unat_byte) simp
  ultimately show ?case using Suc [of "n div 256"] by (simp add: of_be_def)
qed

lemma of_be64_be64: "of_nat (of_be (be64 w)) = w"
proof -
  have "unat w < 256 ^ 8" using unsigned_less [of w, where ?'a = nat] by simp
  then show ?thesis by (simp add: be64_def of_be_digits)
qed

lemma length_be64 [simp]: "length (be64 w) = 8"
  by (simp add: be64_def)

lemma of_be64s_be64: "of_be64s (length vs) (concat (map be64 vs)) = vs"
  by (induction vs) (simp_all add: of_be64_be64)

definition slice_bytes :: "nat \<Rightarrow> bytes \<Rightarrow> bytes" where
  "slice_bytes n d = uvarint_bytes (of_nat n) @ d"

lemma count_bounds: "n < 2 ^ 64 \<Longrightarrow> unat (of_nat n :: uint64) = n" "n < 2 ^ 64 \<Longrightarrow> (of_nat n :: uint64) = 0 \<longleftrightarrow> n = 0"
  by (simp_all add: unat_of_nat word_unat_eq_iff [of "of_nat n"] take_bit_nat_eq_self)

lemma length_concat8: "length (concat (map be64 vs)) = 8 * length vs"
  by (induction vs) simp_all

lemma readUint64Slice_codec:
  assumes "8 * length vs \<le> maxAlloc" "length vs < 2 ^ 64"
  shows "pyields (readUint64Slice maxAlloc) (slice_bytes (length vs) (concat (map be64 vs))) vs"
    "pstarves (readUint64Slice maxAlloc) (slice_bytes (length vs) (concat (map be64 vs)))"
proof -
  let ?n = "of_nat (length vs) :: uint64" and ?d = "concat (map be64 vs)"
  let ?read = "rd_bind (ReadFull (8 * length vs)) (\<lambda>bs. rd_return (of_be64s (length vs) bs))"
  let ?f = "\<lambda>n :: uint64. if n = 0 then prd_lift (rd_return []) else go_make maxAlloc 8 n
      (prd_lift (rd_bind (ReadFull (8 * unat n)) (\<lambda>bs. rd_return (of_be64s (unat n) bs))))"
  have "yields ?read ?d vs"
    by (rule yields_bind_Nil [OF yields_ReadFull]) (simp_all add: length_concat8 of_be64s_be64 yields_return)
  moreover have "starves ?read ?d" by (rule starves_bind_Nil [OF yields_ReadFull starves_ReadFull]) (simp_all add: length_concat8)
  moreover have "?f ?n = (if vs = [] then prd_lift (rd_return []) else prd_lift ?read)"
    using assms by (auto simp: count_bounds go_make_def fun_eq_iff)
  ultimately have f: "pyields (?f ?n) ?d vs" "pstarves (?f ?n) ?d"
    by (auto simp: pyields_lift pstarves_lift yields_return)
  show "pyields (readUint64Slice maxAlloc) (slice_bytes (length vs) ?d) vs"
    unfolding readUint64Slice_def slice_bytes_def by (rule pyields_bind [where f = ?f, OF pyields_lift [OF yields_ReadUvarint] f(1)])
  show "pstarves (readUint64Slice maxAlloc) (slice_bytes (length vs) ?d)"
    unfolding readUint64Slice_def slice_bytes_def
    by (rule pstarves_bind [where f = ?f, OF pyields_lift [OF yields_ReadUvarint] pstarves_lift [OF starves_ReadUvarint] f(2)])
qed

lemma readByteSlice_codec:
  assumes "length vs \<le> maxAlloc" "length vs < 2 ^ 64"
  shows "pyields (readByteSlice maxAlloc) (slice_bytes (length vs) vs) vs" "pstarves (readByteSlice maxAlloc) (slice_bytes (length vs) vs)"
proof -
  let ?n = "of_nat (length vs) :: uint64"
  let ?f = "\<lambda>n :: uint64. if n = 0 then prd_lift (rd_return []) else go_make maxAlloc 1 n (prd_lift (ReadFull (unat n)))"
  have "?f ?n = (if vs = [] then prd_lift (rd_return []) else prd_lift (ReadFull (length vs)))"
    using assms by (auto simp: count_bounds go_make_def fun_eq_iff)
  then have f: "pyields (?f ?n) vs vs" "pstarves (?f ?n) vs"
    by (auto simp: pyields_lift pstarves_lift yields_return yields_ReadFull starves_ReadFull)
  show "pyields (readByteSlice maxAlloc) (slice_bytes (length vs) vs) vs"
    unfolding readByteSlice_def slice_bytes_def by (rule pyields_bind [where f = ?f, OF pyields_lift [OF yields_ReadUvarint] f(1)])
  show "pstarves (readByteSlice maxAlloc) (slice_bytes (length vs) vs)"
    unfolding readByteSlice_def slice_bytes_def
    by (rule pstarves_bind [where f = ?f, OF pyields_lift [OF yields_ReadUvarint] pstarves_lift [OF starves_ReadUvarint] f(2)])
qed

section \<open>A stored matcher\<close>

lemma common_Error_WriteUvarint_loop:
  "x < 0x80 \<Longrightarrow> common_Error (\<lambda>w. WriteUvarint_loop wb n w x) = (\<lambda>w. wb w (ucast x))"
  "0x80 \<le> x \<Longrightarrow> common_Error (\<lambda>w. WriteUvarint_loop wb n w x) =
     w_then (\<lambda>w. wb w (ucast x OR 0x80)) (common_Error (\<lambda>w. WriteUvarint_loop wb (n + 1) w (drop_bit 7 x)))"
  by (auto simp: fun_eq_iff common_Error_def w_then_def WriteUvarint_loop.simps [of wb n _ x] split: option.splits prod.splits bind_splits)

lemma puts_WriteUvarint: "puts (common_Error (\<lambda>b. WriteUvarint WriteByte b x)) (uvarint_bytes x)"
proof -
  have "puts (common_Error (\<lambda>b. WriteUvarint_loop WriteByte n b x)) (uvarint_bytes x)" for n
  proof (induction x arbitrary: n rule: uvarint_induct)
    case (small x)
    show ?case unfolding common_Error_WriteUvarint_loop(1) [OF small] uvarint_bytes_small [OF small] by (rule puts_WriteByte)
  next
    case (big x)
    show ?case unfolding common_Error_WriteUvarint_loop(2) [OF big.hyps] uvarint_bytes_big [OF big.hyps]
      by (rule puts_step [OF puts_WriteByte big.IH])
  qed
  then show ?thesis by (simp add: WriteUvarint_def)
qed

lemma puts_writeSlice:
  "puts (writeUint64Slice WriteByte Write vs) (slice_bytes (length vs) (concat (map be64 vs)))"
  "puts (writeByteSlice WriteByte Write ls) (slice_bytes (length ls) ls)"
  unfolding writeUint64Slice_def writeByteSlice_def slice_bytes_def
  by (rule puts_then [OF puts_WriteUvarint], simp add: puts_skip puts_Write)+

definition matcher_bytes :: "Matcher \<Rightarrow> bytes" where
  "matcher_bytes m = [0] @ slice_bytes (length (leaves (set_of m))) (concat (map be64 (leaves (set_of m)))) @
     slice_bytes (length (labelBitmap (set_of m))) (concat (map be64 (labelBitmap (set_of m)))) @
     slice_bytes (length (labels (set_of m))) (labels (set_of m)) @ []"

definition matcher_fits :: "nat \<Rightarrow> Matcher \<Rightarrow> bool" where
  "matcher_fits maxAlloc m \<longleftrightarrow> 8 * length (leaves (set_of m)) \<le> maxAlloc \<and> 8 * length (labelBitmap (set_of m)) \<le> maxAlloc \<and>
     length (labels (set_of m)) \<le> maxAlloc"

lemma puts_Matcher_Write: "puts (Matcher_Write WriteByte Write m) (matcher_bytes m)"
  unfolding Matcher_Write_def succinct_Write_def matcher_bytes_def append_Nil2 by (intro puts_then puts_writeSlice puts_WriteByte)

lemma ReadMatcher_codec:
  assumes fit: "matcher_fits maxAlloc m" "maxAlloc < 2 ^ 63"
    and init: "set_of m = succinct_init (leaves (set_of m)) (labelBitmap (set_of m)) (labels (set_of m))"
  shows "pyields (ReadMatcher maxAlloc) (matcher_bytes m) m" "pstarves (ReadMatcher maxAlloc) (matcher_bytes m)"
proof -
  let ?s = "set_of m"
  have l: "8 * length (leaves ?s) \<le> maxAlloc" "length (leaves ?s) < 2 ^ 64" "8 * length (labelBitmap ?s) \<le> maxAlloc" "length (labelBitmap ?s) < 2 ^ 64"
    "length (labels ?s) \<le> maxAlloc" "length (labels ?s) < 2 ^ 64" using fit by (simp_all add: matcher_fits_def)
  note R = readUint64Slice_codec [OF l(1,2)] readUint64Slice_codec [OF l(3,4)] readByteSlice_codec [OF l(5,6)]
  have last: "yields (rd_return (succinct_init (leaves ?s) (labelBitmap ?s) (labels ?s))) [] ?s" unfolding init [symmetric] by (rule yields_return)
  have set: "pyields (readSuccinctSet maxAlloc) (matcher_bytes m) ?s" "pstarves (readSuccinctSet maxAlloc) (matcher_bytes m)"
    unfolding readSuccinctSet_def matcher_bytes_def
    by (rule pyields_bind pyields_lift yields_ReadByte R last pstarves_bind pstarves_lift starves_ReadByte starves_Nil)+
  have out: "pyields (prd_lift (rd_return \<lparr>set_of = ?s\<rparr>)) [] m" by (rule pyields_lift) (cases m, simp add: yields_return)
  show "pyields (ReadMatcher maxAlloc) (matcher_bytes m) m" unfolding ReadMatcher_def using pyields_bind [where f = "\<lambda>s. prd_lift (rd_return \<lparr>set_of = s\<rparr>)", OF set(1) out] by simp
  show "pstarves (ReadMatcher maxAlloc) (matcher_bytes m)" unfolding ReadMatcher_def
    using pstarves_bind [where f = "\<lambda>s. prd_lift (rd_return \<lparr>set_of = s\<rparr>)", OF set(1,2) pstarves_lift [OF starves_Nil]] by simp
qed

lemma newSuccinctSet_init: "newSuccinctSet keys = Some s \<Longrightarrow> s = succinct_init (leaves s) (labelBitmap s) (labels s)"
  by (auto simp: newSuccinctSet_def succinct_init_def indexSelect32R64_def split: bind_splits)

text \<open>
  C27. A stored matcher is the matcher. \<open>Write\<close> of a matcher that \<open>NewMatcher\<close> built succeeds on every
  buffer with room for it and appends one encoding; \<open>ReadMatcher\<close> of that encoding, whatever follows
  it, returns the same matcher, indexes included, and consumes exactly the encoding; on every proper
  prefix it reports an error, and it never panics on either, where the run time can allocate the slices.
\<close>

theorem matcher_roundtrip:
  assumes "NewMatcher ds sfx lg = Some m" "matcher_fits maxAlloc m" "maxAlloc < 2 ^ 63" "wf_buffer b" "length (matcher_bytes m) \<le> freeroom b"
  shows "\<exists>b' d. Matcher_Write WriteByte Write m b = Some (None, b') \<and> contents b' = contents b @ d \<and>
    (\<forall>rest e. ReadMatcher maxAlloc \<lparr>rdata = d @ rest, rerr = e\<rparr> = Some (Inr m, \<lparr>rdata = rest, rerr = e\<rparr>)) \<and>
    (\<forall>k e. k < length d \<longrightarrow> (\<exists>err r. ReadMatcher maxAlloc \<lparr>rdata = take k d, rerr = e\<rparr> = Some (Inl err, r)))"
proof -
  have "set_of m = succinct_init (leaves (set_of m)) (labelBitmap (set_of m)) (labels (set_of m))"
    using assms(1) newSuccinctSet_init by (fastforce simp: NewMatcher_def split: bind_splits)
  note C = ReadMatcher_codec [OF assms(2,3) this]
  obtain b' where "Matcher_Write WriteByte Write m b = Some (None, b')" "contents b' = contents b @ matcher_bytes m"
    by (rule putsD [OF puts_Matcher_Write assms(4,5)])
  then show ?thesis using C unfolding pyields_def pstarves_def by blast
qed

lemma small_matcher:
  "NewMatcher [[97]] [] False = Some \<lparr>set_of = \<lparr>leaves = [2], labelBitmap = [6], labels = [97], ranks = [0, 2], selects = [1]\<rparr>\<rparr>"
  by code_simp

lemma small_matcher_bytes:
  "length (matcher_bytes \<lparr>set_of = \<lparr>leaves = [2], labelBitmap = [6], labels = [97], ranks = [0, 2], selects = [1]\<rparr>\<rparr>) \<le> 50"
  using length_uvarint_bounds(2) [of 1] by (simp add: matcher_bytes_def slice_bytes_def)

theorem matcher_roundtrip_witness:
  "\<exists>b' d. Matcher_Write WriteByte Write (the (NewMatcher [[97]] [] False)) (buf_With \<lparr>arr = replicate 50 0, slen = 50\<rparr>) = Some (None, b') \<and>
    contents b' = d \<and> ReadMatcher (2 ^ 47) \<lparr>rdata = d @ [7], rerr = EOF\<rparr> = Some (Inr (the (NewMatcher [[97]] [] False)), \<lparr>rdata = [7], rerr = EOF\<rparr>)"
  using matcher_roundtrip [OF small_matcher, of "2 ^ 47" "buf_With \<lparr>arr = replicate 50 0, slen = 50\<rparr>"] small_matcher small_matcher_bytes
  by (auto simp: matcher_fits_def buf_With_def zero_buffer_def wf_buffer_def freeroom_def contents_def)

end
