(* ===== verification/MatcherDump.thy ===== *)
theory MatcherDump
  imports MatcherBuild
begin

text \<open>
  \<open>Dump\<close> takes the keys apart again. What it returns describes the same matcher, although a suffix
  and its own domain come back as one entry.
\<close>

section \<open>Sorting keys into domains and suffixes\<close>

lemma reverse_key: "key_ok k \<Longrightarrow> reverseDomain (enc k) = Some (utf8 k)"
  using reverseDomain_utf8 [of "rev k"] key_ok_valid [of k] by (simp add: enc_def valid_rev)

lemma key_first:
  assumes "key_ok k" "k \<noteq> []"
  shows "\<exists>b w. utf8 k = b # w \<and> (b = 13 \<longleftrightarrow> hd k = 13) \<and> (b = 10 \<longleftrightarrow> hd k = 10) \<and> (b = 13 \<or> b = 10 \<longrightarrow> w = utf8 (tl k) \<and> dom_ok (tl k)) \<and>
    (b \<noteq> 13 \<longrightarrow> b \<noteq> 10 \<longrightarrow> dom_ok k)"
proof -
  consider r s where "k = r # s" "dom_ok (r # s)" | s where "k = 13 # s" "dom_ok s" | s where "k = 10 # s" "dom_ok s"
    using assms unfolding key_ok_def by (cases k) blast+
  then show ?thesis
  proof cases
    case 1
    obtain b w where b: "utf8 k = b # w" using 1 by (cases "encode_rune r") auto
    then have "b \<in> set (enc (rev k))" by (simp add: enc_def)
    moreover have "dom_ok (rev k)" using 1 by (simp add: dom_ok_def)
    ultimately have "13 < b" by (rule bytes_above [rotated])
    then have "b \<noteq> 13" "b \<noteq> 10" by auto
    then show ?thesis using b 1 by auto
  qed (auto simp: encode_ascii)
qed

definition dump_ok :: "nat list list \<Rightarrow> dump_state \<Rightarrow> bool" where
  "dump_ok L d \<longleftrightarrow> set (domainMap d) = utf8 ` {k \<in> set L. dom_ok k} \<and> set (prefixMap d) = utf8 ` {s. 13 # s \<in> set L} \<and>
     set (prefixList d) = utf8 ` {s. 10 # s \<in> set L} \<and> distinct (prefixMap d) \<and> distinct (domainMap d)"

lemma dump_keys_ok:
  "list_all (\<lambda>k. key_ok k \<and> k \<noteq> []) L \<Longrightarrow> dump_ok M d \<Longrightarrow> \<exists>d'. dump_keys (map enc L) d = Some d' \<and> dump_ok (M @ L) d'"
proof (induction L arbitrary: M d)
  case (Cons k L)
  have k: "key_ok k" "k \<noteq> []" using Cons.prems(1) by simp_all
  obtain b w where b: "utf8 k = b # w" "b = 13 \<longleftrightarrow> hd k = 13" "b = 10 \<longleftrightarrow> hd k = 10" "b = 13 \<or> b = 10 \<Longrightarrow> w = utf8 (tl k) \<and> dom_ok (tl k)"
    "b \<noteq> 13 \<Longrightarrow> b \<noteq> 10 \<Longrightarrow> dom_ok k" using key_first [OF k] by blast
  let ?d = "if b = 13 then d\<lparr>prefixMap := List.insert w (prefixMap d)\<rparr> else if b = 10 then d\<lparr>prefixList := prefixList d @ [w]\<rparr>
      else d\<lparr>domainMap := List.insert (utf8 k) (domainMap d)\<rparr>"
  obtain r s where rs: "k = r # s" using k(2) by (cases k) auto
  consider "b = 13" "r = 13" "w = utf8 s" "\<not> dom_ok k" | "b = 10" "r = 10" "w = utf8 s" "\<not> dom_ok k" | "b \<noteq> 13" "b \<noteq> 10" "r \<noteq> 13" "r \<noteq> 10" "dom_ok k"
    using b rs by auto
  then have "dump_ok (M @ [k]) ?d"
    by cases (use Cons.prems(2) rs in \<open>auto simp: dump_ok_def simp del: utf8_simps(2) dom_ok_simps(2)\<close>)
  from Cons.IH [OF _ this] obtain d' where d': "dump_keys (map enc L) ?d = Some d'" "dump_ok ((M @ [k]) @ L) d'"
    using Cons.prems(1) by auto
  have "dump_keys (map enc (k # L)) d = Some d'"
    using reverse_key [OF k(1)] b(1) d'(1) by (simp add: prefixLabel_def rootLabel_def split: if_splits)
  then show ?case using d'(2) by simp
qed simp

lemma dump_prefixes_ok:
  "list_all (\<lambda>p. p \<noteq> [] \<and> hd p = 46) ps \<Longrightarrow> distinct ps \<Longrightarrow>
   \<exists>d'. dump_prefixes ps d = Some d' \<and> set (domainMap d') = set (domainMap d) - tl ` set ps \<and>
     set (prefixList d') = set (prefixList d) \<union> {t. 46 # t \<in> set ps \<and> t \<in> set (domainMap d)} \<union> {p \<in> set ps. tl p \<notin> set (domainMap d)}"
proof (induction ps arbitrary: d)
  case (Cons p ps)
  obtain t where p: "p = 46 # t" using Cons.prems(1) by (cases p) auto
  let ?d = "if t \<in> set (domainMap d) then d\<lparr>domainMap := removeAll t (domainMap d), prefixList := prefixList d @ [t]\<rparr>
      else d\<lparr>prefixList := prefixList d @ [p]\<rparr>"
  obtain d' where d': "dump_prefixes ps ?d = Some d'" "set (domainMap d') = set (domainMap ?d) - tl ` set ps"
    "set (prefixList d') = set (prefixList ?d) \<union> {t. 46 # t \<in> set ps \<and> t \<in> set (domainMap ?d)} \<union> {p \<in> set ps. tl p \<notin> set (domainMap ?d)}"
    using Cons.IH [of ?d] Cons.prems by auto
  have other: "tl q \<noteq> t" if "q \<in> set ps" for q
    using Cons.prems that p by (auto simp: list_all_iff neq_Nil_conv)
  have other': "46 # u \<in> set ps \<Longrightarrow> u \<noteq> t" for u using other by force
  have run: "dump_prefixes (p # ps) d = Some d'" using d'(1) by (simp add: p split: if_splits)
  moreover have "set (domainMap d') = set (domainMap d) - tl ` set (p # ps)" using d'(2) p by auto
  moreover have "set (prefixList d') = set (prefixList d) \<union> {u. 46 # u \<in> set (p # ps) \<and> u \<in> set (domainMap d)} \<union> {q \<in> set (p # ps). tl q \<notin> set (domainMap d)}"
    using d'(3) p other other' by (cases "t \<in> set (domainMap d)") auto
  ultimately show ?case by blast
qed simp

section \<open>The dump of a new matcher\<close>

lemma map_onto:
  assumes "set xs = f ` A"
  shows "\<exists>ys. xs = map f ys \<and> set ys \<subseteq> A"
proof -
  have "\<forall>x \<in> set xs. \<exists>y. x = f y \<and> y \<in> A" using assms by auto
  then have "\<exists>ys. xs = map f ys \<and> (\<forall>y \<in> set ys. y \<in> A)" by (induction xs) (auto, metis list.simps(9) set_ConsD)
  then show ?thesis by blast
qed

lemma map_onto_inj: "set xs = f ` A \<Longrightarrow> inj_on f A \<Longrightarrow> \<exists>ys. xs = map f ys \<and> set ys = A"
  using map_onto [of xs f A] by (metis inj_on_image_eq_iff list.set_map order_refl)

lemma utf8_inj_on: "\<forall>s \<in> A. dom_ok s \<Longrightarrow> inj_on utf8 A"
  using utf8_inj dom_ok_valid by (meson inj_onI)

lemma accepts_merge:
  assumes P: "\<forall>s \<in> P. \<exists>t. s = 46 # t" and R: "\<forall>s \<in> R. hd s \<noteq> 46" and D: "\<forall>s \<in> D. hd s \<noteq> (46 :: nat)"
    and ds: "set ds' = {t \<in> D. 46 # t \<notin> P}" and sfx: "set sfx' = R \<union> {t. 46 # t \<in> P \<and> t \<in> D} \<union> {s \<in> P. tl s \<notin> D}"
  shows "accepts ds' sfx' d \<longleftrightarrow> d \<in> D \<or> d \<in> R \<or> (\<exists>s \<in> P. suffix s d) \<or> (\<exists>s \<in> R. suffix (46 # s) d)"
proof
  assume "accepts ds' sfx' d"
  then consider "d \<in> set ds'" | s where "s \<in> set sfx'" "if hd s = 46 then suffix s d else d = s \<or> suffix (46 # s) d"
    by (auto simp: accepts_def list_ex_iff)
  then show "d \<in> D \<or> d \<in> R \<or> (\<exists>s \<in> P. suffix s d) \<or> (\<exists>s \<in> R. suffix (46 # s) d)"
  proof cases
    case 1
    then show ?thesis using ds by simp
  next
    case 2
    consider "s \<in> R" | "46 # s \<in> P" "s \<in> D" | t where "s = 46 # t" "s \<in> P" using 2(1) P unfolding sfx by blast
    then show ?thesis
    proof cases
      case 1
      then show ?thesis using 2(2) R by auto
    next
      case 2
      moreover from this have "d = s \<or> suffix (46 # s) d" using D \<open>if hd s = 46 then _ else _\<close> by auto
      ultimately show ?thesis by blast
    next
      case 3
      then show ?thesis using 2(2) by auto
    qed
  qed
next
  assume "d \<in> D \<or> d \<in> R \<or> (\<exists>s \<in> P. suffix s d) \<or> (\<exists>s \<in> R. suffix (46 # s) d)"
  then consider "d \<in> D" "46 # d \<notin> P" | "d \<in> D" "46 # d \<in> P" | s where "s \<in> R" "d = s \<or> suffix (46 # s) d"
    | s where "s \<in> P" "suffix s d" by blast
  then show "accepts ds' sfx' d"
  proof cases
    case 1
    then show ?thesis by (simp add: accepts_def ds)
  next
    case 2
    then have "d \<in> set sfx'" "hd d \<noteq> 46" using D by (simp_all add: sfx)
    then show ?thesis by (auto simp: accepts_def list_ex_iff)
  next
    case 3
    then have "s \<in> set sfx'" "hd s \<noteq> 46" using R by (simp_all add: sfx)
    then show ?thesis using 3 by (auto simp: accepts_def list_ex_iff)
  next
    case 4
    obtain t where t: "s = 46 # t" using P 4(1) by blast
    show ?thesis
    proof (cases "t \<in> D")
      case True
      then have "t \<in> set sfx'" "hd t \<noteq> 46" using D 4(1) t by (simp_all add: sfx)
      then show ?thesis using 4(2) t by (auto simp: accepts_def list_ex_iff)
    next
      case False
      then have "s \<in> set sfx'" "hd s = 46" using 4(1) t by (simp_all add: sfx)
      then show ?thesis using 4(2) by (auto simp: accepts_def list_ex_iff)
    qed
  qed
qed

lemma dump_images:
  assumes P: "\<forall>s \<in> P. dom_ok s \<and> (\<exists>t. s = 46 # t)" and D: "\<forall>s \<in> D. dom_ok s"
  shows "utf8 ` D - tl ` utf8 ` P = utf8 ` {t \<in> D. 46 # t \<notin> P}"
    "{t. 46 # t \<in> utf8 ` P \<and> t \<in> utf8 ` D} = utf8 ` {t. 46 # t \<in> P \<and> t \<in> D}"
    "{p \<in> utf8 ` P. tl p \<notin> utf8 ` D} = utf8 ` {s \<in> P. tl s \<notin> D}"
proof -
  have mem: "utf8 s \<in> utf8 ` A \<longleftrightarrow> s \<in> A" if "dom_ok s" "\<forall>s \<in> A. dom_ok s" for s A
    using that utf8_inj dom_ok_valid by blast
  have dot: "46 # utf8 t \<in> utf8 ` P \<longleftrightarrow> 46 # t \<in> P" if "dom_ok t" for t
    using mem [of "46 # t" P] that P by (simp add: encode_ascii)
  have tails: "tl (utf8 s) = utf8 (tl s)" "dom_ok (tl s)" "s = 46 # tl s" if "s \<in> P" for s using P that by (auto simp: encode_ascii)
  have tlP: "tl ` utf8 ` P = utf8 ` {t. 46 # t \<in> P}"
  proof
    show "tl ` utf8 ` P \<subseteq> utf8 ` {t. 46 # t \<in> P}"
    proof
      fix x assume "x \<in> tl ` utf8 ` P"
      then obtain s where s: "s \<in> P" "x = tl (utf8 s)" by blast
      then have "x = utf8 (tl s)" "46 # tl s \<in> P" using tails [OF s(1)] by simp_all
      then show "x \<in> utf8 ` {t. 46 # t \<in> P}" by blast
    qed
    show "utf8 ` {t. 46 # t \<in> P} \<subseteq> tl ` utf8 ` P"
    proof
      fix x assume "x \<in> utf8 ` {t. 46 # t \<in> P}"
      then obtain t where t: "46 # t \<in> P" "x = utf8 t" by blast
      then have "x = tl (utf8 (46 # t))" using tails(1) [OF t(1)] by simp
      then show "x \<in> tl ` utf8 ` P" using t(1) by blast
    qed
  qed
  have T: "\<forall>t \<in> {t. 46 # t \<in> P}. dom_ok t" using P by auto
  have "utf8 t \<in> tl ` utf8 ` P \<longleftrightarrow> 46 # t \<in> P" if "t \<in> D" for t unfolding tlP using mem [OF _ T] that D by simp
  then show "utf8 ` D - tl ` utf8 ` P = utf8 ` {t \<in> D. 46 # t \<notin> P}" by auto
  show "{t. 46 # t \<in> utf8 ` P \<and> t \<in> utf8 ` D} = utf8 ` {t. 46 # t \<in> P \<and> t \<in> D}" using dot D by auto
  have "tl (utf8 s) \<in> utf8 ` D \<longleftrightarrow> tl s \<in> D" if "s \<in> P" for s using tails [OF that] mem [OF _ D] by simp
  then show "{p \<in> utf8 ` P. tl p \<notin> utf8 ` D} = utf8 ` {s \<in> P. tl s \<notin> D}" by auto
qed

text \<open>
  C28. What \<open>Dump\<close> returns for a new matcher describes that matcher: it does not panic, and its domains and
  suffixes accept exactly the domains that the arguments of \<open>NewMatcher\<close> accept, where no listed
  domain is empty or starts with a dot. A suffix with a leading dot whose domain is listed too comes
  back as one suffix without the dot.
\<close>

theorem matcher_Dump:
  assumes ds: "list_all (\<lambda>s. dom_ok s \<and> s \<noteq> [] \<and> hd s \<noteq> 46) ds" and sfx: "list_all (\<lambda>s. dom_ok s \<and> s \<noteq> []) sfx"
    and ne: "ds \<noteq> [] \<or> sfx \<noteq> []" and size: "2 * input_size ds sfx + 64 \<le> 2 ^ 31"
  shows "\<exists>ds' sfx'. NewMatcher (map utf8 ds) (map utf8 sfx) lg \<bind> Dump = Some (map utf8 ds', map utf8 sfx') \<and>
    (\<forall>d. dom_ok d \<longrightarrow> accepts ds' sfx' d = accepts ds sfx d)"
proof -
  let ?L = "snd (plan_of lg ds sfx)"
  have ok: "list_all dom_ok ds" "list_all dom_ok sfx" using ds sfx by (simp_all add: list_all_iff)
  obtain N m where m: "NewMatcher (map utf8 ds) (map utf8 sfx) lg = Some \<lparr>set_of = m\<rparr>" "louds N m" "N ! 0 = sort (map enc ?L)"
    by (rule NewMatcher_set [OF ok(1) sfx ne size])
  note L = plan_keys_ok [OF ok, of lg] and K = plan_facts(1) [OF ok, of lg]
  obtain L' where L': "sort (map enc ?L) = map enc L'" "set L' = set ?L"
    using map_onto_inj [of "sort (map enc ?L)" enc "set ?L"] enc_inj_on [OF L] by auto
  have shape: "list_all (\<lambda>k. key_ok k \<and> k \<noteq> []) L'"
    using L ds sfx unfolding list_all_iff L'(2) K by (auto simp: suffix_keys_def split: if_splits)
  let ?D = "{k \<in> set ?L. dom_ok k}" and ?P = "{s. 13 # s \<in> set ?L}" and ?R = "{s. 10 # s \<in> set ?L}"
  have P: "\<forall>s \<in> ?P. dom_ok s \<and> (\<exists>t. s = 46 # t)" and R: "\<forall>s \<in> ?R. dom_ok s \<and> hd s \<noteq> 46" and D: "\<forall>s \<in> ?D. dom_ok s \<and> hd s \<noteq> 46"
    unfolding K using ds sfx by (auto simp: suffix_keys_def list_all_iff neq_Nil_conv split: if_splits)
  obtain d1 where d1: "dump_keys (map enc L') \<lparr>domainMap = [], prefixMap = [], prefixList = []\<rparr> = Some d1" "dump_ok L' d1"
  proof -
    have "dump_ok [] \<lparr>domainMap = [], prefixMap = [], prefixList = []\<rparr>" by (simp add: dump_ok_def)
    from dump_keys_ok [OF shape this] that show ?thesis by auto
  qed
  have s1: "set (domainMap d1) = utf8 ` ?D" "set (prefixMap d1) = utf8 ` ?P" "set (prefixList d1) = utf8 ` ?R" "distinct (prefixMap d1)"
    using d1(2) by (auto simp: dump_ok_def L'(2))
  have dots: "list_all (\<lambda>p. p \<noteq> [] \<and> hd p = 46) (prefixMap d1)"
  proof -
    have "utf8 s \<noteq> [] \<and> hd (utf8 s) = 46" if "s \<in> ?P" for s using P that by (auto simp: encode_ascii)
    then show ?thesis by (auto simp: list_all_iff s1(2))
  qed
  obtain d2 where d2: "dump_prefixes (prefixMap d1) d1 = Some d2" "set (domainMap d2) = set (domainMap d1) - tl ` set (prefixMap d1)"
    "set (prefixList d2) = set (prefixList d1) \<union> {t. 46 # t \<in> set (prefixMap d1) \<and> t \<in> set (domainMap d1)} \<union> {p \<in> set (prefixMap d1). tl p \<notin> set (domainMap d1)}"
    using dump_prefixes_ok [OF dots s1(4), of d1] by blast
  have dm: "set (domainMap d2) = utf8 ` {t \<in> ?D. 46 # t \<notin> ?P}"
    unfolding d2(2) s1(1,2) by (rule dump_images(1)) (use P D in blast)+
  have pl: "set (prefixList d2) = utf8 ` (?R \<union> {t. 46 # t \<in> ?P \<and> t \<in> ?D} \<union> {s \<in> ?P. tl s \<notin> ?D})"
  proof -
    have "{t. 46 # t \<in> utf8 ` ?P \<and> t \<in> utf8 ` ?D} = utf8 ` {t. 46 # t \<in> ?P \<and> t \<in> ?D}"
      "{p \<in> utf8 ` ?P. tl p \<notin> utf8 ` ?D} = utf8 ` {s \<in> ?P. tl s \<notin> ?D}" by (rule dump_images; use P D in blast)+
    then show ?thesis unfolding d2(3) s1 image_Un by simp
  qed
  obtain ds' where ds': "sort (domainMap d2) = map utf8 ds'" "set ds' = {t \<in> ?D. 46 # t \<notin> ?P}"
    using map_onto_inj [of "sort (domainMap d2)" utf8 "{t \<in> ?D. 46 # t \<notin> ?P}"] utf8_inj_on dm by auto
  have okS: "\<forall>s \<in> ?R \<union> {t. 46 # t \<in> ?P \<and> t \<in> ?D} \<union> {s \<in> ?P. tl s \<notin> ?D}. dom_ok s" using P R by blast
  obtain sfx' where sfx': "sort (prefixList d2) = map utf8 sfx'" "set sfx' = ?R \<union> {t. 46 # t \<in> ?P \<and> t \<in> ?D} \<union> {s \<in> ?P. tl s \<notin> ?D}"
    using map_onto_inj [of "sort (prefixList d2)" utf8 "?R \<union> {t. 46 # t \<in> ?P \<and> t \<in> ?D} \<union> {s \<in> ?P. tl s \<notin> ?D}"] utf8_inj_on [OF okS] pl by auto
  have "accepts ds' sfx' d = accepts ds sfx d" if d: "dom_ok d" for d
  proof -
    have "accepts ds' sfx' d \<longleftrightarrow> d \<in> ?D \<or> d \<in> ?R \<or> (\<exists>s \<in> ?P. suffix s d) \<or> (\<exists>s \<in> ?R. suffix (46 # s) d)"
      by (rule accepts_merge [OF _ _ _ ds'(2) sfx'(2)]) (use P R D in blast)+
    also have "\<dots> \<longleftrightarrow> ahas (enc ` set ?L) (enc d)" unfolding ahas_keys [OF L d] using P R d by blast
    also have "\<dots> \<longleftrightarrow> accepts ds sfx d" by (rule plan_accepts [OF ok d])
    finally show ?thesis .
  qed
  moreover have "NewMatcher (map utf8 ds) (map utf8 sfx) lg \<bind> Dump = Some (map utf8 ds', map utf8 sfx')"
    using m(1,3) succinct_keys_louds [OF m(2)] L'(1) d1(1) d2(1) ds'(1) sfx'(1) by (simp add: Dump_def)
  ultimately show ?thesis by blast
qed

theorem matcher_Dump_witness:
  "\<exists>ds' sfx'. NewMatcher (map utf8 [[97]]) (map utf8 [[46, 97], [98]]) False \<bind> Dump = Some (map utf8 ds', map utf8 sfx') \<and>
    (\<forall>d. dom_ok d \<longrightarrow> accepts ds' sfx' d = accepts [[97]] [[46, 97], [98]] d)"
  by (rule matcher_Dump) (simp_all add: input_size_def cost_def utf8_def encode_rune_def encode_nats_def valid_rune_def)

end
