(* ===== verification/SyncedLru.thy ===== *)
theory SyncedLru
  imports FreeLruLaws
begin

text \<open>
  \<open>SyncedLRU\<close> of \<open>contrab/freelru/syncedlru.go\<close>: the cache behind a read-write lock, called by any
  number of goroutines. Every method takes the lock (\<open>Len\<close> for reading, the others for writing), calls
  the method of the cache and gives the lock back; \<open>GetAndRefreshOrAdd\<close> purges before it does, like the
  method of the cache itself.

  A goroutine is the calls it has still to make, their results so far and where it is in a call. A step of
  the system is a step of one goroutine: taking the lock, when the others leave it free, the body, or
  giving it back. The log records the bodies in the order they ran and is not part of the program.
\<close>

section \<open>The system\<close>

datatype ('k, 'v) pc = Idle | Holding "('k, 'v) fcall" | Leaving "('k, 'v) fcall"

record ('k, 'v) goroutine =
  todo :: "('k, 'v) fcall list"
  results :: "('k, 'v) fres list"
  pc :: "('k, 'v) pc"

record ('k, 'v) synced_lru =
  slru :: "('k, 'v) free_lru"
  threads :: "('k, 'v) goroutine list"
  slog :: "(nat \<times> ('k, 'v) fcall \<times> ('k, 'v) fres) list"

text \<open>\<open>RLock\<close> and \<open>Lock\<close>.\<close>

fun read_call :: "('k, 'v) fcall \<Rightarrow> bool" where
  "read_call FLen = True"
| "read_call _ = False"

fun writing :: "('k, 'v) pc \<Rightarrow> bool" where
  "writing Idle = False"
| "writing (Holding c) = (\<not> read_call c)"
| "writing (Leaving c) = (\<not> read_call c)"

definition lock_free :: "('k, 'v) fcall \<Rightarrow> ('k, 'v) goroutine list \<Rightarrow> bool" where
  "lock_free c ts = (if read_call c then list_all (\<lambda>g. \<not> writing (pc g)) ts else list_all (\<lambda>g. pc g = Idle) ts)"

definition NewSyncedWithSize ::
  "uint32 \<Rightarrow> uint32 \<Rightarrow> ('k \<Rightarrow> uint32) \<Rightarrow> 'k \<Rightarrow> 'v \<Rightarrow> (nat \<Rightarrow> 64 word) \<Rightarrow> ('k, 'v) fcall list list \<Rightarrow> new_error + ('k, 'v) synced_lru" where
  "NewSyncedWithSize capacity size' hash k0 v0 clk ps =
     (case NewWithSize capacity size' hash k0 v0 clk of
        Inl err \<Rightarrow> Inl err
      | Inr l \<Rightarrow> Inr \<lparr>slru = l, threads = map (\<lambda>cs. \<lparr>todo = cs, results = [], pc = Idle\<rparr>) ps, slog = []\<rparr>)"

inductive sync_step :: "('k, 'v) synced_lru \<Rightarrow> ('k, 'v) synced_lru \<Rightarrow> bool" where
  lock: "t < length (threads s) \<Longrightarrow> threads s ! t = \<lparr>todo = c # cs, results = rs, pc = Idle\<rparr> \<Longrightarrow> lock_free c (threads s) \<Longrightarrow>
    sync_step s (s\<lparr>threads := (threads s)[t := \<lparr>todo = cs, results = rs, pc = Holding c\<rparr>]\<rparr>)"
| body: "t < length (threads s) \<Longrightarrow> threads s ! t = \<lparr>todo = cs, results = rs, pc = Holding c\<rparr> \<Longrightarrow> fcall_run c (slru s) = Some (r, l) \<Longrightarrow>
    sync_step s (s\<lparr>slru := l, threads := (threads s)[t := \<lparr>todo = cs, results = rs @ [r], pc = Leaving c\<rparr>], slog := slog s @ [(t, c, r)]\<rparr>)"
| unlock: "t < length (threads s) \<Longrightarrow> threads s ! t = \<lparr>todo = cs, results = rs, pc = Leaving c\<rparr> \<Longrightarrow>
    sync_step s (s\<lparr>threads := (threads s)[t := \<lparr>todo = cs, results = rs, pc = Idle\<rparr>]\<rparr>)"

definition finished :: "('k, 'v) synced_lru \<Rightarrow> bool" where
  "finished s \<longleftrightarrow> list_all (\<lambda>g. todo g = [] \<and> pc g = Idle) (threads s)"

section \<open>Invariants\<close>

fun pc_calls :: "('k, 'v) pc \<Rightarrow> ('k, 'v) fcall list" where
  "pc_calls (Holding c) = [c]"
| "pc_calls _ = []"

definition calls_of :: "nat \<Rightarrow> (nat \<times> 'c \<times> 'r) list \<Rightarrow> ('c \<times> 'r) list" where
  "calls_of t log = map snd (filter (\<lambda>e. fst e = t) log)"

text \<open>The cache is what the logged calls make of it one after the other, with the logged results.\<close>

definition linear :: "('k, 'v) free_lru \<Rightarrow> ('k, 'v) synced_lru \<Rightarrow> bool" where
  "linear l0 s \<longleftrightarrow> fcalls_run (map (fst \<circ> snd) (slog s)) l0 = Some (map (snd \<circ> snd) (slog s), slru s)"

text \<open>A goroutine has made its calls in their order and got the logged results.\<close>

definition in_order :: "('k, 'v) fcall list list \<Rightarrow> ('k, 'v) synced_lru \<Rightarrow> bool" where
  "in_order ps s \<longleftrightarrow> length (threads s) = length ps \<and>
     (\<forall>t. t < length ps \<longrightarrow> map fst (calls_of t (slog s)) @ pc_calls (pc (threads s ! t)) @ todo (threads s ! t) = ps ! t \<and>
        results (threads s ! t) = map snd (calls_of t (slog s)))"

definition exclusive :: "('k, 'v) synced_lru \<Rightarrow> bool" where
  "exclusive s \<longleftrightarrow> (\<forall>t u. t < length (threads s) \<longrightarrow> u < length (threads s) \<longrightarrow> t \<noteq> u \<longrightarrow> writing (pc (threads s ! t)) \<longrightarrow> pc (threads s ! u) = Idle)"

lemma fcalls_run_append:
  "fcalls_run (cs @ ds) s = do { (rs, s) \<leftarrow> fcalls_run cs s; (rs', s) \<leftarrow> fcalls_run ds s; Some (rs @ rs', s) }"
  by (induction cs arbitrary: s) (auto split: bind_splits)

lemma sync_step_threads: "sync_step s s' \<Longrightarrow> length (threads s') = length (threads s)"
  by (induction rule: sync_step.induct) simp_all

lemma linear_step: "sync_step s s' \<Longrightarrow> linear l0 s \<Longrightarrow> linear l0 s'"
  by (induction rule: sync_step.induct) (auto simp: linear_def fcalls_run_append)

lemma calls_of_append [simp]: "calls_of t (log @ [(u, c, r)]) = calls_of t log @ (if u = t then [(c, r)] else [])"
  by (simp add: calls_of_def)

lemma in_order_step: "sync_step s s' \<Longrightarrow> in_order ps s \<Longrightarrow> in_order ps s'"
proof (induction rule: sync_step.induct)
  case (lock t s c cs rs)
  then show ?case by (auto simp: in_order_def nth_list_update)
next
  case (body t s cs rs c r l)
  then show ?case by (auto simp: in_order_def nth_list_update)
next
  case (unlock t s cs rs c)
  then show ?case by (auto simp: in_order_def nth_list_update)
qed

lemma exclusive_inside:
  assumes "exclusive s" "t < length (threads s)" "pc (threads s ! t) \<noteq> Idle" "writing (pc g) \<Longrightarrow> writing (pc (threads s ! t))"
  shows "exclusive (s\<lparr>threads := (threads s)[t := g]\<rparr>)"
  unfolding exclusive_def
proof (intro allI impI)
  fix u v
  let ?s = "s\<lparr>threads := (threads s)[t := g]\<rparr>"
  assume l: "u < length (threads ?s)" "v < length (threads ?s)" "u \<noteq> v" and w: "writing (pc (threads ?s ! u))"
  have wu: "writing (pc (threads s ! u))" using w assms(2,4) by (cases "u = t") simp_all
  then have "pc (threads s ! v) = Idle" using assms(1) l by (simp add: exclusive_def)
  moreover from this have "v \<noteq> t" using assms(3) by blast
  ultimately show "pc (threads ?s ! v) = Idle" by simp
qed

lemma exclusive_step: "sync_step s s' \<Longrightarrow> exclusive s \<Longrightarrow> exclusive s'"
proof (induction rule: sync_step.induct)
  case (lock t s c cs rs)
  show ?case unfolding exclusive_def
  proof (intro allI impI)
    fix u v
    let ?s = "s\<lparr>threads := (threads s)[t := \<lparr>todo = cs, results = rs, pc = Holding c\<rparr>]\<rparr>"
    assume l: "u < length (threads ?s)" "v < length (threads ?s)" "u \<noteq> v" and w: "writing (pc (threads ?s ! u))"
    show "pc (threads ?s ! v) = Idle"
    proof (cases "u = t")
      case True
      then have "\<not> read_call c" using w lock(1) by simp
      then show ?thesis using lock(1,3) l True by (simp add: lock_free_def list_all_length)
    next
      case False
      then have wu: "writing (pc (threads s ! u))" using w by simp
      moreover have "v \<noteq> t"
      proof
        assume "v = t"
        have "lock_free c (threads s)" by (rule lock(3))
        then have "\<not> writing (pc (threads s ! u))" using l(1) by (auto simp: lock_free_def list_all_length split: if_splits)
        then show False using wu by simp
      qed
      ultimately show ?thesis using lock(4) l by (simp add: exclusive_def)
    qed
  qed
next
  case (body t s cs rs c r l)
  then show ?case using exclusive_inside [OF body(4,1), of "\<lparr>todo = cs, results = rs @ [r], pc = Leaving c\<rparr>"] by (simp add: exclusive_def)
next
  case (unlock t s cs rs c)
  then show ?case using exclusive_inside [OF unlock(3,1), of "\<lparr>todo = cs, results = rs, pc = Idle\<rparr>"] by simp
qed

definition sync_inv :: "('k, 'v) free_lru \<Rightarrow> ('k, 'v) fcall list list \<Rightarrow> ('k, 'v) synced_lru \<Rightarrow> bool" where
  "sync_inv l0 ps s \<longleftrightarrow> linear l0 s \<and> in_order ps s \<and> exclusive s"

lemma sync_inv_steps: "sync_step\<^sup>*\<^sup>* s s' \<Longrightarrow> sync_inv l0 ps s \<Longrightarrow> sync_inv l0 ps s'"
  by (induction rule: rtranclp_induct) (auto simp: sync_inv_def intro: linear_step in_order_step exclusive_step)

lemma sync_inv_new:
  "NewSyncedWithSize capacity size' hash k0 v0 clk ps = Inr s \<Longrightarrow>
   NewWithSize capacity size' hash k0 v0 clk = Inr (slru s) \<and> sync_inv (slru s) ps s"
  by (auto simp: NewSyncedWithSize_def sync_inv_def linear_def in_order_def exclusive_def calls_of_def split: sum.splits)

section \<open>Progress\<close>

lemma progress:
  assumes new: "NewWithSize capacity size' hash k0 v0 clk = Inr l0" and lin: "linear l0 s" and more: "\<not> finished s"
  shows "\<exists>s'. sync_step s s'"
proof -
  obtain g where g: "g \<in> set (threads s)" "todo g \<noteq> [] \<or> pc g \<noteq> Idle" using more by (auto simp: finished_def list_all_iff)
  show ?thesis
  proof (cases "list_all (\<lambda>g. pc g = Idle) (threads s)")
    case True
    obtain t where t: "t < length (threads s)" "threads s ! t = g" using g(1) by (auto simp: in_set_conv_nth)
    have "pc g = Idle" using True g(1) by (simp add: list_all_iff)
    then obtain c cs where "todo g = c # cs" using g(2) by (cases "todo g") auto
    then have "threads s ! t = \<lparr>todo = c # cs, results = results g, pc = Idle\<rparr>" using t(2) \<open>pc g = Idle\<close> by simp
    moreover have "lock_free c (threads s)" using True by (auto simp: lock_free_def list_all_iff)
    ultimately show ?thesis using sync_step.lock t(1) by blast
  next
    case False
    then obtain h where h: "h \<in> set (threads s)" "pc h \<noteq> Idle" by (auto simp: list_all_iff)
    obtain t where t: "t < length (threads s)" "threads s ! t = h" using h(1) by (auto simp: in_set_conv_nth)
    show ?thesis
    proof (cases "pc h")
      case (Holding c)
      have "\<exists>ps. models ps (slru s) (snd (fcalls_spec (map (fst \<circ> snd) (slog s)) \<lparr>sp_entries = [], sp_ticks = 0, sp_evicted = [],
          sp_cap = unat capacity, sp_clock = clk, sp_notify = False, sp_health = None, sp_lifetime = 0\<rparr>))"
        using fcalls_models [OF models_new [OF new], of "map (fst \<circ> snd) (slog s)"] lin by (auto simp: linear_def)
      then obtain r l where "fcall_run c (slru s) = Some (r, l)" using fcall_models by blast
      moreover have "threads s ! t = \<lparr>todo = todo h, results = results h, pc = Holding c\<rparr>" using t(2) Holding by simp
      ultimately show ?thesis using sync_step.body t(1) by blast
    next
      case (Leaving c)
      then have "threads s ! t = \<lparr>todo = todo h, results = results h, pc = Leaving c\<rparr>" using t(2) by simp
      then show ?thesis using sync_step.unlock t(1) by blast
    qed (use h(2) in simp)
  qed
qed

fun pc_left :: "('k, 'v) pc \<Rightarrow> nat" where
  "pc_left Idle = 0"
| "pc_left (Holding c) = 2"
| "pc_left (Leaving c) = 1"

definition steps_left :: "('k, 'v) synced_lru \<Rightarrow> nat" where
  "steps_left s = sum_list (map (\<lambda>g. 3 * length (todo g) + pc_left (pc g)) (threads s))"

lemma steps_left_update:
  "t < length ts \<Longrightarrow> sum_list (map f (ts[t := g])) + f (ts ! t) = sum_list (map f ts) + (f g :: nat)"
  by (induction ts arbitrary: t) (auto split: nat.split)

lemma sync_step_left: "sync_step s s' \<Longrightarrow> Suc (steps_left s') = steps_left s"
proof (induction rule: sync_step.induct)
  case (lock t s c cs rs)
  then show ?case using steps_left_update [OF lock(1), of "\<lambda>g. 3 * length (todo g) + pc_left (pc g)" "\<lparr>todo = cs, results = rs, pc = Holding c\<rparr>"]
    by (simp add: steps_left_def)
next
  case (body t s cs rs c r l)
  then show ?case using steps_left_update [OF body(1), of "\<lambda>g. 3 * length (todo g) + pc_left (pc g)" "\<lparr>todo = cs, results = rs @ [r], pc = Leaving c\<rparr>"]
    by (simp add: steps_left_def)
next
  case (unlock t s cs rs c)
  then show ?case using steps_left_update [OF unlock(1), of "\<lambda>g. 3 * length (todo g) + pc_left (pc g)" "\<lparr>todo = cs, results = rs, pc = Idle\<rparr>"]
    by (simp add: steps_left_def)
qed

section \<open>Properties\<close>



text \<open>
  C23. No call on a synced cache waits forever. Whatever the goroutines have done, one of them can go on
  until all calls are finished, and no schedule is longer than three steps per call: there is no
  deadlock, no panic and no endless run.
\<close>

theorem synced_live:
  assumes new: "NewSyncedWithSize capacity size' hash k0 v0 clk ps = Inr s0" and run: "sync_step\<^sup>*\<^sup>* s0 s"
  shows "(finished s \<or> (\<exists>s'. sync_step s s')) \<and> (\<exists>s'. sync_step\<^sup>*\<^sup>* s s' \<and> finished s') \<and>
    (\<nexists>f. f 0 = s \<and> (\<forall>i. sync_step (f i) (f (Suc i)))) \<and> steps_left s0 = 3 * sum_list (map length ps)"
proof -
  note N = sync_inv_new [OF new]
  have go: "finished s \<or> (\<exists>s'. sync_step s s')" if "sync_step\<^sup>*\<^sup>* s0 s" for s
    using progress [OF conjunct1 [OF N]] sync_inv_steps [OF that] N by (auto simp: sync_inv_def)
  have reach: "\<exists>s'. sync_step\<^sup>*\<^sup>* s s' \<and> finished s'" if "sync_step\<^sup>*\<^sup>* s0 s" for s
    using that
  proof (induction "steps_left s" arbitrary: s rule: less_induct)
    case less
    show ?case
    proof (cases "finished s")
      case False
      then obtain s1 where s1: "sync_step s s1" using go [OF less.prems] by blast
      have "sync_step\<^sup>*\<^sup>* s0 s1" using less.prems s1 by simp
      then obtain s' where "sync_step\<^sup>*\<^sup>* s1 s'" "finished s'" using less.hyps sync_step_left [OF s1] by (metis lessI)
      then show ?thesis using s1 by (meson converse_rtranclp_into_rtranclp)
    qed blast
  qed
  have "\<nexists>f. f 0 = s \<and> (\<forall>i. sync_step (f i) (f (Suc i)))"
  proof
    assume "\<exists>f. f 0 = s \<and> (\<forall>i. sync_step (f i) (f (Suc i)))"
    then obtain f where f: "f 0 = s" "\<forall>i. sync_step (f i) (f (Suc i))" by blast
    have "steps_left (f i) + i = steps_left (f 0)" for i
    proof (induction i)
      case (Suc i)
      then show ?case using sync_step_left [of "f i" "f (Suc i)"] f(2) by simp
    qed simp
    from this [of "Suc (steps_left (f 0))"] show False by simp
  qed
  moreover have "steps_left s0 = 3 * sum_list (map length ps)"
    using new by (auto simp: NewSyncedWithSize_def steps_left_def sum_list_const_mult [symmetric] o_def split: sum.splits)
  ultimately show ?thesis using go [OF run] reach [OF run] by blast
qed

theorem synced_live_witness:
  "\<exists>s0 s. NewSyncedWithSize 2 2 (of_nat :: nat \<Rightarrow> uint32) 0 False (\<lambda>_. 0) [[FAdd 1 True, FGet 1], [FLen]] = Inr s0 \<and>
    sync_step\<^sup>*\<^sup>* s0 s \<and> finished s"
proof -
  let ?ps = "[[FAdd 1 True, FGet 1], [FLen]] :: (nat, bool) fcall list list"
  obtain s0 where "NewSyncedWithSize 2 2 (of_nat :: nat \<Rightarrow> uint32) 0 False (\<lambda>_. 0) ?ps = Inr s0"
    by (simp add: NewSyncedWithSize_def NewWithSize_def emptyBucket_def)
  with synced_live [OF this rtranclp.rtrancl_refl] show ?thesis by blast
qed

end
