(* ===== verification/ShardedLru.thy ===== *)
theory ShardedLru
  imports FreeLruLaws
begin

text \<open>
  \<open>ShardedLRU\<close> of \<open>contrab/freelru/shardedlru.go\<close>: a power of two of caches with a lock each, where bits of
  the hash choose the cache.

  Every method holds the lock of a cache while it works on it, so a call on one cache is one step of the
  model; the calls on several caches in turn (\<open>Len\<close>, \<open>Keys\<close>, \<open>Purge\<close> and the like) are the sequence of
  their steps without calls of other goroutines in between. \<open>initLRU\<close> gives every shard the hash
  function of the sharded cache, so the methods that take a hash (\<open>add\<close>, \<open>get\<close>, \<open>remove\<close>, ...) are the
  methods of the shard that compute it. The clock of a shard is the sequence of the times it reads.
\<close>

section \<open>State and construction\<close>

record ('k, 'v) sharded_lru =
  lrus :: "('k, 'v) free_lru list"
  shash :: "'k \<Rightarrow> uint32"
  shards :: uint32
  shard_mask :: uint32

definition Len32 :: "uint32 \<Rightarrow> nat" where
  "Len32 v = 32 - length (takeWhile (\<lambda>i. \<not> bit v i) (rev [0..<32]))"

definition OnesCount32 :: "uint32 \<Rightarrow> nat" where
  "OnesCount32 v = length (filter (bit v) [0..<32])"

definition nextPowerOfTwo :: "uint32 \<Rightarrow> uint32" where
  "nextPowerOfTwo val = (if OnesCount32 val \<noteq> 1 then push_bit (Len32 val) 1 else val)"

function shrink_shards :: "uint32 \<Rightarrow> uint32 \<Rightarrow> uint32" where
  "shrink_shards n size' = (if n > size' div 16 then shrink_shards (n div 16) size' else n)"
  by pat_completeness auto
termination
proof (relation "measure (\<lambda>(n, size'). unat n)")
  fix n size' :: uint32
  assume "n > size' div 16"
  then have "0 < unat n" by (metis word_gt_0 unat_gt_0 word_not_simps(1) gr0I unat_0_iff)
  then show "((n div 16, size'), n, size') \<in> measure (\<lambda>(n, size'). unat n)" by (simp add: unat_div)
qed simp

declare shrink_shards.simps [simp del]

definition NewShardedWithSize ::
  "uint32 \<Rightarrow> uint32 \<Rightarrow> uint32 \<Rightarrow> ('k \<Rightarrow> uint32) \<Rightarrow> 'k \<Rightarrow> 'v \<Rightarrow> (nat \<Rightarrow> nat \<Rightarrow> 64 word) \<Rightarrow> new_error + ('k, 'v) sharded_lru" where
  "NewShardedWithSize n capacity size' hash k0 v0 clk =
     (if capacity = 0 then Inl CapacityZero
      else if size' < capacity then Inl (SizeSmaller size' capacity)
      else
        let size' = (if size' < 2 ^ 31 then nextPowerOfTwo size' else 2 ^ 31);
            n = shrink_shards (nextPowerOfTwo n) size';
            n = (if n = 0 then 1 else n);
            size' = size' div n;
            size' = (if size' = 0 then 1 else size');
            capacity = (capacity + n - 1) div n;
            capacity = (if capacity = 0 then 1 else capacity)
        in Inr \<lparr>lrus = map (\<lambda>i. initLRU capacity size' hash k0 v0 (clk i)) [0..<unat n],
                shash = hash, shards = n, shard_mask = n - 1\<rparr>)"

section \<open>Calls on one shard and on every shard\<close>

definition shard_of :: "'k \<Rightarrow> ('k, 'v) sharded_lru \<Rightarrow> uint32" where
  "shard_of key s = drop_bit 16 (shash s key) AND shard_mask s"

definition on_shard :: "uint32 \<Rightarrow> (('k, 'v) free_lru \<Rightarrow> ('r \<times> ('k, 'v) free_lru) option) \<Rightarrow> ('k, 'v) sharded_lru \<Rightarrow>
    ('r \<times> ('k, 'v) sharded_lru) option" where
  "on_shard i f s = do {
     l \<leftarrow> go_index (lrus s) (uint i);
     (r, l) \<leftarrow> f l;
     Some (r, s\<lparr>lrus := (lrus s)[unat i := l]\<rparr>)
   }"

fun each :: "('s \<Rightarrow> ('r \<times> 's) option) \<Rightarrow> 's list \<Rightarrow> ('r list \<times> 's list) option" where
  "each f [] = Some ([], [])"
| "each f (l # ls) = do { (r, l) \<leftarrow> f l; (rs, ls) \<leftarrow> each f ls; Some (r # rs, l # ls) }"

definition on_every :: "(('k, 'v) free_lru \<Rightarrow> ('r \<times> ('k, 'v) free_lru) option) \<Rightarrow> ('k, 'v) sharded_lru \<Rightarrow>
    ('r list \<times> ('k, 'v) sharded_lru) option" where
  "on_every f s = do { (rs, ls) \<leftarrow> each f (lrus s); Some (rs, s\<lparr>lrus := ls\<rparr>) }"

section \<open>Methods\<close>

definition sharded_SetLifetime :: "duration \<Rightarrow> ('k, 'v) sharded_lru \<Rightarrow> ('k, 'v) sharded_lru option" where
  "sharded_SetLifetime d s = map_option snd (on_every (\<lambda>l. Some ((), SetLifetime d l)) s)"

definition sharded_SetOnEvict :: "('k, 'v) sharded_lru \<Rightarrow> ('k, 'v) sharded_lru option" where
  "sharded_SetOnEvict s = map_option snd (on_every (\<lambda>l. Some ((), SetOnEvict l)) s)"

definition sharded_SetHealthCheck :: "('k \<Rightarrow> 'v \<Rightarrow> bool) \<Rightarrow> ('k, 'v) sharded_lru \<Rightarrow> ('k, 'v) sharded_lru option" where
  "sharded_SetHealthCheck f s = map_option snd (on_every (\<lambda>l. Some ((), SetHealthCheck f l)) s)"

definition sharded_Len :: "('k, 'v) sharded_lru \<Rightarrow> int" where
  "sharded_Len s = foldl (\<lambda>n l. n + free_Len l) 0 (lrus s)"

definition sharded_AddWithLifetime :: "'k \<Rightarrow> 'v \<Rightarrow> duration \<Rightarrow> ('k, 'v) sharded_lru \<Rightarrow> (bool \<times> ('k, 'v) sharded_lru) option" where
  "sharded_AddWithLifetime key v d s = on_shard (shard_of key s) (AddWithLifetime key v d) s"

definition sharded_Add :: "'k \<Rightarrow> 'v \<Rightarrow> ('k, 'v) sharded_lru \<Rightarrow> (bool \<times> ('k, 'v) sharded_lru) option" where
  "sharded_Add key v s = on_shard (shard_of key s) (free_Add key v) s"

text \<open>\<open>Get\<close> and \<open>GetWithLifetime\<close>, below \<open>Peek\<close> and \<open>PeekWithLifetime\<close>: the value and the time of expiry.\<close>

definition sharded_Get :: "'k \<Rightarrow> ('k, 'v) sharded_lru \<Rightarrow> (('v \<times> 64 word) option \<times> ('k, 'v) sharded_lru) option" where
  "sharded_Get key s = on_shard (shard_of key s) (free_Get key) s"

definition sharded_GetWithLifetimeNoExpire :: "'k \<Rightarrow> ('k, 'v) sharded_lru \<Rightarrow> (('v \<times> 64 word) option \<times> ('k, 'v) sharded_lru) option" where
  "sharded_GetWithLifetimeNoExpire key s = on_shard (shard_of key s) (GetWithLifetimeNoExpire key) s"

definition sharded_GetAndRefresh :: "'k \<Rightarrow> ('k, 'v) sharded_lru \<Rightarrow> ('v option \<times> ('k, 'v) sharded_lru) option" where
  "sharded_GetAndRefresh key s = on_shard (shard_of key s) (GetAndRefresh key) s"

definition sharded_PurgeExpired :: "('k, 'v) sharded_lru \<Rightarrow> ('k, 'v) sharded_lru option" where
  "sharded_PurgeExpired s = map_option snd (on_every (\<lambda>l. map_option (Pair ()) (PurgeExpired l)) s)"

text \<open>\<open>getAndRefreshOrAdd\<close> of the shard does not purge; the sharded method purges every shard.\<close>

definition getAndRefreshOrAdd :: "'k \<Rightarrow> 'v option \<Rightarrow> ('k, 'v) free_lru \<Rightarrow> (('v \<times> bool) option \<times> ('k, 'v) free_lru) option" where
  "getAndRefreshOrAdd key made l = do {
     (r, l) \<leftarrow> GetAndRefresh key l;
     case r of
       Some v \<Rightarrow> Some (Some (v, True), l)
     | None \<Rightarrow>
         (case made of
            None \<Rightarrow> Some (None, l)
          | Some v \<Rightarrow> do { (_, l) \<leftarrow> addWithLifetime (fhash l key) key v (default_lifetime l) l; Some (Some (v, False), l) })
   }"

definition sharded_GetAndRefreshOrAdd :: "'k \<Rightarrow> 'v option \<Rightarrow> ('k, 'v) sharded_lru \<Rightarrow> (('v \<times> bool) option \<times> ('k, 'v) sharded_lru) option" where
  "sharded_GetAndRefreshOrAdd key made s = do {
     (r, s) \<leftarrow> on_shard (shard_of key s) (getAndRefreshOrAdd key made) s;
     case r of
       Some (v, False) \<Rightarrow> do { s \<leftarrow> sharded_PurgeExpired s; Some (r, s) }
     | _ \<Rightarrow> Some (r, s)
   }"

definition sharded_Peek :: "'k \<Rightarrow> ('k, 'v) sharded_lru \<Rightarrow> (('v \<times> 64 word) option \<times> ('k, 'v) sharded_lru) option" where
  "sharded_Peek key s = on_shard (shard_of key s) (free_Peek key) s"

definition sharded_UpdateLifetime :: "'k \<Rightarrow> 'v \<Rightarrow> duration \<Rightarrow> ('k, 'v) sharded_lru \<Rightarrow> (bool \<times> ('k, 'v) sharded_lru) option" where
  "sharded_UpdateLifetime key v d s = on_shard (shard_of key s) (UpdateLifetime key v d) s"

definition sharded_Contains :: "'k \<Rightarrow> ('k, 'v) sharded_lru \<Rightarrow> (bool \<times> ('k, 'v) sharded_lru) option" where
  "sharded_Contains key s = on_shard (shard_of key s) (free_Contains key) s"

definition sharded_Remove :: "'k \<Rightarrow> ('k, 'v) sharded_lru \<Rightarrow> (bool \<times> ('k, 'v) sharded_lru) option" where
  "sharded_Remove key s = on_shard (shard_of key s) (free_Remove key) s"

text \<open>\<open>key\<close> is the zero value of its type when \<open>RemoveOldest\<close> hashes it.\<close>

definition sharded_RemoveOldest :: "'k \<Rightarrow> ('k, 'v) sharded_lru \<Rightarrow> (('k \<times> 'v) option \<times> ('k, 'v) sharded_lru) option" where
  "sharded_RemoveOldest k0 s = on_shard (shard_of k0 s) RemoveOldest s"

definition sharded_Keys :: "('k, 'v) sharded_lru \<Rightarrow> ('k list \<times> ('k, 'v) sharded_lru) option" where
  "sharded_Keys s = do { _ \<leftarrow> go_index (lrus s) 0; (ks, s) \<leftarrow> on_every free_Keys s; Some (concat ks, s) }"

definition sharded_Purge :: "('k, 'v) sharded_lru \<Rightarrow> ('k, 'v) sharded_lru option" where
  "sharded_Purge s = map_option snd (on_every (\<lambda>l. map_option (Pair ()) (free_Purge l)) s)"

definition addMetrics :: "fmetrics \<Rightarrow> fmetrics \<Rightarrow> fmetrics" where
  "addMetrics dst src = \<lparr>Inserts = Inserts dst + Inserts src, Collisions = Collisions dst + Collisions src,
     Evictions = Evictions dst + Evictions src, Removals = Removals dst + Removals src,
     Hits = Hits dst + Hits src, Misses = Misses dst + Misses src\<rparr>"

definition sharded_Metrics :: "('k, 'v) sharded_lru \<Rightarrow> fmetrics" where
  "sharded_Metrics s = foldl addMetrics zero_metrics (map fmetric (lrus s))"

definition sharded_ResetMetrics :: "('k, 'v) sharded_lru \<Rightarrow> (fmetrics \<times> ('k, 'v) sharded_lru) option" where
  "sharded_ResetMetrics s = do { (ms, s) \<leftarrow> on_every (\<lambda>l. Some (ResetMetrics l)) s; Some (foldl addMetrics zero_metrics ms, s) }"

end
