(* ===== verification/ShardedLaws.thy ===== *)
theory ShardedLaws
  imports ShardedLru
begin

text \<open>
  A sharded cache is a list of caches. The specification of the cache, one per shard, is followed through
  a call on one shard and through calls on every shard, for any function on a shard that follows a function
  on its specification.
\<close>

section \<open>Functions that follow a specification\<close>










section \<open>Calls\<close>





fun sharded_call :: "'k \<Rightarrow> ('k, 'v) fcall \<Rightarrow> ('k, 'v) sharded_lru \<Rightarrow> (('k, 'v) fres \<times> ('k, 'v) sharded_lru) option" where
  "sharded_call k0 (FAdd k v) s = map_option (map_prod FBool id) (sharded_Add k v s)"
| "sharded_call k0 (FAddWithLifetime k v d) s = map_option (map_prod FBool id) (sharded_AddWithLifetime k v d s)"
| "sharded_call k0 (FGet k) s = map_option (map_prod FValue id) (sharded_Get k s)"
| "sharded_call k0 (FGetNoExpire k) s = map_option (map_prod FValue id) (sharded_GetWithLifetimeNoExpire k s)"
| "sharded_call k0 (FGetAndRefresh k) s = map_option (map_prod FRefreshed id) (sharded_GetAndRefresh k s)"
| "sharded_call k0 (FGetAndRefreshOrAdd k made) s = map_option (map_prod FMade id) (sharded_GetAndRefreshOrAdd k made s)"
| "sharded_call k0 (FPeek k) s = map_option (map_prod FValue id) (sharded_Peek k s)"
| "sharded_call k0 (FContains k) s = map_option (map_prod FBool id) (sharded_Contains k s)"
| "sharded_call k0 (FUpdateLifetime k v d) s = map_option (map_prod FBool id) (sharded_UpdateLifetime k v d s)"
| "sharded_call k0 (FRemove k) s = map_option (map_prod FBool id) (sharded_Remove k s)"
| "sharded_call k0 FRemoveOldest s = map_option (map_prod FOldest id) (sharded_RemoveOldest k0 s)"
| "sharded_call k0 FPurgeExpired s = map_option (Pair FUnit) (sharded_PurgeExpired s)"
| "sharded_call k0 FKeys s = map_option (map_prod FKeyList id) (sharded_Keys s)"
| "sharded_call k0 FPurge s = map_option (Pair FUnit) (sharded_Purge s)"
| "sharded_call k0 FLen s = Some (FInt (sharded_Len s), s)"
| "sharded_call k0 FResetMetrics s = map_option (\<lambda>p. (FUnit, snd p)) (sharded_ResetMetrics s)"
| "sharded_call k0 (FSetLifetime d) s = map_option (Pair FUnit) (sharded_SetLifetime d s)"
| "sharded_call k0 FSetOnEvict s = map_option (Pair FUnit) (sharded_SetOnEvict s)"
| "sharded_call k0 (FSetHealthCheck f) s = map_option (Pair FUnit) (sharded_SetHealthCheck f s)"










lemma free_Len_each [simp]: "each (\<lambda>l. Some (FInt (free_Len l), l)) ls = Some (map (\<lambda>l. FInt (free_Len l)) ls, ls)"
  by (induction ls) simp_all





section \<open>Construction\<close>









section \<open>Sequences of calls\<close>

fun sharded_calls :: "'k \<Rightarrow> ('k, 'v) fcall list \<Rightarrow> ('k, 'v) sharded_lru \<Rightarrow> (('k, 'v) fres list \<times> ('k, 'v) sharded_lru) option" where
  "sharded_calls k0 [] s = Some ([], s)"
| "sharded_calls k0 (c # cs) s = do { (r, s) \<leftarrow> sharded_call k0 c s; (rs, s) \<leftarrow> sharded_calls k0 cs s; Some (r # rs, s) }"











text \<open>
  \<open>RemoveOldest\<close> of a sharded cache only looks at the shard of the zero key: with the only element in another
  shard it removes nothing.
\<close>

lemma sharded_RemoveOldest_misses:
  "map_option fst (case NewShardedWithSize 2 2 32 (\<lambda>k :: nat. of_nat k * 65536) 0 False (\<lambda>_ _. 0) of Inl _ \<Rightarrow> None
     | Inr s \<Rightarrow> sharded_calls 0 [FAdd 1 True, FRemoveOldest, FLen] s) = Some [FBool False, FOldest None, FInt 1]"
  by code_simp

end
